(* ===== verification/Prelude.thy ===== *)
theory Prelude
  imports Main "HOL-Library.Word" "HOL-Library.Sublist" "HOL-Library.Code_Target_Numeral"
begin

text \<open>
  Shared vocabulary of the development: the machine integers and byte strings of the
  Rust sources, the outcome of a Rust computation (a value, an error value, or a panic,
  which the release profile turns into an abort of the process), the standard library
  arithmetic the sources call, and the interface of a self-delimiting codec that several
  components implement.
\<close>

unbundle bit_operations_syntax

section \<open>Machine integers and byte strings\<close>

type_synonym u8 = "8 word"
type_synonym u16 = "16 word"
type_synonym u32 = "32 word"
type_synonym u64 = "64 word"
type_synonym bytes = "8 word list"

named_theorems outcome_simps \<open>evaluation of outcomes and their sequencing\<close>
named_theorems no_panic \<open>operations that cannot panic\<close>

section \<open>Outcomes\<close>

text \<open>
  A Rust function returning \<open>Result<T, E>\<close> either returns \<open>Ok\<close>, returns \<open>Err\<close>, or
  panics (index out of bounds, a slice range out of bounds, an \<open>expect\<close> on \<open>None\<close>).  The
  operator \<open>?\<close> of the sources is \<open>and_then\<close>.
\<close>

datatype ('a, 'e) outcome = Ok 'a | Err 'e | Panic

primrec and_then :: "('a, 'e) outcome \<Rightarrow> ('a \<Rightarrow> ('b, 'e) outcome) \<Rightarrow> ('b, 'e) outcome" where
  "and_then (Ok x) f = f x"
| "and_then (Err e) f = Err e"
| "and_then Panic f = Panic"

definition ok_or :: "'e \<Rightarrow> 'a option \<Rightarrow> ('a, 'e) outcome" where
  "ok_or e opt = (case opt of None \<Rightarrow> Err e | Some x \<Rightarrow> Ok x)"

definition index_or_panic :: "'a list \<Rightarrow> nat \<Rightarrow> ('a, 'e) outcome" where
  "index_or_panic xs i = (if i < length xs then Ok (xs ! i) else Panic)"

definition set_or_panic :: "'a list \<Rightarrow> nat \<Rightarrow> 'a \<Rightarrow> ('a list, 'e) outcome" where
  "set_or_panic xs i v = (if i < length xs then Ok (xs[i := v]) else Panic)"

definition ok_option :: "('a, 'e) outcome \<Rightarrow> 'a option" where
  "ok_option m = (case m of Ok x \<Rightarrow> Some x | _ \<Rightarrow> None)"

lemma and_then_cong [fundef_cong]:
  assumes "m = m'" and "\<And>x. m' = Ok x \<Longrightarrow> f x = g x"
  shows "and_then m f = and_then m' g"
  using assms by (cases m') auto

lemma and_then_eq_Ok [outcome_simps]:
  "and_then m f = Ok y \<longleftrightarrow> (\<exists>x. m = Ok x \<and> f x = Ok y)"
  by (cases m) auto

lemma and_then_eq_Err [outcome_simps]:
  "and_then m f = Err e \<longleftrightarrow> m = Err e \<or> (\<exists>x. m = Ok x \<and> f x = Err e)"
  by (cases m) auto

lemma and_then_eq_Panic [outcome_simps]:
  "and_then m f = Panic \<longleftrightarrow> m = Panic \<or> (\<exists>x. m = Ok x \<and> f x = Panic)"
  by (cases m) auto

lemma and_then_Ok_right [simp]: "and_then m Ok = m"
  by (cases m) auto

lemma and_then_assoc: "and_then (and_then m f) g = and_then m (\<lambda>x. and_then (f x) g)"
  by (cases m) auto

lemma and_then_no_panic [no_panic]:
  "\<lbrakk>m \<noteq> Panic; \<And>x. m = Ok x \<Longrightarrow> f x \<noteq> Panic\<rbrakk> \<Longrightarrow> and_then m f \<noteq> Panic"
  by (cases m) auto

lemma index_or_panic_Ok [simp]: "i < length xs \<Longrightarrow> index_or_panic xs i = Ok (xs ! i)"
  by (simp add: index_or_panic_def)

lemma index_or_panic_eq_Ok [outcome_simps]:
  "index_or_panic xs i = Ok y \<longleftrightarrow> i < length xs \<and> y = xs ! i"
  by (auto simp: index_or_panic_def)

lemma set_or_panic_Ok [simp]: "i < length xs \<Longrightarrow> set_or_panic xs i v = Ok (xs[i := v])"
  by (simp add: set_or_panic_def)

lemma index_or_panic_Panic [outcome_simps]:
  "index_or_panic xs i = Panic \<longleftrightarrow> length xs \<le> i"
  by (simp add: index_or_panic_def)

lemma index_or_panic_not_Err [simp]: "index_or_panic xs i \<noteq> Err e"
  by (simp add: index_or_panic_def)

lemma ok_or_simps [simp]: "ok_or e None = Err e" "ok_or e (Some x) = Ok x"
  by (simp_all add: ok_or_def)

lemma ok_or_not_Panic [simp, no_panic]: "ok_or e opt \<noteq> Panic"
  by (cases opt) auto

lemma ok_or_eq_Ok [outcome_simps]: "ok_or e opt = Ok x \<longleftrightarrow> opt = Some x"
  by (cases opt) auto

text \<open>
  \<open>ensures m P\<close>: \<open>m\<close> does not panic, and a value it returns satisfies \<open>P\<close>.  The rules follow the
  structure of a function body.
\<close>

definition ensures :: "('a, 'e) outcome \<Rightarrow> ('a \<Rightarrow> bool) \<Rightarrow> bool" where
  "ensures m P \<longleftrightarrow> (case m of Ok x \<Rightarrow> P x | Err e \<Rightarrow> True | Panic \<Rightarrow> False)"

lemma ensures_simps [simp]:
  "ensures (Ok x) P \<longleftrightarrow> P x" "ensures (Err e) P" "\<not> ensures Panic P"
  by (simp_all add: ensures_def)

lemma ensures_iff: "ensures m P \<longleftrightarrow> m \<noteq> Panic \<and> (\<forall>x. m = Ok x \<longrightarrow> P x)"
  by (cases m) auto

lemma ensures_and_then:
  "\<lbrakk>ensures m Q; \<And>x. \<lbrakk>m = Ok x; Q x\<rbrakk> \<Longrightarrow> ensures (f x) P\<rbrakk> \<Longrightarrow> ensures (and_then m f) P"
  by (cases m) auto

lemma ensures_weaken: "\<lbrakk>ensures m Q; \<And>x. Q x \<Longrightarrow> P x\<rbrakk> \<Longrightarrow> ensures m P"
  by (cases m) auto

lemma ensures_if: "\<lbrakk>c \<Longrightarrow> ensures a P; \<not> c \<Longrightarrow> ensures b P\<rbrakk> \<Longrightarrow> ensures (if c then a else b) P"
  by simp

lemma ensures_index: "\<lbrakk>i < length xs; P (xs ! i)\<rbrakk> \<Longrightarrow> ensures (index_or_panic xs i) P"
  by simp

section \<open>Standard library arithmetic\<close>

text \<open>\<open>saturating_add\<close> and \<open>checked_add\<close> of the unsigned machine integers.\<close>

definition saturating_add :: "'w::len word \<Rightarrow> 'w word \<Rightarrow> 'w word" where
  "saturating_add a b = (if unat a + unat b < 2 ^ LENGTH('w) then a + b else -1)"

text \<open>Casts and subtraction on \<open>usize\<close> (64 bits) and \<open>i32\<close>, for values held as naturals and integers.\<close>

definition usize_sub :: "nat \<Rightarrow> nat \<Rightarrow> nat" where
  "usize_sub a b = nat ((int a - int b) mod 2 ^ 64)"

definition usize_as_i32 :: "nat \<Rightarrow> int" where
  "usize_as_i32 n = signed_take_bit 31 (int n)"

definition i32_as_usize :: "int \<Rightarrow> nat" where
  "i32_as_usize i = nat (i mod 2 ^ 64)"

definition checked_add :: "'w::len word \<Rightarrow> 'w word \<Rightarrow> 'w word option" where
  "checked_add a b = (if unat a + unat b < 2 ^ LENGTH('w) then Some (a + b) else None)"

lemma unat_saturating_add:
  "unat (saturating_add a (b :: 'w::len word)) = min (unat a + unat b) (2 ^ LENGTH('w) - 1)"
  by (auto simp: saturating_add_def unat_add_lem [THEN iffD1] unsigned_minus_1_eq_mask mask_eq_exp_minus_1 min_def)

lemma usize_sub_eq: "\<lbrakk>b \<le> a; a < 2 ^ 64\<rbrakk> \<Longrightarrow> usize_sub a b = a - b"
  by (simp add: usize_sub_def nat_diff_distrib flip: of_nat_diff)

lemma usize_as_i32_eq: "n < 2 ^ 31 \<Longrightarrow> usize_as_i32 n = int n"
  by (simp add: usize_as_i32_def signed_take_bit_int_eq_self)

lemma i32_as_usize_eq: "\<lbrakk>0 \<le> i; i < 2 ^ 31\<rbrakk> \<Longrightarrow> i32_as_usize i = nat i"
  by (simp add: i32_as_usize_def)

lemma checked_add_Some:
  "checked_add a b = Some c \<Longrightarrow> unat c = unat a + unat b"
  by (auto simp: checked_add_def unat_add_lem [THEN iffD1] split: if_splits)

lemma unat_two_power:
  assumes "n < LENGTH('w::len)"
  shows "unat (2 ^ n :: 'w word) = 2 ^ n"
proof -
  have "(2::nat) ^ n < 2 ^ LENGTH('w)" using assms by (rule power_strict_increasing) simp
  moreover have "(2 ^ n :: 'w word) = of_nat (2 ^ n)" by simp
  ultimately show ?thesis by (simp only: unat_of_nat) simp
qed

lemma and_0xFF: "w AND 0xFF = take_bit 8 (w :: 'w::len word)"
  by (simp add: take_bit_eq_mask mask_eq_exp_minus_1)

section \<open>Lists\<close>

lemma drop_eq_Cons:
  assumes "x # xs = drop n ds"
  shows "n < length ds" "x = ds ! n" "xs = drop (Suc n) ds"
proof -
  show n: "n < length ds" using assms by (metis drop_all list.distinct(1) not_le)
  show "x = ds ! n" "xs = drop (Suc n) ds"
    using assms n by (simp_all add: Cons_nth_drop_Suc [symmetric])
qed

end
