(* ===== verification/Fsm.thy ===== *)
theory Fsm
  imports Prelude
begin

text \<open>
  The two state machines of \<open>protocol/fsm.rs\<close>: \<open>ProtocolFsm\<close>, which selects the WebSocket
  or the HTTP transport of protocol v2 with a three-strike fallback, and \<open>ConnectionFsm\<close>,
  the TCP, TLS and WebSocket handshake life cycle.
\<close>

section \<open>Transport selection\<close>

datatype protocol_mode = WsV2 | HttpV2

datatype failure_kind = WsConnect | WsWrite | HttpPost | HttpStatus u16

record protocol_fsm =
  fsm_mode :: protocol_mode
  fsm_initial_mode :: protocol_mode
  consecutive_failures :: u8

definition fallback_threshold :: u8 where
  "fallback_threshold = 3"

definition fsm_new :: "bool \<Rightarrow> protocol_fsm" where
  "fsm_new http_only =
    (let initial = (if http_only then HttpV2 else WsV2)
     in \<lparr>fsm_mode = initial, fsm_initial_mode = initial, consecutive_failures = 0\<rparr>)"

definition on_success :: "protocol_fsm \<Rightarrow> protocol_fsm" where
  "on_success f = f\<lparr>consecutive_failures := 0\<rparr>"

definition on_failure :: "failure_kind \<Rightarrow> protocol_fsm \<Rightarrow> bool \<times> protocol_fsm" where
  "on_failure kind f =
    (let f1 = f\<lparr>consecutive_failures := saturating_add (consecutive_failures f) 1\<rparr>
     in if fsm_mode f1 = WsV2 \<and> consecutive_failures f1 \<ge> fallback_threshold
        then (True, f1\<lparr>fsm_mode := HttpV2, consecutive_failures := 0\<rparr>)
        else (False, f1))"

definition on_reconnect :: "protocol_fsm \<Rightarrow> protocol_fsm" where
  "on_reconnect f = f\<lparr>fsm_mode := fsm_initial_mode f, consecutive_failures := 0\<rparr>"


lemmas fsm_defs = fsm_new_def on_success_def on_failure_def on_reconnect_def
  fallback_threshold_def Let_def

text \<open>
  The calls the reconnection loop makes on the machine, as a step relation.
\<close>

inductive fsm_step :: "protocol_fsm \<Rightarrow> protocol_fsm \<Rightarrow> bool" where
  success: "fsm_step f (on_success f)"
| failure: "fsm_step f (snd (on_failure kind f))"
| reconnect: "fsm_step f (on_reconnect f)"

inductive_cases fsm_stepE: "fsm_step f g"

definition fsm_inv :: "protocol_fsm \<Rightarrow> bool" where
  "fsm_inv f \<longleftrightarrow>
    (fsm_initial_mode f = HttpV2 \<longrightarrow> fsm_mode f = HttpV2) \<and>
    (fsm_mode f = WsV2 \<longrightarrow> consecutive_failures f < fallback_threshold)"

lemma unat_succ_saturating:
  "unat (saturating_add c (1 :: u8)) = min (unat c + 1) 255"
  by (simp add: unat_saturating_add)

lemma unat_threshold [simp]: "unat fallback_threshold = 3"
  by (simp add: fallback_threshold_def)

lemma fsm_inv_new: "fsm_inv (fsm_new h)"
  by (simp add: fsm_inv_def fsm_defs)

lemma fsm_inv_step: "\<lbrakk>fsm_step f g; fsm_inv f\<rbrakk> \<Longrightarrow> fsm_inv g"
  by (erule fsm_stepE) (auto simp: fsm_inv_def fsm_defs not_le split: if_splits)

lemma fsm_step_initial_mode: "fsm_step f g \<Longrightarrow> fsm_initial_mode g = fsm_initial_mode f"
  by (erule fsm_stepE) (auto simp: fsm_defs)

lemma fsm_reachable_inv:
  "fsm_step\<^sup>*\<^sup>* (fsm_new h) f \<Longrightarrow>
    fsm_inv f \<and> fsm_initial_mode f = (if h then HttpV2 else WsV2)"
  by (induction rule: rtranclp_induct)
    (auto simp: fsm_inv_new fsm_inv_step fsm_step_initial_mode, simp_all add: fsm_defs)

text \<open>A run of consecutive failures, of whatever kinds.\<close>

definition fail_all :: "failure_kind list \<Rightarrow> protocol_fsm \<Rightarrow> protocol_fsm" where
  "fail_all ks f = foldl (\<lambda>g k. snd (on_failure k g)) f ks"

lemma fail_all_append: "fail_all (ks @ js) f = fail_all js (fail_all ks f)"
  by (simp add: fail_all_def)

lemma fail_all_snoc: "fail_all (ks @ [k]) f = snd (on_failure k (fail_all ks f))"
  by (simp add: fail_all_def)

lemma on_failure_ws:
  assumes "fsm_mode f = WsV2" and "unat (consecutive_failures f) = n" and "n < 3"
  shows "fst (on_failure k f) = (n = 2)"
    and "fsm_mode (snd (on_failure k f)) = (if n = 2 then HttpV2 else WsV2)"
    and "unat (consecutive_failures (snd (on_failure k f))) = (if n = 2 then 0 else n + 1)"
  using assms unat_succ_saturating [of "consecutive_failures f"]
  by (auto simp: on_failure_def Let_def word_le_nat_alt)

lemma on_failure_http:
  assumes "fsm_mode f = HttpV2"
  shows "on_failure k f = (False, f\<lparr>consecutive_failures := saturating_add (consecutive_failures f) 1\<rparr>)"
  using assms by (simp add: on_failure_def Let_def)

lemma on_failure_keeps_initial [simp]:
  "fsm_initial_mode (snd (on_failure k f)) = fsm_initial_mode f"
  by (simp add: on_failure_def Let_def)

text \<open>
  Three consecutive failures, and not fewer, move a fresh WebSocket-preferring machine to
  HTTP; the switch is reported exactly once, by the third failure; from there the machine
  stays on HTTP and counts further failures, saturating at 255.
\<close>

theorem three_strike_fallback:
  "let f = fail_all ks (fsm_new False) in
     (fsm_mode f = WsV2 \<longleftrightarrow> length ks < 3) \<and>
     unat (consecutive_failures f) = (if length ks < 3 then length ks else min (length ks - 3) 255) \<and>
     (fst (on_failure k f) \<longleftrightarrow> length ks = 2)"
proof -
  have *: "(fsm_mode (fail_all ks (fsm_new False)) = WsV2 \<longleftrightarrow> length ks < 3) \<and>
     unat (consecutive_failures (fail_all ks (fsm_new False))) =
       (if length ks < 3 then length ks else min (length ks - 3) 255)" for ks
  proof (induction ks rule: rev_induct)
    case Nil
    show ?case by (simp add: fail_all_def fsm_defs)
  next
    case (snoc x xs)
    let ?f = "fail_all xs (fsm_new False)"
    show ?case
    proof (cases "length xs < 3")
      case True
      then show ?thesis
        using snoc on_failure_ws(2,3) [of ?f "length xs" x] by (auto simp: fail_all_snoc)
    next
      case False
      then have "fsm_mode ?f = HttpV2" using snoc by (cases "fsm_mode ?f") auto
      then show ?thesis
        using snoc False by (auto simp: fail_all_snoc on_failure_http unat_succ_saturating)
    qed
  qed
  let ?f = "fail_all ks (fsm_new False)"
  have "fst (on_failure k ?f) \<longleftrightarrow> length ks = 2"
  proof (cases "length ks < 3")
    case True
    then show ?thesis using * [of ks] on_failure_ws(1) [of ?f "length ks" k] by auto
  next
    case False
    then have "fsm_mode ?f = HttpV2" using * [of ks] by (cases "fsm_mode ?f") auto
    then show ?thesis using False by (simp add: on_failure_http)
  qed
  with * [of ks] show ?thesis by (simp add: Let_def)
qed

text \<open>
  Whatever sequence of successes, failures and re-probes the loop reports, a machine
  created with \<open>http_only\<close> never selects the WebSocket transport, and a machine that selects
  WebSocket has fewer than three strikes against it.
\<close>

theorem http_only_never_ws:
  assumes "fsm_step\<^sup>*\<^sup>* (fsm_new h) f"
  shows "(h \<longrightarrow> fsm_mode f = HttpV2) \<and> (fsm_mode f = WsV2 \<longrightarrow> unat (consecutive_failures f) < 3)"
  using fsm_reachable_inv [OF assms] by (auto simp: fsm_inv_def word_less_nat_alt)

lemma http_only_never_ws_witness:
  "fsm_mode (snd (on_failure WsWrite (fsm_new True))) = HttpV2"
proof -
  have "fsm_step\<^sup>*\<^sup>* (fsm_new True) (snd (on_failure WsWrite (fsm_new True)))"
    by (rule r_into_rtranclp) (rule fsm_step.failure)
  from http_only_never_ws [OF this] show ?thesis by simp
qed

section \<open>Connection life cycle\<close>

datatype conn_state =
  Disconnected | Resolving | TcpConnecting | TlsHandshaking | WsHandshaking | Online

datatype conn_event =
  ResolveStarted | ResolveOk | ResolveFailed | TcpConnectStarted | TcpConnected | TcpFailed
| TlsStarted | TlsOk | TlsFailed | WsUpgradeOk | WsUpgradeFailed | Disconnect

definition conn_new :: conn_state where
  "conn_new = Disconnected"

fun transition_table :: "conn_state \<Rightarrow> conn_event \<Rightarrow> conn_state" where
  "transition_table Disconnected ResolveStarted = Resolving"
| "transition_table Disconnected TcpConnectStarted = TcpConnecting"
| "transition_table Resolving ResolveOk = TcpConnecting"
| "transition_table Resolving ResolveFailed = Disconnected"
| "transition_table Resolving TcpConnectStarted = TcpConnecting"
| "transition_table TcpConnecting TcpConnected = TlsHandshaking"
| "transition_table TcpConnecting TcpFailed = Disconnected"
| "transition_table TcpConnecting TlsStarted = TlsHandshaking"
| "transition_table TlsHandshaking TlsOk = WsHandshaking"
| "transition_table TlsHandshaking TlsFailed = Disconnected"
| "transition_table WsHandshaking WsUpgradeOk = Online"
| "transition_table WsHandshaking WsUpgradeFailed = Disconnected"
| "transition_table s e = s"

definition transition :: "conn_event \<Rightarrow> conn_state \<Rightarrow> conn_state" where
  "transition e s = (if e = Disconnect then Disconnected else transition_table s e)"

definition is_online :: "conn_state \<Rightarrow> bool" where
  "is_online s \<longleftrightarrow> s = Online"

definition conn_run :: "conn_event list \<Rightarrow> conn_state" where
  "conn_run es = foldl (\<lambda>s e. transition e s) conn_new es"

lemma conn_run_snoc: "conn_run (es @ [e]) = transition e (conn_run es)"
  by (simp add: conn_run_def)

text \<open>What must have happened, since the last \<open>Disconnect\<close>, for a state to be reached.\<close>

definition since_disconnect :: "conn_event list \<Rightarrow> conn_event list" where
  "since_disconnect es = rev (takeWhile (\<lambda>e. e \<noteq> Disconnect) (rev es))"

fun conn_history :: "conn_state \<Rightarrow> conn_event list \<Rightarrow> bool" where
  "conn_history Disconnected es = True"
| "conn_history Resolving es = (ResolveStarted \<in> set es)"
| "conn_history TcpConnecting es =
    (TcpConnectStarted \<in> set es \<or> subseq [ResolveStarted, ResolveOk] es)"
| "conn_history TlsHandshaking es = (TcpConnected \<in> set es \<or> TlsStarted \<in> set es)"
| "conn_history WsHandshaking es =
    (subseq [TcpConnected, TlsOk] es \<or> subseq [TlsStarted, TlsOk] es)"
| "conn_history Online es =
    (subseq [TcpConnected, TlsOk, WsUpgradeOk] es \<or> subseq [TlsStarted, TlsOk, WsUpgradeOk] es)"

lemma since_disconnect_snoc:
  "since_disconnect (es @ [e]) = (if e = Disconnect then [] else since_disconnect es @ [e])"
  by (simp add: since_disconnect_def)

lemma subseq_snoc [intro]:
  "subseq xs es \<Longrightarrow> subseq xs (es @ [e])"
  "a \<in> set es \<Longrightarrow> subseq [a, b] (es @ [b])"
  "subseq [a, b] es \<Longrightarrow> subseq [a, b, c] (es @ [c])"
  using subseq_append [of "[a]" "[b]" es] subseq_append [of "[a, b]" "[c]" es]
  by (auto simp: subseq_singleton_left intro: subseq_rev_drop_many)

lemma conn_history_mono: "conn_history s es \<Longrightarrow> conn_history s (es @ [e])"
  by (cases s) auto

lemma conn_history_step:
  "conn_history s es \<Longrightarrow> conn_history (transition_table s e) (es @ [e])"
  using conn_history_mono [of s es e] by (cases s; cases e) auto

lemma conn_run_history: "conn_history (conn_run es) (since_disconnect es)"
  by (induction es rule: rev_induct)
    (auto simp: conn_run_snoc since_disconnect_snoc transition_def conn_history_step,
     simp add: conn_run_def conn_new_def)

text \<open>
  The connection is online only if, since the last \<open>Disconnect\<close>, the TCP connection was
  up or TLS was started, then TLS completed, then the upgrade succeeded, in that order; no
  sequence of events skips a layer.
\<close>

theorem online_only_through_all_layers:
  assumes "is_online (conn_run es)"
  shows "subseq [TcpConnected, TlsOk, WsUpgradeOk] (since_disconnect es) \<or>
         subseq [TlsStarted, TlsOk, WsUpgradeOk] (since_disconnect es)"
  using assms conn_run_history [of es] by (simp add: is_online_def)

lemma online_only_through_all_layers_witness:
  "subseq [TcpConnected, TlsOk, WsUpgradeOk]
     (since_disconnect [Disconnect, TcpConnectStarted, TcpConnected, TlsOk, WsUpgradeOk]) \<or>
   subseq [TlsStarted, TlsOk, WsUpgradeOk]
     (since_disconnect [Disconnect, TcpConnectStarted, TcpConnected, TlsOk, WsUpgradeOk])"
  by (rule online_only_through_all_layers)
    (simp add: is_online_def conn_run_def conn_new_def transition_def)

end
