(* ===== verification/Backoff.thy ===== *)
theory Backoff
  imports Prelude
begin

text \<open>
  The exponential backoff of \<open>server/backoff.rs\<close>.  A \<open>Duration\<close> is its number of nanoseconds;
  multiplying one by a \<open>u32\<close> panics when the result exceeds the largest \<open>Duration\<close>
  (\<open>u64::MAX\<close> seconds and 999,999,999 nanoseconds).
\<close>

type_synonym duration = nat

definition duration_max :: duration where
  "duration_max = (2 ^ 64 - 1) * 10 ^ 9 + 999999999"

definition from_secs :: "u64 \<Rightarrow> duration" where
  "from_secs s = unat s * 10 ^ 9"

definition duration_mul :: "duration \<Rightarrow> u32 \<Rightarrow> (duration, 'e) outcome" where
  "duration_mul d k = (if d * unat k \<le> duration_max then Ok (d * unat k) else Panic)"

record backoff =
  failures :: u64
  max_retries :: u64
  backoff_base :: duration
  backoff_cap :: duration

definition backoff_new :: "u64 \<Rightarrow> u64 \<Rightarrow> backoff" where
  "backoff_new retries cap_secs =
    \<lparr>failures = 0, max_retries = retries, backoff_base = from_secs 1, backoff_cap = from_secs cap_secs\<rparr>"

definition exhausted :: "backoff \<Rightarrow> bool" where
  "exhausted b \<longleftrightarrow> max_retries b > 0 \<and> failures b \<ge> max_retries b"

text \<open>The release profile disables overflow checks, so \<open>failures += 1\<close> wraps.\<close>

definition next_delay :: "backoff \<Rightarrow> (duration \<times> backoff, 'e) outcome" where
  "next_delay b =
    (let b1 = b\<lparr>failures := failures b + 1\<rparr>
     in and_then (duration_mul (backoff_base b1) (2 ^ unat (ucast (min (failures b1) 31) :: u32)))
          (\<lambda>raw. Ok (min raw (backoff_cap b1), b1)))"

definition backoff_reset :: "backoff \<Rightarrow> backoff" where
  "backoff_reset b = b\<lparr>failures := 0\<rparr>"

section \<open>The delays\<close>

text \<open>A tracker the loop owns: its base is the one second of \<open>new\<close>.\<close>

definition backoff_ok :: "backoff \<Rightarrow> bool" where
  "backoff_ok b \<longleftrightarrow> backoff_base b = 10 ^ 9"

lemma backoff_ok_new: "backoff_ok (backoff_new m c)"
  by (simp add: backoff_ok_def backoff_new_def from_secs_def)

lemma backoff_ok_reset: "backoff_ok b \<Longrightarrow> backoff_ok (backoff_reset b)"
  by (simp add: backoff_ok_def backoff_reset_def)

lemma unat_min_31: "unat (ucast (min (w :: u64) 31) :: u32) = min (unat w) 31"
proof -
  have "unat (min w 31) = min (unat w) 31"
    by (auto simp: min_def word_le_nat_alt)
  then show ?thesis
    by (simp add: unsigned_ucast_eq take_bit_eq_mod)
qed

lemma next_delay_eq:
  assumes "backoff_ok b"
  shows "next_delay b =
    Ok (min (10 ^ 9 * 2 ^ min (unat (failures b + 1)) 31) (backoff_cap b), b\<lparr>failures := failures b + 1\<rparr>)"
proof -
  let ?k = "min (unat (failures b + 1)) 31"
  have "(2::nat) ^ ?k \<le> 2 ^ 31" by (rule power_increasing) auto
  then have "10 ^ 9 * 2 ^ ?k \<le> duration_max" by (simp add: duration_max_def)
  then show ?thesis
    using assms unat_two_power [of ?k, where 'w = 32]
    by (simp add: next_delay_def duration_mul_def Let_def backoff_ok_def unat_min_31)
qed

lemma backoff_ok_next:
  "\<lbrakk>backoff_ok b; next_delay b = Ok (d, b')\<rbrakk> \<Longrightarrow>
    backoff_ok b' \<and> backoff_cap b' = backoff_cap b \<and> max_retries b' = max_retries b \<and>
    failures b' = failures b + 1 \<and> d \<le> backoff_cap b"
  by (auto simp: next_delay_eq backoff_ok_def)

section \<open>The contract of a retry policy\<close>

text \<open>
  What the reconnection loop relies on: each call returns a delay that depends only on the
  number of failures counted so far and never exceeds the cap.  \<open>room\<close> says how many more
  failures can be counted.
\<close>

fun run_delays :: "('s \<Rightarrow> (nat \<times> 's, 'e) outcome) \<Rightarrow> nat \<Rightarrow> 's \<Rightarrow> (nat list \<times> 's, 'e) outcome" where
  "run_delays nxt 0 s = Ok ([], s)"
| "run_delays nxt (Suc n) s =
    and_then (nxt s) (\<lambda>(d, s1). and_then (run_delays nxt n s1) (\<lambda>(ds, s2). Ok (d # ds, s2)))"

locale retry_policy =
  fixes ok :: "'s \<Rightarrow> bool"
    and count :: "'s \<Rightarrow> nat"
    and limit :: "'s \<Rightarrow> nat"
    and schedule :: "nat \<Rightarrow> nat"
    and room :: nat
    and nxt :: "'s \<Rightarrow> (nat \<times> 's, 'e) outcome"
    and rst :: "'s \<Rightarrow> 's"
  assumes nxt_spec: "\<lbrakk>ok s; count s < room\<rbrakk> \<Longrightarrow>
      \<exists>s'. nxt s = Ok (min (schedule (Suc (count s))) (limit s), s') \<and>
           ok s' \<and> count s' = Suc (count s) \<and> limit s' = limit s"
    and rst_spec: "ok s \<Longrightarrow> ok (rst s) \<and> count (rst s) = 0 \<and> limit (rst s) = limit s"
    and schedule_mono: "i \<le> j \<Longrightarrow> schedule i \<le> schedule j"
begin

lemma delays_from:
  "\<lbrakk>ok s; count s + n \<le> room\<rbrakk> \<Longrightarrow>
    \<exists>s'. run_delays nxt n s =
           Ok (map (\<lambda>i. min (schedule i) (limit s)) [Suc (count s)..<Suc (count s + n)], s') \<and>
         ok s' \<and> count s' = count s + n \<and> limit s' = limit s"
proof (induction n arbitrary: s)
  case 0
  then show ?case by simp
next
  case (Suc n)
  then obtain s1 where s1: "nxt s = Ok (min (schedule (Suc (count s))) (limit s), s1)"
    "ok s1" "count s1 = Suc (count s)" "limit s1 = limit s"
    using nxt_spec [of s] by auto
  from Suc.IH [of s1] Suc.prems s1 obtain s2 where
    "run_delays nxt n s1 = Ok (map (\<lambda>i. min (schedule i) (limit s))
       [Suc (Suc (count s))..<Suc (Suc (count s) + n)], s2)"
    "ok s2" "count s2 = count s + Suc n" "limit s2 = limit s"
    by auto
  then show ?case using s1 by (auto simp: upt_conv_Cons simp del: upt_Suc)
qed

lemma delays_sorted_bounded:
  "\<lbrakk>ok s; count s + n \<le> room; run_delays nxt n s = Ok (ds, s')\<rbrakk> \<Longrightarrow>
    length ds = n \<and> sorted ds \<and> (\<forall>d \<in> set ds. d \<le> limit s)"
  using delays_from [of s n]
  by (auto simp: sorted_iff_nth_mono intro!: min.coboundedI1 schedule_mono simp del: upt_Suc)

end

definition backoff_schedule :: "nat \<Rightarrow> nat" where
  "backoff_schedule n = 10 ^ 9 * 2 ^ min n 31"

interpretation backoff_policy:
  retry_policy backoff_ok "\<lambda>b. unat (failures b)" backoff_cap backoff_schedule "2 ^ 64 - 1"
    next_delay backoff_reset
proof unfold_locales
  fix b :: backoff
  assume "backoff_ok b" and lt: "unat (failures b) < 2 ^ 64 - 1"
  moreover have "unat (failures b + 1) = Suc (unat (failures b))"
    using lt unat_add_lem [of "failures b" 1] by simp
  ultimately show "\<exists>b'. next_delay b =
      Ok (min (backoff_schedule (Suc (unat (failures b)))) (backoff_cap b), b') \<and>
      backoff_ok b' \<and> unat (failures b') = Suc (unat (failures b)) \<and> backoff_cap b' = backoff_cap b"
    by (simp add: next_delay_eq backoff_ok_def backoff_schedule_def)
next
  fix i j :: nat
  assume "i \<le> j"
  then have "(2::nat) ^ min i 31 \<le> 2 ^ min j 31" by (intro power_increasing) auto
  then show "backoff_schedule i \<le> backoff_schedule j" by (simp add: backoff_schedule_def)
qed (simp_all add: backoff_ok_def backoff_reset_def)

text \<open>
  From a new tracker (or after a reset), the first \<open>n\<close> calls of \<open>next_delay\<close> never panic
  and sleep exactly 2, 4, 8, ... seconds, the exponent stopping at 31 and every delay capped at
  the configured number of seconds.
\<close>

theorem backoff_delays:
  assumes "n < 2 ^ 64"
  shows "\<exists>b'. run_delays next_delay n (backoff_reset (backoff_new m c)) =
    Ok (map (\<lambda>i. min (10 ^ 9 * 2 ^ min i 31) (unat c * 10 ^ 9)) [1..<Suc n], b')"
proof -
  have "backoff_ok (backoff_reset (backoff_new m c))"
    by (simp add: backoff_ok_new backoff_ok_reset)
  from backoff_policy.delays_from [OF this, of n] assms show ?thesis
    by (auto simp: backoff_schedule_def backoff_reset_def backoff_new_def from_secs_def simp del: upt_Suc)
qed

lemma backoff_delays_witness:
  "\<exists>b'. run_delays next_delay 6 (backoff_reset (backoff_new 0 30)) =
    Ok ([2 * 10 ^ 9, 4 * 10 ^ 9, 8 * 10 ^ 9, 16 * 10 ^ 9, 30 * 10 ^ 9, 30 * 10 ^ 9], b')"
  using backoff_delays [of 6 0 30] by (simp add: upt_rec)

end
