(* ===== verification/BitStream.thy ===== *)
theory BitStream
  imports Prelude
begin

text \<open>
  The LSB-first bit reader of \<open>inflate.rs\<close> and the bit-list view of it: a reader stands for
  the list of bits it has not yet delivered.  The interface \<open>bit_source\<close> states what the
  decoders rely on and the reader is shown to provide it.
\<close>

section \<open>Bits of words\<close>

definition low_bits :: "nat \<Rightarrow> 'w::len word \<Rightarrow> bool list" where
  "low_bits n w = map (bit w) [0..<n]"

definition bits_val :: "bool list \<Rightarrow> 'w::len word" where
  "bits_val bs = horner_sum of_bool 2 bs"

definition bytes_bits :: "bytes \<Rightarrow> bool list" where
  "bytes_bits bs = concat (map (low_bits 8) bs)"

lemma length_low_bits [simp]: "length (low_bits n w) = n"
  by (simp add: low_bits_def)

lemma nth_low_bits [simp]: "i < n \<Longrightarrow> low_bits n w ! i = bit w i"
  by (simp add: low_bits_def)

lemma low_bits_0 [simp]: "low_bits 0 w = []"
  by (simp add: low_bits_def)

lemma low_bits_Suc: "low_bits (Suc n) w = low_bits n w @ [bit w n]"
  by (simp add: low_bits_def)

lemma bits_val_low_bits: "bits_val (low_bits n w) = take_bit n w"
  by (simp add: bits_val_def low_bits_def horner_sum_bit_eq_take_bit)

lemma bit_bits_val:
  "bit (bits_val bs :: 'w::len word) i \<longleftrightarrow> i < LENGTH('w) \<and> i < length bs \<and> bs ! i"
  by (auto simp: bits_val_def bit_horner_sum_bit_word_iff)

lemma low_bits_bits_val:
  "length bs \<le> LENGTH('w) \<Longrightarrow> low_bits (length bs) (bits_val bs :: 'w::len word) = bs"
  by (rule nth_equalityI) (auto simp: bit_bits_val)

lemma take_low_bits: "m \<le> n \<Longrightarrow> take m (low_bits n w) = low_bits m w"
  by (simp add: low_bits_def take_map)

lemma drop_low_bits: "drop m (low_bits n w) = low_bits (n - m) (drop_bit m w)"
  by (rule nth_equalityI) (auto simp: bit_drop_bit_eq ac_simps)

lemma low_bits_inject:
  "\<lbrakk>low_bits n v = low_bits n w; take_bit n v = v; take_bit n w = w\<rbrakk> \<Longrightarrow> v = w"
  by (metis bits_val_low_bits)

lemma bytes_bits_simps [simp]:
  "bytes_bits [] = []"
  "bytes_bits (b # bs) = low_bits 8 b @ bytes_bits bs"
  "bytes_bits (xs @ ys) = bytes_bits xs @ bytes_bits ys"
  by (simp_all add: bytes_bits_def)

lemma length_bytes_bits [simp]: "length (bytes_bits bs) = 8 * length bs"
  by (induction bs) auto

lemma bytes_bits_drop_Cons:
  "i < length bs \<Longrightarrow> bytes_bits (drop i bs) = low_bits 8 (bs ! i) @ bytes_bits (drop (Suc i) bs)"
  by (simp add: Cons_nth_drop_Suc [symmetric])

section \<open>The reader\<close>

datatype inflate_err = UnexpectedEof | InvalidData | BadDistance | BadCode | MaxSizeExceeded

record bit_reader =
  br_data :: bytes
  br_pos :: nat
  br_bit :: u32
  br_nbits :: nat

definition br_new :: "bytes \<Rightarrow> bit_reader" where
  "br_new data = \<lparr>br_data = data, br_pos = 0, br_bit = 0, br_nbits = 0\<rparr>"

text \<open>The refill loop of \<open>read\<close>.\<close>

function br_fill :: "nat \<Rightarrow> bit_reader \<Rightarrow> (bit_reader, inflate_err) outcome" where
  "br_fill n r =
    (if br_nbits r < n
     then if br_pos r < length (br_data r)
          then br_fill n (r\<lparr>br_pos := br_pos r + 1,
                            br_bit := br_bit r OR push_bit (br_nbits r) (ucast (br_data r ! br_pos r)),
                            br_nbits := br_nbits r + 8\<rparr>)
          else Err UnexpectedEof
     else Ok r)"
  by auto
termination by (relation "measure (\<lambda>(n, r). n - br_nbits r)") auto

declare br_fill.simps [simp del]

definition br_read :: "nat \<Rightarrow> bit_reader \<Rightarrow> (u32 \<times> bit_reader, inflate_err) outcome" where
  "br_read n r =
    and_then (br_fill n r) (\<lambda>r1.
      Ok (br_bit r1 AND (push_bit n 1 - 1),
          r1\<lparr>br_bit := drop_bit n (br_bit r1), br_nbits := br_nbits r1 - n\<rparr>))"

definition br_align_byte :: "bit_reader \<Rightarrow> bit_reader" where
  "br_align_byte r = r\<lparr>br_bit := 0, br_nbits := 0\<rparr>"

definition br_read_bit :: "bit_reader \<Rightarrow> (u32 \<times> bit_reader, inflate_err) outcome" where
  "br_read_bit r =
    and_then
      (if br_nbits r = 0
       then if br_pos r < length (br_data r)
            then Ok (r\<lparr>br_pos := br_pos r + 1, br_bit := ucast (br_data r ! br_pos r), br_nbits := 8\<rparr>)
            else Err UnexpectedEof
       else Ok r)
      (\<lambda>r1. Ok (br_bit r1 AND 1, r1\<lparr>br_bit := drop_bit 1 (br_bit r1), br_nbits := br_nbits r1 - 1\<rparr>))"

section \<open>The bit-list view\<close>

text \<open>
  \<open>br_wf\<close>: the buffer holds exactly \<open>br_nbits\<close> bits; between operations fewer than eight are
  buffered (\<open>br_inv\<close>), so at most 23 are during a refill and the 32-bit buffer never overflows.
\<close>

definition br_stream :: "bit_reader \<Rightarrow> bool list" where
  "br_stream r = low_bits (br_nbits r) (br_bit r) @ bytes_bits (drop (br_pos r) (br_data r))"

definition br_wf :: "bit_reader \<Rightarrow> bool" where
  "br_wf r \<longleftrightarrow> take_bit (br_nbits r) (br_bit r) = br_bit r"

definition br_inv :: "bit_reader \<Rightarrow> bool" where
  "br_inv r \<longleftrightarrow> br_wf r \<and> br_nbits r < 8"

definition br_rem :: "bit_reader \<Rightarrow> nat" where
  "br_rem r = br_nbits r + 8 * (length (br_data r) - br_pos r)"

lemma length_br_stream [simp]: "length (br_stream r) = br_rem r"
  by (simp add: br_stream_def br_rem_def)

lemma br_new_stream [simp]: "br_stream (br_new d) = bytes_bits d" "br_inv (br_new d)"
  by (simp_all add: br_stream_def br_new_def br_inv_def br_wf_def)

lemma low_bits_or_push:
  assumes "take_bit k (w :: u32) = w" and "k + 8 \<le> 32"
  shows "low_bits (k + 8) (w OR push_bit k (ucast (b :: u8))) = low_bits k w @ low_bits 8 b"
    and "take_bit (k + 8) (w OR push_bit k (ucast b)) = w OR push_bit k (ucast b)"
proof -
  have w: "bit w i \<Longrightarrow> i < k" for i
    using assms(1) by (metis bit_take_bit_iff)
  have b: "bit b i \<Longrightarrow> i < 8" for i
    using bit_imp_le_length [of b i] by simp
  show "low_bits (k + 8) (w OR push_bit k (ucast b)) = low_bits k w @ low_bits 8 b"
    using assms(2) by (intro nth_equalityI) (auto simp: nth_append bit_simps dest: w)
  show "take_bit (k + 8) (w OR push_bit k (ucast b)) = w OR push_bit k (ucast b)"
    by (rule bit_word_eqI) (auto simp: bit_simps dest: w b)
qed

lemma br_fill_spec:
  assumes "br_wf r" and "br_nbits r < n + 8" and "n \<le> 16"
  shows "if n \<le> br_rem r
         then \<exists>r'. br_fill n r = Ok r' \<and> br_wf r' \<and> br_stream r' = br_stream r \<and>
                   n \<le> br_nbits r' \<and> br_nbits r' < n + 8
         else br_fill n r = Err UnexpectedEof"
  using assms
proof (induction n r rule: br_fill.induct)
  case (1 n r)
  show ?case
  proof (cases "br_nbits r < n \<and> br_pos r < length (br_data r)")
    case True
    let ?b = "br_data r ! br_pos r"
    let ?r = "r\<lparr>br_pos := br_pos r + 1,
                br_bit := br_bit r OR push_bit (br_nbits r) (ucast ?b),
                br_nbits := br_nbits r + 8\<rparr>"
    have le: "br_nbits r + 8 \<le> 32" and wf: "take_bit (br_nbits r) (br_bit r) = br_bit r"
      using 1 True by (auto simp: br_wf_def)
    have "br_wf ?r" and st: "br_stream ?r = br_stream r"
      using low_bits_or_push [OF wf le, of ?b] True
      by (simp_all add: br_wf_def br_stream_def bytes_bits_drop_Cons)
    moreover have "br_rem ?r = br_rem r" using st by (metis length_br_stream)
    ultimately show ?thesis
      using 1 True by (cases "n \<le> br_rem r") (simp_all add: br_fill.simps [of n r])
  next
    case False
    then show ?thesis
      using 1 by (auto simp: br_fill.simps [of n r] br_rem_def)
  qed
qed


lemma and_low_ones: "w AND (2 ^ n - 1) = take_bit n (w :: u32)"
  by (simp add: take_bit_eq_mask mask_eq_exp_minus_1)

lemma br_read_spec:
  assumes "br_inv r" and "n \<le> 16"
  shows "if n \<le> br_rem r
         then \<exists>r'. br_read n r = Ok (bits_val (take n (br_stream r)), r') \<and> br_inv r' \<and>
                   br_stream r' = drop n (br_stream r)
         else br_read n r = Err UnexpectedEof"
proof (cases "n \<le> br_rem r")
  case True
  with br_fill_spec [of r n] assms obtain r1 where r1: "br_fill n r = Ok r1" "br_wf r1"
    "br_stream r1 = br_stream r" "n \<le> br_nbits r1" "br_nbits r1 < n + 8"
    by (auto simp: br_inv_def)
  let ?r = "r1\<lparr>br_bit := drop_bit n (br_bit r1), br_nbits := br_nbits r1 - n\<rparr>"
  have "bits_val (take n (br_stream r)) = (take_bit n (br_bit r1) :: u32)"
    unfolding r1(3) [symmetric] using r1(4)
    by (simp add: br_stream_def take_low_bits bits_val_low_bits)
  moreover have "br_stream ?r = drop n (br_stream r)"
    unfolding r1(3) [symmetric] using r1(4) by (simp add: br_stream_def drop_low_bits)
  moreover have "br_inv ?r"
    using r1 by (auto simp: br_inv_def br_wf_def take_bit_drop_bit)
  ultimately show ?thesis
    using True r1(1) by (simp add: br_read_def and_low_ones)
next
  case False
  with br_fill_spec [of r n] assms show ?thesis by (simp add: br_read_def br_inv_def)
qed

lemma br_fill_done: "n \<le> br_nbits r \<Longrightarrow> br_fill n r = Ok r"
  by (simp add: br_fill.simps)

text \<open>The unrolled single-bit read agrees with \<open>read(1)\<close>.\<close>

lemma br_read_bit_eq: "br_inv r \<Longrightarrow> br_read_bit r = br_read 1 r"
proof (cases "br_nbits r = 0 \<and> br_pos r < length (br_data r)")
  case True
  assume "br_inv r"
  with True have "br_bit r = 0" by (simp add: br_inv_def br_wf_def)
  with True show ?thesis
    by (simp add: br_read_bit_def br_read_def br_fill.simps [of "Suc 0" r] br_fill_done)
next
  case False
  assume "br_inv r"
  with False show ?thesis
    by (auto simp: br_read_bit_def br_read_def br_fill.simps [of "Suc 0" r])
qed

lemma br_align_spec:
  "br_inv r \<Longrightarrow> br_inv (br_align_byte r) \<and>
    br_stream (br_align_byte r) = drop (length (br_stream r) mod 8) (br_stream r)"
  by (simp add: br_inv_def br_wf_def br_align_byte_def br_stream_def br_rem_def)

text \<open>Every operation moves the reader forward, whatever its state; the decoders' loops end by it.\<close>

lemma br_fill_rem: "br_fill n r = Ok r' \<Longrightarrow> br_rem r' = br_rem r \<and> n \<le> br_nbits r'"
proof (induction n r arbitrary: r' rule: br_fill.induct)
  case (1 n r)
  then show ?case
    by (subst (asm) br_fill.simps) (auto simp: br_rem_def split: if_splits)
qed

lemma br_read_rem: "br_read n r = Ok (v, r') \<Longrightarrow> br_rem r' + n = br_rem r"
  by (auto simp: br_read_def outcome_simps br_rem_def dest!: br_fill_rem)

lemma br_read_bit_rem: "br_read_bit r = Ok (v, r') \<Longrightarrow> br_rem r' + 1 = br_rem r"
  by (auto simp: br_read_bit_def outcome_simps br_rem_def split: if_splits)

lemma br_align_rem: "br_rem (br_align_byte r) \<le> br_rem r"
  by (simp add: br_rem_def br_align_byte_def)

lemma br_fill_no_panic: "br_fill n r \<noteq> Panic"
proof (induction n r rule: br_fill.induct)
  case (1 n r)
  then show ?case by (subst br_fill.simps) auto
qed

lemma br_read_no_panic [simp, no_panic]: "br_read n r \<noteq> Panic"
  by (simp add: br_read_def outcome_simps br_fill_no_panic)

lemma br_read_bit_no_panic [simp, no_panic]: "br_read_bit r \<noteq> Panic"
  by (simp add: br_read_bit_def outcome_simps)

section \<open>The interface of a bit source\<close>

text \<open>
  A source delivers the bits of its stream in order and fails, without a value, when too few
  are left.  \<open>width\<close> bounds the fields that may be read at once.
\<close>

locale bit_source =
  fixes ok :: "'r \<Rightarrow> bool"
    and stream :: "'r \<Rightarrow> bool list"
    and width :: nat
    and eof :: 'e
    and rd :: "nat \<Rightarrow> 'r \<Rightarrow> ('w::len word \<times> 'r, 'e) outcome"
  assumes rd_ok: "\<lbrakk>ok r; n \<le> width; n \<le> length (stream r)\<rbrakk> \<Longrightarrow>
      \<exists>r'. rd n r = Ok (bits_val (take n (stream r)), r') \<and> ok r' \<and> stream r' = drop n (stream r)"
    and rd_eof: "\<lbrakk>ok r; n \<le> width; length (stream r) < n\<rbrakk> \<Longrightarrow> rd n r = Err eof"
    and width_le: "width \<le> LENGTH('w)"
begin

lemma rd_field:
  assumes "ok r" and "stream r = low_bits n v @ rest" and "n \<le> width" and "take_bit n v = (v :: 'w word)"
  shows "\<exists>r'. rd n r = Ok (v, r') \<and> ok r' \<and> stream r' = rest"
  using rd_ok [OF assms(1,3)] assms by (simp add: bits_val_low_bits)

lemma rd_bit:
  assumes "ok r" and "stream r = b # rest" and "1 \<le> width"
  shows "\<exists>r'. rd 1 r = Ok (of_bool b, r') \<and> ok r' \<and> stream r' = rest"
  using rd_ok [OF assms(1,3)] assms by (simp add: bits_val_def)

lemma rd_Ok_iff:
  assumes "ok r" and "n \<le> width"
  shows "rd n r = Ok (v, r') \<longrightarrow>
    n \<le> length (stream r) \<and> v = bits_val (take n (stream r)) \<and> ok r' \<and> stream r' = drop n (stream r)"
  using rd_ok [OF assms] rd_eof [OF assms] by (cases "n \<le> length (stream r)") auto

lemma rd_not_panic: "\<lbrakk>ok r; n \<le> width\<rbrakk> \<Longrightarrow> rd n r \<noteq> Panic"
  using rd_ok [of r n] rd_eof [of r n] by (cases "n \<le> length (stream r)") auto

end

interpretation reader: bit_source br_inv br_stream 16 UnexpectedEof br_read
  using br_read_spec by unfold_locales (auto split: if_splits)

lemma reader_bit:
  assumes "br_inv r" and "br_stream r = b # rest"
  shows "\<exists>r'. br_read_bit r = Ok (of_bool b, r') \<and> br_inv r' \<and> br_stream r' = rest"
  using reader.rd_bit [OF assms] assms by (simp add: br_read_bit_eq)

lemma reader_bit_Ok:
  assumes "br_inv r" and "br_read_bit r = Ok (v, r')"
  shows "\<exists>b rest. br_stream r = b # rest \<and> v = of_bool b \<and> br_inv r' \<and> br_stream r' = rest"
proof -
  have "br_read 1 r = Ok (v, r')" using assms by (simp add: br_read_bit_eq)
  with reader.rd_Ok_iff [OF assms(1), of 1 v r'] show ?thesis
    by (cases "br_stream r") (auto simp: bits_val_def)
qed

lemma reader_bit_eof: "\<lbrakk>br_inv r; br_stream r = []\<rbrakk> \<Longrightarrow> br_read_bit r = Err UnexpectedEof"
  using reader.rd_eof [of r 1] by (simp add: br_read_bit_eq)

end
