(* ===== verification/BitSink.thy ===== *)
theory BitSink
  imports BitStream
begin

text \<open>
  The LSB-first bit writer \<open>BW\<close> of \<open>gzip.rs\<close>, its bit-list view, and the interface of a bit
  sink.  Together with a bit source the interface says that fields come back as they were
  written.
\<close>

section \<open>The writer\<close>

record bit_writer =
  bw_buf :: bytes
  bw_bits :: u64
  bw_n :: nat

definition bw_new :: bit_writer where
  "bw_new = \<lparr>bw_buf = [], bw_bits = 0, bw_n = 0\<rparr>"

function bw_drain :: "bit_writer \<Rightarrow> bit_writer" where
  "bw_drain w =
    (if bw_n w \<ge> 8
     then bw_drain (w\<lparr>bw_buf := bw_buf w @ [ucast (bw_bits w AND 0xFF)],
                      bw_bits := drop_bit 8 (bw_bits w), bw_n := bw_n w - 8\<rparr>)
     else w)"
  by auto
termination by (relation "measure bw_n") auto

declare bw_drain.simps [simp del]

definition bw_put :: "u16 \<Rightarrow> nat \<Rightarrow> bit_writer \<Rightarrow> bit_writer" where
  "bw_put val len w =
    bw_drain (w\<lparr>bw_bits := bw_bits w OR push_bit (bw_n w) (ucast val), bw_n := bw_n w + len\<rparr>)"

fun reverse_code :: "nat \<Rightarrow> u16 \<Rightarrow> u16 \<Rightarrow> u16" where
  "reverse_code 0 r v = r"
| "reverse_code (Suc n) r v = reverse_code n (push_bit 1 r OR (v AND 1)) (drop_bit 1 v)"

definition bw_put_msb :: "u16 \<Rightarrow> nat \<Rightarrow> bit_writer \<Rightarrow> bit_writer" where
  "bw_put_msb val len w = bw_put (reverse_code len 0 val) len w"

definition bw_flush :: "bit_writer \<Rightarrow> bit_writer" where
  "bw_flush w =
    (if bw_n w > 0
     then w\<lparr>bw_buf := bw_buf w @ [ucast (bw_bits w AND 0xFF)], bw_bits := 0, bw_n := 0\<rparr>
     else w)"

definition bw_finish :: "bit_writer \<Rightarrow> bytes" where
  "bw_finish w = bw_buf (bw_flush w)"

section \<open>The bit-list view\<close>

definition bw_written :: "bit_writer \<Rightarrow> bool list" where
  "bw_written w = bytes_bits (bw_buf w) @ low_bits (bw_n w) (bw_bits w)"

definition bw_wf :: "bit_writer \<Rightarrow> bool" where
  "bw_wf w \<longleftrightarrow> take_bit (bw_n w) (bw_bits w) = bw_bits w \<and> bw_n w \<le> 32"

definition bw_inv :: "bit_writer \<Rightarrow> bool" where
  "bw_inv w \<longleftrightarrow> bw_wf w \<and> bw_n w < 8"

lemma bw_new_simps [simp]: "bw_written bw_new = []" "bw_inv bw_new"
  by (simp_all add: bw_written_def bw_new_def bw_inv_def bw_wf_def)

lemma low_byte:
  "8 \<le> n \<Longrightarrow> low_bits n (w :: u64) = low_bits 8 (ucast (w AND 0xFF) :: u8) @ low_bits (n - 8) (drop_bit 8 w)"
  by (rule nth_equalityI) (auto simp: nth_append bit_simps and_0xFF)

lemma bw_drain_spec:
  "bw_wf w \<Longrightarrow> bw_inv (bw_drain w) \<and> bw_written (bw_drain w) = bw_written w"
proof (induction w rule: bw_drain.induct)
  case (1 w)
  show ?case
  proof (cases "8 \<le> bw_n w")
    case True
    let ?w = "w\<lparr>bw_buf := bw_buf w @ [ucast (bw_bits w AND 0xFF)],
        bw_bits := drop_bit 8 (bw_bits w), bw_n := bw_n w - 8\<rparr>"
    have "bw_wf ?w"
      using 1(2) by (auto simp: bw_wf_def take_bit_drop_bit True)
    moreover have "bw_written ?w = bw_written w"
      using low_byte [OF True, of "bw_bits w"] by (simp add: bw_written_def)
    ultimately show ?thesis
      using 1(1) True by (subst (1 2) bw_drain.simps) simp
  next
    case False
    with 1(2) show ?thesis by (subst (1 2) bw_drain.simps) (simp add: bw_inv_def)
  qed
qed

lemma bw_put_spec:
  assumes "bw_inv w" and "len \<le> 16" and "take_bit len val = val"
  shows "bw_inv (bw_put val len w) \<and> bw_written (bw_put val len w) = bw_written w @ low_bits len val"
proof -
  let ?w = "w\<lparr>bw_bits := bw_bits w OR push_bit (bw_n w) (ucast val), bw_n := bw_n w + len\<rparr>"
  have n: "bw_n w < 8" and wf: "take_bit (bw_n w) (bw_bits w) = bw_bits w"
    using assms(1) by (auto simp: bw_inv_def bw_wf_def)
  have b: "bit (bw_bits w) i \<Longrightarrow> i < bw_n w" for i
    using wf by (metis bit_take_bit_iff)
  have v: "bit val i \<Longrightarrow> i < len" for i
    using assms(3) by (metis bit_take_bit_iff)
  have "take_bit (bw_n w + len) (bw_bits ?w) = bw_bits ?w"
    by (rule bit_word_eqI) (auto simp: bit_simps dest: b v)
  then have "bw_wf ?w" using n assms(2) by (simp add: bw_wf_def)
  moreover have "low_bits (bw_n w + len) (bw_bits ?w) = low_bits (bw_n w) (bw_bits w) @ low_bits len val"
    using n assms(2) by (intro nth_equalityI) (auto simp: nth_append bit_simps dest: b v)
  ultimately show ?thesis
    using bw_drain_spec [of ?w] by (simp add: bw_put_def bw_written_def)
qed

lemma bw_flush_written:
  assumes "bw_inv w"
  shows "bytes_bits (bw_finish w) = bw_written w @ replicate ((8 - bw_n w) mod 8) False"
proof (cases "bw_n w = 0")
  case False
  have "low_bits 8 (ucast (bw_bits w AND 0xFF) :: u8) =
      low_bits (bw_n w) (bw_bits w) @ replicate (8 - bw_n w) False"
  proof (rule nth_equalityI)
    have b: "bit (bw_bits w) i \<Longrightarrow> i < bw_n w" for i
      using assms by (metis bw_inv_def bw_wf_def bit_take_bit_iff)
    fix i assume "i < length (low_bits 8 (ucast (bw_bits w AND 0xFF) :: u8))"
    then show "low_bits 8 (ucast (bw_bits w AND 0xFF) :: u8) ! i =
        (low_bits (bw_n w) (bw_bits w) @ replicate (8 - bw_n w) False) ! i"
      by (auto simp: nth_append bit_simps and_0xFF dest: b)
  qed (use assms in \<open>simp add: bw_inv_def\<close>)
  with False show ?thesis by (simp add: bw_finish_def bw_flush_def bw_written_def)
qed (simp add: bw_finish_def bw_flush_def bw_written_def)


lemma bit_shift_in:
  "bit (push_bit 1 r OR (v AND 1) :: u16) k \<longleftrightarrow> k < 16 \<and> (if k = 0 then bit v 0 else bit r (k - 1))"
  by (auto simp only: bit_or_iff bit_and_iff bit_push_bit_iff bit_1_iff bit_imp_le_length
      possible_bit_word split: if_splits)
    (auto dest: bit_imp_le_length)

lemma bit_reverse_code:
  "n \<le> 16 \<Longrightarrow> bit (reverse_code n r v) i \<longleftrightarrow>
    (if i < n then bit v (n - 1 - i) else i < 16 \<and> bit r (i - n))"
proof (induction n arbitrary: r v)
  case 0
  then show ?case by (auto dest: bit_imp_le_length)
next
  case (Suc n)
  consider "i < n" | "i = n" | "i > n" by linarith
  then show ?case
    using Suc by cases (simp_all only: reverse_code.simps bit_shift_in,
        auto simp: bit_drop_bit_eq Suc_diff_Suc bit_shift_in)
qed

lemma reverse_code_0:
  assumes "n \<le> 16"
  shows "low_bits n (reverse_code n 0 v) = rev (low_bits n v)"
    and "take_bit n (reverse_code n 0 v) = reverse_code n 0 v"
proof -
  show "low_bits n (reverse_code n 0 v) = rev (low_bits n v)"
    using assms by (intro nth_equalityI) (auto simp: bit_reverse_code rev_nth)
  show "take_bit n (reverse_code n 0 v) = reverse_code n 0 v"
    using assms by (intro bit_word_eqI) (auto simp: bit_simps bit_reverse_code)
qed

lemma bw_put_msb_spec:
  assumes "bw_inv w" and "len \<le> 16"
  shows "bw_inv (bw_put_msb val len w) \<and>
    bw_written (bw_put_msb val len w) = bw_written w @ rev (low_bits len val)"
  using bw_put_spec [OF assms reverse_code_0(2) [OF assms(2)]] reverse_code_0(1) [OF assms(2)]
  by (simp add: bw_put_msb_def)

section \<open>The interface of a bit sink\<close>

text \<open>Writing and reading a sequence of fields, for any writer and reader.\<close>

definition put_fields :: "('v word \<Rightarrow> nat \<Rightarrow> 's \<Rightarrow> 's) \<Rightarrow> ('v::len word \<times> nat) list \<Rightarrow> 's \<Rightarrow> 's" where
  "put_fields pt fs s = foldl (\<lambda>s (v, n). pt v n s) s fs"

primrec get_fields ::
  "(nat \<Rightarrow> 'r \<Rightarrow> ('w::len word \<times> 'r, 'e) outcome) \<Rightarrow> nat list \<Rightarrow> 'r \<Rightarrow> ('w word list \<times> 'r, 'e) outcome" where
  "get_fields rd [] r = Ok ([], r)"
| "get_fields rd (n # ns) r =
    and_then (rd n r) (\<lambda>(v, r1). and_then (get_fields rd ns r1) (\<lambda>(vs, r2). Ok (v # vs, r2)))"

locale bit_sink =
  fixes sok :: "'s \<Rightarrow> bool"
    and written :: "'s \<Rightarrow> bool list"
    and swidth :: nat
    and pt :: "'v::len word \<Rightarrow> nat \<Rightarrow> 's \<Rightarrow> 's"
  assumes pt_spec: "\<lbrakk>sok s; n \<le> swidth; take_bit n v = v\<rbrakk> \<Longrightarrow>
      sok (pt v n s) \<and> written (pt v n s) = written s @ low_bits n v"
begin

definition fields_ok :: "('v word \<times> nat) list \<Rightarrow> bool" where
  "fields_ok fs \<longleftrightarrow> list_all (\<lambda>(v, n). n \<le> swidth \<and> take_bit n v = v) fs"

lemma put_fields_written:
  "\<lbrakk>sok s; fields_ok fs\<rbrakk> \<Longrightarrow> sok (put_fields pt fs s) \<and>
     written (put_fields pt fs s) = written s @ concat (map (\<lambda>(v, n). low_bits n v) fs)"
proof (induction fs arbitrary: s)
  case (Cons f fs)
  obtain v n where f: "f = (v, n)" by fastforce
  with Cons.prems have "sok (pt v n s)" "written (pt v n s) = written s @ low_bits n v" "fields_ok fs"
    using pt_spec [of s n v] by (auto simp: fields_ok_def)
  with Cons.IH [of "pt v n s"] f show ?case by (simp add: put_fields_def)
qed (simp add: put_fields_def)

end

text \<open>A channel: what a sink has written is what a source over the same bits delivers.\<close>

locale bit_channel =
  bit_sink sok written swidth pt + bit_source ok stream width eof rd
  for sok :: "'s \<Rightarrow> bool" and written :: "'s \<Rightarrow> bool list" and swidth :: nat
    and pt :: "'v::len word \<Rightarrow> nat \<Rightarrow> 's \<Rightarrow> 's"
    and ok :: "'r \<Rightarrow> bool" and stream :: "'r \<Rightarrow> bool list" and width :: nat and eof :: 'e
    and rd :: "nat \<Rightarrow> 'r \<Rightarrow> ('w::len word \<times> 'r, 'e) outcome" +
  assumes widths: "swidth \<le> width" and sizes: "LENGTH('v) \<le> LENGTH('w)"
begin

lemma low_bits_ucast_up: "n \<le> width \<Longrightarrow> take_bit n v = v \<Longrightarrow>
    low_bits n (ucast (v :: 'v word) :: 'w word) = low_bits n v \<and>
    take_bit n (ucast v :: 'w word) = ucast v"
  using width_le sizes
  by (auto intro!: nth_equalityI bit_word_eqI simp: bit_simps)
     (metis bit_take_bit_iff)

lemma get_fields_written:
  "\<lbrakk>ok r; fields_ok fs; stream r = concat (map (\<lambda>(v, n). low_bits n v) fs) @ rest\<rbrakk> \<Longrightarrow>
    \<exists>r'. get_fields rd (map snd fs) r = Ok (map (\<lambda>(v, n). ucast v) fs, r') \<and> ok r' \<and> stream r' = rest"
proof (induction fs arbitrary: r)
  case (Cons f fs)
  obtain v n where f: "f = (v, n)" by fastforce
  have n: "n \<le> width" "take_bit n v = v" and fs: "fields_ok fs"
    using Cons.prems(2) widths f by (auto simp: fields_ok_def)
  note u = low_bits_ucast_up [OF n]
  from rd_field [OF Cons.prems(1) _ n(1), of "ucast v"] u Cons.prems(3) f obtain r1 where
    "rd n r = Ok (ucast v, r1)" "ok r1" "stream r1 = concat (map (\<lambda>(v, n). low_bits n v) fs) @ rest"
    by auto
  with Cons.IH [OF _ fs, of r1] f show ?case by auto
qed simp

text \<open>Written fields are read back, in order, with the rest of the stream untouched.\<close>

lemma channel_roundtrip:
  assumes "sok s" and "written s = []" and "fields_ok fs"
    and "ok r" and "stream r = written (put_fields pt fs s) @ rest"
  shows "\<exists>r'. get_fields rd (map snd fs) r = Ok (map (\<lambda>(v, n). ucast v) fs, r') \<and> ok r' \<and> stream r' = rest"
  using get_fields_written [OF assms(4,3)] put_fields_written [OF assms(1,3)] assms(2,5) by simp

end

interpretation writer: bit_sink bw_inv bw_written 16 bw_put
  using bw_put_spec by unfold_locales auto

interpretation channel:
  bit_channel bw_inv bw_written 16 bw_put br_inv br_stream 16 UnexpectedEof br_read
  by unfold_locales simp_all

text \<open>
  The encoder's bit writer and the decoder's bit reader agree: any sequence of fields of at
  most 16 bits each, put into a new writer and finished into bytes, is read back field by field
  from a new reader over those bytes.
\<close>

theorem writer_reader_agree:
  assumes "list_all (\<lambda>(v, n). n \<le> 16 \<and> take_bit n v = v) fs"
  shows "\<exists>r'. get_fields br_read (map snd fs)
      (br_new (bw_finish (put_fields bw_put fs bw_new))) = Ok (map (\<lambda>(v, n). ucast v) fs, r')"
proof -
  let ?w = "put_fields bw_put fs bw_new"
  have fs: "writer.fields_ok fs" using assms by (simp add: writer.fields_ok_def)
  have inv: "bw_inv ?w" using writer.put_fields_written [OF bw_new_simps(2) fs] by simp
  from channel.channel_roundtrip [OF bw_new_simps(2) bw_new_simps(1) fs br_new_stream(2)
      br_new_stream(1) [of "bw_finish ?w", unfolded bw_flush_written [OF inv]]]
  show ?thesis by auto
qed

lemma writer_reader_agree_witness:
  "\<exists>r'. get_fields br_read [3, 13]
      (br_new (bw_finish (put_fields bw_put [(5, 3), (4097, 13)] bw_new))) = Ok ([5, 4097], r')"
  using writer_reader_agree [of "[(5, 3), (4097, 13)]"]
  by (simp add: take_bit_eq_mod)

end
