(* ===== verification/Huffman.thy ===== *)
theory Huffman
  imports BitStream
begin

text \<open>
  The canonical Huffman tables of \<open>inflate.rs\<close> (\<open>Huff::build\<close>, \<open>Huff::decode\<close>) and the
  canonical code of RFC 1951 they are to decode.  Code lengths, counts, offsets and symbols
  are natural numbers, reduced modulo \<open>2 ^ 16\<close> where the code stores them into a \<open>u16\<close>.  The
  accumulators of \<open>decode\<close> are integers: at fifteen bits they are far from the \<open>i32\<close> limits.
\<close>

section \<open>The tables\<close>

record huff =
  huff_counts :: "nat list"
  huff_symbols :: "nat list"

fun count_lens :: "nat list \<Rightarrow> nat list \<Rightarrow> (nat list, inflate_err) outcome" where
  "count_lens counts [] = Ok counts"
| "count_lens counts (l # ls) =
    (if l \<ge> 16 then Err InvalidData
     else count_lens (counts[l := (counts ! l + 1) mod 2 ^ 16]) ls)"

fun kraft_left :: "nat list \<Rightarrow> int \<Rightarrow> (int, inflate_err) outcome" where
  "kraft_left [] left = Ok left"
| "kraft_left (c # cs) left =
    (let left1 = left * 2 - int c
     in if left1 < 0 then Err BadCode else kraft_left cs left1)"

fun code_offsets :: "nat list \<Rightarrow> nat \<Rightarrow> (nat list, inflate_err) outcome" where
  "code_offsets [] off = Ok []"
| "code_offsets (c # cs) off =
    (if off + c < 2 ^ 16
     then and_then (code_offsets cs (off + c)) (\<lambda>os. Ok (off # os))
     else Err InvalidData)"

fun place_symbols :: "nat \<Rightarrow> nat list \<Rightarrow> nat list \<Rightarrow> nat list \<Rightarrow> (nat list, inflate_err) outcome" where
  "place_symbols symb [] offsets symbols = Ok symbols"
| "place_symbols symb (l # ls) offsets symbols =
    (if l \<noteq> 0
     then if offsets ! l < length symbols
          then place_symbols (symb + 1) ls (offsets[l := (offsets ! l + 1) mod 2 ^ 16])
                 (symbols[offsets ! l := symb mod 2 ^ 16])
          else Panic
     else place_symbols (symb + 1) ls offsets symbols)"

definition huff_build :: "nat list \<Rightarrow> (huff, inflate_err) outcome" where
  "huff_build lens =
    and_then (count_lens (replicate 16 0) lens) (\<lambda>counted.
      let counts = counted[0 := 0]
      in and_then (kraft_left (drop 1 counts) 1) (\<lambda>_.
           and_then (code_offsets (drop 1 counts) 0) (\<lambda>offs.
             and_then (place_symbols 0 lens (0 # offs) (replicate (length lens) 0)) (\<lambda>symbols.
               Ok \<lparr>huff_counts = counts, huff_symbols = symbols\<rparr>))))"

definition index_i32 :: "'a list \<Rightarrow> int \<Rightarrow> ('a, 'e) outcome" where
  "index_i32 xs i = (if 0 \<le> i then index_or_panic xs (nat i) else Panic)"

function huff_walk ::
  "huff \<Rightarrow> nat \<Rightarrow> int \<Rightarrow> int \<Rightarrow> int \<Rightarrow> bit_reader \<Rightarrow> (nat \<times> bit_reader, inflate_err) outcome" where
  "huff_walk h len code frst index r =
    (if len < 16
     then and_then (br_read_bit r) (\<lambda>(b, r1).
            let code1 = push_bit 1 code OR uint b;
                count = int (huff_counts h ! len)
            in if code1 < frst + count
               then and_then (index_i32 (huff_symbols h) (index + (code1 - frst))) (\<lambda>symb. Ok (symb, r1))
               else huff_walk h (len + 1) code1 (push_bit 1 (frst + count)) (index + count) r1)
     else Err BadCode)"
  by auto
termination by (relation "measure (\<lambda>(h, len, _). 16 - len)") auto

declare huff_walk.simps [simp del]

definition huff_decode :: "huff \<Rightarrow> bit_reader \<Rightarrow> (nat \<times> bit_reader, inflate_err) outcome" where
  "huff_decode h r = huff_walk h 1 0 0 0 r"

section \<open>The canonical code\<close>

text \<open>
  RFC 1951, section 3.2.2: codes of one length are consecutive in symbol order, and the first
  code of a length follows the codes of the shorter lengths.
\<close>

definition canon_counts :: "nat list \<Rightarrow> nat list" where
  "canon_counts lens = 0 # map (count_list lens) [1..<16]"

fun first_code :: "nat list \<Rightarrow> nat \<Rightarrow> nat" where
  "first_code cs 0 = 0"
| "first_code cs (Suc n) = 2 * (first_code cs n + cs ! n)"

definition first_index :: "nat list \<Rightarrow> nat \<Rightarrow> nat" where
  "first_index cs n = sum_list (take n cs)"

definition rank :: "nat list \<Rightarrow> nat \<Rightarrow> nat" where
  "rank lens s = count_list (take s lens) (lens ! s)"

definition canon_code :: "nat list \<Rightarrow> nat \<Rightarrow> nat" where
  "canon_code lens s = first_code (canon_counts lens) (lens ! s) + rank lens s"

fun msb_bits :: "nat \<Rightarrow> nat \<Rightarrow> bool list" where
  "msb_bits 0 c = []"
| "msb_bits (Suc n) c = odd (c div 2 ^ n) # msb_bits n c"

definition canon_bits :: "nat list \<Rightarrow> nat \<Rightarrow> bool list" where
  "canon_bits lens s = msb_bits (lens ! s) (canon_code lens s)"

lemma length_msb_bits [simp]: "length (msb_bits n c) = n"
  by (induction n) auto

lemma length_canon_counts [simp]: "length (canon_counts lens) = 16"
  by (simp add: canon_counts_def)

lemma nth_canon_counts:
  "l < 16 \<Longrightarrow> canon_counts lens ! l = (if l = 0 then 0 else count_list lens l)"
  by (cases l) (simp_all add: canon_counts_def del: upt.simps upt_conv_Cons)

section \<open>Building the tables\<close>

lemma count_lens_Ok:
  assumes "count_lens cs lens = Ok cs'" and "length cs = 16"
    and "\<forall>l < 16. cs ! l + length lens < 2 ^ 16"
  shows "(\<forall>l \<in> set lens. l < 16) \<and> length cs' = 16 \<and>
         (\<forall>l < 16. cs' ! l = cs ! l + count_list lens l)"
  using assms
proof (induction cs lens rule: count_lens.induct)
  case (2 cs l ls)
  have "l < 16" using 2(2) by (simp split: if_splits)
  moreover have "cs ! l + 1 < 2 ^ 16" using 2(4) \<open>l < 16\<close> by force
  moreover have "\<forall>k < 16. cs[l := (cs ! l + 1) mod 2 ^ 16] ! k + length ls < 2 ^ 16"
    using 2(3,4) \<open>l < 16\<close> \<open>cs ! l + 1 < 2 ^ 16\<close> by (auto simp: nth_list_update)
  ultimately show ?case
    using 2 by (auto simp: nth_list_update split: if_splits)
qed auto

lemma kraft_left_Ok:
  assumes "kraft_left cs left = Ok x" and "left = 2 ^ n - int (first_code ds n) - int (ds ! n)"
    and "cs = drop (Suc n) ds" and "n \<le> l" and "l < length ds" and "0 \<le> left"
  shows "int (first_code ds l + ds ! l) \<le> 2 ^ l"
  using assms
proof (induction cs left arbitrary: n rule: kraft_left.induct)
  case (1 left)
  then have "l = n" by simp
  with 1 show ?case by simp
next
  case (2 c cs left)
  show ?case
  proof (cases "l = n")
    case True
    with 2 show ?thesis by simp
  next
    case False
    have n: "Suc n < length ds" and c: "c = ds ! Suc n" and cs: "cs = drop (Suc (Suc n)) ds"
      using 2(4) drop_eq_Cons [of c cs "Suc n" ds] by simp_all
    show ?thesis
      using 2(1) [OF refl, of "Suc n"] 2(2,3,5-) False c cs
      by (simp add: Let_def split: if_splits)
  qed
qed

lemma code_offsets_Ok:
  assumes "code_offsets cs off = Ok os" and "off = first_index ds n" and "cs = drop n ds"
  shows "length os = length cs \<and> (\<forall>i < length cs. os ! i = first_index ds (n + i))"
  using assms
proof (induction cs off arbitrary: n os rule: code_offsets.induct)
  case (2 c cs off)
  then have n: "n < length ds" and c: "c = ds ! n" and cs: "cs = drop (Suc n) ds"
    using drop_eq_Cons [of c cs n ds] by simp_all
  from n c 2(3) have "off + c = first_index ds (Suc n)"
    by (simp add: first_index_def take_Suc_conv_app_nth)
  with 2 cs n show ?case
    by (auto simp: outcome_simps nth_Cons split: if_splits nat.splits)
qed simp


text \<open>The position of a symbol in the table.\<close>

definition symbol_pos :: "nat list \<Rightarrow> nat \<Rightarrow> nat" where
  "symbol_pos lens s = first_index (canon_counts lens) (lens ! s) + rank lens s"

lemma count_list_take_less:
  "s < length lens \<Longrightarrow> count_list (take s lens) (lens ! s) < count_list lens (lens ! s)"
proof -
  assume s: "s < length lens"
  have "count_list lens (lens ! s) =
      count_list (take s lens) (lens ! s) + count_list (drop s lens) (lens ! s)"
    by (metis append_take_drop_id count_list_append)
  with s show ?thesis by (simp add: Cons_nth_drop_Suc [symmetric])
qed

lemma first_index_Suc:
  "n < length cs \<Longrightarrow> first_index cs (Suc n) = first_index cs n + cs ! n"
  by (simp add: first_index_def take_Suc_conv_app_nth)

lemma first_index_mono: "m \<le> n \<Longrightarrow> first_index cs m \<le> first_index cs n"
proof -
  assume "m \<le> n"
  then obtain k where "n = m + k" by (metis le_add_diff_inverse)
  then show ?thesis by (simp add: first_index_def take_add)
qed

lemma rank_less:
  "\<lbrakk>s < length lens; lens ! s \<noteq> 0; lens ! s < 16\<rbrakk> \<Longrightarrow> rank lens s < canon_counts lens ! (lens ! s)"
  by (simp add: rank_def nth_canon_counts count_list_take_less)

lemma symbol_pos_bounds:
  assumes "s < length lens" and "lens ! s \<noteq> 0" and "lens ! s < 16"
  shows "first_index (canon_counts lens) (lens ! s) \<le> symbol_pos lens s"
    and "symbol_pos lens s < first_index (canon_counts lens) (Suc (lens ! s))"
  using rank_less [OF assms] assms by (simp_all add: symbol_pos_def first_index_Suc)

lemma count_list_take_strict:
  assumes "i < j" and "i < length lens" and "lens ! i = l"
  shows "count_list (take i lens) l < count_list (take j lens) l"
proof -
  have "take j lens = take i lens @ take (j - i) (drop i lens)"
    using assms(1) by (metis less_imp_le le_add_diff_inverse take_add)
  moreover have "take (j - i) (drop i lens) = l # take (j - i - 1) (drop (Suc i) lens)"
    using assms by (cases "j - i") (auto simp: Cons_nth_drop_Suc [symmetric])
  ultimately show ?thesis by simp
qed

lemma symbol_pos_inj:
  assumes "i < j" and "j < length lens" and "\<forall>l \<in> set lens. l < 16"
    and "lens ! i \<noteq> 0" and "lens ! j \<noteq> 0"
  shows "symbol_pos lens i \<noteq> symbol_pos lens j"
proof (cases "lens ! i = lens ! j")
  case True
  with count_list_take_strict [of i j lens "lens ! i"] assms show ?thesis
    by (simp add: symbol_pos_def rank_def)
next
  case False
  have li: "lens ! i < 16" and lj: "lens ! j < 16" and i: "i < length lens"
    using assms by auto
  note bi = symbol_pos_bounds [OF i assms(4) li] and bj = symbol_pos_bounds [OF assms(2,5) lj]
  from False consider "Suc (lens ! i) \<le> lens ! j" | "Suc (lens ! j) \<le> lens ! i" by linarith
  then show ?thesis
    using bi bj by cases (auto dest: first_index_mono [where cs = "canon_counts lens"])
qed

lemma sum_list_count_lens:
  assumes "\<forall>l \<in> set lens. l < 16"
  shows "sum_list (canon_counts lens) \<le> length lens"
proof -
  have "sum_list (canon_counts lens) = (\<Sum>l \<in> {1..<16}. count_list lens l)"
    by (simp add: canon_counts_def sum_list_distinct_conv_sum_set del: upt.simps upt_conv_Cons)
  also have "\<dots> \<le> (\<Sum>l \<in> {..<16}. count_list lens l)"
    by (rule sum_mono2) auto
  also have "\<dots> = length lens"
    using assms by (intro sum_count_set) auto
  finally show ?thesis .
qed

lemma first_index_le_sum: "first_index cs n \<le> sum_list cs"
  by (metis append_take_drop_id first_index_def le_add1 sum_list_append)

lemma symbol_pos_less:
  assumes "s < length lens" and "lens ! s \<noteq> 0" and "\<forall>l \<in> set lens. l < 16"
  shows "symbol_pos lens s < length lens"
proof -
  have "lens ! s < 16" using assms by auto
  then have "symbol_pos lens s < first_index (canon_counts lens) (Suc (lens ! s))"
    using symbol_pos_bounds assms by blast
  also have "\<dots> \<le> sum_list (canon_counts lens)" by (rule first_index_le_sum)
  also have "\<dots> \<le> length lens" using assms by (intro sum_list_count_lens) auto
  finally show ?thesis .
qed


definition placed :: "nat list \<Rightarrow> nat \<Rightarrow> nat list \<Rightarrow> nat list \<Rightarrow> bool" where
  "placed lens n offs syms \<longleftrightarrow>
    length offs = 16 \<and> length syms = length lens \<and>
    (\<forall>l < 16. l \<noteq> 0 \<longrightarrow> offs ! l = first_index (canon_counts lens) l + count_list (take n lens) l) \<and>
    (\<forall>s < n. lens ! s \<noteq> 0 \<longrightarrow> syms ! symbol_pos lens s = s)"

lemma place_symbols_Ok:
  assumes "placed lens n offs syms" and "drop n lens = ls" and "length lens < 2 ^ 16"
    and lt: "\<forall>l \<in> set lens. l < 16" and "n \<le> length lens"
  shows "\<exists>syms'. place_symbols n ls offs syms = Ok syms' \<and> length syms' = length lens \<and>
    (\<forall>s < length lens. lens ! s \<noteq> 0 \<longrightarrow> syms' ! symbol_pos lens s = s)"
  using assms
proof (induction ls arbitrary: n offs syms)
  case Nil
  then show ?case by (auto simp: placed_def)
next
  case (Cons l ls)
  have n: "n < length lens" and l: "l = lens ! n" and ls: "ls = drop (Suc n) lens"
    using drop_eq_Cons [of l ls n lens] Cons.prems by auto
  have l16: "l < 16" using lt n l by simp
  have cnt: "count_list (take (Suc n) lens) k = count_list (take n lens) k + (if k = l then 1 else 0)" for k
    using n l by (simp add: take_Suc_conv_app_nth)
  show ?case
  proof (cases "l = 0")
    case True
    then have "placed lens (Suc n) offs syms"
      using Cons.prems(1) l cnt by (auto simp: placed_def less_Suc_eq)
    from Cons.IH [OF this] Cons.prems ls n True show ?thesis by simp
  next
    case False
    have o: "offs ! l = symbol_pos lens n"
      using Cons.prems(1) False l l16 by (simp add: placed_def symbol_pos_def rank_def)
    have pos: "symbol_pos lens n < length lens"
      using symbol_pos_less [OF n] False l lt by simp
    have "\<forall>s < n. lens ! s \<noteq> 0 \<longrightarrow> symbol_pos lens n \<noteq> symbol_pos lens s"
      using symbol_pos_inj [OF _ n lt] False l by metis
    then have "placed lens (Suc n) (offs[l := (offs ! l + 1) mod 2 ^ 16]) (syms[offs ! l := n mod 2 ^ 16])"
      using Cons.prems(1,3) o pos cnt n l16 False
      by (auto simp: placed_def less_Suc_eq nth_list_update)
    from Cons.IH [OF this] Cons.prems ls n False o pos show ?thesis by (simp add: placed_def)
  qed
qed

definition huff_for :: "nat list \<Rightarrow> huff \<Rightarrow> bool" where
  "huff_for lens h \<longleftrightarrow>
    huff_counts h = canon_counts lens \<and> length (huff_symbols h) = length lens \<and>
    (\<forall>l \<in> set lens. l < 16) \<and>
    (\<forall>l < 16. first_code (canon_counts lens) l + canon_counts lens ! l \<le> 2 ^ l) \<and>
    (\<forall>s < length lens. lens ! s \<noteq> 0 \<longrightarrow> huff_symbols h ! symbol_pos lens s = s)"

lemma canon_counts_0 [simp]: "canon_counts lens ! 0 = 0"
  by (simp add: nth_canon_counts)

lemma count_lens_canon:
  assumes "count_lens (replicate 16 0) lens = Ok cs" and "length lens < 2 ^ 16"
  shows "cs[0 := 0] = canon_counts lens \<and> (\<forall>l \<in> set lens. l < 16)"
proof -
  have "(\<forall>l \<in> set lens. l < 16) \<and> length cs = 16 \<and> (\<forall>l < 16. cs ! l = 0 + count_list lens l)"
    using count_lens_Ok [OF assms(1)] assms(2) by auto
  then show ?thesis
    by (auto intro!: nth_equalityI simp: nth_list_update nth_canon_counts)
qed

lemma huff_build_Ok:
  assumes "huff_build lens = Ok h" and len: "length lens < 2 ^ 16"
  shows "huff_for lens h"
proof -
  obtain cs x os syms where
    cs: "count_lens (replicate 16 0) lens = Ok cs" and
    k: "kraft_left (drop 1 (cs[0 := 0])) 1 = Ok x" and
    os: "code_offsets (drop 1 (cs[0 := 0])) 0 = Ok os" and
    syms: "place_symbols 0 lens (0 # os) (replicate (length lens) 0) = Ok syms" and
    h: "h = \<lparr>huff_counts = cs[0 := 0], huff_symbols = syms\<rparr>"
    using assms(1) by (auto simp: huff_build_def Let_def outcome_simps)
  have cc: "cs[0 := 0] = canon_counts lens" and lt: "\<forall>l \<in> set lens. l < 16"
    using count_lens_canon [OF cs len] by auto
  have kraft: "first_code (canon_counts lens) l + canon_counts lens ! l \<le> 2 ^ l" if "l < 16" for l
    using kraft_left_Ok [OF k, where ds = "canon_counts lens" and n = 0 and l = l] that
    by (simp add: cc flip: of_nat_add)
  have o: "length os = 15 \<and> (\<forall>i < 15. os ! i = first_index (canon_counts lens) (Suc i))"
    using code_offsets_Ok [OF os [unfolded cc], of "canon_counts lens" 1]
    by (simp add: first_index_def canon_counts_def)
  have "placed lens 0 (0 # os) (replicate (length lens) 0)"
    using o by (auto simp: placed_def nth_Cons')
  from place_symbols_Ok [OF this _ len lt] syms cc h kraft lt show ?thesis
    by (auto simp: huff_for_def)
qed

lemma count_lens_no_panic: "count_lens cs ls \<noteq> Panic"
  by (induction cs ls rule: count_lens.induct) simp_all

lemma kraft_left_no_panic: "kraft_left cs x \<noteq> Panic"
  by (induction cs x rule: kraft_left.induct) (simp_all add: Let_def)

lemma code_offsets_no_panic: "code_offsets cs x \<noteq> Panic"
  by (induction cs x rule: code_offsets.induct) (simp_all add: outcome_simps)

lemma huff_build_no_panic:
  assumes "length lens < 2 ^ 16"
  shows "huff_build lens \<noteq> Panic"
proof
  assume *: "huff_build lens = Panic"
  obtain cs os where
    cs: "count_lens (replicate 16 0) lens = Ok cs" and
    os: "code_offsets (drop 1 (cs[0 := 0])) 0 = Ok os" and
    p: "place_symbols 0 lens (0 # os) (replicate (length lens) 0) = Panic"
    using * count_lens_no_panic kraft_left_no_panic code_offsets_no_panic
    by (auto simp: huff_build_def Let_def outcome_simps)
  have cc: "cs[0 := 0] = canon_counts lens" and lt: "\<forall>l \<in> set lens. l < 16"
    using count_lens_canon [OF cs assms] by auto
  have o: "length os = 15 \<and> (\<forall>i < 15. os ! i = first_index (canon_counts lens) (Suc i))"
    using code_offsets_Ok [OF os [unfolded cc], of "canon_counts lens" 1]
    by (simp add: first_index_def canon_counts_def)
  have "placed lens 0 (0 # os) (replicate (length lens) 0)"
    using o by (auto simp: placed_def nth_Cons')
  from place_symbols_Ok [OF this _ assms lt] p show False by auto
qed


section \<open>Decoding\<close>

lemma push_or_bit: "push_bit 1 c OR of_bool b = 2 * c + (of_bool b :: int)"
  by (cases b) (simp_all add: or_one_eq push_bit_eq_mult)

lemma uint_of_bool: "uint (of_bool b :: u32) = of_bool b"
  by (cases b) simp_all

lemma push_bit_one: "push_bit 1 c = 2 * (c :: int)"
  by (simp add: push_bit_eq_mult)

lemma huff_walk_bit:
  assumes "len < 16" and "br_read_bit r = Ok (of_bool b, r1)"
    and "2 * code + of_bool b = code1" and "huff_counts h ! len = count"
  shows "huff_walk h len code frst index r =
    (if code1 < frst + int count
     then and_then (index_i32 (huff_symbols h) (index + (code1 - frst))) (\<lambda>symb. Ok (symb, r1))
     else huff_walk h (Suc len) code1 (2 * (frst + int count)) (index + int count) r1)"
  unfolding huff_walk.simps [of h len] assms(2) and_then.simps prod.case Let_def uint_of_bool
    push_or_bit assms(3,4)
  unfolding push_bit_one
  using assms(1) by simp

lemma first_code_gap:
  "l < m \<Longrightarrow> (first_code cs l + cs ! l) * 2 ^ (m - l) \<le> first_code cs m"
proof (induction m)
  case (Suc m)
  show ?case
  proof (cases "l = m")
    case False
    then have "(first_code cs l + cs ! l) * 2 ^ (m - l) \<le> first_code cs m"
      using Suc by simp
    then show ?thesis using Suc.prems False by (simp add: Suc_diff_le)
  qed simp
qed simp

lemma div_step: "2 * (c div 2 ^ Suc n) + of_bool (odd (c div 2 ^ n)) = c div (2::nat) ^ n"
proof -
  have "c div 2 ^ Suc n = (c div 2 ^ n) div 2"
    using div_mult2_eq [of c "2 ^ n" 2] by (simp add: mult.commute)
  then show ?thesis by simp
qed

lemma div_step_inv:
  assumes "c div 2 ^ n = 2 * c0 + of_bool b"
  shows "c div 2 ^ Suc n = c0" and "odd (c div (2::nat) ^ n) \<longleftrightarrow> b"
  using assms div_step [of c n] by (cases b; simp; presburger)+

lemma huff_walk_canonical:
  assumes h: "huff_for lens h" and s: "s < length lens" "lens ! s = L" "L \<noteq> 0"
    and c: "c = canon_code lens s"
    and len: "len + n = Suc L" "n \<noteq> 0" "0 < len" and r: "br_inv r" "br_stream r = msb_bits n c @ rest"
  shows "\<exists>r'. huff_walk h len (int (c div 2 ^ n)) (int (first_code (canon_counts lens) len))
      (int (first_index (canon_counts lens) len)) r = Ok (s, r') \<and> br_inv r' \<and> br_stream r' = rest"
  using len r
proof (induction n arbitrary: len r)
  case (Suc n)
  let ?cs = "canon_counts lens"
  have L16: "L < 16" using h s by (auto simp: huff_for_def)
  with Suc.prems have len16: "len < 16" by simp
  have cnt: "huff_counts h ! len = ?cs ! len" using h by (simp add: huff_for_def)
  obtain r1 where r1: "br_read_bit r = Ok (of_bool (odd (c div 2 ^ n)), r1)" "br_inv r1"
    "br_stream r1 = msb_bits n c @ rest"
    using reader_bit [of r "odd (c div 2 ^ n)" "msb_bits n c @ rest"] Suc.prems(4,5) by auto
  have code1: "2 * int (c div 2 ^ Suc n) + of_bool (odd (c div 2 ^ n)) = int (c div 2 ^ n)"
    using arg_cong [OF div_step [of c n], of int]
    by (simp only: of_nat_add of_nat_mult of_nat_numeral of_nat_of_bool)
  note walk = huff_walk_bit [OF len16 r1(1) code1 cnt]
  show ?case
  proof (cases n)
    case 0
    then have "len = L" using Suc.prems by simp
    moreover have "c = first_code ?cs L + rank lens s" using c s by (simp add: canon_code_def)
    moreover have "rank lens s < ?cs ! L" using rank_less [of s lens] s L16 by simp
    moreover have "int (first_index ?cs L) + (int (first_code ?cs L + rank lens s) - int (first_code ?cs L)) =
        int (symbol_pos lens s)"
      using s by (simp add: symbol_pos_def)
    moreover have "symbol_pos lens s < length lens" "huff_symbols h ! symbol_pos lens s = s"
      "length (huff_symbols h) = length lens"
      using h s symbol_pos_less [of s lens] by (auto simp: huff_for_def)
    ultimately show ?thesis
      unfolding walk using 0 r1 by (simp add: index_i32_def)
  next
    case (Suc m)
    have "len < L" using Suc.prems Suc by simp
    have "L - len = n" using Suc.prems(1) by simp
    with \<open>len < L\<close> have "(first_code ?cs len + ?cs ! len) * 2 ^ n \<le> c"
      using first_code_gap [of len L ?cs] c s(2) by (simp add: canon_code_def)
    then have ge: "first_code ?cs len + ?cs ! len \<le> c div 2 ^ n"
      by (simp add: less_eq_div_iff_mult_less_eq)
    have fi: "first_index ?cs (Suc len) = first_index ?cs len + ?cs ! len"
      using len16 by (intro first_index_Suc) simp
    from Suc.IH [of "Suc len" r1] Suc Suc.prems r1 have
      "\<exists>r'. huff_walk h (Suc len) (int (c div 2 ^ n)) (int (first_code ?cs (Suc len)))
        (int (first_index ?cs (Suc len))) r1 = Ok (s, r') \<and> br_inv r' \<and> br_stream r' = rest"
      by simp
    moreover have "\<not> int (c div 2 ^ n) < int (first_code ?cs len) + int (?cs ! len)"
      using ge by (simp flip: of_nat_add)
    moreover have "int (first_code ?cs (Suc len)) = 2 * (int (first_code ?cs len) + int (?cs ! len))"
      by simp
    ultimately show ?thesis
      by (simp only: walk fi of_nat_add if_False)
  qed
qed simp

lemma huff_decode_canonical:
  assumes "huff_for lens h" and "s < length lens" and "lens ! s \<noteq> 0"
    and "br_inv r" and "br_stream r = canon_bits lens s @ rest"
  shows "\<exists>r'. huff_decode h r = Ok (s, r') \<and> br_inv r' \<and> br_stream r' = rest"
proof -
  let ?cs = "canon_counts lens" and ?L = "lens ! s"
  have L: "?L < 16" using assms by (auto simp: huff_for_def)
  then have "first_code ?cs ?L + ?cs ! ?L \<le> 2 ^ ?L" using assms(1) by (simp add: huff_for_def)
  then have "canon_code lens s < 2 ^ ?L"
    using rank_less [of s lens] assms L by (simp add: canon_code_def)
  then have "canon_code lens s div 2 ^ ?L = 0" by simp
  moreover have "first_code ?cs 1 = 0" "first_index ?cs 1 = 0"
    by (simp_all add: first_index_def take_Suc canon_counts_def)
  ultimately show ?thesis
    using huff_walk_canonical [OF assms(1-2) refl assms(3) refl, of 1 ?L r rest] assms
    by (simp add: huff_decode_def canon_bits_def)
qed


lemma count_list_take_surj:
  "k < count_list xs l \<Longrightarrow> \<exists>s < length xs. xs ! s = l \<and> count_list (take s xs) l = k"
proof (induction xs rule: rev_induct)
  case (snoc x xs)
  show ?case
  proof (cases "k < count_list xs l")
    case True
    with snoc.IH obtain s where "s < length xs" "xs ! s = l" "count_list (take s xs) l = k" by blast
    then show ?thesis by (intro exI [of _ s]) (simp add: nth_append)
  next
    case False
    with snoc.prems show ?thesis
      by (intro exI [of _ "length xs"]) (auto split: if_splits)
  qed
qed simp

lemma huff_symbol_at:
  assumes "huff_for lens h" and "l < 16" and "k < canon_counts lens ! l"
  shows "\<exists>s < length lens. lens ! s = l \<and> l \<noteq> 0 \<and> rank lens s = k \<and>
    first_index (canon_counts lens) l + k < length (huff_symbols h) \<and>
    huff_symbols h ! (first_index (canon_counts lens) l + k) = s"
proof -
  have "l \<noteq> 0" using assms(3) by (metis canon_counts_0 not_less0)
  with assms have "k < count_list lens l" by (simp add: nth_canon_counts)
  then obtain s where s: "s < length lens" "lens ! s = l" "rank lens s = k"
    using count_list_take_surj [of k lens l] by (auto simp: rank_def)
  then have "first_index (canon_counts lens) l + k = symbol_pos lens s"
    by (simp add: symbol_pos_def)
  with s assms(1) \<open>l \<noteq> 0\<close> symbol_pos_less [of s lens] show ?thesis
    by (auto simp: huff_for_def)
qed

text \<open>What a walk from level \<open>len\<close> may return, when \<open>c0\<close> has been read above it.\<close>

definition walk_result ::
  "nat list \<Rightarrow> nat \<Rightarrow> nat \<Rightarrow> bit_reader \<Rightarrow> (nat \<times> bit_reader, inflate_err) outcome \<Rightarrow> bool" where
  "walk_result lens len c0 r res \<longleftrightarrow>
    (case res of
       Panic \<Rightarrow> False
     | Err e \<Rightarrow> e = UnexpectedEof \<or> e = BadCode
     | Ok (s, r') \<Rightarrow> s < length lens \<and> lens ! s \<noteq> 0 \<and> len \<le> lens ! s \<and> br_inv r' \<and>
         canon_code lens s div 2 ^ (Suc (lens ! s) - len) = c0 \<and>
         br_stream r = msb_bits (Suc (lens ! s) - len) (canon_code lens s) @ br_stream r')"

lemma walk_result_step:
  assumes "walk_result lens (Suc len) (2 * c0 + of_bool b) r1 res" and "br_stream r = b # br_stream r1"
  shows "walk_result lens len c0 r res"
proof (cases res)
  case (Ok x)
  obtain s r' where x: "x = (s, r')" by fastforce
  define d where "d = lens ! s - len"
  from assms(1) have "Suc len \<le> lens ! s" by (simp add: walk_result_def Ok x)
  then have d: "Suc (lens ! s) - Suc len = d" "Suc (lens ! s) - len = Suc d" "lens ! s - len = d"
    by (simp_all add: d_def Suc_diff_le)
  from assms(1) have "canon_code lens s div 2 ^ d = 2 * c0 + of_bool b"
    unfolding walk_result_def Ok x outcome.case prod.case d by blast
  from div_step_inv [OF this] assms show ?thesis
    by (simp add: walk_result_def Ok x d del: power_Suc diff_Suc_Suc)
qed (use assms in \<open>auto simp: walk_result_def\<close>)

lemma huff_walk_sound:
  assumes h: "huff_for lens h"
  shows "\<lbrakk>len + n = 16; 0 < len; br_inv r; first_code (canon_counts lens) len \<le> 2 * c0\<rbrakk> \<Longrightarrow>
    walk_result lens len c0 r
      (huff_walk h len (int c0) (int (first_code (canon_counts lens) len))
        (int (first_index (canon_counts lens) len)) r)"
proof (induction n arbitrary: len c0 r)
  case 0
  then show ?case by (simp add: huff_walk.simps [of h 16] walk_result_def)
next
  case (Suc n)
  let ?cs = "canon_counts lens"
  have len16: "len < 16" using Suc.prems by simp
  have cnt: "huff_counts h ! len = ?cs ! len" using h by (simp add: huff_for_def)
  show ?case
  proof (cases "br_stream r")
    case Nil
    then show ?thesis
      using reader_bit_eof Suc.prems len16
      by (simp add: huff_walk.simps [of h len] walk_result_def)
  next
    case (Cons b rest)
    obtain r1 where r1: "br_read_bit r = Ok (of_bool b, r1)" "br_inv r1" "br_stream r1 = rest"
      using reader_bit [OF Suc.prems(3) Cons] by blast
    let ?c1 = "2 * c0 + of_bool b"
    have code1: "2 * int c0 + of_bool b = int ?c1" by simp
    note walk = huff_walk_bit [OF len16 r1(1) code1 cnt]
    have ge: "first_code ?cs len \<le> ?c1" using Suc.prems(4) by simp
    show ?thesis
    proof (cases "?c1 < first_code ?cs len + ?cs ! len")
      case True
      from ge obtain k where kk: "?c1 = first_code ?cs len + k" by (metis le_iff_add)
      with True have k: "k < ?cs ! len" by linarith
      obtain s where s: "s < length lens" "lens ! s = len" "rank lens s = k"
        "first_index ?cs len + k < length (huff_symbols h)"
        "huff_symbols h ! (first_index ?cs len + k) = s"
        using huff_symbol_at [OF h len16 k] by blast
      have "int (first_index ?cs len) + (int ?c1 - int (first_code ?cs len)) = int (first_index ?cs len + k)"
        by (simp only: kk of_nat_add)
      then have "index_i32 (huff_symbols h) (int (first_index ?cs len) + (int ?c1 - int (first_code ?cs len))) =
          (Ok s :: (nat, inflate_err) outcome)"
        by (simp only: index_i32_def nat_int index_or_panic_Ok [OF s(4)] s(5) of_nat_0_le_iff if_True)
      moreover have "int ?c1 < int (first_code ?cs len) + int (?cs ! len)"
        using True by (simp flip: of_nat_add)
      ultimately have "huff_walk h len (int c0) (int (first_code ?cs len)) (int (first_index ?cs len)) r = Ok (s, r1)"
        by (simp only: walk and_then.simps if_True)
      moreover have "canon_code lens s = ?c1" using s kk by (simp add: canon_code_def)
      ultimately show ?thesis
        using s Suc.prems(2) r1 Cons by (simp add: walk_result_def)
    next
      case False
      then have "\<not> int ?c1 < int (first_code ?cs len) + int (?cs ! len)" by (simp flip: of_nat_add)
      moreover have "first_index ?cs (Suc len) = first_index ?cs len + ?cs ! len"
        using len16 by (intro first_index_Suc) simp
      moreover have "int (first_code ?cs (Suc len)) = 2 * (int (first_code ?cs len) + int (?cs ! len))"
        by simp
      ultimately have step: "huff_walk h len (int c0) (int (first_code ?cs len)) (int (first_index ?cs len)) r =
          huff_walk h (Suc len) (int ?c1) (int (first_code ?cs (Suc len))) (int (first_index ?cs (Suc len))) r1"
        by (simp only: walk of_nat_add if_False)
      have "walk_result lens (Suc len) ?c1 r1
          (huff_walk h (Suc len) (int ?c1) (int (first_code ?cs (Suc len))) (int (first_index ?cs (Suc len))) r1)"
        using Suc.prems(1) r1 False by (intro Suc.IH) simp_all
      then show ?thesis
        unfolding step by (rule walk_result_step) (use Cons r1 in simp)
    qed
  qed
qed


lemma huff_decode_sound:
  assumes "huff_for lens h" and "br_inv r"
  shows "huff_decode h r \<noteq> Panic"
    and "huff_decode h r = Ok (s, r') \<Longrightarrow> s < length lens \<and> lens ! s \<noteq> 0 \<and> br_inv r' \<and>
           br_stream r = canon_bits lens s @ br_stream r'"
proof -
  have "first_code (canon_counts lens) 1 = 0" "first_index (canon_counts lens) 1 = 0"
    by (simp_all add: first_index_def take_Suc canon_counts_def)
  then have "walk_result lens 1 0 r (huff_decode h r)"
    using huff_walk_sound [OF assms(1), of 1 15 r 0] assms(2) by (simp add: huff_decode_def)
  then show "huff_decode h r \<noteq> Panic"
    and "huff_decode h r = Ok (s, r') \<Longrightarrow> s < length lens \<and> lens ! s \<noteq> 0 \<and> br_inv r' \<and>
           br_stream r = canon_bits lens s @ br_stream r'"
    by (auto simp: walk_result_def canon_bits_def)
qed

lemma huff_walk_rem:
  "huff_walk h len code frst index r = Ok (s, r') \<Longrightarrow> br_rem r' < br_rem r"
proof (induction h len code frst index r rule: huff_walk.induct)
  case (1 h len code frst index r)
  from "1.prems" obtain b r1 where rd: "len < 16" "br_read_bit r = Ok (b, r1)"
    by (subst (asm) huff_walk.simps) (auto simp: outcome_simps split: if_splits)
  from "1.prems" rd br_read_bit_rem [OF rd(2)] "1.IH" [OF rd refl refl refl] show ?case
    by (auto simp: huff_walk.simps [of h len code frst index r] outcome_simps Let_def split: if_splits)
qed

lemma huff_decode_rem: "huff_decode h r = Ok (s, r') \<Longrightarrow> br_rem r' < br_rem r"
  by (auto simp: huff_decode_def dest: huff_walk_rem)


section \<open>Which length tables are accepted\<close>

lemma first_code_sum:
  "first_code cs n + cs ! n = (\<Sum>k \<le> n. cs ! k * 2 ^ (n - k))"
proof (induction n)
  case (Suc n)
  have "first_code cs (Suc n) + cs ! Suc n = 2 * (\<Sum>k \<le> n. cs ! k * 2 ^ (n - k)) + cs ! Suc n"
    using Suc by simp
  also have "2 * (\<Sum>k \<le> n. cs ! k * 2 ^ (n - k)) = (\<Sum>k \<le> n. cs ! k * 2 ^ (Suc n - k))"
    by (simp add: sum_distrib_left Suc_diff_le ac_simps)
  finally show ?case by simp
qed simp

lemma kraft_monotone:
  assumes "first_code cs m + cs ! m \<le> 2 ^ m" and "l \<le> m"
  shows "first_code cs l + cs ! l \<le> 2 ^ l"
proof (cases "l = m")
  case False
  with assms have "(first_code cs l + cs ! l) * 2 ^ (m - l) \<le> 2 ^ m"
    using first_code_gap [of l m cs] by linarith
  also have "(2::nat) ^ m = 2 ^ l * 2 ^ (m - l)"
    using assms(2) by (simp flip: power_add)
  finally show ?thesis by simp
qed (use assms in simp)

lemma kraft_left_total:
  assumes "cs = drop (Suc n) ds" and "left = 2 ^ n - int (first_code ds n) - int (ds ! n)"
    and "\<forall>l < length ds. first_code ds l + ds ! l \<le> 2 ^ l"
  shows "\<exists>x. kraft_left cs left = Ok x"
  using assms
proof (induction cs left arbitrary: n rule: kraft_left.induct)
  case (2 c cs left)
  from drop_eq_Cons [OF 2(2)] have n: "Suc n < length ds" "c = ds ! Suc n" "cs = drop (Suc (Suc n)) ds"
    by simp_all
  have "int (first_code ds (Suc n) + ds ! Suc n) \<le> int (2 ^ Suc n)"
    using 2(4) n(1) by (metis of_nat_le_iff)
  then show ?case
    using 2(1) [OF refl _ n(3) _ 2(4)] 2(3) n(2) by (simp add: Let_def)
qed simp

lemma code_offsets_total:
  "off + sum_list cs < 2 ^ 16 \<Longrightarrow> \<exists>os. code_offsets cs off = Ok os"
proof (induction cs off rule: code_offsets.induct)
  case (2 c cs off)
  then obtain os where "code_offsets cs (off + c) = Ok os" by auto
  with 2 show ?case by simp
qed simp

lemma count_lens_total:
  "\<forall>l \<in> set lens. l < 16 \<Longrightarrow> \<exists>cs'. count_lens cs lens = Ok cs'"
  by (induction cs lens rule: count_lens.induct) auto

lemma huff_build_kraft_iff:
  assumes "length lens < 2 ^ 16"
  shows "(\<exists>h. huff_build lens = Ok h) \<longleftrightarrow>
      (\<forall>l \<in> set lens. l < 16) \<and> (\<Sum>l \<leftarrow> [1..<16]. count_list lens l * 2 ^ (15 - l)) \<le> 2 ^ 15"
  (is "?ok \<longleftrightarrow> ?lt \<and> ?kraft")
proof -
  let ?cs = "canon_counts lens"
  have sum: "(\<Sum>l \<leftarrow> [1..<16]. count_list lens l * 2 ^ (15 - l)) = first_code ?cs 15 + ?cs ! 15"
  proof -
    have "(\<Sum>l \<leftarrow> [1..<16]. count_list lens l * 2 ^ (15 - l)) = (\<Sum>l \<in> {1..<16}. count_list lens l * 2 ^ (15 - l))"
      by (simp add: sum_list_distinct_conv_sum_set del: upt.simps upt_conv_Cons)
    also have "\<dots> = (\<Sum>l = 1..15. ?cs ! l * 2 ^ (15 - l))"
      by (rule sum.cong) (auto simp: nth_canon_counts)
    also have "\<dots> = (\<Sum>l \<le> 15. ?cs ! l * 2 ^ (15 - l))"
      by (rule sum.mono_neutral_left) (auto simp: not_le less_Suc_eq_le)
    finally show ?thesis by (simp only: first_code_sum)
  qed
  have "?lt \<and> ?kraft" if ?ok
  proof -
    from that obtain h where "huff_for lens h" using huff_build_Ok [OF _ assms] by blast
    then have all: "\<forall>l < 16. first_code ?cs l + ?cs ! l \<le> 2 ^ l" and ?lt
      by (auto simp only: huff_for_def)
    from all have "first_code ?cs 15 + ?cs ! 15 \<le> 2 ^ 15"
      by (rule allE [of _ 15]) simp
    with \<open>?lt\<close> show ?thesis unfolding sum by blast
  qed
  moreover have ?ok if lt: ?lt and kraft: ?kraft
  proof -
    obtain cs where cs: "count_lens (replicate 16 0) lens = Ok cs" using count_lens_total [OF lt] by blast
    have cc: "cs[0 := 0] = ?cs" using count_lens_canon [OF cs assms] by simp
    have "first_code ?cs l + ?cs ! l \<le> 2 ^ l" if "l \<le> 15" for l
      using kraft_monotone [OF _ that] kraft unfolding sum by simp
    then obtain x where k: "kraft_left (drop 1 ?cs) 1 = Ok x"
      using kraft_left_total [of "drop 1 ?cs" 0 ?cs 1] by auto
    have "sum_list (drop 1 ?cs) < 2 ^ 16"
      using sum_list_count_lens [OF lt] assms by (simp add: canon_counts_def)
    then obtain os where os: "code_offsets (drop 1 ?cs) 0 = Ok os"
      using code_offsets_total [of 0 "drop 1 ?cs"] by auto
    have o: "length os = 15 \<and> (\<forall>i < 15. os ! i = first_index ?cs (Suc i))"
      using code_offsets_Ok [OF os, of ?cs 1] by (simp add: first_index_def canon_counts_def)
    have "placed lens 0 (0 # os) (replicate (length lens) 0)"
      using o by (auto simp: placed_def nth_Cons')
    from place_symbols_Ok [OF this _ assms lt] obtain syms where
      "place_symbols 0 lens (0 # os) (replicate (length lens) 0) = Ok syms" by auto
    then show ?thesis
      unfolding huff_build_def cs and_then.simps Let_def cc k os by simp
  qed
  ultimately show ?thesis by blast
qed

text \<open>
  For every table of code lengths shorter than \<open>2 ^ 16\<close>, \<open>Huff::build\<close> succeeds exactly when
  every length is at most 15 and the lengths satisfy the Kraft inequality (the code is not
  oversubscribed); incomplete codes are accepted, and it never panics.
\<close>

theorem huff_build_accepts_kraft:
  assumes "length lens < 2 ^ 16"
  shows "(\<exists>h. huff_build lens = Ok h) \<longleftrightarrow>
      (\<forall>l \<in> set lens. l < 16) \<and> (\<Sum>l \<leftarrow> [1..<16]. count_list lens l * 2 ^ (15 - l)) \<le> 2 ^ 15"
  using huff_build_kraft_iff [OF assms] .

lemma huff_build_accepts_kraft_witness:
  "(\<exists>h. huff_build [1, 2, 2] = Ok h) \<and> \<not> (\<exists>h. huff_build [1, 1, 2] = Ok h)"
  using huff_build_accepts_kraft [of "[1, 2, 2]"] huff_build_accepts_kraft [of "[1, 1, 2]"]
  by (simp add: upt_rec)

text \<open>
  C6: A table built from code lengths decodes exactly the canonical code of RFC 1951 for those
  lengths: on a stream that starts with the canonical code of a symbol it returns that symbol
  and consumes exactly the code, whatever symbol it returns had its code at the head of the
  stream, and no index of the tables is ever out of bounds.
\<close>

theorem huff_decode_exact:
  assumes "huff_build lens = Ok h" and "length lens < 2 ^ 16" and "br_inv r"
  shows "huff_decode h r \<noteq> Panic \<and>
    ((\<exists>r'. huff_decode h r = Ok (s, r') \<and> br_inv r' \<and> br_stream r' = rest) \<longleftrightarrow>
     s < length lens \<and> lens ! s \<noteq> 0 \<and> br_stream r = canon_bits lens s @ rest)"
proof -
  have h: "huff_for lens h" using huff_build_Ok [OF assms(1,2)] .
  from huff_decode_sound [OF h assms(3)] huff_decode_canonical [OF h _ _ assms(3)] show ?thesis
    by metis
qed

lemma huff_decode_exact_witness:
  "\<exists>h r'. huff_build [1, 2, 2] = Ok h \<and> huff_decode h (br_new [1]) = Ok (1, r') \<and>
     br_stream r' = replicate 6 False"
proof -
  have h: "huff_build [1, 2, 2] = Ok \<lparr>huff_counts = [0, 1, 2, 0, 0, 0, 0, 0, 0, 0, 0, 0, 0, 0, 0, 0],
      huff_symbols = [0, 1, 2]\<rparr>"
    by code_simp
  have "br_stream (br_new [1]) = canon_bits [1, 2, 2] 1 @ replicate 6 False"
    by code_simp
  with huff_decode_exact [OF h, of "br_new [1]" 1 "replicate 6 False"] h show ?thesis by auto
qed

end
