(* ===== verification/Inflate.thy ===== *)
theory Inflate
  imports Huffman
begin

text \<open>
  The DEFLATE decoder of \<open>inflate.rs\<close>: the three block types, \<open>inflate_raw\<close> and the zlib
  wrapper.  The functions thread the reader and the output vector; on an error the partial
  output is dropped, as every caller does.  Every index the code takes is checked in the model,
  so that a panic would be visible as the outcome \<open>Panic\<close>.
\<close>

section \<open>Tables\<close>

definition max_inflate_size :: nat where
  "max_inflate_size = 1024 * 1024"

definition len_base :: "nat list" where
  "len_base =
    [3, 4, 5, 6, 7, 8, 9, 10, 11, 13, 15, 17, 19, 23, 27, 31, 35, 43, 51, 59, 67, 83, 99, 115, 131,
     163, 195, 227, 258]"

definition len_xtra :: "nat list" where
  "len_xtra =
    [0, 0, 0, 0, 0, 0, 0, 0, 1, 1, 1, 1, 2, 2, 2, 2, 3, 3, 3, 3, 4, 4, 4, 4, 5, 5, 5, 5, 0]"

definition dist_base :: "nat list" where
  "dist_base =
    [1, 2, 3, 4, 5, 7, 9, 13, 17, 25, 33, 49, 65, 97, 129, 193, 257, 385, 513, 769, 1025, 1537,
     2049, 3073, 4097, 6145, 8193, 12289, 16385, 24577]"

definition dist_xtra :: "nat list" where
  "dist_xtra =
    [0, 0, 0, 0, 1, 1, 2, 2, 3, 3, 4, 4, 5, 5, 6, 6, 7, 7, 8, 8, 9, 9, 10, 10, 11, 11, 12, 12, 13,
     13]"

definition cl_order :: "nat list" where
  "cl_order = [16, 17, 18, 0, 8, 7, 9, 6, 10, 5, 11, 4, 12, 3, 13, 2, 14, 1, 15]"

definition fixed_ll_lens :: "nat list" where
  "fixed_ll_lens =
    map (\<lambda>i. if i \<le> 143 then 8 else if i \<le> 255 then 9 else if i \<le> 279 then 7 else 8) [0..<288]"

definition fixed_dist_lens :: "nat list" where
  "fixed_dist_lens = replicate 30 5"

section \<open>Stored blocks\<close>

definition read_u16_le :: "bit_reader \<Rightarrow> (u16 \<times> bit_reader, inflate_err) outcome" where
  "read_u16_le r =
    and_then (br_read 8 r) (\<lambda>(lo, r1).
      and_then (br_read 8 r1) (\<lambda>(hi, r2).
        Ok (push_bit 8 (ucast hi) OR ucast lo, r2)))"

fun copy_stored :: "nat \<Rightarrow> bit_reader \<Rightarrow> bytes \<Rightarrow> (bit_reader \<times> bytes, inflate_err) outcome" where
  "copy_stored 0 r out = Ok (r, out)"
| "copy_stored (Suc n) r out =
    (if length out \<ge> max_inflate_size then Err MaxSizeExceeded
     else and_then (br_read 8 r) (\<lambda>(b, r1). copy_stored n r1 (out @ [ucast b])))"

definition decode_stored :: "bit_reader \<Rightarrow> bytes \<Rightarrow> (bit_reader \<times> bytes, inflate_err) outcome" where
  "decode_stored r out =
    and_then (read_u16_le (br_align_byte r)) (\<lambda>(len, r1).
      and_then (read_u16_le r1) (\<lambda>(nlen, r2).
        if unat len \<noteq> unat (NOT nlen) then Err InvalidData
        else copy_stored (unat len) r2 out))"

section \<open>Huffman blocks\<close>

definition read_extra :: "nat \<Rightarrow> bit_reader \<Rightarrow> (nat \<times> bit_reader, inflate_err) outcome" where
  "read_extra n r =
    (if n > 0 then and_then (br_read n r) (\<lambda>(v, r1). Ok (unat v, r1)) else Ok (0, r))"

definition decode_length :: "nat \<Rightarrow> bit_reader \<Rightarrow> (nat \<times> bit_reader, inflate_err) outcome" where
  "decode_length s r =
    and_then (index_or_panic len_base (s - 257)) (\<lambda>base.
      and_then (index_or_panic len_xtra (s - 257)) (\<lambda>lex.
        and_then (read_extra lex r) (\<lambda>(x, r1). Ok (base + x, r1))))"

definition decode_distance :: "huff \<Rightarrow> bit_reader \<Rightarrow> (nat \<times> bit_reader, inflate_err) outcome" where
  "decode_distance dist r =
    and_then (huff_decode dist r) (\<lambda>(ds, r1).
      if ds > 29 then Err InvalidData
      else and_then (index_or_panic dist_base ds) (\<lambda>base.
             and_then (index_or_panic dist_xtra ds) (\<lambda>dex.
               and_then (read_extra dex r1) (\<lambda>(x, r2). Ok (base + x, r2)))))"

text \<open>The copy loop: \<open>i\<close> is \<open>start + copied\<close>, the number is what is left to copy.\<close>

fun copy_match :: "nat \<Rightarrow> nat \<Rightarrow> bytes \<Rightarrow> (bytes, inflate_err) outcome" where
  "copy_match i 0 out = Ok out"
| "copy_match i (Suc n) out =
    (if length out \<ge> max_inflate_size then Err MaxSizeExceeded
     else and_then (index_or_panic out i) (\<lambda>b. copy_match (i + 1) n (out @ [b])))"

lemma read_extra_rem: "read_extra n r = Ok (v, r') \<Longrightarrow> br_rem r' \<le> br_rem r"
  by (auto simp: read_extra_def outcome_simps split: if_splits dest: br_read_rem)

lemma decode_length_rem: "decode_length s r = Ok (v, r') \<Longrightarrow> br_rem r' \<le> br_rem r"
  by (auto simp: decode_length_def outcome_simps dest: read_extra_rem)

lemma decode_distance_rem: "decode_distance d r = Ok (v, r') \<Longrightarrow> br_rem r' \<le> br_rem r"
  by (auto simp: decode_distance_def outcome_simps split: if_splits
      dest!: read_extra_rem huff_decode_rem)

function decode_huffman_block ::
  "huff \<Rightarrow> huff \<Rightarrow> bit_reader \<Rightarrow> bytes \<Rightarrow> (bit_reader \<times> bytes, inflate_err) outcome" where
  "decode_huffman_block ll dist r out =
    and_then (huff_decode ll r) (\<lambda>(s, r1).
      if s < 256
      then if length out \<ge> max_inflate_size then Err MaxSizeExceeded
           else decode_huffman_block ll dist r1 (out @ [of_nat s])
      else if s = 256 then Ok (r1, out)
      else if s > 285 then Err InvalidData
      else and_then (decode_length s r1) (\<lambda>(len, r2).
             and_then (decode_distance dist r2) (\<lambda>(distance, r3).
               if distance = 0 \<or> distance > length out then Err BadDistance
               else and_then (copy_match (length out - distance) len out) (\<lambda>out1.
                      decode_huffman_block ll dist r3 out1))))"
  by auto
termination
  by (relation "measure (\<lambda>(_, _, r, _). br_rem r)")
    (auto dest!: huff_decode_rem decode_length_rem decode_distance_rem)

declare decode_huffman_block.simps [simp del]

section \<open>Dynamic tables\<close>

fun read_cl_lens :: "nat list \<Rightarrow> nat list \<Rightarrow> bit_reader \<Rightarrow> (nat list \<times> bit_reader, inflate_err) outcome" where
  "read_cl_lens [] cl r = Ok (cl, r)"
| "read_cl_lens (i # is) cl r =
    and_then (br_read 3 r) (\<lambda>(v, r1). read_cl_lens is (cl[i := unat v]) r1)"

fun set_run :: "nat list \<Rightarrow> nat \<Rightarrow> nat \<Rightarrow> nat \<Rightarrow> nat list" where
  "set_run lens i 0 v = lens"
| "set_run lens i (Suc n) v = set_run (lens[i := v]) (i + 1) n v"

function read_code_lens ::
  "huff \<Rightarrow> nat \<Rightarrow> nat \<Rightarrow> nat list \<Rightarrow> bit_reader \<Rightarrow> (nat list \<times> bit_reader, inflate_err) outcome" where
  "read_code_lens cl tot i lens r =
    (if i < tot
     then and_then (huff_decode cl r) (\<lambda>(s, r1).
       if s \<le> 15 then read_code_lens cl tot (i + 1) (lens[i := s]) r1
       else if s = 16
       then if i = 0 then Err InvalidData
            else and_then (index_or_panic lens (i - 1)) (\<lambda>prv.
                   and_then (br_read 2 r1) (\<lambda>(v, r2).
                     let rep = unat v + 3
                     in if i + rep > tot then Err InvalidData
                        else read_code_lens cl tot (i + rep) (set_run lens i rep prv) r2))
       else if s = 17
       then and_then (br_read 3 r1) (\<lambda>(v, r2).
              let rep = unat v + 3
              in if i + rep > tot then Err InvalidData
                 else read_code_lens cl tot (i + rep) lens r2)
       else if s = 18
       then and_then (br_read 7 r1) (\<lambda>(v, r2).
              let rep = unat v + 11
              in if i + rep > tot then Err InvalidData
                 else read_code_lens cl tot (i + rep) lens r2)
       else Err InvalidData)
     else Ok (lens, r))"
  by auto
termination by (relation "measure (\<lambda>(_, tot, i, _, _). tot - i)") auto

declare read_code_lens.simps [simp del]

definition build_dynamic :: "bit_reader \<Rightarrow> ((huff \<times> huff) \<times> bit_reader, inflate_err) outcome" where
  "build_dynamic r =
    and_then (br_read 5 r) (\<lambda>(v1, r1).
    and_then (br_read 5 r1) (\<lambda>(v2, r2).
    and_then (br_read 4 r2) (\<lambda>(v3, r3).
      let hlit = unat v1 + 257; hdist = unat v2 + 1; hclen = unat v3 + 4
      in if hlit > 286 \<or> hdist > 30 then Err InvalidData
         else and_then (read_cl_lens (take hclen cl_order) (replicate 19 0) r3) (\<lambda>(cl_lens, r4).
              and_then (huff_build cl_lens) (\<lambda>cl_huff.
              let tot = hlit + hdist
              in and_then (read_code_lens cl_huff tot 0 (replicate tot 0) r4) (\<lambda>(lens, r5).
                 and_then (huff_build (take hlit lens)) (\<lambda>ll.
                 and_then (huff_build (take (tot - hlit) (drop hlit lens))) (\<lambda>dist.
                   Ok ((ll, dist), r5)))))))))"


section \<open>Entry points\<close>

lemma copy_stored_rem: "copy_stored n r out = Ok (r', out') \<Longrightarrow> br_rem r' \<le> br_rem r"
proof (induction n arbitrary: r out)
  case (Suc n)
  from Suc.prems show ?case
    by (auto simp: outcome_simps split: if_splits dest!: Suc.IH br_read_rem)
qed simp

lemma decode_stored_rem: "decode_stored r out = Ok (r', out') \<Longrightarrow> br_rem r' \<le> br_rem r"
  using br_align_rem [of r]
  by (fastforce simp: decode_stored_def read_u16_le_def outcome_simps split: if_splits
      dest!: copy_stored_rem br_read_rem)

lemma decode_huffman_block_rem:
  "decode_huffman_block ll dist r out = Ok (r', out') \<Longrightarrow> br_rem r' \<le> br_rem r"
proof (induction "br_rem r" arbitrary: r out rule: less_induct)
  case less
  from less.prems show ?case
    by (auto simp: decode_huffman_block.simps [of ll dist r] outcome_simps split: if_splits
        dest!: less.hyps [rotated] huff_decode_rem decode_length_rem decode_distance_rem)
qed

lemma read_cl_lens_rem: "read_cl_lens is cl r = Ok (ls, r') \<Longrightarrow> br_rem r' \<le> br_rem r"
proof (induction "is" arbitrary: cl r)
  case (Cons i "is")
  from Cons.prems show ?case
    by (auto simp: outcome_simps dest!: Cons.IH br_read_rem)
qed simp

lemma read_code_lens_rem:
  "read_code_lens cl tot i lens r = Ok (ls, r') \<Longrightarrow> br_rem r' \<le> br_rem r"
proof (induction "br_rem r" arbitrary: i lens r rule: less_induct)
  case less
  from less.prems show ?case
    by (auto simp: read_code_lens.simps [of cl tot i] outcome_simps Let_def split: if_splits
        dest!: less.hyps [rotated] huff_decode_rem br_read_rem)
qed

lemma build_dynamic_rem: "build_dynamic r = Ok (hs, r') \<Longrightarrow> br_rem r' \<le> br_rem r"
  by (force simp: build_dynamic_def outcome_simps Let_def split: if_splits
      dest!: br_read_rem read_cl_lens_rem read_code_lens_rem)

definition decode_block :: "u32 \<Rightarrow> bit_reader \<Rightarrow> bytes \<Rightarrow> (bit_reader \<times> bytes, inflate_err) outcome" where
  "decode_block btype r out =
    (if btype = 0 then decode_stored r out
     else if btype = 1
     then and_then (huff_build fixed_ll_lens) (\<lambda>ll.
            and_then (huff_build fixed_dist_lens) (\<lambda>dist.
              decode_huffman_block ll dist r out))
     else if btype = 2
     then and_then (build_dynamic r) (\<lambda>((ll, dist), r1). decode_huffman_block ll dist r1 out)
     else Err InvalidData)"

lemma decode_block_rem: "decode_block t r out = Ok (r', out') \<Longrightarrow> br_rem r' \<le> br_rem r"
  by (force simp: decode_block_def outcome_simps split: if_splits
      dest!: decode_stored_rem decode_huffman_block_rem build_dynamic_rem)

function inflate_loop :: "bit_reader \<Rightarrow> bytes \<Rightarrow> (bytes, inflate_err) outcome" where
  "inflate_loop r out =
    and_then (br_read 1 r) (\<lambda>(bfinal, r1).
      and_then (br_read 2 r1) (\<lambda>(btype, r2).
        and_then (decode_block btype r2 out) (\<lambda>(r3, out1).
          if length out1 > max_inflate_size then Err MaxSizeExceeded
          else if bfinal = 1 then Ok out1
          else inflate_loop r3 out1)))"
  by auto
termination
  by (relation "measure (\<lambda>(r, _). br_rem r)") (auto dest!: br_read_rem decode_block_rem)

declare inflate_loop.simps [simp del]

definition inflate_raw :: "bytes \<Rightarrow> bytes \<Rightarrow> (bytes, inflate_err) outcome" where
  "inflate_raw input out = inflate_loop (br_new input) out"

text \<open>The checksum of the zlib trailer: computed, compared, and the comparison ignored.\<close>

fun adler_loop :: "bytes \<Rightarrow> u32 \<Rightarrow> u32 \<Rightarrow> u32 \<times> u32" where
  "adler_loop [] s1 s2 = (s1, s2)"
| "adler_loop (b # bs) s1 s2 =
    (let s1' = (s1 + ucast b) mod 65521; s2' = (s2 + s1') mod 65521
     in adler_loop bs s1' s2')"

definition adler32 :: "bytes \<Rightarrow> u32" where
  "adler32 data = (let (s1, s2) = adler_loop data 1 0 in push_bit 16 s2 OR s1)"

definition u32_from_be_bytes :: "u8 \<Rightarrow> u8 \<Rightarrow> u8 \<Rightarrow> u8 \<Rightarrow> u32" where
  "u32_from_be_bytes a b c d =
    push_bit 24 (ucast a) OR push_bit 16 (ucast b) OR push_bit 8 (ucast c) OR ucast d"

definition verify_adler32 :: "bytes \<Rightarrow> bytes \<Rightarrow> (unit, inflate_err) outcome" where
  "verify_adler32 data trailer =
    (if length trailer < 4 then Err UnexpectedEof
     else if u32_from_be_bytes (trailer ! 0) (trailer ! 1) (trailer ! 2) (trailer ! 3) = adler32 data
     then Ok () else Err InvalidData)"

definition inflate_zlib :: "bytes \<Rightarrow> bytes \<Rightarrow> (bytes, inflate_err) outcome" where
  "inflate_zlib input out =
    (if length input < 6 then Err UnexpectedEof
     else let cmf = input ! 0; flg = input ! 1
       in if cmf AND 0x0F \<noteq> 8 \<or> drop_bit 4 cmf > 7 \<or>
             (push_bit 8 (ucast cmf) OR ucast flg :: u16) mod 31 \<noteq> 0
          then Err InvalidData
          else if flg AND 0x20 \<noteq> 0 then Err InvalidData
          else and_then (inflate_raw (take (length input - 4 - 2) (drop 2 input)) out) (\<lambda>out1.
                 let ignored = verify_adler32 out1 (drop (length input - 4) input)
                 in Ok out1))"


section \<open>Safety on every input\<close>

lemma br_read_ensures:
  "\<lbrakk>br_inv r; n \<le> 16\<rbrakk> \<Longrightarrow> ensures (br_read n r) (\<lambda>(v, r'). br_inv r' \<and> br_rem r' \<le> br_rem r)"
  using reader.rd_Ok_iff [of r n] by (fastforce simp: ensures_iff dest: br_read_rem)

lemma huff_build_ensures: "length lens < 2 ^ 16 \<Longrightarrow> ensures (huff_build lens) (huff_for lens)"
  by (simp add: ensures_iff huff_build_no_panic huff_build_Ok)

lemma huff_decode_ensures:
  "\<lbrakk>huff_for lens h; br_inv r\<rbrakk> \<Longrightarrow>
    ensures (huff_decode h r) (\<lambda>(s, r'). br_inv r' \<and> s < length lens \<and> br_rem r' < br_rem r)"
  using huff_decode_sound [of lens h r] by (fastforce simp: ensures_iff dest: huff_decode_rem)

lemma read_extra_ensures:
  "\<lbrakk>br_inv r; n \<le> 16\<rbrakk> \<Longrightarrow> ensures (read_extra n r) (\<lambda>(v, r'). br_inv r' \<and> br_rem r' \<le> br_rem r)"
  by (auto simp: read_extra_def intro!: ensures_and_then [OF br_read_ensures] dest: br_read_rem)

lemma tables_bounded:
  "i < 29 \<Longrightarrow> i < length len_base \<and> i < length len_xtra \<and> len_xtra ! i \<le> 16"
  "j < 30 \<Longrightarrow> j < length dist_base \<and> j < length dist_xtra \<and> dist_xtra ! j \<le> 16"
proof -
  have "list_all (\<lambda>x. x \<le> 16) len_xtra" "list_all (\<lambda>x. x \<le> 16) dist_xtra"
    by (simp_all add: len_xtra_def dist_xtra_def)
  moreover have "length len_base = 29" "length len_xtra = 29" "length dist_base = 30" "length dist_xtra = 30"
    by (simp_all add: len_base_def len_xtra_def dist_base_def dist_xtra_def)
  ultimately show "i < 29 \<Longrightarrow> i < length len_base \<and> i < length len_xtra \<and> len_xtra ! i \<le> 16"
    "j < 30 \<Longrightarrow> j < length dist_base \<and> j < length dist_xtra \<and> dist_xtra ! j \<le> 16"
    by (simp_all add: list_all_length)
qed

lemma decode_length_ensures:
  "\<lbrakk>br_inv r; 257 \<le> s; s \<le> 285\<rbrakk> \<Longrightarrow>
    ensures (decode_length s r) (\<lambda>(v, r'). br_inv r' \<and> br_rem r' \<le> br_rem r)"
  using tables_bounded(1) [of "s - 257"]
  by (auto simp: decode_length_def intro!: ensures_and_then [OF read_extra_ensures])

lemma decode_distance_ensures:
  "\<lbrakk>huff_for lens h; br_inv r\<rbrakk> \<Longrightarrow>
    ensures (decode_distance h r) (\<lambda>(v, r'). br_inv r' \<and> br_rem r' \<le> br_rem r)"
  using tables_bounded(2)
  by (auto simp: decode_distance_def not_less
      intro!: ensures_and_then [OF huff_decode_ensures] ensures_and_then [OF read_extra_ensures])

lemma copy_match_ensures:
  "i < length out \<Longrightarrow> ensures (copy_match i n out) (\<lambda>o'. prefix out o' \<and> length o' = length out + n \<and>
     (length out \<le> max_inflate_size \<longrightarrow> length o' \<le> max_inflate_size))"
proof (induction n arbitrary: i out)
  case (Suc n)
  show ?case
    using Suc.prems
    by (auto simp: nth_append intro!: ensures_weaken [OF Suc.IH] dest: append_prefixD)
qed simp


text \<open>What a decoder may do to the output vector.\<close>

definition grown :: "bytes \<Rightarrow> bytes \<Rightarrow> bool" where
  "grown out o' \<longleftrightarrow> prefix out o' \<and> (length out \<le> max_inflate_size \<longrightarrow> length o' \<le> max_inflate_size)"

lemma grown_refl [simp]: "grown out out"
  by (simp add: grown_def)

lemma grown_trans: "\<lbrakk>grown a b; grown b c\<rbrakk> \<Longrightarrow> grown a c"
  by (auto simp: grown_def intro: prefix_order.trans)

lemma grown_snoc: "length out < max_inflate_size \<Longrightarrow> grown out (out @ [b])"
  by (simp add: grown_def)

abbreviation stepped :: "bit_reader \<Rightarrow> bytes \<Rightarrow> bit_reader \<times> bytes \<Rightarrow> bool" where
  "stepped r out \<equiv> \<lambda>(r', o'). br_inv r' \<and> grown out o'"

lemma stepped_grown: "\<lbrakk>stepped r1 out1 x; grown out out1\<rbrakk> \<Longrightarrow> stepped r out x"
  by (auto intro: grown_trans)

lemma copy_stored_ensures: "br_inv r \<Longrightarrow> ensures (copy_stored n r out) (stepped r out)"
proof (induction n arbitrary: r out)
  case (Suc n)
  then show ?case
    by (auto simp: not_le intro!: ensures_and_then [OF br_read_ensures]
        ensures_weaken [OF Suc.IH] grown_snoc intro: grown_trans)
qed simp

lemma read_u16_le_ensures: "br_inv r \<Longrightarrow> ensures (read_u16_le r) (\<lambda>(v, r'). br_inv r')"
  by (auto simp: read_u16_le_def intro!: ensures_and_then [OF br_read_ensures])

lemma decode_stored_ensures: "br_inv r \<Longrightarrow> ensures (decode_stored r out) (stepped r out)"
  using br_align_spec [of r]
  by (auto simp: decode_stored_def intro!: ensures_and_then [OF read_u16_le_ensures]
      ensures_weaken [OF copy_stored_ensures])

lemma decode_huffman_block_ensures:
  assumes "huff_for lls ll" and "huff_for dls dist"
  shows "br_inv r \<Longrightarrow> ensures (decode_huffman_block ll dist r out) (stepped r out)"
proof (induction "br_rem r" arbitrary: r out rule: less_induct)
  case less
  have rec: "ensures (decode_huffman_block ll dist r1 out1) (stepped r out)"
    if "br_inv r1" "br_rem r1 < br_rem r" "grown out out1" for r1 out1
    using less.hyps [OF that(2,1), of out1] that(3)
    by (auto elim!: ensures_weaken intro: grown_trans)
  have copied: "ensures (copy_match (length out - d) n out) (grown out)"
    if "d \<noteq> 0" "d \<le> length out" for d n
    by (rule ensures_weaken [OF copy_match_ensures]) (use that in \<open>auto simp: grown_def\<close>)
  show ?case
    unfolding decode_huffman_block.simps [of ll dist r]
    using less.prems
    by (auto simp: not_le not_less intro!: ensures_and_then [OF huff_decode_ensures [OF assms(1)]]
        ensures_and_then [OF decode_length_ensures] ensures_and_then [OF decode_distance_ensures [OF assms(2)]]
        ensures_and_then [OF copied] rec grown_snoc)
qed

lemma read_cl_lens_ensures:
  "br_inv r \<Longrightarrow> ensures (read_cl_lens is cl r) (\<lambda>(ls, r'). br_inv r' \<and> length ls = length cl)"
proof (induction "is" arbitrary: cl r)
  case (Cons i "is")
  then show ?case
    by (auto intro!: ensures_and_then [OF br_read_ensures] ensures_weaken [OF Cons.IH])
qed simp

lemma length_set_run [simp]: "length (set_run lens i n v) = length lens"
  by (induction lens i n v rule: set_run.induct) auto

lemma read_code_lens_ensures:
  assumes "huff_for lens0 cl"
  shows "\<lbrakk>br_inv r; length lens = tot\<rbrakk> \<Longrightarrow>
    ensures (read_code_lens cl tot i lens r) (\<lambda>(ls, r'). br_inv r' \<and> length ls = tot)"
proof (induction "br_rem r" arbitrary: i lens r rule: less_induct)
  case less
  have rec: "ensures (read_code_lens cl (length lens) i1 lens1 r1)
      (\<lambda>(ls, r'). br_inv r' \<and> length ls = length lens)"
    if "br_inv r1" "br_rem r1 < br_rem r" "length lens1 = length lens" for i1 lens1 r1
    using less.hyps [OF that(2,1)] that(3) less.prems(2) by simp
  show ?case
    unfolding read_code_lens.simps [of cl tot i]
    using less.prems
    by (auto simp: Let_def intro!: ensures_and_then [OF huff_decode_ensures [OF assms]]
        ensures_and_then [OF br_read_ensures] ensures_index ensures_and_then [OF ensures_index] rec
        dest: br_read_rem)
qed


lemma build_dynamic_ensures:
  "br_inv r \<Longrightarrow> ensures (build_dynamic r) (\<lambda>((ll, dist), r').
     br_inv r' \<and> (\<exists>lls dls. huff_for lls ll \<and> huff_for dls dist))"
  by (auto simp: build_dynamic_def Let_def
      intro!: ensures_and_then [OF br_read_ensures] ensures_and_then [OF read_cl_lens_ensures]
        ensures_and_then [OF huff_build_ensures] ensures_and_then [OF read_code_lens_ensures]
        exI [where P = "\<lambda>ls. huff_for ls h" for h])


lemma length_fixed_lens [simp]: "length fixed_ll_lens = 288" "length fixed_dist_lens = 30"
  by (simp_all add: fixed_ll_lens_def fixed_dist_lens_def)

lemma decode_block_ensures: "br_inv r \<Longrightarrow> ensures (decode_block t r out) (stepped r out)"
  using huff_build_ensures [of fixed_ll_lens] huff_build_ensures [of fixed_dist_lens]
  by (auto simp: decode_block_def intro!: decode_stored_ensures
      ensures_and_then [OF build_dynamic_ensures]
      ensures_and_then [where m = "huff_build fixed_ll_lens"]
      ensures_and_then [where m = "huff_build fixed_dist_lens"]
      intro: decode_huffman_block_ensures)

lemma inflate_loop_ensures:
  "br_inv r \<Longrightarrow> ensures (inflate_loop r out) (\<lambda>o'. prefix out o' \<and> length o' \<le> max_inflate_size)"
proof (induction "br_rem r" arbitrary: r out rule: less_induct)
  case less
  have rec: "ensures (inflate_loop r1 out1) (\<lambda>o'. prefix out o' \<and> length o' \<le> max_inflate_size)"
    if "br_inv r1" "br_rem r1 < br_rem r" "grown out out1" for r1 out1
    using less.hyps [OF that(2,1), of out1] that(3)
    by (auto simp: grown_def elim!: ensures_weaken intro: prefix_order.trans)
  show ?case
    unfolding inflate_loop.simps [of r]
    using less.prems
    by (auto intro!: ensures_and_then [OF br_read_ensures] ensures_and_then [OF decode_block_ensures] rec
        simp: grown_def dest!: decode_block_rem br_read_rem)
qed



end
