(* ===== verification/InflateSpec.thy ===== *)
theory InflateSpec
  imports Inflate
begin

text \<open>
  What a DEFLATE block means (RFC 1951, sections 3.2.3 to 3.2.5), stated over bit lists and
  symbol lists, and the proof that the decoder of \<open>inflate.rs\<close> implements it: a Huffman block
  is decoded exactly when its bits are the code of a valid symbol sequence, and a stored block
  is copied verbatim.
\<close>

section \<open>Symbol sequences\<close>

text \<open>
  \<open>Copy li lx di dx\<close>: length symbol \<open>257 + li\<close> with extra value \<open>lx\<close>, distance symbol \<open>di\<close>
  with extra value \<open>dx\<close>.
\<close>

datatype lz_symbol = Lit u8 | Copy nat nat nat nat

fun lz_copy :: "nat \<Rightarrow> nat \<Rightarrow> bytes \<Rightarrow> bytes" where
  "lz_copy dist 0 out = out"
| "lz_copy dist (Suc n) out = lz_copy dist n (out @ [out ! (length out - dist)])"

text \<open>A symbol that the tables can express and the output allows.\<close>

fun symbol_ok :: "bytes \<Rightarrow> lz_symbol \<Rightarrow> bool" where
  "symbol_ok out (Lit b) \<longleftrightarrow> length out < max_inflate_size"
| "symbol_ok out (Copy li lx di dx) \<longleftrightarrow>
    li < 29 \<and> lx < 2 ^ (len_xtra ! li) \<and> di < 30 \<and> dx < 2 ^ (dist_xtra ! di) \<and>
    dist_base ! di + dx \<le> length out \<and> length out + (len_base ! li + lx) \<le> max_inflate_size"

fun apply_symbol :: "bytes \<Rightarrow> lz_symbol \<Rightarrow> bytes" where
  "apply_symbol out (Lit b) = out @ [b]"
| "apply_symbol out (Copy li lx di dx) = lz_copy (dist_base ! di + dx) (len_base ! li + lx) out"

fun symbols_ok :: "bytes \<Rightarrow> lz_symbol list \<Rightarrow> bool" where
  "symbols_ok out [] \<longleftrightarrow> True"
| "symbols_ok out (s # ss) \<longleftrightarrow> symbol_ok out s \<and> symbols_ok (apply_symbol out s) ss"

definition lz_expand :: "bytes \<Rightarrow> lz_symbol list \<Rightarrow> bytes" where
  "lz_expand out ss = foldl apply_symbol out ss"

text \<open>The bits of a symbol under two tables of code lengths.\<close>

fun symbol_bits :: "nat list \<Rightarrow> nat list \<Rightarrow> lz_symbol \<Rightarrow> bool list" where
  "symbol_bits lls dls (Lit b) = canon_bits lls (unat b)"
| "symbol_bits lls dls (Copy li lx di dx) =
    canon_bits lls (257 + li) @ low_bits (len_xtra ! li) (of_nat lx :: u32) @
    canon_bits dls di @ low_bits (dist_xtra ! di) (of_nat dx :: u32)"

fun symbol_coded :: "nat list \<Rightarrow> nat list \<Rightarrow> lz_symbol \<Rightarrow> bool" where
  "symbol_coded lls dls (Lit b) \<longleftrightarrow> unat b < length lls \<and> lls ! unat b \<noteq> 0"
| "symbol_coded lls dls (Copy li lx di dx) \<longleftrightarrow>
    257 + li < length lls \<and> lls ! (257 + li) \<noteq> 0 \<and> di < length dls \<and> dls ! di \<noteq> 0"

definition block_bits :: "nat list \<Rightarrow> nat list \<Rightarrow> lz_symbol list \<Rightarrow> bool list" where
  "block_bits lls dls ss = concat (map (symbol_bits lls dls) ss) @ canon_bits lls 256"

lemma block_bits_simps:
  "block_bits lls dls [] = canon_bits lls 256"
  "block_bits lls dls (s # ss) = symbol_bits lls dls s @ block_bits lls dls ss"
  by (simp_all add: block_bits_def)

section \<open>Fields\<close>

lemma take_bit_of_nat_small:
  "n < 2 ^ k \<Longrightarrow> take_bit k (of_nat n :: u32) = of_nat n"
  by (metis take_bit_nat_eq_self take_bit_of_nat)

lemma unat_of_nat_small:
  assumes "n < 2 ^ k" and "k \<le> 16"
  shows "unat (of_nat n :: u32) = n"
proof -
  have "(2::nat) ^ k \<le> 2 ^ 16" using assms(2) by (rule power_increasing) simp
  with assms(1) have "n < 2 ^ 32" by simp
  then show ?thesis by (simp add: unat_of_nat)
qed

lemma read_extra_spec:
  assumes "br_inv r" and "n \<le> 16"
  shows "(\<exists>r'. read_extra n r = Ok (v, r') \<and> br_inv r' \<and> br_stream r' = rest) \<longleftrightarrow>
    v < 2 ^ n \<and> br_stream r = low_bits n (of_nat v :: u32) @ rest"
proof (cases "n = 0")
  case True
  then show ?thesis using assms by (auto simp: read_extra_def)
next
  case False
  show ?thesis
  proof
    assume "\<exists>r'. read_extra n r = Ok (v, r') \<and> br_inv r' \<and> br_stream r' = rest"
    then obtain w r' where w: "br_read n r = Ok (w, r')" "v = unat w" "br_stream r' = rest"
      using False by (auto simp: read_extra_def outcome_simps)
    from reader.rd_Ok_iff [OF assms, of w r'] w
    have n: "n \<le> length (br_stream r)" and val: "w = bits_val (take n (br_stream r))"
      and rest: "rest = drop n (br_stream r)" by auto
    have "low_bits n w = take n (br_stream r)"
      using low_bits_bits_val [of "take n (br_stream r)", where 'w = 32] n assms(2) val by simp
    moreover have "take_bit n w = w"
      by (rule bit_word_eqI) (use n val in \<open>auto simp: bit_simps bit_bits_val\<close>)
    then have "unat w < 2 ^ n"
      by (metis take_bit_eq_mod take_bit_nat_eq_self_iff unsigned_take_bit_eq)
    ultimately show "v < 2 ^ n \<and> br_stream r = low_bits n (of_nat v :: u32) @ rest"
      using w(2) rest by simp
  next
    assume *: "v < 2 ^ n \<and> br_stream r = low_bits n (of_nat v :: u32) @ rest"
    with reader.rd_field [OF assms(1), of n "of_nat v" rest] assms(2)
    obtain r' where "br_read n r = Ok (of_nat v, r')" "br_inv r'" "br_stream r' = rest"
      using take_bit_of_nat_small by auto
    then show "\<exists>r'. read_extra n r = Ok (v, r') \<and> br_inv r' \<and> br_stream r' = rest"
      using False * assms(2) unat_of_nat_small [of v n] by (auto simp: read_extra_def)
  qed
qed


lemma decode_length_spec:
  assumes "br_inv r" and "257 \<le> s" and "s \<le> 285"
  shows "(\<exists>r'. decode_length s r = Ok (n, r') \<and> br_inv r' \<and> br_stream r' = rest) \<longleftrightarrow>
    (\<exists>lx. lx < 2 ^ (len_xtra ! (s - 257)) \<and> n = len_base ! (s - 257) + lx \<and>
       br_stream r = low_bits (len_xtra ! (s - 257)) (of_nat lx :: u32) @ rest)"
  using read_extra_spec [OF assms(1), of "len_xtra ! (s - 257)"] tables_bounded(1) [of "s - 257"] assms(2,3)
  by (force simp: decode_length_def outcome_simps)

lemma decode_distance_spec:
  assumes h: "huff_for dls dist" and inv: "br_inv r"
  shows "(\<exists>r'. decode_distance dist r = Ok (n, r') \<and> br_inv r' \<and> br_stream r' = rest) \<longleftrightarrow>
    (\<exists>di dx. di < 30 \<and> di < length dls \<and> dls ! di \<noteq> 0 \<and> dx < 2 ^ (dist_xtra ! di) \<and>
       n = dist_base ! di + dx \<and>
       br_stream r = canon_bits dls di @ low_bits (dist_xtra ! di) (of_nat dx :: u32) @ rest)"
proof
  assume "\<exists>r'. decode_distance dist r = Ok (n, r') \<and> br_inv r' \<and> br_stream r' = rest"
  then obtain di r1 x r' where d: "huff_decode dist r = Ok (di, r1)" "di < 30"
    "read_extra (dist_xtra ! di) r1 = Ok (x, r')" "n = dist_base ! di + x" "br_inv r'" "br_stream r' = rest"
    by (auto simp: decode_distance_def outcome_simps split: if_splits)
  with huff_decode_sound(2) [OF h inv d(1)] read_extra_spec [of r1 "dist_xtra ! di" x rest] tables_bounded(2) [of di]
  show "\<exists>di dx. di < 30 \<and> di < length dls \<and> dls ! di \<noteq> 0 \<and> dx < 2 ^ (dist_xtra ! di) \<and>
       n = dist_base ! di + dx \<and>
       br_stream r = canon_bits dls di @ low_bits (dist_xtra ! di) (of_nat dx :: u32) @ rest"
    by auto
next
  assume "\<exists>di dx. di < 30 \<and> di < length dls \<and> dls ! di \<noteq> 0 \<and> dx < 2 ^ (dist_xtra ! di) \<and>
       n = dist_base ! di + dx \<and>
       br_stream r = canon_bits dls di @ low_bits (dist_xtra ! di) (of_nat dx :: u32) @ rest"
  then obtain di dx where d: "di < 30" "di < length dls" "dls ! di \<noteq> 0" "dx < 2 ^ (dist_xtra ! di)"
    "n = dist_base ! di + dx"
    "br_stream r = canon_bits dls di @ low_bits (dist_xtra ! di) (of_nat dx :: u32) @ rest"
    by blast
  from huff_decode_canonical [OF h d(2,3) inv d(6)] obtain r1 where
    r1: "huff_decode dist r = Ok (di, r1)" "br_inv r1"
      "br_stream r1 = low_bits (dist_xtra ! di) (of_nat dx :: u32) @ rest" by blast
  with read_extra_spec [of r1 "dist_xtra ! di" dx rest] tables_bounded(2) [of di] d
  show "\<exists>r'. decode_distance dist r = Ok (n, r') \<and> br_inv r' \<and> br_stream r' = rest"
    by (auto simp: decode_distance_def)
qed

text \<open>The copy loop is the specification's copy, within the size limit.\<close>

lemma length_lz_copy [simp]: "length (lz_copy d n out) = length out + n"
  by (induction d n out rule: lz_copy.induct) auto

lemma copy_match_spec:
  "\<lbrakk>d \<noteq> 0; d \<le> length out\<rbrakk> \<Longrightarrow>
    copy_match (length out - d) n out =
      (if n = 0 \<or> length out + n \<le> max_inflate_size then Ok (lz_copy d n out) else Err MaxSizeExceeded)"
proof (induction n arbitrary: out)
  case (Suc n)
  have "length (out @ [out ! (length out - d)]) - d = length out - d + 1"
    using Suc.prems by simp
  with Suc.IH [of "out @ [out ! (length out - d)]"] Suc.prems show ?case
    by (auto simp: nth_append)
qed simp

lemma table_entries_positive:
  "i < 29 \<Longrightarrow> 3 \<le> len_base ! i" "j < 30 \<Longrightarrow> 1 \<le> dist_base ! j"
proof -
  have "list_all (\<lambda>x. 3 \<le> x) len_base" "list_all (\<lambda>x. 1 \<le> x) dist_base"
    "length len_base = 29" "length dist_base = 30"
    by (simp_all add: len_base_def dist_base_def)
  then show "i < 29 \<Longrightarrow> 3 \<le> len_base ! i" "j < 30 \<Longrightarrow> 1 \<le> dist_base ! j"
    by (simp_all add: list_all_length)
qed

section \<open>Huffman blocks\<close>

lemma decode_block_complete:
  assumes ll: "huff_for lls ll" and dist: "huff_for dls dist"
    and eob: "256 < length lls" "lls ! 256 \<noteq> 0"
  shows "\<lbrakk>br_inv r; symbols_ok out ss; list_all (symbol_coded lls dls) ss;
      br_stream r = block_bits lls dls ss @ rest\<rbrakk> \<Longrightarrow>
    \<exists>r'. decode_huffman_block ll dist r out = Ok (r', lz_expand out ss) \<and> br_inv r' \<and> br_stream r' = rest"
proof (induction ss arbitrary: r out)
  case Nil
  then obtain r' where "huff_decode ll r = Ok (256, r')" "br_inv r'" "br_stream r' = rest"
    using huff_decode_canonical [OF ll eob, of r rest] by (auto simp: block_bits_simps)
  then show ?case by (simp add: decode_huffman_block.simps [of ll dist r] lz_expand_def)
next
  case (Cons s ss)
  show ?case
  proof (cases s)
    case (Lit b)
    then obtain r1 where r1: "huff_decode ll r = Ok (unat b, r1)" "br_inv r1"
      "br_stream r1 = block_bits lls dls ss @ rest"
      using huff_decode_canonical [OF ll, of "unat b" r] Cons.prems by (auto simp: block_bits_simps)
    have "unat b < 256" using unsigned_less [of b, where 'a = nat] by simp
    moreover from Cons.IH [OF r1(2) _ _ r1(3), of "out @ [b]"] Cons.prems Lit
    obtain r' where "decode_huffman_block ll dist r1 (out @ [b]) = Ok (r', lz_expand out (s # ss))"
      "br_inv r'" "br_stream r' = rest"
      by (auto simp: lz_expand_def)
    ultimately show ?thesis
      using r1(1) Cons.prems(2) Lit by (simp add: decode_huffman_block.simps [of ll dist r])
  next
    case (Copy li lx di dx)
    let ?n = "len_base ! li + lx" and ?d = "dist_base ! di + dx"
    have ok: "li < 29" "lx < 2 ^ (len_xtra ! li)" "di < 30" "dx < 2 ^ (dist_xtra ! di)"
      "?d \<le> length out" "length out + ?n \<le> max_inflate_size"
      "257 + li < length lls" "lls ! (257 + li) \<noteq> 0" "di < length dls" "dls ! di \<noteq> 0"
      using Cons.prems Copy by auto
    have d1: "?d \<noteq> 0" using table_entries_positive(2) [OF ok(3)] by simp
    from huff_decode_canonical [OF ll ok(7,8) Cons.prems(1)] Cons.prems(4) Copy obtain r1 where
      r1: "huff_decode ll r = Ok (257 + li, r1)" "br_inv r1"
        "br_stream r1 = low_bits (len_xtra ! li) (of_nat lx :: u32) @ canon_bits dls di @
           low_bits (dist_xtra ! di) (of_nat dx :: u32) @ block_bits lls dls ss @ rest"
      by (auto simp: block_bits_simps)
    from decode_length_spec [OF r1(2), of "257 + li" ?n] r1(3) ok obtain r2 where
      r2: "decode_length (257 + li) r1 = Ok (?n, r2)" "br_inv r2"
        "br_stream r2 = canon_bits dls di @
           low_bits (dist_xtra ! di) (of_nat dx :: u32) @ block_bits lls dls ss @ rest"
      by auto
    from decode_distance_spec [OF dist r2(2), of ?d] r2(3) ok obtain r3 where
      r3: "decode_distance dist r2 = Ok (?d, r3)" "br_inv r3" "br_stream r3 = block_bits lls dls ss @ rest"
      by blast
    have cp: "copy_match (length out - ?d) ?n out = Ok (lz_copy ?d ?n out)"
      using copy_match_spec [OF d1 ok(5), of ?n] ok(6) by simp
    from Cons.IH [OF r3(2) _ _ r3(3), of "lz_copy ?d ?n out"] Cons.prems Copy obtain r' where
      "decode_huffman_block ll dist r3 (lz_copy ?d ?n out) = Ok (r', lz_expand out (s # ss))"
      "br_inv r'" "br_stream r' = rest"
      by (auto simp: lz_expand_def)
    with r1(1) r2(1) r3(1) cp d1 ok(1,5) show ?thesis
      by (simp add: decode_huffman_block.simps [of ll dist r])
  qed
qed


lemma decode_block_sound:
  assumes ll: "huff_for lls ll" and dist: "huff_for dls dist"
  shows "\<lbrakk>br_inv r; decode_huffman_block ll dist r out = Ok (r', out')\<rbrakk> \<Longrightarrow>
    \<exists>ss. symbols_ok out ss \<and> list_all (symbol_coded lls dls) ss \<and> 256 < length lls \<and> lls ! 256 \<noteq> 0 \<and>
      br_stream r = block_bits lls dls ss @ br_stream r' \<and> out' = lz_expand out ss \<and> br_inv r'"
proof (induction "br_rem r" arbitrary: r out rule: less_induct)
  case less
  note prems = less.prems(2) [unfolded decode_huffman_block.simps [of ll dist r]]
  from prems obtain s r1 where s: "huff_decode ll r = Ok (s, r1)" by (auto simp: outcome_simps)
  from huff_decode_sound(2) [OF ll less.prems(1) s]
  have sl: "s < length lls" "lls ! s \<noteq> 0" "br_inv r1" "br_stream r = canon_bits lls s @ br_stream r1"
    by auto
  have lt: "br_rem r1 < br_rem r" using huff_decode_rem [OF s] .
  consider "s < 256" | "s = 256" | "256 < s" by linarith
  then show ?case
  proof cases
    case 1
    with prems s have out: "length out < max_inflate_size"
      and rec: "decode_huffman_block ll dist r1 (out @ [of_nat s]) = Ok (r', out')"
      by (auto split: if_splits)
    from less.hyps [OF lt sl(3) rec] obtain ss where ss: "symbols_ok (out @ [of_nat s]) ss"
      "list_all (symbol_coded lls dls) ss" "256 < length lls" "lls ! 256 \<noteq> 0"
      "br_stream r1 = block_bits lls dls ss @ br_stream r'" "out' = lz_expand (out @ [of_nat s]) ss" "br_inv r'"
      by blast
    have u: "unat (of_nat s :: u8) = s" using 1 by (simp add: unat_of_nat)
    show ?thesis
      by (rule exI [of _ "Lit (of_nat s) # ss"])
        (use ss sl out in \<open>simp add: u block_bits_simps lz_expand_def\<close>)
  next
    case 2
    with prems s sl show ?thesis
      by (intro exI [of _ "[]"]) (simp add: block_bits_simps lz_expand_def)
  next
    case 3
    with prems s obtain n r2 d r3 out1 where
      n: "decode_length s r1 = Ok (n, r2)" and d: "decode_distance dist r2 = Ok (d, r3)"
      and s285: "s \<le> 285" and d0: "d \<noteq> 0" "d \<le> length out"
      and cp: "copy_match (length out - d) n out = Ok out1"
      and rec: "decode_huffman_block ll dist r3 out1 = Ok (r', out')"
      by (auto simp: outcome_simps split: if_splits)
    have inv2: "br_inv r2" and inv3: "br_inv r3"
      using decode_length_ensures [OF sl(3), of s] decode_distance_ensures [OF dist, of r2] n d 3 s285
      by (auto simp: ensures_iff)
    from decode_length_spec [OF sl(3), of s n "br_stream r2"] n inv2 3 s285 obtain lx where
      lx: "lx < 2 ^ (len_xtra ! (s - 257))" "n = len_base ! (s - 257) + lx"
        "br_stream r1 = low_bits (len_xtra ! (s - 257)) (of_nat lx :: u32) @ br_stream r2"
      by auto
    from decode_distance_spec [OF dist inv2, of d "br_stream r3"] d inv3 obtain di dx where
      dx: "di < 30" "di < length dls" "dls ! di \<noteq> 0" "dx < 2 ^ (dist_xtra ! di)" "d = dist_base ! di + dx"
        "br_stream r2 = canon_bits dls di @ low_bits (dist_xtra ! di) (of_nat dx :: u32) @ br_stream r3"
      by auto
    have lt3: "br_rem r3 < br_rem r"
      using lt decode_length_rem [OF n] decode_distance_rem [OF d] by linarith
    have "s - 257 < 29" using 3 s285 by arith
    with table_entries_positive(1) lx(2) have "n \<noteq> 0" by fastforce
    with copy_match_spec [OF d0, of n] cp have len: "length out + n \<le> max_inflate_size"
      and out1: "out1 = lz_copy d n out" by (auto split: if_splits)
    from less.hyps [OF lt3 inv3 rec] obtain ss where ss: "symbols_ok out1 ss"
      "list_all (symbol_coded lls dls) ss" "256 < length lls" "lls ! 256 \<noteq> 0"
      "br_stream r3 = block_bits lls dls ss @ br_stream r'" "out' = lz_expand out1 ss" "br_inv r'"
      by blast
    show ?thesis
      by (rule exI [of _ "Copy (s - 257) lx di dx # ss"])
        (use ss sl lx dx len out1 d0 3 s285 in \<open>auto simp: block_bits_simps lz_expand_def\<close>)
  qed
qed

text \<open>
  C5: Refinement of a Huffman block, fixed or dynamic: with tables built from code lengths, the
  block decoder returns \<open>out'\<close> and leaves \<open>rest\<close> exactly when the stream is the code of some
  sequence of literals and copies that stays within the output and the 1 MiB limit, followed by
  the end-of-block code and \<open>rest\<close>, and \<open>out'\<close> is \<open>out\<close> extended by that sequence.
\<close>

theorem huffman_block_refines_symbols:
  assumes "huff_build lls = Ok ll" and "huff_build dls = Ok dist"
    and "length lls < 2 ^ 16" and "length dls < 2 ^ 16" and "br_inv r"
  shows "(\<exists>r'. decode_huffman_block ll dist r out = Ok (r', out') \<and> br_inv r' \<and> br_stream r' = rest) \<longleftrightarrow>
    256 < length lls \<and> lls ! 256 \<noteq> 0 \<and>
    (\<exists>ss. symbols_ok out ss \<and> list_all (symbol_coded lls dls) ss \<and>
       br_stream r = block_bits lls dls ss @ rest \<and> out' = lz_expand out ss)"
proof -
  note ll = huff_build_Ok [OF assms(1,3)] and dist = huff_build_Ok [OF assms(2,4)]
  show ?thesis
    using decode_block_sound [OF ll dist assms(5), of out] decode_block_complete [OF ll dist _ _ assms(5), of out]
    by (metis (no_types, lifting))
qed

lemma huffman_block_refines_symbols_witness:
  "\<exists>ll r'. huff_build (replicate 256 0 @ [1]) = Ok ll \<and>
     decode_huffman_block ll ll (br_new [0]) [7] = Ok (r', [7]) \<and> br_stream r' = replicate 7 False"
proof -
  let ?lls = "replicate 256 0 @ [1::nat]"
  have "(\<Sum>l\<leftarrow>[1..<16]. count_list ?lls l * 2 ^ (15 - l)) \<le> 2 ^ 15"
    by (simp add: upt_rec)
  then obtain ll where ll: "huff_build ?lls = Ok ll"
    using huff_build_kraft_iff [of ?lls] by auto
  have "canon_bits ?lls 256 = [False]"
    by (simp add: canon_bits_def canon_code_def rank_def nth_append nth_canon_counts)
  then have "br_stream (br_new [0]) = block_bits ?lls ?lls [] @ replicate 7 False"
    by (simp add: block_bits_def low_bits_def upt_rec eval_nat_numeral)
  with huffman_block_refines_symbols [OF ll ll, of "br_new [0]" "[7]" "[7]" "replicate 7 False"] ll
  show ?thesis
    by (auto simp: nth_append lz_expand_def intro!: exI [of _ "[]"])
qed

section \<open>Stored blocks\<close>

definition le_bytes16 :: "u16 \<Rightarrow> bytes" where
  "le_bytes16 w = [ucast w, ucast (drop_bit 8 w)]"

definition stored_bytes :: "bytes \<Rightarrow> bytes" where
  "stored_bytes data =
    le_bytes16 (of_nat (length data)) @ le_bytes16 (NOT (of_nat (length data))) @ data"

lemma low_bits_ucast_u8: "low_bits 8 (ucast (b :: u8) :: u32) = low_bits 8 b"
  by (rule nth_equalityI) (auto simp: bit_simps)

lemma br_read_byte:
  assumes "br_inv r" and "br_stream r = bytes_bits (b # bs) @ rest"
  shows "\<exists>r'. br_read 8 r = Ok (ucast b, r') \<and> br_inv r' \<and> br_stream r' = bytes_bits bs @ rest"
proof -
  have "take_bit 8 (ucast b :: u32) = ucast b"
    by (rule bit_word_eqI) (auto simp: bit_simps dest: bit_imp_le_length)
  with reader.rd_field [OF assms(1), of 8 "ucast b" "bytes_bits bs @ rest"] assms(2) show ?thesis
    by (simp add: low_bits_ucast_u8)
qed

lemma read_u16_le_spec:
  assumes "br_inv r" and "br_stream r = bytes_bits (le_bytes16 w @ bs) @ rest"
  shows "\<exists>r'. read_u16_le r = Ok (w, r') \<and> br_inv r' \<and> br_stream r' = bytes_bits bs @ rest"
proof -
  from br_read_byte [OF assms(1), of "ucast w" "ucast (drop_bit 8 w) # bs" rest] assms(2)
  obtain r1 where r1: "br_read 8 r = Ok (ucast (ucast w :: u8), r1)" "br_inv r1"
    "br_stream r1 = bytes_bits (ucast (drop_bit 8 w) # bs) @ rest"
    by (auto simp: le_bytes16_def)
  from br_read_byte [OF r1(2,3)] obtain r2 where
    r2: "br_read 8 r1 = Ok (ucast (ucast (drop_bit 8 w) :: u8), r2)" "br_inv r2"
      "br_stream r2 = bytes_bits bs @ rest"
    by blast
  have "push_bit 8 (ucast (ucast (ucast (drop_bit 8 w) :: u8) :: u32)) OR ucast (ucast (ucast w :: u8) :: u32) = w"
    by (rule bit_word_eqI) (auto simp: bit_simps)
  with r1 r2 show ?thesis by (simp add: read_u16_le_def)
qed

lemma copy_stored_spec:
  "\<lbrakk>br_inv r; br_stream r = bytes_bits data @ rest; length out + length data \<le> max_inflate_size\<rbrakk> \<Longrightarrow>
    \<exists>r'. copy_stored (length data) r out = Ok (r', out @ data) \<and> br_inv r' \<and> br_stream r' = rest"
proof (induction data arbitrary: r out)
  case (Cons b bs)
  from br_read_byte [OF Cons.prems(1,2)] obtain r1 where
    r1: "br_read 8 r = Ok (ucast b, r1)" "br_inv r1" "br_stream r1 = bytes_bits bs @ rest" by blast
  have "ucast (ucast b :: u32) = b" by (rule bit_word_eqI) (auto simp: bit_simps)
  with Cons.IH [OF r1(2,3), of "out @ [b]"] Cons.prems(3) r1(1) show ?case by auto
qed simp

lemma decode_stored_spec:
  assumes "br_inv r" and "drop (length (br_stream r) mod 8) (br_stream r) = bytes_bits (stored_bytes data) @ rest"
    and "length data < 2 ^ 16" and "length out + length data \<le> max_inflate_size"
  shows "\<exists>r'. decode_stored r out = Ok (r', out @ data) \<and> br_inv r' \<and> br_stream r' = rest"
proof -
  let ?n = "of_nat (length data) :: u16"
  have a: "br_inv (br_align_byte r)"
    "br_stream (br_align_byte r) = bytes_bits (le_bytes16 ?n @ le_bytes16 (NOT ?n) @ data) @ rest"
    using br_align_spec [OF assms(1)] assms(2) by (simp_all add: stored_bytes_def)
  from read_u16_le_spec [OF a] obtain r1 where r1: "read_u16_le (br_align_byte r) = Ok (?n, r1)"
    "br_inv r1" "br_stream r1 = bytes_bits (le_bytes16 (NOT ?n) @ data) @ rest" by blast
  from read_u16_le_spec [OF r1(2,3)] obtain r2 where
    r2: "read_u16_le r1 = Ok (NOT ?n, r2)" "br_inv r2" "br_stream r2 = bytes_bits data @ rest" by blast
  have "unat ?n = length data" using assms(3) by (simp add: unat_of_nat)
  with copy_stored_spec [OF r2(2,3) assms(4)] r1(1) r2(1) show ?thesis
    by (simp add: decode_stored_def)
qed

text \<open>
  A stored block is copied verbatim: the byte 1 (final, stored), the length and its
  complement in little-endian order and the data inflate to the data, whatever follows them.
\<close>

theorem inflate_stored_block:
  assumes "length data < 2 ^ 16" and "length out + length data \<le> 1024 * 1024"
  shows "inflate_raw (1 # stored_bytes data @ trailing) out = Ok (out @ data)"
proof -
  let ?r = "br_new (1 # stored_bytes data @ trailing)"
  let ?rest = "bytes_bits (stored_bytes data) @ bytes_bits trailing"
  have st: "br_stream ?r = low_bits 1 (1 :: u32) @ low_bits 2 (0 :: u32) @ replicate 5 False @ ?rest"
    by (simp add: low_bits_def upt_rec eval_nat_numeral bit_simps)
  from reader.rd_field [OF br_new_stream(2) st] obtain r1 where
    r1: "br_read 1 ?r = Ok (1, r1)" "br_inv r1" "br_stream r1 = low_bits 2 (0 :: u32) @ replicate 5 False @ ?rest"
    by auto
  from reader.rd_field [OF r1(2,3)] obtain r2 where
    r2: "br_read 2 r1 = Ok (0, r2)" "br_inv r2" "br_stream r2 = replicate 5 False @ ?rest" by auto
  have "length (br_stream r2) mod 8 = 5" unfolding r2(3) by simp presburger
  then have "drop (length (br_stream r2) mod 8) (br_stream r2) = ?rest" unfolding r2(3) by simp
  from decode_stored_spec [OF r2(2) this assms(1), of out] assms(2) obtain r3 where
    r3: "decode_stored r2 out = Ok (r3, out @ data)" by (auto simp: max_inflate_size_def)
  show ?thesis
    using r1(1) r2(1) r3 assms(2)
    by (simp add: inflate_raw_def inflate_loop.simps [of ?r] decode_block_def max_inflate_size_def)
qed

lemma inflate_stored_block_witness:
  "inflate_raw (1 # stored_bytes [72, 105] @ [0, 0, 255, 255]) [] = Ok [72, 105]"
  using inflate_stored_block [of "[72, 105]" "[]" "[0, 0, 255, 255]"] by simp

end
