(* ===== verification/Deflate.thy ===== *)
theory Deflate
  imports InflateSpec BitSink
begin

text \<open>
  The fixed-Huffman DEFLATE encoder of \<open>gzip.rs\<close>: its tables, the LZ77 hash-chain matcher and
  the encoding loop.  Positions stored in the hash chains go through \<open>i32\<close> as in the code;
  every index the code takes is checked.
\<close>

datatype gzip_err = BufferOverflow

section \<open>Tables\<close>

definition enc_ll_bits :: "nat list" where
  "enc_ll_bits =
    map (\<lambda>i. if i \<le> 143 then 8 else if i \<le> 255 then 9 else if i \<le> 279 then 7 else 8) [0..<288]"

definition enc_ll_code :: "u16 list" where
  "enc_ll_code =
    map (\<lambda>i. if i \<le> 143 then 0x0030 + of_nat i
             else if i \<le> 255 then 0x0190 + of_nat (i - 144)
             else if i = 256 then 0x0000
             else if i \<le> 279 then 0x0001 + of_nat (i - 257)
             else 0x00C0 + of_nat (i - 280)) [0..<288]"

definition enc_len_base :: "nat list" where
  "enc_len_base =
    [3, 4, 5, 6, 7, 8, 9, 10, 11, 13, 15, 17, 19, 23, 27, 31, 35, 43, 51, 59, 67, 83, 99, 115, 131,
     163, 195, 227, 258]"

definition enc_len_xtra :: "nat list" where
  "enc_len_xtra =
    [0, 0, 0, 0, 0, 0, 0, 0, 1, 1, 1, 1, 2, 2, 2, 2, 3, 3, 3, 3, 4, 4, 4, 4, 5, 5, 5, 5, 0]"

definition enc_dist_base :: "nat list" where
  "enc_dist_base =
    [1, 2, 3, 4, 5, 7, 9, 13, 17, 25, 33, 49, 65, 97, 129, 193, 257, 385, 513, 769, 1025, 1537,
     2049, 3073, 4097, 6145, 8193, 12289, 16385, 24577]"

definition enc_dist_xtra :: "nat list" where
  "enc_dist_xtra =
    [0, 0, 0, 0, 1, 1, 2, 2, 3, 3, 4, 4, 5, 5, 6, 6, 7, 7, 8, 8, 9, 9, 10, 10, 11, 11, 12, 12, 13,
     13]"

text \<open>The reversed loops over the tables: the largest index whose base does not exceed the value.\<close>

fun len_sym_from :: "nat \<Rightarrow> nat \<Rightarrow> nat" where
  "len_sym_from 0 len = 257"
| "len_sym_from (Suc i) len = (if len \<ge> enc_len_base ! i then 257 + i else len_sym_from i len)"

definition len_sym :: "nat \<Rightarrow> nat" where
  "len_sym len = len_sym_from 29 len"

fun dist_sym_from :: "nat \<Rightarrow> nat \<Rightarrow> nat" where
  "dist_sym_from 0 dist = 0"
| "dist_sym_from (Suc i) dist = (if dist \<ge> enc_dist_base ! i then i else dist_sym_from i dist)"

definition dist_sym :: "nat \<Rightarrow> nat" where
  "dist_sym dist = dist_sym_from 30 dist"

section \<open>Symbols\<close>

definition bw_code :: "nat \<Rightarrow> bit_writer \<Rightarrow> bit_writer" where
  "bw_code s w = bw_put_msb (enc_ll_code ! s) (enc_ll_bits ! s) w"

definition bw_lit :: "u8 \<Rightarrow> bit_writer \<Rightarrow> bit_writer" where
  "bw_lit byte w = bw_code (unat byte) w"

definition bw_eob :: "bit_writer \<Rightarrow> bit_writer" where
  "bw_eob w = bw_code 256 w"

definition bw_extra :: "nat \<Rightarrow> nat \<Rightarrow> nat \<Rightarrow> bit_writer \<Rightarrow> bit_writer" where
  "bw_extra v base xtra w =
    (if xtra > 0 then bw_put ((of_nat v :: u16) - of_nat base) xtra w else w)"

definition bw_match :: "nat \<Rightarrow> nat \<Rightarrow> bit_writer \<Rightarrow> bit_writer" where
  "bw_match best_len best_dist w =
    (let ls = len_sym (best_len mod 2 ^ 16);
         w1 = bw_code ls w;
         w2 = bw_extra best_len (enc_len_base ! (ls - 257)) (enc_len_xtra ! (ls - 257)) w1;
         ds = dist_sym (best_dist mod 2 ^ 16);
         w3 = bw_put_msb (of_nat ds) 5 w2
     in bw_extra best_dist (enc_dist_base ! ds) (enc_dist_xtra ! ds) w3)"

section \<open>The matcher\<close>

definition min_m :: nat where "min_m = 3"
definition max_m :: nat where "max_m = 258"
definition lz_win :: nat where "lz_win = 32768"
definition lz_chain :: nat where "lz_chain = 32"
definition hsize :: nat where "hsize = 16384"
definition nil_link :: int where "nil_link = -1"

definition hash3 :: "bytes \<Rightarrow> nat \<Rightarrow> (nat, gzip_err) outcome" where
  "hash3 d p =
    and_then (index_or_panic d p) (\<lambda>a.
      and_then (index_or_panic d (p + 1)) (\<lambda>b.
        and_then (index_or_panic d (p + 2)) (\<lambda>c.
          Ok (push_bit 10 (unat a) XOR push_bit 5 (unat b) XOR unat c))))"

definition mlen :: "bytes \<Rightarrow> nat \<Rightarrow> nat \<Rightarrow> (nat, gzip_err) outcome" where
  "mlen d a b =
    (if a \<le> length d \<and> b \<le> length d
     then let mx = min (min max_m (length d - a)) (length d - b)
          in Ok (length (takeWhile (\<lambda>(x, y). x = y) (zip (take mx (drop a d)) (take mx (drop b d)))))
     else Panic)"

function find_match ::
  "bytes \<Rightarrow> int list \<Rightarrow> nat \<Rightarrow> int \<Rightarrow> nat \<Rightarrow> nat \<Rightarrow> nat \<Rightarrow> (nat \<times> nat, gzip_err) outcome" where
  "find_match d prv pos cp best_len best_dist depth =
    (if cp \<noteq> nil_link \<and> depth < lz_chain
     then let mp = i32_as_usize cp
          in if usize_sub pos mp > lz_win then Ok (best_len, best_dist)
             else and_then (mlen d pos mp) (\<lambda>ml.
               if ml > best_len \<and> (ml \<ge> max_m \<or> ml \<ge> 32) then Ok (ml, usize_sub pos mp)
               else and_then (index_or_panic prv mp) (\<lambda>cp1.
                 if ml > best_len then find_match d prv pos cp1 ml (usize_sub pos mp) (depth + 1)
                 else find_match d prv pos cp1 best_len best_dist (depth + 1)))
     else Ok (best_len, best_dist))"
  by auto
termination by (relation "measure (\<lambda>(_, _, _, _, _, _, depth). lz_chain - depth)") auto

declare find_match.simps [simp del]

text \<open>\<open>prev[pos] = head[bucket]; head[bucket] = pos as i32\<close>\<close>

definition link_pos :: "nat \<Rightarrow> nat \<Rightarrow> int list \<times> int list \<Rightarrow> (int list \<times> int list, gzip_err) outcome" where
  "link_pos bucket pos = (\<lambda>(hd, prv).
    and_then (index_or_panic hd bucket) (\<lambda>h.
      and_then (set_or_panic prv pos h) (\<lambda>prv1.
        and_then (set_or_panic hd bucket (usize_as_i32 pos)) (\<lambda>hd1. Ok (hd1, prv1)))))"

definition bucket_of :: "nat \<Rightarrow> nat" where
  "bucket_of h = h AND (hsize - 1)"

function link_range ::
  "bytes \<Rightarrow> nat \<Rightarrow> nat \<Rightarrow> int list \<times> int list \<Rightarrow> (int list \<times> int list, gzip_err) outcome" where
  "link_range d pos en links =
    (if pos < en
     then and_then
            (if pos + 2 < length d
             then and_then (hash3 d pos) (\<lambda>h. link_pos (bucket_of h) pos links)
             else Ok links)
            (\<lambda>links1. link_range d (pos + 1) en links1)
     else Ok links)"
  by auto
termination by (relation "measure (\<lambda>(_, pos, en, _). en - pos)") auto

declare link_range.simps [simp del]

section \<open>The encoding loop\<close>

function deflate_loop ::
  "bytes \<Rightarrow> nat \<Rightarrow> int list \<times> int list \<Rightarrow> bit_writer \<Rightarrow> (bit_writer, gzip_err) outcome" where
  "deflate_loop d pos links w =
    (if pos < length d
     then if pos + min_m > length d
          then and_then (index_or_panic d pos) (\<lambda>b. deflate_loop d (pos + 1) links (bw_lit b w))
          else and_then (hash3 d pos) (\<lambda>h.
               and_then (index_or_panic (fst links) (bucket_of h)) (\<lambda>cp.
               and_then (find_match d (snd links) pos cp 0 0 0) (\<lambda>(best_len, best_dist).
                 if best_len \<ge> min_m
                 then and_then (link_range d pos (pos + best_len) links) (\<lambda>links1.
                        deflate_loop d (pos + best_len) links1 (bw_match best_len best_dist w))
                 else and_then (index_or_panic d pos) (\<lambda>b.
                        and_then (link_pos (bucket_of h) pos links) (\<lambda>links1.
                          deflate_loop d (pos + 1) links1 (bw_lit b w))))))
     else Ok w)"
  by auto
termination
  by (relation "measure (\<lambda>(d, pos, _, _). length d - pos)") (auto simp: min_m_def)

declare deflate_loop.simps [simp del]

definition deflate :: "bytes \<Rightarrow> bytes \<Rightarrow> (bytes, gzip_err) outcome" where
  "deflate input out =
    (let w = bw_put 1 2 (bw_put 1 1 bw_new)
     in if length input = 0 then Ok (out @ bw_finish (bw_flush (bw_eob w)))
        else and_then
               (deflate_loop input 0 (replicate hsize nil_link, replicate (length input) nil_link) w)
               (\<lambda>w1. Ok (out @ bw_finish (bw_flush (bw_eob w1)))))"

end
