(* ===== verification/RoundTrip.thy ===== *)
theory RoundTrip
  imports Deflate
begin

text \<open>
  Compression is lossless: what \<open>deflate\<close> of \<open>gzip.rs\<close> writes is the code of a symbol sequence
  that expands to the input, so \<open>inflate_raw\<close> of \<open>inflate.rs\<close> returns the input.
\<close>

section \<open>The fixed code of the encoder is the canonical code\<close>

lemma fixed_ll_lens_eq:
  "fixed_ll_lens = replicate 144 8 @ replicate 112 9 @ replicate 24 7 @ replicate 8 8"
  by (rule nth_equalityI) (auto simp: fixed_ll_lens_def nth_append)

lemma enc_ll_bits_eq: "enc_ll_bits = fixed_ll_lens"
  by (simp add: enc_ll_bits_def fixed_ll_lens_def)

lemma enc_tables [simp]:
  "enc_len_base = len_base" "enc_len_xtra = len_xtra"
  "enc_dist_base = dist_base" "enc_dist_xtra = dist_xtra"
  by (simp_all add: enc_len_base_def len_base_def enc_len_xtra_def len_xtra_def
      enc_dist_base_def dist_base_def enc_dist_xtra_def dist_xtra_def)

lemma count_list_replicate: "count_list (replicate n x) y = (if x = y then n else 0)"
  by (induction n) auto

lemma fixed_ll_counts:
  "canon_counts fixed_ll_lens = [0, 0, 0, 0, 0, 0, 0, 24, 152, 112, 0, 0, 0, 0, 0, 0]"
  by (simp add: canon_counts_def fixed_ll_lens_eq count_list_replicate upt_rec)

lemma fixed_ll_first_code:
  "first_code (canon_counts fixed_ll_lens) 7 = 0"
  "first_code (canon_counts fixed_ll_lens) 8 = 48"
  "first_code (canon_counts fixed_ll_lens) 9 = 400"
  by (simp_all add: fixed_ll_counts eval_nat_numeral)

lemma fixed_ll_nth:
  "s < 288 \<Longrightarrow> fixed_ll_lens ! s = (if s \<le> 143 then 8 else if s \<le> 255 then 9 else if s \<le> 279 then 7 else 8)"
  by (simp add: fixed_ll_lens_def)

lemma fixed_ll_code:
  "s < 288 \<Longrightarrow> canon_code fixed_ll_lens s =
    (if s \<le> 143 then 48 + s else if s \<le> 255 then 400 + (s - 144)
     else if s \<le> 279 then s - 256 else 192 + (s - 280))"
  by (simp add: canon_code_def rank_def fixed_ll_nth fixed_ll_first_code)
    (simp add: fixed_ll_lens_eq take_append take_replicate count_list_replicate min_def, arith)

lemma enc_ll_code_eq: "s < 288 \<Longrightarrow> enc_ll_code ! s = of_nat (canon_code fixed_ll_lens s)"
proof -
  assume s: "s < 288"
  have "s - 256 = 1 + (s - 257)" if "256 < s" using that by simp
  with s show ?thesis by (simp add: enc_ll_code_def fixed_ll_code of_nat_add)
qed

lemma msb_bits_rev:
  "L \<le> 16 \<Longrightarrow> msb_bits L c = rev (low_bits L (of_nat c :: u16))"
proof (induction L)
  case (Suc L)
  have "bit (of_nat c :: u16) L \<longleftrightarrow> odd (c div 2 ^ L)"
    using Suc.prems by (simp add: bit_of_nat_iff flip: bit_iff_odd)
  with Suc show ?case by (simp add: low_bits_Suc)
qed simp

lemma fixed_lens_accepted:
  "\<exists>ll. huff_build fixed_ll_lens = Ok ll" "\<exists>dist. huff_build fixed_dist_lens = Ok dist"
proof -
  have c: "\<And>l. count_list fixed_ll_lens l = (if l = 8 then 152 else if l = 9 then 112 else if l = 7 then 24 else 0)"
    "\<And>l. count_list fixed_dist_lens l = (if l = 5 then 30 else 0)"
    by (auto simp: fixed_ll_lens_eq fixed_dist_lens_def count_list_replicate)
  have "set fixed_ll_lens \<subseteq> {7, 8, 9}" by (auto simp: fixed_ll_lens_eq)
  moreover have "(\<Sum>l\<leftarrow>[1..<16]. count_list fixed_ll_lens l * 2 ^ (15 - l)) \<le> 2 ^ 15"
    by (simp add: c upt_rec)
  ultimately show "\<exists>ll. huff_build fixed_ll_lens = Ok ll"
    using huff_build_kraft_iff [of fixed_ll_lens] by auto
  have "(\<Sum>l\<leftarrow>[1..<16]. count_list fixed_dist_lens l * 2 ^ (15 - l)) \<le> 2 ^ 15"
    by (simp add: c upt_rec)
  then show "\<exists>dist. huff_build fixed_dist_lens = Ok dist"
    using huff_build_kraft_iff [of fixed_dist_lens] by (auto simp: fixed_dist_lens_def)
qed

lemma bw_code_spec:
  assumes "bw_inv w" and "s < 288"
  shows "bw_inv (bw_code s w) \<and> bw_written (bw_code s w) = bw_written w @ canon_bits fixed_ll_lens s"
proof -
  have L: "fixed_ll_lens ! s \<le> 16" using assms(2) by (simp add: fixed_ll_nth)
  from bw_put_msb_spec [OF assms(1) L, of "of_nat (canon_code fixed_ll_lens s)"] show ?thesis
    by (simp add: bw_code_def enc_ll_bits_eq enc_ll_code_eq [OF assms(2)] canon_bits_def msb_bits_rev [OF L])
qed

lemma fixed_dist_bits:
  assumes "ds < 30"
  shows "canon_bits fixed_dist_lens ds = rev (low_bits 5 (of_nat ds :: u16))"
proof -
  have "canon_counts fixed_dist_lens = [0, 0, 0, 0, 0, 30, 0, 0, 0, 0, 0, 0, 0, 0, 0, 0]"
    by (simp add: canon_counts_def fixed_dist_lens_def count_list_replicate upt_rec)
  then have "first_code (canon_counts fixed_dist_lens) 5 = 0"
    by (simp add: eval_nat_numeral)
  then have "canon_code fixed_dist_lens ds = ds"
    using assms by (simp add: canon_code_def rank_def fixed_dist_lens_def take_replicate
        count_list_replicate min_def)
  with assms show ?thesis
    by (simp add: canon_bits_def fixed_dist_lens_def msb_bits_rev)
qed


section \<open>Length and distance symbols\<close>

lemma table_steps:
  "i < 28 \<Longrightarrow> len_base ! Suc i \<le> len_base ! i + 2 ^ (len_xtra ! i)"
  "j < 29 \<Longrightarrow> dist_base ! Suc j \<le> dist_base ! j + 2 ^ (dist_xtra ! j)"
proof -
  have "list_all (\<lambda>i. len_base ! Suc i \<le> len_base ! i + 2 ^ (len_xtra ! i)) [0..<28]"
    "list_all (\<lambda>j. dist_base ! Suc j \<le> dist_base ! j + 2 ^ (dist_xtra ! j)) [0..<29]"
    by code_simp+
  then show "i < 28 \<Longrightarrow> len_base ! Suc i \<le> len_base ! i + 2 ^ (len_xtra ! i)"
    "j < 29 \<Longrightarrow> dist_base ! Suc j \<le> dist_base ! j + 2 ^ (dist_xtra ! j)"
    by (simp_all only: list_all_iff set_upt) auto
qed

lemma len_sym_from_spec:
  "\<lbrakk>0 < k; len_base ! 0 \<le> len\<rbrakk> \<Longrightarrow>
    \<exists>i < k. len_sym_from k len = 257 + i \<and> len_base ! i \<le> len \<and> (Suc i < k \<longrightarrow> len < len_base ! Suc i)"
proof (induction k)
  case (Suc k)
  show ?case
  proof (cases "len_base ! k \<le> len")
    case False
    with Suc.prems have "0 < k" by (cases k) auto
    with Suc False obtain i where i: "i < k" "len_sym_from k len = 257 + i" "len_base ! i \<le> len"
      "Suc i < k \<longrightarrow> len < len_base ! Suc i" by auto
    then have "Suc i < Suc k \<longrightarrow> len < len_base ! Suc i"
      using False by (cases "Suc i = k") auto
    with i False show ?thesis by auto
  qed (auto intro: exI [of _ k])
qed simp

lemma len_sym_spec:
  assumes "3 \<le> len" and "len \<le> 258"
  shows "\<exists>i < 29. len_sym len = 257 + i \<and> len_base ! i \<le> len \<and> len < len_base ! i + 2 ^ (len_xtra ! i)"
proof -
  have "len_base ! 0 = 3" "len_base ! 28 = 258" by (simp_all add: len_base_def)
  with len_sym_from_spec [of 29 len] assms obtain i where
    i: "i < 29" "len_sym len = 257 + i" "len_base ! i \<le> len" "Suc i < 29 \<longrightarrow> len < len_base ! Suc i"
    by (auto simp: len_sym_def)
  have "len < len_base ! i + 2 ^ (len_xtra ! i)"
  proof (cases "i < 28")
    case True
    with i(4) table_steps(1) [OF True] show ?thesis by simp
  next
    case False
    with i(1) have "i = 28" by simp
    moreover have "len_xtra ! 28 = 0" by (simp add: len_xtra_def)
    ultimately show ?thesis using assms(2) \<open>len_base ! 28 = 258\<close> by simp
  qed
  with i show ?thesis by blast
qed

lemma dist_sym_from_spec:
  "\<lbrakk>0 < k; dist_base ! 0 \<le> dist\<rbrakk> \<Longrightarrow>
    \<exists>i < k. dist_sym_from k dist = i \<and> dist_base ! i \<le> dist \<and> (Suc i < k \<longrightarrow> dist < dist_base ! Suc i)"
proof (induction k)
  case (Suc k)
  show ?case
  proof (cases "dist_base ! k \<le> dist")
    case False
    with Suc.prems have "0 < k" by (cases k) auto
    with Suc False obtain i where i: "i < k" "dist_sym_from k dist = i" "dist_base ! i \<le> dist"
      "Suc i < k \<longrightarrow> dist < dist_base ! Suc i" by auto
    then have "Suc i < Suc k \<longrightarrow> dist < dist_base ! Suc i"
      using False by (cases "Suc i = k") auto
    with i False show ?thesis by auto
  qed (auto intro: exI [of _ k])
qed simp

lemma dist_sym_spec:
  assumes "1 \<le> dist" and "dist \<le> 32768"
  shows "dist_sym dist < 30 \<and> dist_base ! dist_sym dist \<le> dist \<and>
    dist < dist_base ! dist_sym dist + 2 ^ (dist_xtra ! dist_sym dist)"
proof -
  have b: "dist_base ! 0 = 1" "dist_base ! 29 = 24577" "dist_xtra ! 29 = 13"
    by (simp_all add: dist_base_def dist_xtra_def)
  with dist_sym_from_spec [of 30 dist] assms have
    i: "dist_sym dist < 30" "dist_base ! dist_sym dist \<le> dist"
      "Suc (dist_sym dist) < 30 \<longrightarrow> dist < dist_base ! Suc (dist_sym dist)"
    by (auto simp: dist_sym_def)
  have "dist < dist_base ! dist_sym dist + 2 ^ (dist_xtra ! dist_sym dist)"
  proof (cases "dist_sym dist < 29")
    case True
    with i(3) table_steps(2) [OF True] show ?thesis by simp
  next
    case False
    with i(1) have "dist_sym dist = 29" by simp
    with assms(2) b show ?thesis by simp
  qed
  with i show ?thesis by blast
qed

section \<open>The bits of a symbol\<close>

abbreviation fixed_symbol_bits :: "lz_symbol \<Rightarrow> bool list" where
  "fixed_symbol_bits \<equiv> symbol_bits fixed_ll_lens fixed_dist_lens"

lemma low_bits_of_nat: "n \<le> 16 \<Longrightarrow> low_bits n (of_nat x :: u16) = low_bits n (of_nat x :: u32)"
  by (rule nth_equalityI) (simp_all add: bit_of_nat_iff)

lemma take_bit_of_nat_u16: "x < 2 ^ n \<Longrightarrow> take_bit n (of_nat x :: u16) = of_nat x"
  by (metis take_bit_nat_eq_self take_bit_of_nat)

lemma bw_extra_spec:
  assumes "bw_inv w" and "base \<le> v" and "v < base + 2 ^ n" and "n \<le> 16"
  shows "bw_inv (bw_extra v base n w) \<and>
    bw_written (bw_extra v base n w) = bw_written w @ low_bits n (of_nat (v - base) :: u32)"
proof (cases "n = 0")
  case False
  have sub: "(of_nat v :: u16) - of_nat base = of_nat (v - base)"
    using of_nat_diff [OF assms(2), where 'a = u16] by (rule sym)
  have "v - base < 2 ^ n" using assms(2,3) by linarith
  from bw_put_spec [OF assms(1,4) take_bit_of_nat_u16 [OF this]] False show ?thesis
    unfolding bw_extra_def sub low_bits_of_nat [OF assms(4)] by (simp only: if_True neq0_conv)
qed (use assms in \<open>simp add: bw_extra_def\<close>)

text \<open>The symbol the encoder chooses for a match.\<close>

definition match_symbol :: "nat \<Rightarrow> nat \<Rightarrow> lz_symbol" where
  "match_symbol len dist =
    (let li = len_sym len - 257; di = dist_sym dist
     in Copy li (len - len_base ! li) di (dist - dist_base ! di))"

lemma bw_match_spec:
  assumes "bw_inv w" and "3 \<le> len" "len \<le> 258" and "1 \<le> dist" "dist \<le> 32768"
  shows "bw_inv (bw_match len dist w) \<and>
    bw_written (bw_match len dist w) = bw_written w @ fixed_symbol_bits (match_symbol len dist)"
proof -
  from len_sym_spec [OF assms(2,3)] obtain li where
    li: "li < 29" "len_sym len = 257 + li" "len_base ! li \<le> len" "len < len_base ! li + 2 ^ (len_xtra ! li)"
    by blast
  define di where "di = dist_sym dist"
  with dist_sym_spec [OF assms(4,5)] have
    di: "di < 30" "dist_base ! di \<le> dist" "dist < dist_base ! di + 2 ^ (dist_xtra ! di)" by auto
  define w1 where "w1 = bw_code (257 + li) w"
  define w2 where "w2 = bw_extra len (len_base ! li) (len_xtra ! li) w1"
  define w3 where "w3 = bw_put_msb (of_nat di) 5 w2"
  define w4 where "w4 = bw_extra dist (dist_base ! di) (dist_xtra ! di) w3"
  have 1: "bw_inv w1 \<and> bw_written w1 = bw_written w @ canon_bits fixed_ll_lens (257 + li)"
    unfolding w1_def using li by (intro bw_code_spec assms) simp
  have 2: "bw_inv w2 \<and> bw_written w2 = bw_written w1 @ low_bits (len_xtra ! li) (of_nat (len - len_base ! li) :: u32)"
    unfolding w2_def using 1 li tables_bounded(1) [OF li(1)] by (intro bw_extra_spec) auto
  have 3: "bw_inv w3 \<and> bw_written w3 = bw_written w2 @ canon_bits fixed_dist_lens di"
    unfolding w3_def fixed_dist_bits [OF di(1)] using 2 by (intro bw_put_msb_spec) auto
  have 4: "bw_inv w4 \<and> bw_written w4 = bw_written w3 @ low_bits (dist_xtra ! di) (of_nat (dist - dist_base ! di) :: u32)"
    unfolding w4_def using 3 di tables_bounded(2) [OF di(1)] by (intro bw_extra_spec) auto
  have "bw_match len dist w = w4"
    using assms li(2) by (simp add: bw_match_def Let_def w4_def w3_def w2_def w1_def di_def)
  then show ?thesis
    using 1 2 3 4 li(2) by (simp add: match_symbol_def Let_def di_def)
qed

lemma bw_lit_spec:
  "bw_inv w \<Longrightarrow> bw_inv (bw_lit b w) \<and> bw_written (bw_lit b w) = bw_written w @ fixed_symbol_bits (Lit b)"
  using bw_code_spec [of w "unat b"] unsigned_less [of b, where 'a = nat] by (simp add: bw_lit_def)


section \<open>The matcher finds real matches\<close>

definition match_at :: "bytes \<Rightarrow> nat \<Rightarrow> nat \<Rightarrow> nat \<Rightarrow> bool" where
  "match_at d pos len dist \<longleftrightarrow>
    1 \<le> dist \<and> dist \<le> pos \<and> dist \<le> 32768 \<and> len \<le> 258 \<and> pos + len \<le> length d \<and>
    (\<forall>k < len. d ! (pos + k) = d ! (pos - dist + k))"

definition link_ok :: "nat \<Rightarrow> int \<Rightarrow> bool" where
  "link_ok pos cp \<longleftrightarrow> cp = nil_link \<or> 0 \<le> cp \<and> cp < int pos"

definition links_ok :: "bytes \<Rightarrow> nat \<Rightarrow> int list \<times> int list \<Rightarrow> bool" where
  "links_ok d pos = (\<lambda>(hd, prv). length hd = hsize \<and> length prv = length d \<and>
    (\<forall>i < hsize. link_ok pos (hd ! i)) \<and> (\<forall>i < length d. link_ok i (prv ! i)))"

lemma link_ok_mono: "\<lbrakk>link_ok i cp; i \<le> j\<rbrakk> \<Longrightarrow> link_ok j cp"
  by (auto simp: link_ok_def)

lemma mlen_ensures:
  assumes "a \<le> length d" and "b \<le> length d"
  shows "ensures (mlen d a b) (\<lambda>ml. ml \<le> 258 \<and> a + ml \<le> length d \<and>
    (\<forall>k < ml. d ! (a + k) = d ! (b + k)))"
proof -
  define mx where "mx = min (min max_m (length d - a)) (length d - b)"
  define zs where "zs = zip (take mx (drop a d)) (take mx (drop b d))"
  define ml where "ml = length (takeWhile (\<lambda>(x, y). x = y) zs)"
  have mx: "mx \<le> 258" "a + mx \<le> length d" "b + mx \<le> length d"
    using assms by (auto simp: mx_def max_m_def)
  have zs: "length zs = mx" using mx by (simp add: zs_def)
  have ml: "ml \<le> mx" unfolding ml_def using length_takeWhile_le [of _ zs] zs by simp
  have "d ! (a + k) = d ! (b + k)" if "k < ml" for k
  proof -
    from that have "(\<lambda>(x, y). x = y) (zs ! k)"
      unfolding ml_def by (metis nth_mem set_takeWhileD takeWhile_nth)
    with that ml zs mx show ?thesis by (simp add: zs_def)
  qed
  with ml mx have "ml \<le> 258 \<and> a + ml \<le> length d \<and> (\<forall>k < ml. d ! (a + k) = d ! (b + k))" by auto
  with assms show ?thesis by (simp add: mlen_def Let_def ml_def zs_def mx_def)
qed

lemma find_match_ensures:
  assumes "length d < 2 ^ 31" and "pos < length d" and "length prv = length d"
    and prv: "\<forall>i < length d. link_ok i (prv ! i)"
  shows "\<lbrakk>link_ok pos cp; bl = 0 \<or> match_at d pos bl bd\<rbrakk> \<Longrightarrow>
    ensures (find_match d prv pos cp bl bd depth) (\<lambda>(l, dist). l = 0 \<or> match_at d pos l dist)"
proof (induction "lz_chain - depth" arbitrary: cp bl bd depth rule: less_induct)
  case less
  show ?case
  proof (cases "cp \<noteq> nil_link \<and> depth < lz_chain")
    case True
    define mp where "mp = i32_as_usize cp"
    have cp: "0 \<le> cp" "cp < int pos" using less.prems True by (auto simp: link_ok_def)
    have mp: "mp = nat cp" "mp < pos" "mp < length d"
      using cp assms(1,2) i32_as_usize_eq [of cp] by (auto simp: mp_def)
    have sub: "usize_sub pos mp = pos - mp" using mp assms(1,2) by (intro usize_sub_eq) auto
    have nxt: "link_ok pos (prv ! mp)"
      using prv mp(2,3) link_ok_mono [of mp "prv ! mp" pos] by auto
    have new: "match_at d pos ml (pos - mp)"
      if "pos - mp \<le> 32768" "ml \<le> 258" "pos + ml \<le> length d" "\<forall>k < ml. d ! (pos + k) = d ! (mp + k)" for ml
      using that mp by (simp add: match_at_def)
    have rec: "ensures (find_match d prv pos (prv ! mp) l dist (Suc depth)) (\<lambda>(l, dist). l = 0 \<or> match_at d pos l dist)"
      if "l = 0 \<or> match_at d pos l dist" for l dist
    proof -
      from True have "lz_chain - (depth + 1) < lz_chain - depth" by linarith
      from less.hyps [OF this nxt that] show ?thesis by simp
    qed
    show ?thesis
      unfolding find_match.simps [of d prv pos cp] Let_def mp_def [symmetric] sub
      using True mp(2,3) assms(2,3) less.prems(2)
      by (auto simp: lz_win_def not_less intro!: ensures_and_then [OF mlen_ensures] new rec)
  next
    case False
    with less.prems show ?thesis by (auto simp: find_match.simps [of d prv pos cp])
  qed
qed

section \<open>The hash chains stay well formed\<close>

lemma links_ok_mono: "\<lbrakk>links_ok d i ls; i \<le> j\<rbrakk> \<Longrightarrow> links_ok d j ls"
  by (auto simp: links_ok_def intro: link_ok_mono)

lemma link_pos_ensures:
  assumes "links_ok d pos ls" and "bucket < hsize" and "pos < length d" and "length d < 2 ^ 31"
  shows "ensures (link_pos bucket pos ls) (links_ok d (pos + 1))"
proof -
  obtain hd prv where ls: "ls = (hd, prv)" by fastforce
  have "usize_as_i32 pos = int pos" using assms(3,4) by (intro usize_as_i32_eq) simp
  then show ?thesis
    using assms(1-3)
    by (auto simp: ls link_pos_def links_ok_def nth_list_update link_ok_def)
qed

lemma bucket_of_less: "bucket_of h < hsize"
proof -
  have "h AND 16383 = take_bit 14 (h :: nat)"
    by (simp add: take_bit_eq_mask mask_eq_exp_minus_1)
  then show ?thesis by (simp add: bucket_of_def hsize_def take_bit_eq_mod)
qed

lemma hash3_no_panic: "p + 2 < length d \<Longrightarrow> ensures (hash3 d p) (\<lambda>_. True)"
  by (simp add: hash3_def)

lemma link_range_ensures:
  assumes "length d < 2 ^ 31" and "en \<le> length d"
  shows "\<lbrakk>links_ok d pos ls; pos \<le> en\<rbrakk> \<Longrightarrow> ensures (link_range d pos en ls) (links_ok d en)"
proof (induction "en - pos" arbitrary: pos ls rule: less_induct)
  case less
  show ?case
  proof (cases "pos < en")
    case True
    have rec: "ensures (link_range d (Suc pos) en ls1) (links_ok d en)" if "links_ok d (pos + 1) ls1" for ls1
    proof -
      from True have "en - (pos + 1) < en - pos" by linarith
      from less.hyps [OF this that] True show ?thesis by simp
    qed
    show ?thesis
      unfolding link_range.simps [of d pos]
      using True less.prems(1) assms
      by (auto intro!: ensures_and_then [OF ensures_and_then [OF hash3_no_panic link_pos_ensures]] rec bucket_of_less
          intro: links_ok_mono)
  next
    case False
    with less.prems show ?thesis by (simp add: link_range.simps [of d])
  qed
qed


text \<open>The encoder has no error values: what does not panic returns.\<close>

lemma hash3_not_Err [simp]: "hash3 d p \<noteq> Err e"
  by (simp add: hash3_def outcome_simps)

lemma mlen_not_Err [simp]: "mlen d a b \<noteq> Err e"
  by (simp add: mlen_def Let_def)

lemma link_pos_not_Err [simp]: "link_pos b pos ls \<noteq> Err e"
  by (simp add: link_pos_def set_or_panic_def outcome_simps split: prod.split)

lemma link_range_not_Err: "link_range d pos en ls \<noteq> Err e"
proof (induction "en - pos" arbitrary: pos ls rule: less_induct)
  case less
  have "link_range d (pos + 1) en ls1 \<noteq> Err e" if "pos < en" for ls1
    using less.hyps that by simp
  then show ?case by (subst link_range.simps) (simp add: outcome_simps)
qed

lemma find_match_not_Err: "find_match d prv pos cp bl bd depth \<noteq> Err e"
proof (induction "lz_chain - depth" arbitrary: cp bl bd depth rule: less_induct)
  case less
  have "find_match d prv pos cp1 bl1 bd1 (depth + 1) \<noteq> Err e" if "depth < lz_chain" for cp1 bl1 bd1
    using less.hyps that by simp
  then show ?case by (subst find_match.simps) (auto simp: Let_def outcome_simps split: if_splits)
qed

section \<open>The encoding loop\<close>

lemma lz_copy_match:
  "\<lbrakk>dist \<le> p; 1 \<le> dist; p + n \<le> length d; \<forall>k < n. d ! (p + k) = d ! (p - dist + k)\<rbrakk> \<Longrightarrow>
    lz_copy dist n (take p d) = take (p + n) d"
proof (induction n arbitrary: p)
  case (Suc n)
  have "take p d @ [take p d ! (p - dist)] = take (Suc p) d"
    using Suc.prems spec [OF Suc.prems(4), of 0] by (simp add: take_Suc_conv_app_nth)
  moreover have "lz_copy dist n (take (Suc p) d) = take (Suc p + n) d"
  proof (rule Suc.IH)
    show "\<forall>k < n. d ! (Suc p + k) = d ! (Suc p - dist + k)"
    proof (intro allI impI)
      fix k assume "k < n"
      with spec [OF Suc.prems(4), of "Suc k"] Suc.prems(1) show "d ! (Suc p + k) = d ! (Suc p - dist + k)"
        by (simp add: Suc_diff_le)
    qed
  qed (use Suc.prems in auto)
  ultimately show ?case using Suc.prems by simp
qed simp

lemma match_symbol_fits:
  assumes "match_at d pos len dist" and "3 \<le> len"
  shows "apply_symbol (take pos d) (match_symbol len dist) = take (pos + len) d"
    and "length d \<le> max_inflate_size \<Longrightarrow> symbol_ok (take pos d) (match_symbol len dist)"
    and "symbol_coded fixed_ll_lens fixed_dist_lens (match_symbol len dist)"
proof -
  from assms have m: "1 \<le> dist" "dist \<le> pos" "dist \<le> 32768" "len \<le> 258" "pos + len \<le> length d"
    "\<forall>k < len. d ! (pos + k) = d ! (pos - dist + k)"
    by (auto simp: match_at_def)
  from len_sym_spec [OF assms(2) m(4)] obtain li where li: "li < 29" "len_sym len = 257 + li"
    "len_base ! li \<le> len" "len < len_base ! li + 2 ^ (len_xtra ! li)" by blast
  note di = dist_sym_spec [OF m(1,3)]
  have sum: "dist_base ! dist_sym dist + (dist - dist_base ! dist_sym dist) = dist"
    "len_base ! li + (len - len_base ! li) = len"
    using di li by auto
  show "apply_symbol (take pos d) (match_symbol len dist) = take (pos + len) d"
    using lz_copy_match [OF m(2,1,5,6)] li(2) by (simp add: match_symbol_def Let_def sum)
  show "length d \<le> max_inflate_size \<Longrightarrow> symbol_ok (take pos d) (match_symbol len dist)"
    using li di m(2,5) by (simp add: match_symbol_def Let_def sum less_diff_conv2)
  show "symbol_coded fixed_ll_lens fixed_dist_lens (match_symbol len dist)"
    using li(1,2) di by (simp add: match_symbol_def Let_def fixed_ll_nth fixed_dist_lens_def)
qed

lemma lit_symbol_fits:
  assumes "pos < length d"
  shows "apply_symbol (take pos d) (Lit (d ! pos)) = take (Suc pos) d"
    and "length d \<le> max_inflate_size \<Longrightarrow> symbol_ok (take pos d) (Lit (d ! pos))"
    and "symbol_coded fixed_ll_lens fixed_dist_lens (Lit b)"
  using assms unsigned_less [of b, where 'a = nat]
  by (simp_all add: take_Suc_conv_app_nth fixed_ll_nth)

text \<open>The writer has encoded the input from \<open>pos\<close> on.\<close>

definition encodes_from :: "bytes \<Rightarrow> nat \<Rightarrow> bit_writer \<Rightarrow> bit_writer \<Rightarrow> bool" where
  "encodes_from d pos w w' \<longleftrightarrow> bw_inv w' \<and>
    (\<exists>ss. bw_written w' = bw_written w @ concat (map fixed_symbol_bits ss) \<and>
       lz_expand (take pos d) ss = d \<and>
       (length d \<le> max_inflate_size \<longrightarrow> symbols_ok (take pos d) ss) \<and>
       list_all (symbol_coded fixed_ll_lens fixed_dist_lens) ss)"

lemma encodes_from_step:
  assumes "encodes_from d pos1 w1 w'" and "bw_written w1 = bw_written w @ fixed_symbol_bits s"
    and "apply_symbol (take pos d) s = take pos1 d"
    and "length d \<le> max_inflate_size \<Longrightarrow> symbol_ok (take pos d) s"
    and "symbol_coded fixed_ll_lens fixed_dist_lens s"
  shows "encodes_from d pos w w'"
proof -
  from assms(1) obtain ss where "bw_written w' = bw_written w1 @ concat (map fixed_symbol_bits ss)"
    "lz_expand (take pos1 d) ss = d" "length d \<le> max_inflate_size \<longrightarrow> symbols_ok (take pos1 d) ss"
    "list_all (symbol_coded fixed_ll_lens fixed_dist_lens) ss" "bw_inv w'"
    by (auto simp: encodes_from_def)
  with assms(2-5) show ?thesis
    unfolding encodes_from_def by (auto intro!: exI [of _ "s # ss"] simp: lz_expand_def)
qed

lemma deflate_loop_ensures:
  assumes d: "length d < 2 ^ 31"
  shows "\<lbrakk>links_ok d pos ls; bw_inv w; pos \<le> length d\<rbrakk> \<Longrightarrow>
    (\<exists>w'. deflate_loop d pos ls w = Ok w' \<and> encodes_from d pos w w')"
proof (induction "length d - pos" arbitrary: pos ls w rule: less_induct)
  case less
  have lit: "\<exists>w'. deflate_loop d (pos + 1) ls1 (bw_lit (d ! pos) w) = Ok w' \<and> encodes_from d pos w w'"
    if "pos < length d" "links_ok d (pos + 1) ls1" for ls1
  proof -
    from that(1) have "length d - (pos + 1) < length d - pos" by linarith
    from less.hyps [OF this that(2), of "bw_lit (d ! pos) w"] bw_lit_spec [OF less.prems(2)] that(1)
    obtain w' where w': "deflate_loop d (pos + 1) ls1 (bw_lit (d ! pos) w) = Ok w'"
      "encodes_from d (Suc pos) (bw_lit (d ! pos) w) w'" by auto
    have "encodes_from d pos w w'"
      by (rule encodes_from_step [OF w'(2), where s = "Lit (d ! pos)"])
        (use bw_lit_spec [OF less.prems(2)] lit_symbol_fits that(1) in auto)
    with w'(1) show ?thesis by blast
  qed
  consider "length d \<le> pos" | "pos < length d" "length d < pos + 3" | "pos + 3 \<le> length d" by linarith
  then show ?case
  proof cases
    case 1
    with less.prems show ?thesis
      by (auto simp: deflate_loop.simps [of d] encodes_from_def lz_expand_def intro!: exI [of _ "[]"])
  next
    case 2
    with lit [OF 2(1), of ls] links_ok_mono [OF less.prems(1), of "pos + 1"] show ?thesis
      by (simp add: deflate_loop.simps [of d pos] min_m_def)
  next
    case 3
    obtain hd prv where ls: "ls = (hd, prv)" by fastforce
    have lo: "length hd = hsize" "length prv = length d" "\<forall>i < hsize. link_ok pos (hd ! i)"
      "\<forall>i < length d. link_ok i (prv ! i)"
      using less.prems(1) by (auto simp: links_ok_def ls)
    have pos: "pos < length d" using 3 by simp
    from hash3_no_panic [of pos d] 3 obtain h where h: "hash3 d pos = Ok h"
      by (auto simp: hash3_def)
    let ?b = "bucket_of h"
    have b: "?b < hsize" by (rule bucket_of_less)
    have "ensures (find_match d prv pos (hd ! ?b) 0 0 0) (\<lambda>(l, dist). l = 0 \<or> match_at d pos l dist)"
      using find_match_ensures [OF d pos lo(2,4)] lo(3) b by simp
    moreover have "find_match d prv pos (hd ! ?b) 0 0 0 \<noteq> Err e" for e
      by (rule find_match_not_Err)
    ultimately obtain l dist where
      fm: "find_match d prv pos (hd ! ?b) 0 0 0 = Ok (l, dist)" "l = 0 \<or> match_at d pos l dist"
      by (cases "find_match d prv pos (hd ! ?b) 0 0 0") auto
    show ?thesis
    proof (cases "3 \<le> l")
      case True
      with fm have m: "match_at d pos l dist" by simp
      then have mb: "1 \<le> dist" "dist \<le> 32768" "l \<le> 258" "pos + l \<le> length d" by (auto simp: match_at_def)
      from link_range_ensures [OF d mb(4) less.prems(1)] link_range_not_Err
      obtain ls1 where ls1: "link_range d pos (pos + l) ls = Ok ls1" "links_ok d (pos + l) ls1"
        by (cases "link_range d pos (pos + l) ls") auto
      note bm = bw_match_spec [OF less.prems(2) True mb(3,1,2)]
      have "length d - (pos + l) < length d - pos" using True pos by linarith
      from less.hyps [OF this ls1(2), of "bw_match l dist w"] bm mb(4) obtain w' where
        w': "deflate_loop d (pos + l) ls1 (bw_match l dist w) = Ok w'"
          "encodes_from d (pos + l) (bw_match l dist w) w'" by auto
      have "encodes_from d pos w w'"
        by (rule encodes_from_step [OF w'(2), where s = "match_symbol l dist"])
          (use bm match_symbol_fits [OF m True] in auto)
      with w' fm(1) h b lo(1) ls1(1) True 3 ls pos show ?thesis
        by (simp add: deflate_loop.simps [of d pos] min_m_def)
    next
      case False
      from link_pos_ensures [OF less.prems(1) b pos d] link_pos_not_Err
      obtain ls1 where ls1: "link_pos ?b pos ls = Ok ls1" "links_ok d (pos + 1) ls1"
        by (cases "link_pos ?b pos ls") auto
      with lit [OF pos ls1(2)] fm(1) h b lo(1) False 3 ls pos show ?thesis
        by (simp add: deflate_loop.simps [of d pos] min_m_def)
    qed
  qed
qed


section \<open>Lossless compression\<close>

lemma bw_finish_flush [simp]: "bw_finish (bw_flush w) = bw_finish w"
  by (simp add: bw_finish_def bw_flush_def)

lemma deflate_bits:
  assumes "length d < 2 ^ 31"
  shows "\<exists>z ss pad. deflate d out = Ok (out @ z) \<and>
    bytes_bits z = [True, True, False] @ block_bits fixed_ll_lens fixed_dist_lens ss @ replicate pad False \<and>
    pad < 8 \<and> lz_expand [] ss = d \<and> (length d \<le> max_inflate_size \<longrightarrow> symbols_ok [] ss) \<and>
    list_all (symbol_coded fixed_ll_lens fixed_dist_lens) ss"
proof -
  let ?w = "bw_put 1 2 (bw_put 1 1 bw_new)"
  have w1: "bw_inv (bw_put 1 1 bw_new) \<and> bw_written (bw_put 1 1 bw_new) = [True]"
    using bw_put_spec [OF bw_new_simps(2), of 1 1] by (simp add: low_bits_def)
  then have w: "bw_inv ?w" "bw_written ?w = [True, True, False]"
    using bw_put_spec [of "bw_put 1 1 bw_new" 2 1]
    by (simp_all add: low_bits_def upt_rec eval_nat_numeral bit_1_iff take_bit_Suc)
  let ?ls = "(replicate hsize nil_link, replicate (length d) nil_link)"
  have "links_ok d 0 ?ls" by (auto simp: links_ok_def link_ok_def)
  from deflate_loop_ensures [OF assms this w(1)] obtain w' ss where
    w': "deflate_loop d 0 ?ls ?w = Ok w'" "bw_inv w'"
      "bw_written w' = [True, True, False] @ concat (map fixed_symbol_bits ss)"
      "lz_expand [] ss = d" "length d \<le> max_inflate_size \<longrightarrow> symbols_ok [] ss"
      "list_all (symbol_coded fixed_ll_lens fixed_dist_lens) ss"
    using w(2) by (auto simp: encodes_from_def)
  let ?we = "bw_eob w'"
  have we: "bw_inv ?we" "bw_written ?we = [True, True, False] @ block_bits fixed_ll_lens fixed_dist_lens ss"
    using bw_code_spec [OF w'(2), of 256] w'(3) by (simp_all add: bw_eob_def block_bits_def)
  have "deflate d out = Ok (out @ bw_finish ?we)"
  proof (cases "d = []")
    case True
    then have "w' = ?w" using w'(1) by (simp add: deflate_loop.simps)
    then show ?thesis using True by (simp add: deflate_def)
  next
    case False
    with w'(1) show ?thesis by (simp add: deflate_def)
  qed
  moreover have "bytes_bits (bw_finish ?we) = [True, True, False] @
      block_bits fixed_ll_lens fixed_dist_lens ss @ replicate ((8 - bw_n ?we) mod 8) False"
    using bw_flush_written [OF we(1)] we(2) by simp
  ultimately show ?thesis
    using w'(4,5,6) by (intro exI [of _ "bw_finish ?we"] exI [of _ ss]) auto
qed

lemma inflate_fixed_block:
  assumes "bytes_bits z = [True, True, False] @ block_bits fixed_ll_lens fixed_dist_lens ss @ pad"
    and "symbols_ok out ss" and "list_all (symbol_coded fixed_ll_lens fixed_dist_lens) ss"
    and "length (lz_expand out ss) \<le> max_inflate_size"
  shows "inflate_raw (z @ trailing) out = Ok (lz_expand out ss)"
proof -
  let ?r = "br_new (z @ trailing)"
  let ?rest = "block_bits fixed_ll_lens fixed_dist_lens ss @ pad @ bytes_bits trailing"
  have st: "br_stream ?r = low_bits 1 (1 :: u32) @ low_bits 2 (1 :: u32) @ ?rest"
    using assms(1) by (simp add: low_bits_def upt_rec eval_nat_numeral bit_1_iff)
  from reader.rd_field [OF br_new_stream(2) st] obtain r1 where
    r1: "br_read 1 ?r = Ok (1, r1)" "br_inv r1" "br_stream r1 = low_bits 2 (1 :: u32) @ ?rest" by auto
  from reader.rd_field [OF r1(2,3)] obtain r2 where
    r2: "br_read 2 r1 = Ok (1, r2)" "br_inv r2" "br_stream r2 = ?rest"
    by (auto simp: take_bit_Suc eval_nat_numeral)
  obtain ll dist where t: "huff_build fixed_ll_lens = Ok ll" "huff_build fixed_dist_lens = Ok dist"
    using fixed_lens_accepted by blast
  have tabs: "huff_for fixed_ll_lens ll" "huff_for fixed_dist_lens dist"
    using huff_build_Ok [OF t(1)] huff_build_Ok [OF t(2)] by auto
  from decode_block_complete [OF tabs _ _ r2(2) assms(2,3) r2(3)] obtain r3 where
    "decode_huffman_block ll dist r2 out = Ok (r3, lz_expand out ss)"
    by (auto simp: fixed_ll_nth)
  with t r1(1) r2(1) assms(4) show ?thesis
    by (simp add: inflate_raw_def inflate_loop.simps [of ?r] decode_block_def)
qed

lemma inflate_deflate:
  assumes "length d \<le> 1024 * 1024"
  shows "\<exists>z. deflate d out = Ok (out @ z) \<and> inflate_raw (z @ trailing) [] = Ok d"
proof -
  from deflate_bits [of d out] assms obtain z ss pad where
    z: "deflate d out = Ok (out @ z)"
      "bytes_bits z = [True, True, False] @ block_bits fixed_ll_lens fixed_dist_lens ss @ replicate pad False"
      "lz_expand [] ss = d" "symbols_ok [] ss" "list_all (symbol_coded fixed_ll_lens fixed_dist_lens) ss"
    by (auto simp: max_inflate_size_def)
  from inflate_fixed_block [OF z(2,4,5), of trailing] z(1,3) assms show ?thesis
    by (auto simp: max_inflate_size_def)
qed

end
