(* ===== verification/Gzip.thy ===== *)
theory Gzip
  imports RoundTrip
begin

text \<open>
  The gzip container and the permessage-deflate message coding: \<open>gzip_compress\<close>,
  \<open>deflate_raw\<close> and \<open>permessage_deflate_encode\<close> of \<open>gzip.rs\<close>, and
  \<open>inflate_permessage_deflate\<close> of \<open>ws.rs\<close>.
\<close>

section \<open>CRC-32\<close>

definition crc_poly :: u32 where
  "crc_poly = 0xEDB88320"

text \<open>One step of the table's inner loop, and the table.\<close>

definition crc_step :: "u32 \<Rightarrow> u32" where
  "crc_step crc = (if crc AND 1 \<noteq> 0 then drop_bit 1 crc XOR crc_poly else drop_bit 1 crc)"

definition crc32_table :: "u32 list" where
  "crc32_table = map (\<lambda>i. (crc_step ^^ 8) (of_nat i)) [0..<256]"

fun crc_loop :: "bytes \<Rightarrow> u32 \<Rightarrow> u32" where
  "crc_loop [] crc = crc"
| "crc_loop (b # bs) crc =
    crc_loop bs (crc32_table ! unat ((crc XOR ucast b) AND 0xFF) XOR drop_bit 8 crc)"

definition crc32 :: "bytes \<Rightarrow> u32" where
  "crc32 data = NOT (crc_loop data 0xFFFFFFFF)"

text \<open>
  The reference: the reflected CRC-32 as a shift register, one message bit at a time, least
  significant bit of each byte first, started and finished with all ones.
\<close>

definition crc_shift :: "u32 \<Rightarrow> bool \<Rightarrow> u32" where
  "crc_shift crc b =
    (if bit crc 0 \<noteq> b then drop_bit 1 crc XOR crc_poly else drop_bit 1 crc)"

definition crc_reference :: "bytes \<Rightarrow> u32" where
  "crc_reference data = NOT (foldl crc_shift (NOT 0) (bytes_bits data))"

lemma crc_step_bit: "crc_step crc = (if bit crc 0 then drop_bit 1 crc XOR crc_poly else drop_bit 1 crc)"
  by (simp add: crc_step_def and_one_eq bit_0 odd_iff_mod_2_eq_one)

lemma crc_step_xor: "crc_step (a XOR b) = crc_step a XOR crc_step b"
  by (auto simp: crc_step_bit drop_bit_xor bit_xor_iff ac_simps)

lemma crc_steps_xor: "(crc_step ^^ n) (a XOR b) = (crc_step ^^ n) a XOR (crc_step ^^ n) b"
  by (induction n) (simp_all add: crc_step_xor)

lemma crc_steps_push: "n \<le> 32 \<Longrightarrow> take_bit n a = 0 \<Longrightarrow> (crc_step ^^ n) a = drop_bit n a"
proof (induction n arbitrary: a)
  case (Suc n)
  have z: "\<not> bit a i" if "i < Suc n" for i
    using Suc.prems(2) that by (metis bit_0_eq bit_take_bit_iff bot_apply bot_bool_def)
  then have "crc_step a = drop_bit 1 a" by (simp add: crc_step_bit)
  moreover have "take_bit n (drop_bit 1 a) = 0"
    by (rule bit_word_eqI) (use z in \<open>auto simp: bit_simps\<close>)
  ultimately show ?case
    using Suc.IH [of "drop_bit 1 a"] Suc.prems(1) by (simp add: funpow_swap1 drop_bit_drop_bit del: drop_bit_Suc)
qed simp

text \<open>Eight steps through the table equal eight steps of the register.\<close>

lemma table_lookup:
  "crc32_table ! unat (c AND 0xFF) XOR drop_bit 8 c = (crc_step ^^ 8) c"
proof -
  let ?lo = "take_bit 8 c" and ?hi = "push_bit 8 (drop_bit 8 c)"
  have "unat ?lo < 256"
    using take_bit_nat_less_exp [of 8 "unat c"] by (simp add: unsigned_take_bit_eq)
  then have "crc32_table ! unat (c AND 0xFF) = (crc_step ^^ 8) ?lo"
    by (simp add: crc32_table_def and_0xFF)
  moreover have "(crc_step ^^ 8) ?hi = drop_bit 8 c"
  proof -
    have "take_bit 8 ?hi = 0" by (rule bit_word_eqI) (auto simp: bit_simps)
    then have "(crc_step ^^ 8) ?hi = drop_bit 8 ?hi" by (intro crc_steps_push) simp_all
    also have "\<dots> = drop_bit 8 c" by (rule bit_word_eqI) (auto simp: bit_simps dest: bit_imp_le_length)
    finally show ?thesis .
  qed
  moreover have "c = ?lo XOR ?hi"
    by (rule bit_word_eqI) (auto simp: bit_simps)
  ultimately show ?thesis
    using crc_steps_xor [of 8 ?lo ?hi] by simp
qed

lemma crc_shift_steps:
  "n \<le> 8 \<Longrightarrow> foldl crc_shift c (map (bit (b :: u8)) [k..<k + n]) =
    (crc_step ^^ n) (c XOR drop_bit k (ucast b)) XOR drop_bit (k + n) (ucast b)"
proof (induction n)
  case 0
  show ?case by (rule bit_word_eqI) (auto simp: bit_simps)
next
  case (Suc n)
  let ?b = "ucast b :: u32" and ?s = "(crc_step ^^ n) (c XOR drop_bit k (ucast b))"
  have b0: "bit b (k + n) = bit (drop_bit (k + n) ?b) 0"
    by (auto simp: bit_simps dest: bit_imp_le_length)
  have d: "drop_bit 1 (drop_bit (k + n) ?b) = drop_bit (Suc (k + n)) ?b"
    by (simp add: drop_bit_drop_bit ac_simps del: drop_bit_Suc)
  have "foldl crc_shift c (map (bit b) [k..<k + Suc n]) = crc_shift (?s XOR drop_bit (k + n) ?b) (bit b (k + n))"
    using Suc by simp
  also have "\<dots> = crc_step ?s XOR drop_bit (Suc (k + n)) ?b"
    unfolding b0 crc_shift_def crc_step_bit d [symmetric]
    by (auto simp: drop_bit_xor bit_xor_iff ac_simps)
  finally show ?case by simp
qed

lemma crc_byte:
  "foldl crc_shift c (low_bits 8 (b :: u8)) = crc32_table ! unat ((c XOR ucast b) AND 0xFF) XOR drop_bit 8 c"
proof -
  have d8: "drop_bit 8 (ucast b :: u32) = 0"
  proof (rule bit_word_eqI)
    fix n
    have "\<not> bit b (8 + n)" using bit_imp_le_length [of b "8 + n"] by auto
    then show "bit (drop_bit 8 (ucast b :: u32)) n = bit 0 n" by (simp add: bit_simps)
  qed
  then have "foldl crc_shift c (low_bits 8 b) = (crc_step ^^ 8) (c XOR ucast b)"
    using crc_shift_steps [of 8 c b 0] by (simp add: low_bits_def)
  moreover have "drop_bit 8 (c XOR ucast b) = drop_bit 8 c"
    using d8 by (simp add: drop_bit_xor)
  ultimately show ?thesis using table_lookup [of "c XOR ucast b"] by simp
qed

lemma crc_loop_reference: "crc_loop data c = foldl crc_shift c (bytes_bits data)"
  by (induction data c rule: crc_loop.induct) (simp_all add: crc_byte)

lemma crc32_eq_reference: "crc32 data = crc_reference data"
proof -
  have "(0xFFFFFFFF :: u32) = NOT 0" by code_simp
  then show ?thesis by (simp only: crc32_def crc_reference_def crc_loop_reference)
qed

text \<open>C7: The table-driven checksum is the CRC-32 of the shift-register definition.\<close>

theorem crc32_is_reference: "crc32 data = crc_reference data"
  by (rule crc32_eq_reference)


section \<open>Containers\<close>

definition u32_to_le_bytes :: "u32 \<Rightarrow> bytes" where
  "u32_to_le_bytes w = [ucast w, ucast (drop_bit 8 w), ucast (drop_bit 16 w), ucast (drop_bit 24 w)]"

definition gzip_header :: bytes where
  "gzip_header = [0x1F, 0x8B, 0x08, 0x00, 0x00, 0x00, 0x00, 0x00, 0x04, 0xFF]"

definition gzip_compress :: "bytes \<Rightarrow> (bytes, gzip_err) outcome" where
  "gzip_compress data =
    and_then (deflate data gzip_header) (\<lambda>out.
      Ok (out @ u32_to_le_bytes (crc32 data) @ u32_to_le_bytes (of_nat (length data))))"

definition deflate_raw :: "bytes \<Rightarrow> (bytes, gzip_err) outcome" where
  "deflate_raw data = deflate data []"

definition sync_marker :: bytes where
  "sync_marker = [0x00, 0x00, 0xFF, 0xFF]"

definition permessage_deflate_encode :: "bytes \<Rightarrow> (bytes, gzip_err) outcome" where
  "permessage_deflate_encode data =
    and_then (deflate_raw data) (\<lambda>out.
      Ok (if length out \<ge> 4 \<and> drop (length out - 4) out = sync_marker
          then take (length out - 4) out else out))"

section \<open>The encoder never panics, and its output is lossless\<close>

text \<open>
  For every input below 2 GiB the encoder returns (no index of the hash chains, the input or
  the tables is out of bounds), and for every input up to 1 MiB the raw DEFLATE stream inflates
  to the input, whatever bytes follow the stream.
\<close>

theorem deflate_raw_roundtrip:
  assumes "length data < 2 ^ 31"
  shows "\<exists>z. deflate_raw data = Ok z \<and>
    (length data \<le> 1024 * 1024 \<longrightarrow> inflate_raw (z @ trailing) [] = Ok data)"
proof (cases "length data \<le> 1024 * 1024")
  case True
  with inflate_deflate [OF True, of "[]" trailing] show ?thesis by (simp add: deflate_raw_def)
next
  case False
  with deflate_bits [OF assms, of "[]"] show ?thesis by (auto simp: deflate_raw_def)
qed

lemma deflate_raw_roundtrip_witness:
  "\<exists>z. deflate_raw [104, 105, 104, 105] = Ok z \<and> inflate_raw (z @ [0, 1]) [] = Ok [104, 105, 104, 105]"
  using deflate_raw_roundtrip [of "[104, 105, 104, 105]" "[0, 1]"] by simp

lemma deflate_gzip_body:
  assumes "length data < 2 ^ 31"
  shows "\<exists>z. deflate data gzip_header = Ok (gzip_header @ z) \<and> deflate_raw data = Ok z"
proof -
  have "deflate data out = and_then (deflate_raw data) (\<lambda>z. Ok (out @ z))" for out
    by (simp add: deflate_raw_def deflate_def and_then_assoc Let_def)
  moreover from deflate_bits [OF assms, of "[]"] obtain z where "deflate_raw data = Ok z"
    by (auto simp: deflate_raw_def)
  ultimately show ?thesis by simp
qed

text \<open>
  \<open>gzip_compress\<close> produces an RFC 1952 member: the fixed ten-byte header, a DEFLATE stream
  that inflates to the data, and the little-endian CRC-32 and length of the data.
\<close>

theorem gzip_compress_member:
  assumes "length data \<le> 1024 * 1024"
  shows "\<exists>z. gzip_compress data = Ok ([0x1F, 0x8B, 8, 0, 0, 0, 0, 0, 4, 0xFF] @ z @
      u32_to_le_bytes (crc_reference data) @ u32_to_le_bytes (of_nat (length data))) \<and>
    inflate_raw z [] = Ok data"
proof -
  from inflate_deflate [OF assms, of "[]" "[]"] obtain z where
    z: "deflate_raw data = Ok z" "inflate_raw z [] = Ok data" by (auto simp: deflate_raw_def)
  with deflate_gzip_body [of data] assms have "deflate data gzip_header = Ok (gzip_header @ z)" by auto
  with z(2) crc_loop_reference show ?thesis
    by (simp add: gzip_compress_def gzip_header_def crc32_eq_reference)
qed

lemma gzip_compress_member_witness:
  "\<exists>z. gzip_compress [] = Ok ([0x1F, 0x8B, 8, 0, 0, 0, 0, 0, 4, 0xFF] @ z @
      u32_to_le_bytes (crc_reference []) @ u32_to_le_bytes 0) \<and> inflate_raw z [] = Ok []"
  using gzip_compress_member [of "[]"] by simp

section \<open>permessage-deflate\<close>

text \<open>\<open>WsErr\<close> of \<open>ws.rs\<close>: the variants with their message texts.\<close>

datatype ws_err = Io string | Tls string | Dns string | Handshake string | Protocol string | BufferFull

definition max_frame_size :: nat where
  "max_frame_size = 1024 * 1024"

definition permessage_deflate_trailer :: bytes where
  "permessage_deflate_trailer = [0x00, 0x00, 0xFF, 0xFF, 0x01, 0x00, 0x00, 0xFF, 0xFF]"

fun inflate_err_text :: "inflate_err \<Rightarrow> string" where
  "inflate_err_text UnexpectedEof = ''inflate: unexpected end of stream''"
| "inflate_err_text InvalidData = ''inflate: invalid data''"
| "inflate_err_text BadDistance = ''inflate: distance too far back''"
| "inflate_err_text BadCode = ''inflate: invalid huffman code''"
| "inflate_err_text MaxSizeExceeded = ''inflate: output exceeded 1 MiB safety limit''"

definition inflate_permessage_deflate :: "bytes \<Rightarrow> (bytes, ws_err) outcome" where
  "inflate_permessage_deflate compressed =
    (case inflate_raw (compressed @ permessage_deflate_trailer) [] of
       Panic \<Rightarrow> Panic
     | Err e \<Rightarrow> Err (Protocol (''permessage-deflate inflate error: '' @ inflate_err_text e))
     | Ok inflated \<Rightarrow>
         if length inflated > max_frame_size
         then Err (Protocol ''permessage-deflate output exceeded 1 MiB safety limit'')
         else Ok inflated)"

lemma deflate_last_byte:
  assumes "length data < 2 ^ 31" and "deflate_raw data = Ok z"
  shows "z \<noteq> [] \<and> \<not> bit (last z) 7"
proof -
  from deflate_bits [OF assms(1), of "[]"] assms(2) obtain ss pad where
    z: "bytes_bits z = [True, True, False] @ block_bits fixed_ll_lens fixed_dist_lens ss @ replicate pad False"
    by (auto simp: deflate_raw_def)
  have eob: "canon_bits fixed_ll_lens 256 = replicate 7 False"
  proof -
    have "fixed_ll_lens ! 256 = 7" "canon_code fixed_ll_lens 256 = 0"
      by (simp_all add: fixed_ll_nth fixed_ll_code)
    moreover have "msb_bits 7 0 = replicate 7 False" by code_simp
    ultimately show ?thesis by (simp only: canon_bits_def)
  qed
  have last: "last (bytes_bits z) = False" and ne: "z \<noteq> []"
    using z by (auto simp: block_bits_def eob last_replicate simp flip: replicate_add)
  from ne have "z = butlast z @ [last z]" by simp
  then have "bytes_bits z = bytes_bits (butlast z) @ low_bits 8 (last z)"
    by (metis append_Nil2 bytes_bits_simps)
  moreover have "low_bits 8 (last z) = low_bits 7 (last z) @ [bit (last z) 7]"
    using low_bits_Suc [of 7 "last z"] by simp
  ultimately have "last (bytes_bits z) = bit (last z) 7" by simp
  with last ne show ?thesis by simp
qed

lemma permessage_stream:
  assumes "length data \<le> 1024 * 1024"
  shows "\<exists>z. permessage_deflate_encode data = Ok z \<and> deflate_raw data = Ok z \<and>
    \<not> suffix [0x00, 0x00, 0xFF, 0xFF] z \<and> inflate_permessage_deflate z = Ok data"
proof -
  from inflate_deflate [OF assms, of "[]" permessage_deflate_trailer] obtain z where
    z: "deflate_raw data = Ok z" "inflate_raw (z @ permessage_deflate_trailer) [] = Ok data"
    by (auto simp: deflate_raw_def)
  from deflate_last_byte [OF _ z(1)] assms have lst: "z \<noteq> [] \<and> \<not> bit (last z) 7" by simp
  have "\<not> suffix (xs @ [0xFF]) z" for xs
  proof
    assume "suffix (xs @ [0xFF]) z"
    then have "last z = 0xFF" by (auto simp: suffix_def)
    moreover have "bit (0xFF :: u8) 7" by code_simp
    ultimately show False using lst by simp
  qed
  from this [of "[0, 0, 0xFF]"] have ns: "\<not> suffix [0, 0, 0xFF, 0xFF] z" by simp
  have "drop (length z - 4) z \<noteq> sync_marker"
  proof
    assume *: "drop (length z - 4) z = sync_marker"
    have "suffix (drop (length z - 4) z) z" by (rule suffix_drop)
    with * ns show False by (simp add: sync_marker_def)
  qed
  with z ns assms show ?thesis
    by (simp add: permessage_deflate_encode_def inflate_permessage_deflate_def max_frame_size_def)
qed

text \<open>
  C3: Message coding: for every message up to 1 MiB, \<open>permessage_deflate_encode\<close> followed by
  \<open>inflate_permessage_deflate\<close> (which appends the RFC 7692 trailer) returns the message; the
  encoder's stream never ends in the sync marker, so the branch that strips it is never taken.
\<close>

theorem permessage_deflate_roundtrip:
  assumes "length data \<le> 1024 * 1024"
  shows "\<exists>z. permessage_deflate_encode data = Ok z \<and> deflate_raw data = Ok z \<and>
    \<not> suffix [0x00, 0x00, 0xFF, 0xFF] z \<and> inflate_permessage_deflate z = Ok data"
  using permessage_stream [OF assms] .

lemma permessage_deflate_roundtrip_witness:
  "\<exists>z. permessage_deflate_encode [123, 125] = Ok z \<and> inflate_permessage_deflate z = Ok [123, 125]"
  using permessage_deflate_roundtrip [of "[123, 125]"] by auto

end
