(* ===== verification/WsFrame.thy ===== *)
theory WsFrame
  imports Gzip
begin

text \<open>
  WebSocket framing of \<open>ws.rs\<close>: masking, the frame header and the writer of masked frames, and
  \<open>FrameReader\<close>, which reads one message over many reads of the socket.  A socket is the list of
  what its successive reads deliver; the reader's state persists across errors, so every
  function returns the new state next to its result.
\<close>

section \<open>Byte order\<close>

text \<open>\<open>to_be_bytes\<close> and \<open>from_be_bytes\<close> for integers held as naturals.\<close>

definition be_bytes :: "nat \<Rightarrow> nat \<Rightarrow> bytes" where
  "be_bytes k v = map (\<lambda>i. of_nat (v div 256 ^ (k - 1 - i))) [0..<k]"

definition from_be :: "bytes \<Rightarrow> nat" where
  "from_be bs = foldl (\<lambda>acc b. acc * 256 + unat b) 0 bs"

section \<open>Opcodes and messages\<close>

datatype ws_opcode = Continuation | Text | Binary | Close | Ping | Pong

fun opcode_u8 :: "ws_opcode \<Rightarrow> u8" where
  "opcode_u8 Continuation = 0"
| "opcode_u8 Text = 1"
| "opcode_u8 Binary = 2"
| "opcode_u8 Close = 8"
| "opcode_u8 Ping = 9"
| "opcode_u8 Pong = 10"

datatype ws_message = TextMsg bytes | BinaryMsg bytes | PingMsg bytes | PongMsg bytes | CloseMsg

section \<open>Masking and writing\<close>

definition apply_mask :: "bytes \<Rightarrow> bytes \<Rightarrow> bytes" where
  "apply_mask key data = map (\<lambda>i. data ! i XOR key ! (i mod 4)) [0..<length data]"

definition build_frame_header :: "u8 \<Rightarrow> nat \<Rightarrow> bool \<Rightarrow> bool \<Rightarrow> bytes" where
  "build_frame_header opcode payload_len masked rsv1 =
    (let fin_rsv = (if rsv1 then 0xC0 else 0x80 :: u8);
         b0 = fin_rsv OR (opcode AND 0x0F);
         mask_bit = (if masked then 0x80 else 0x00 :: u8)
     in if payload_len < 126 then [b0, mask_bit OR of_nat payload_len]
        else if payload_len \<le> 65535
        then [b0, mask_bit OR 126] @ be_bytes 2 (payload_len mod 2 ^ 16)
        else [b0, mask_bit OR 127] @ be_bytes 8 payload_len)"

definition mask_chunk_size :: nat where
  "mask_chunk_size = 4096"

function chunks_of :: "nat \<Rightarrow> 'a list \<Rightarrow> 'a list list" where
  "chunks_of n xs = (if xs = [] \<or> n = 0 then [] else take n xs # chunks_of n (drop n xs))"
  by auto
termination by (relation "measure (\<lambda>(n, xs). length xs)") auto

declare chunks_of.simps [simp del]

text \<open>
  The bytes one call writes to the stream, in order; the masking key is what the operating
  system's random source returned.
\<close>

definition write_masked_frame :: "bytes \<Rightarrow> u8 \<Rightarrow> bytes \<Rightarrow> bool \<Rightarrow> (bytes, gzip_err) outcome" where
  "write_masked_frame mask_key opcode payload compress =
    and_then (if compress then permessage_deflate_encode payload else Ok payload) (\<lambda>frame_payload.
      Ok (build_frame_header opcode (length frame_payload) True compress @ mask_key @
          concat (map (apply_mask mask_key) (chunks_of mask_chunk_size frame_payload))))"

definition send_text :: "bytes \<Rightarrow> bool \<Rightarrow> bytes \<Rightarrow> (bytes, gzip_err) outcome" where
  "send_text mask_key compression_enabled data =
    write_masked_frame mask_key (opcode_u8 Text) data compression_enabled"

definition send_binary :: "bytes \<Rightarrow> bool \<Rightarrow> bytes \<Rightarrow> (bytes, gzip_err) outcome" where
  "send_binary mask_key compression_enabled data =
    write_masked_frame mask_key (opcode_u8 Binary) data compression_enabled"

definition send_ping :: "bytes \<Rightarrow> (bytes, gzip_err) outcome" where
  "send_ping mask_key = write_masked_frame mask_key (opcode_u8 Ping) [] False"

definition send_pong :: "bytes \<Rightarrow> bytes \<Rightarrow> (bytes, gzip_err) outcome" where
  "send_pong mask_key data = write_masked_frame mask_key (opcode_u8 Pong) data False"

definition send_close :: "bytes \<Rightarrow> (bytes, gzip_err) outcome" where
  "send_close mask_key = write_masked_frame mask_key (opcode_u8 Close) [] False"

section \<open>The socket\<close>

text \<open>
  What the socket has to deliver: bytes that have arrived (a read takes at most what fits and
  leaves the rest), an interrupted read, a read that timed out or would block, and a failure.
  An empty list is the end of the stream.
\<close>

datatype read_event = Arrived bytes | Interrupted | TimedOut | Failure string

datatype read_result = Got bytes | ReadInterrupted | ReadTimedOut | ReadFailed string

fun sock_read :: "nat \<Rightarrow> read_event list \<Rightarrow> read_result \<times> read_event list" where
  "sock_read room [] = (Got [], [])"
| "sock_read room (Arrived bs # es) =
    (if length bs \<le> room then (Got bs, es) else (Got (take room bs), Arrived (drop room bs) # es))"
| "sock_read room (Interrupted # es) = (ReadInterrupted, es)"
| "sock_read room (TimedOut # es) = (ReadTimedOut, es)"
| "sock_read room (Failure msg # es) = (ReadFailed msg, es)"

fun event_size :: "read_event \<Rightarrow> nat" where
  "event_size (Arrived bs) = Suc (length bs)"
| "event_size _ = 1"

definition sock_size :: "read_event list \<Rightarrow> nat" where
  "sock_size es = sum_list (map event_size es)"

section \<open>Filling a part of a frame\<close>

definition timed_out_err :: ws_err where
  "timed_out_err = Io ''WebSocket read timed out''"

definition truncated_frame :: ws_err where
  "truncated_frame = Io ''unexpected EOF within WebSocket frame''"

text \<open>The state of \<open>fill_frame_part\<close>: buffer, offset, failed flag and socket.\<close>

record fill_state =
  fp_buf :: bytes
  fp_filled :: nat
  fp_failed :: bool
  fp_sock :: "read_event list"

lemma sock_read_size:
  "\<lbrakk>sock_read room es = (res, es'); 0 < room; res \<noteq> Got []\<rbrakk> \<Longrightarrow> sock_size es' < sock_size es"
  by (induction room es rule: sock_read.induct) (auto simp: sock_size_def split: if_splits)

function fill_frame_part :: "nat \<Rightarrow> fill_state \<Rightarrow> (bool, ws_err) outcome \<times> fill_state" where
  "fill_frame_part len s =
    (if fp_filled s < len
     then case sock_read (len - fp_filled s) (fp_sock s) of
            (Got bs, es) \<Rightarrow>
              (if bs = [] then (Ok False, s\<lparr>fp_sock := es\<rparr>)
               else fill_frame_part len
                      (s\<lparr>fp_buf := take (fp_filled s) (fp_buf s) @ bs @ drop (fp_filled s + length bs) (fp_buf s),
                         fp_filled := fp_filled s + length bs, fp_sock := es\<rparr>))
          | (ReadInterrupted, es) \<Rightarrow> fill_frame_part len (s\<lparr>fp_sock := es\<rparr>)
          | (ReadTimedOut, es) \<Rightarrow> (Err timed_out_err, s\<lparr>fp_sock := es\<rparr>)
          | (ReadFailed msg, es) \<Rightarrow> (Err (Io msg), s\<lparr>fp_failed := True, fp_sock := es\<rparr>)
     else (Ok True, s))"
  by auto
termination
  by (relation "measure (\<lambda>(len, s). sock_size (fp_sock s))")
    (auto dest!: sock_read_size [OF sym])

declare fill_frame_part.simps [simp del]

section \<open>Reading a frame\<close>

record frame_reader =
  fr_header :: bytes
  fr_header_read :: nat
  fr_payload :: bytes
  fr_payload_read :: nat
  fr_message :: bytes
  fr_message_opcode :: u8
  fr_message_compressed :: bool
  fr_failed :: bool

definition frame_reader_default :: frame_reader where
  "frame_reader_default =
    \<lparr>fr_header = replicate 14 0, fr_header_read = 0, fr_payload = [], fr_payload_read = 0,
     fr_message = [], fr_message_opcode = 0, fr_message_compressed = False, fr_failed = False\<rparr>"

record received_frame =
  rf_fin :: bool
  rf_opcode :: u8
  rf_compressed :: bool
  rf_payload :: bytes

definition is_control :: "u8 \<Rightarrow> bool" where
  "is_control opcode \<longleftrightarrow> opcode \<in> {8, 9, 10}"

definition frame_violation :: "u8 \<Rightarrow> u8 \<Rightarrow> bool \<Rightarrow> u8 \<Rightarrow> string option" where
  "frame_violation h0 h1 compression_enabled message_opcode =
    (let fin = (h0 AND 0x80 \<noteq> 0); rsv1 = (h0 AND 0x40 \<noteq> 0); opcode = h0 AND 0x0F;
         short_len = h1 AND 0x7F; control = is_control opcode
     in if h0 AND 0x30 \<noteq> 0 then Some ''unsupported WebSocket reserved bits''
        else if opcode \<notin> {0, 1, 2, 8, 9, 10} then Some ''unsupported WebSocket opcode''
        else if control \<and> (\<not> fin \<or> short_len > 125 \<or> rsv1) then Some ''invalid WebSocket control frame''
        else if rsv1 \<and> (\<not> compression_enabled \<or> opcode = 0) then Some ''invalid WebSocket compression flag''
        else if opcode = 0 \<and> message_opcode = 0 then Some ''unexpected WebSocket continuation frame''
        else if opcode \<in> {1, 2} \<and> message_opcode \<noteq> 0
        then Some ''new WebSocket data frame before final continuation''
        else None)"

definition length_end :: "u8 \<Rightarrow> nat" where
  "length_end short_len = (if short_len = 126 then 4 else if short_len = 127 then 10 else 2)"

definition header_payload_len :: "bytes \<Rightarrow> nat" where
  "header_payload_len header =
    (let short_len = header ! 1 AND 0x7F
     in if short_len = 126 then from_be (take 2 (drop 2 header))
        else if short_len = 127 then from_be (take 8 (drop 2 header))
        else unat short_len)"

definition resize0 :: "bytes \<Rightarrow> nat \<Rightarrow> bytes" where
  "resize0 bs n = take n bs @ replicate (n - length bs) 0"

text \<open>\<open>fill_frame_part\<close> on the header and on the payload of the reader.\<close>

definition fill_header ::
  "nat \<Rightarrow> frame_reader \<Rightarrow> read_event list \<Rightarrow> (bool, ws_err) outcome \<times> frame_reader \<times> read_event list" where
  "fill_header len st es =
    (let (res, s) = fill_frame_part len
           \<lparr>fp_buf = fr_header st, fp_filled = fr_header_read st, fp_failed = fr_failed st, fp_sock = es\<rparr>
     in (res, st\<lparr>fr_header := fp_buf s, fr_header_read := fp_filled s, fr_failed := fp_failed s\<rparr>, fp_sock s))"

definition fill_payload ::
  "frame_reader \<Rightarrow> read_event list \<Rightarrow> (bool, ws_err) outcome \<times> frame_reader \<times> read_event list" where
  "fill_payload st es =
    (let (res, s) = fill_frame_part (length (fr_payload st))
           \<lparr>fp_buf = fr_payload st, fp_filled = fr_payload_read st, fp_failed = fr_failed st, fp_sock = es\<rparr>
     in (res, st\<lparr>fr_payload := fp_buf s, fr_payload_read := fp_filled s, fr_failed := fp_failed s\<rparr>, fp_sock s))"

type_synonym 'a read_out = "('a, ws_err) outcome \<times> frame_reader \<times> read_event list"

text \<open>Sequencing: continue on \<open>Ok\<close>, keep the state on an error.\<close>

definition on_ok :: "'a read_out \<Rightarrow> ('a \<Rightarrow> frame_reader \<Rightarrow> read_event list \<Rightarrow> 'b read_out) \<Rightarrow> 'b read_out" where
  "on_ok m f = (case m of (Ok x, st, es) \<Rightarrow> f x st es | (Err e, st, es) \<Rightarrow> (Err e, st, es)
                | (Panic, st, es) \<Rightarrow> (Panic, st, es))"

definition fail_with :: "ws_err \<Rightarrow> frame_reader \<Rightarrow> read_event list \<Rightarrow> 'a read_out" where
  "fail_with e st es = (Err e, st\<lparr>fr_failed := True\<rparr>, es)"

definition finish_frame :: "frame_reader \<Rightarrow> read_event list \<Rightarrow> received_frame option read_out" where
  "finish_frame st es =
    (let h = fr_header st; len_end = length_end (h ! 1 AND 0x7F);
         payload = (if h ! 1 AND 0x80 \<noteq> 0 then apply_mask (take 4 (drop len_end h)) (fr_payload st)
                    else fr_payload st)
     in (Ok (Some \<lparr>rf_fin = (h ! 0 AND 0x80 \<noteq> 0), rf_opcode = h ! 0 AND 0x0F,
                   rf_compressed = (h ! 0 AND 0x40 \<noteq> 0), rf_payload = payload\<rparr>),
         st\<lparr>fr_payload := [], fr_header_read := 0, fr_payload_read := 0, fr_failed := False\<rparr>, es))"

definition read_payload :: "frame_reader \<Rightarrow> read_event list \<Rightarrow> received_frame option read_out" where
  "read_payload st es =
    (let h = fr_header st; control = is_control (h ! 0 AND 0x0F); payload_len = header_payload_len h
     in if payload_len > max_frame_size \<or>
           (\<not> control \<and> payload_len > max_frame_size - length (fr_message st))
        then fail_with (Protocol ''frame or reassembled message payload exceeds 1 MiB safety limit'') st es
        else on_ok (fill_payload (st\<lparr>fr_payload := resize0 (fr_payload st) payload_len\<rparr>) es) (\<lambda>complete st1 es1.
               if \<not> complete then fail_with truncated_frame st1 es1 else finish_frame st1 es1))"

definition read_frame ::
  "bool \<Rightarrow> frame_reader \<Rightarrow> read_event list \<Rightarrow> received_frame option read_out" where
  "read_frame compression_enabled st es =
    (if fr_failed st
     then (Err (Protocol ''cannot resume a failed WebSocket frame reader''), st, es)
     else on_ok (fill_header 2 st es) (\<lambda>complete st1 es1.
       if \<not> complete
       then if fr_header_read st1 = 0 then (Ok None, st1, es1) else fail_with truncated_frame st1 es1
       else case frame_violation (fr_header st1 ! 0) (fr_header st1 ! 1) compression_enabled (fr_message_opcode st1) of
              Some msg \<Rightarrow> fail_with (Protocol msg) st1 es1
            | None \<Rightarrow>
                let h1 = fr_header st1 ! 1;
                    header_len = length_end (h1 AND 0x7F) + (if h1 AND 0x80 \<noteq> 0 then 4 else 0)
                in on_ok (fill_header header_len st1 es1) (\<lambda>complete st2 es2.
                     if \<not> complete then fail_with truncated_frame st2 es2 else read_payload st2 es2)))"


section \<open>Reading a message\<close>

lemma sock_read_got:
  "sock_read room es = (Got bs, es') \<Longrightarrow> length bs \<le> room \<and> sock_size es' + length bs \<le> sock_size es"
  by (induction room es rule: sock_read.induct) (auto simp: sock_size_def split: if_splits)

lemma sock_read_other:
  "\<lbrakk>sock_read room es = (res, es'); \<forall>bs. res \<noteq> Got bs\<rbrakk> \<Longrightarrow> sock_size es' < sock_size es"
  by (induction room es rule: sock_read.induct) (auto simp: sock_size_def split: if_splits)

lemma fill_frame_part_progress:
  "fill_frame_part len s = (res, s') \<Longrightarrow>
    fp_filled s' + sock_size (fp_sock s') \<le> fp_filled s + sock_size (fp_sock s) \<and>
    fp_filled s \<le> fp_filled s' \<and> (res = Ok True \<longrightarrow> len \<le> fp_filled s') \<and>
    (fp_filled s \<le> len \<longrightarrow> fp_filled s' \<le> len) \<and> res \<noteq> Panic"
proof (induction len s arbitrary: res s' rule: fill_frame_part.induct)
  case (1 len s)
  show ?case
  proof (cases "fp_filled s < len")
    case False
    with "1.prems" show ?thesis by (auto simp: fill_frame_part.simps [of len s])
  next
    case True
    obtain out es where r: "sock_read (len - fp_filled s) (fp_sock s) = (out, es)" by fastforce
    show ?thesis
    proof (cases out)
      case (Got bs)
      with r sock_read_got have b: "length bs \<le> len - fp_filled s" "sock_size es + length bs \<le> sock_size (fp_sock s)"
        by blast+
      show ?thesis
      proof (cases "bs = []")
        case True
        with "1.prems" r Got \<open>fp_filled s < len\<close> b show ?thesis
          by (auto simp: fill_frame_part.simps [of len s])
      next
        case False
        with "1.prems" r Got True b "1.IH"(1) [OF True r [symmetric] Got False] show ?thesis
          by (force simp: fill_frame_part.simps [of len s])
      qed
    next
      case ReadInterrupted
      with "1.prems" r True "1.IH"(2) [OF True r [symmetric] ReadInterrupted] sock_read_other [OF r]
      show ?thesis by (force simp: fill_frame_part.simps [of len s])
    next
      case ReadTimedOut
      with "1.prems" r True sock_read_other [OF r] show ?thesis
        by (auto simp: fill_frame_part.simps [of len s])
    next
      case (ReadFailed msg)
      with "1.prems" r True sock_read_other [OF r] show ?thesis
        by (auto simp: fill_frame_part.simps [of len s])
    qed
  qed
qed


text \<open>What a reader and its socket still hold; every returned frame makes it smaller.\<close>

definition read_measure :: "frame_reader \<Rightarrow> read_event list \<Rightarrow> nat" where
  "read_measure st es = fr_header_read st + fr_payload_read st + sock_size es"

lemma on_ok_eq_Ok:
  "on_ok m f = (Ok y, st', es') \<longleftrightarrow> (\<exists>x st es. m = (Ok x, st, es) \<and> f x st es = (Ok y, st', es'))"
  by (cases m; cases "fst m") (auto simp: on_ok_def)

lemma fill_header_progress:
  "fill_header len st es = (res, st', es') \<Longrightarrow>
    read_measure st' es' \<le> read_measure st es \<and> fr_header_read st \<le> fr_header_read st' \<and>
    (res = Ok True \<longrightarrow> len \<le> fr_header_read st')"
  by (auto simp: fill_header_def read_measure_def split: prod.splits dest!: fill_frame_part_progress)

lemma fill_payload_progress:
  "fill_payload st es = (res, st', es') \<Longrightarrow>
    read_measure st' es' \<le> read_measure st es \<and> fr_header_read st' = fr_header_read st"
  by (auto simp: fill_payload_def read_measure_def split: prod.splits dest!: fill_frame_part_progress)

lemma read_measure_failed [simp]: "read_measure (st\<lparr>fr_failed := b\<rparr>) es = read_measure st es"
  "read_measure (st\<lparr>fr_payload := p\<rparr>) es = read_measure st es"
  by (simp_all add: read_measure_def)

lemma fail_with_not_Ok [simp]: "fail_with e st es \<noteq> (Ok x, st', es')"
  by (simp add: fail_with_def)

lemma read_payload_progress:
  "read_payload st es = (Ok x, st', es') \<Longrightarrow> read_measure st' es' + fr_header_read st \<le> read_measure st es"
  by (auto simp: read_payload_def Let_def on_ok_eq_Ok finish_frame_def split: if_splits
      dest!: fill_payload_progress) (simp_all add: read_measure_def)

lemma read_frame_progress:
  "read_frame c st es = (Ok (Some f), st', es') \<Longrightarrow> read_measure st' es' < read_measure st es"
  by (auto simp: read_frame_def Let_def on_ok_eq_Ok split: if_splits option.splits
      dest!: fill_header_progress read_payload_progress)

definition eof_in_message :: ws_err where
  "eof_in_message = Io ''unexpected EOF before final WebSocket continuation''"

text \<open>A data frame: remember or append its payload.\<close>

definition accept_data :: "received_frame \<Rightarrow> frame_reader \<Rightarrow> frame_reader" where
  "accept_data f st =
    (if rf_opcode f \<noteq> 0
     then st\<lparr>fr_message_opcode := rf_opcode f, fr_message_compressed := rf_compressed f,
             fr_message := rf_payload f\<rparr>
     else st\<lparr>fr_message := fr_message st @ rf_payload f\<rparr>)"

text \<open>The final frame of a data message: inflate if compressed, and deliver.\<close>

definition deliver_message :: "frame_reader \<Rightarrow> read_event list \<Rightarrow> ws_message option read_out" where
  "deliver_message st es =
    (let st1 = st\<lparr>fr_failed := True, fr_message := []\<rparr>
     in case (if fr_message_compressed st then inflate_permessage_deflate (fr_message st)
              else Ok (fr_message st)) of
          Panic \<Rightarrow> (Panic, st1, es)
        | Err e \<Rightarrow> (Err e, st1, es)
        | Ok payload \<Rightarrow>
            (Ok (Some (if fr_message_opcode st = 1 then TextMsg payload else BinaryMsg payload)),
             st1\<lparr>fr_message_opcode := 0, fr_message_compressed := False, fr_failed := False\<rparr>, es))"

function read_message ::
  "bool \<Rightarrow> frame_reader \<Rightarrow> read_event list \<Rightarrow> ws_message option read_out" where
  "read_message c st es =
    (case read_frame c st es of
       (Panic, st1, es1) \<Rightarrow> (Panic, st1, es1)
     | (Err e, st1, es1) \<Rightarrow> (Err e, st1, es1)
     | (Ok None, st1, es1) \<Rightarrow>
         if fr_message_opcode st1 \<noteq> 0 then fail_with eof_in_message st1 es1 else (Ok None, st1, es1)
     | (Ok (Some f), st1, es1) \<Rightarrow>
         if rf_opcode f = 8
         then (Ok (Some CloseMsg),
               st1\<lparr>fr_message := [], fr_message_opcode := 0, fr_message_compressed := False\<rparr>, es1)
         else if rf_opcode f = 9 then (Ok (Some (PingMsg (rf_payload f))), st1, es1)
         else if rf_opcode f = 10 then (Ok (Some (PongMsg (rf_payload f))), st1, es1)
         else if \<not> rf_fin f then read_message c (accept_data f st1) es1
         else deliver_message (accept_data f st1) es1)"
  by auto
termination
  by (relation "measure (\<lambda>(c, st, es). read_measure st es)")
    (auto simp: accept_data_def read_measure_def dest!: read_frame_progress [OF sym])

declare read_message.simps [simp del]

end
