(* ===== verification/WsSpec.thy ===== *)
theory WsSpec
  imports WsFrame
begin

text \<open>
  What reading means, independently of how the bytes arrive: a frame and a message are functions
  of the byte stream, and \<open>FrameReader\<close>, called again after every timeout, computes them for
  every schedule of arrivals, interruptions and timeouts.
\<close>

section \<open>Schedules\<close>

fun event_bytes :: "read_event \<Rightarrow> bytes" where
  "event_bytes (Arrived bs) = bs"
| "event_bytes _ = []"

definition flat :: "read_event list \<Rightarrow> bytes" where
  "flat es = concat (map event_bytes es)"

definition timeouts :: "read_event list \<Rightarrow> nat" where
  "timeouts es = length (filter (\<lambda>e. e = TimedOut) es)"

text \<open>A schedule without failures; a socket never reports an arrival of no bytes.\<close>

fun clean_event :: "read_event \<Rightarrow> bool" where
  "clean_event (Arrived bs) = (bs \<noteq> [])"
| "clean_event (Failure msg) = False"
| "clean_event _ = True"

definition clean :: "read_event list \<Rightarrow> bool" where
  "clean es = list_all clean_event es"

lemma schedule_simps [simp]:
  "flat [] = []" "flat (e # es) = event_bytes e @ flat es"
  "clean []" "clean (e # es) \<longleftrightarrow> clean_event e \<and> clean es"
  "timeouts [] = 0" "timeouts (e # es) = (if e = TimedOut then Suc (timeouts es) else timeouts es)"
  by (simp_all add: flat_def clean_def timeouts_def)

text \<open>What one read of a clean schedule does.\<close>

lemma sock_read_clean:
  assumes "clean es" and "0 < room" and "sock_read room es = (out, es')"
  shows "clean es' \<and>
    (case out of
       Got bs \<Rightarrow> bs = take (length bs) (flat es) \<and> length bs \<le> room \<and> length bs \<le> length (flat es) \<and>
         flat es' = drop (length bs) (flat es) \<and> (bs = [] \<longrightarrow> es = []) \<and> timeouts es' = timeouts es
     | ReadInterrupted \<Rightarrow> flat es' = flat es \<and> timeouts es' = timeouts es
     | ReadTimedOut \<Rightarrow> flat es' = flat es \<and> timeouts es = Suc (timeouts es')
     | ReadFailed msg \<Rightarrow> False)"
  using assms by (induction room es rule: sock_read.induct) (auto split: if_splits)

section \<open>Filling\<close>

text \<open>
  \<open>k\<close> bytes have moved from the socket to the buffer: all that were wanted, all there were
  (end of the stream), or some of them before a timeout.
\<close>

definition moved :: "nat \<Rightarrow> nat \<Rightarrow> fill_state \<Rightarrow> fill_state \<Rightarrow> bool" where
  "moved k len s s' \<longleftrightarrow>
    k \<le> len - fp_filled s \<and> k \<le> length (flat (fp_sock s)) \<and> clean (fp_sock s') \<and>
    fp_buf s' = take (fp_filled s) (fp_buf s) @ take k (flat (fp_sock s)) @ drop (fp_filled s + k) (fp_buf s) \<and>
    fp_filled s' = fp_filled s + k \<and> flat (fp_sock s') = drop k (flat (fp_sock s)) \<and>
    fp_failed s' = fp_failed s \<and> timeouts (fp_sock s') \<le> timeouts (fp_sock s)"

definition fill_outcome :: "nat \<Rightarrow> fill_state \<Rightarrow> (bool, ws_err) outcome \<times> fill_state \<Rightarrow> bool" where
  "fill_outcome len s = (\<lambda>(res, s'). \<exists>k. moved k len s s' \<and>
    (res = Ok True \<and> len \<le> fp_filled s' \<or>
     res = Ok False \<and> fp_filled s' < len \<and> fp_sock s' = [] \<or>
     res = Err timed_out_err \<and> fp_filled s' < len \<and> timeouts (fp_sock s') < timeouts (fp_sock s)))"

lemma moved_0: "clean (fp_sock s) \<Longrightarrow> moved 0 len s s"
  by (simp add: moved_def)

lemma moved_trans:
  assumes "moved j len s t" and "moved k len t u" and "fp_filled s \<le> len"
    and "len \<le> length (fp_buf s)"
  shows "moved (j + k) len s u"
proof -
  have t: "fp_filled t = fp_filled s + j" "j \<le> len - fp_filled s" "j \<le> length (flat (fp_sock s))"
    "fp_buf t = take (fp_filled s) (fp_buf s) @ take j (flat (fp_sock s)) @ drop (fp_filled s + j) (fp_buf s)"
    "flat (fp_sock t) = drop j (flat (fp_sock s))"
    using assms(1) by (auto simp: moved_def)
  have "take (fp_filled t) (fp_buf t) = take (fp_filled s) (fp_buf s) @ take j (flat (fp_sock s))"
    using t assms(3,4) by (auto simp: min_def)
  moreover have "drop (fp_filled t + k) (fp_buf t) = drop (fp_filled s + (j + k)) (fp_buf s)"
    using t assms(3,4) by (auto simp: min_def ac_simps)
  moreover have "take (j + k) (flat (fp_sock s)) = take j (flat (fp_sock s)) @ take k (flat (fp_sock t))"
    using t(5) by (simp add: take_add)
  ultimately show ?thesis
    using assms t by (auto simp: moved_def ac_simps)
qed

lemma fill_outcome_step:
  assumes "moved j len s t" and "fill_outcome len t res" and "fp_filled s \<le> len"
    and "len \<le> length (fp_buf s)"
  shows "fill_outcome len s res"
proof -
  obtain r u where res: "res = (r, u)" by fastforce
  with assms(2) obtain k where "moved k len t u" and
    r: "r = Ok True \<and> len \<le> fp_filled u \<or> r = Ok False \<and> fp_filled u < len \<and> fp_sock u = [] \<or>
     r = Err timed_out_err \<and> fp_filled u < len \<and> timeouts (fp_sock u) < timeouts (fp_sock t)"
    by (auto simp: fill_outcome_def)
  with moved_trans [OF assms(1) _ assms(3,4)] have "moved (j + k) len s u" by blast
  moreover have "timeouts (fp_sock t) \<le> timeouts (fp_sock s)" using assms(1) by (simp add: moved_def)
  ultimately show ?thesis using r res by (auto simp: fill_outcome_def)
qed

lemma fill_frame_part_clean:
  "\<lbrakk>clean (fp_sock s); fp_filled s \<le> len; len \<le> length (fp_buf s)\<rbrakk> \<Longrightarrow>
    fill_outcome len s (fill_frame_part len s)"
proof (induction len s rule: fill_frame_part.induct)
  case (1 len s)
  show ?case
  proof (cases "fp_filled s < len")
    case False
    with "1.prems" moved_0 [of s len] show ?thesis
      by (auto simp: fill_frame_part.simps [of len s] fill_outcome_def intro!: exI [of _ 0])
  next
    case True
    obtain out es where r: "sock_read (len - fp_filled s) (fp_sock s) = (out, es)" by fastforce
    from sock_read_clean [OF "1.prems"(1) _ r] True have c: "clean es" by simp
    note sr = sock_read_clean [OF "1.prems"(1) _ r]
    show ?thesis
    proof (cases out)
      case (Got bs)
      with sr True have b: "bs = take (length bs) (flat (fp_sock s))" "length bs \<le> len - fp_filled s"
        "length bs \<le> length (flat (fp_sock s))" "flat es = drop (length bs) (flat (fp_sock s))"
        "bs = [] \<longrightarrow> fp_sock s = []" "timeouts es = timeouts (fp_sock s)"
        by auto
      show ?thesis
      proof (cases "bs = []")
        case True
        with b(5) r Got have "es = []" "fp_sock s = []" by auto
        with \<open>fp_filled s < len\<close> r Got True show ?thesis
          by (auto simp: fill_frame_part.simps [of len s] fill_outcome_def moved_def intro!: exI [of _ 0])
      next
        case False
        let ?t = "s\<lparr>fp_buf := take (fp_filled s) (fp_buf s) @ bs @ drop (fp_filled s + length bs) (fp_buf s),
            fp_filled := fp_filled s + length bs, fp_sock := es\<rparr>"
        have m: "moved (length bs) len s ?t"
          using b c by (auto simp: moved_def)
        have "fp_filled s + length bs \<le> len" using b(2) True by linarith
        then have "fill_outcome len ?t (fill_frame_part len ?t)"
          using "1.IH"(1) [OF True r [symmetric] Got False] c b "1.prems"(3) by simp
        from fill_outcome_step [OF m this "1.prems"(2,3)] True r Got False show ?thesis
          by (simp add: fill_frame_part.simps [of len s])
      qed
    next
      case ReadInterrupted
      let ?t = "s\<lparr>fp_sock := es\<rparr>"
      have m: "moved 0 len s ?t" using sr True ReadInterrupted c by (auto simp: moved_def)
      have "fill_outcome len ?t (fill_frame_part len ?t)"
        using "1.IH"(2) [OF True r [symmetric] ReadInterrupted] c "1.prems" by simp
      from fill_outcome_step [OF m this "1.prems"(2,3)] True r ReadInterrupted show ?thesis
        by (simp add: fill_frame_part.simps [of len s])
    next
      case ReadTimedOut
      with sr True c r show ?thesis
        by (auto simp: fill_frame_part.simps [of len s] fill_outcome_def moved_def intro!: exI [of _ 0])
    next
      case (ReadFailed msg)
      with sr True show ?thesis by auto
    qed
  qed
qed


section \<open>A frame as a function of the bytes\<close>

datatype frame_parse = NeedMore | Bad ws_err | Frame received_frame bytes

definition header_len :: "u8 \<Rightarrow> nat" where
  "header_len h1 = length_end (h1 AND 0x7F) + (if h1 AND 0x80 \<noteq> 0 then 4 else 0)"

definition too_big :: "bytes \<Rightarrow> nat \<Rightarrow> bool" where
  "too_big header message_len \<longleftrightarrow>
    (let n = header_payload_len header
     in n > max_frame_size \<or> (\<not> is_control (header ! 0 AND 0x0F) \<and> n > max_frame_size - message_len))"

definition too_big_err :: ws_err where
  "too_big_err = Protocol ''frame or reassembled message payload exceeds 1 MiB safety limit''"

definition frame_with :: "bytes \<Rightarrow> bytes \<Rightarrow> received_frame" where
  "frame_with h payload =
    \<lparr>rf_fin = (h ! 0 AND 0x80 \<noteq> 0), rf_opcode = h ! 0 AND 0x0F, rf_compressed = (h ! 0 AND 0x40 \<noteq> 0),
     rf_payload = (if h ! 1 AND 0x80 \<noteq> 0
                   then apply_mask (take 4 (drop (length_end (h ! 1 AND 0x7F)) h)) payload else payload)\<rparr>"

definition parse_frame :: "bool \<Rightarrow> u8 \<Rightarrow> nat \<Rightarrow> bytes \<Rightarrow> frame_parse" where
  "parse_frame c msg_op msg_len bs =
    (if length bs < 2 then NeedMore
     else case frame_violation (bs ! 0) (bs ! 1) c msg_op of
            Some msg \<Rightarrow> Bad (Protocol msg)
          | None \<Rightarrow>
              let hl = header_len (bs ! 1); n = header_payload_len bs
              in if length bs < hl then NeedMore
                 else if too_big bs msg_len then Bad too_big_err
                 else if length bs < hl + n then NeedMore
                 else Frame (frame_with bs (take n (drop hl bs))) (drop (hl + n) bs))"

text \<open>The bytes a reader has taken but not yet turned into a frame, then those still to come.\<close>

definition pending :: "frame_reader \<Rightarrow> read_event list \<Rightarrow> bytes" where
  "pending st es = take (fr_header_read st) (fr_header st) @ take (fr_payload_read st) (fr_payload st) @ flat es"

definition reader_ok :: "bool \<Rightarrow> frame_reader \<Rightarrow> bool" where
  "reader_ok c st \<longleftrightarrow>
    \<not> fr_failed st \<and> length (fr_header st) = 14 \<and> length (fr_message st) \<le> max_frame_size \<and>
    (if fr_header_read st < 2 then fr_payload_read st = 0
     else frame_violation (fr_header st ! 0) (fr_header st ! 1) c (fr_message_opcode st) = None \<and>
          fr_header_read st \<le> header_len (fr_header st ! 1) \<and>
          (fr_payload_read st \<noteq> 0 \<longrightarrow>
             fr_header_read st = header_len (fr_header st ! 1) \<and>
             \<not> too_big (fr_header st) (length (fr_message st)) \<and>
             length (fr_payload st) = header_payload_len (fr_header st) \<and>
             fr_payload_read st \<le> length (fr_payload st)))"

lemma reader_ok_default [simp]: "reader_ok c frame_reader_default"
  by (simp add: reader_ok_def frame_reader_default_def)

lemma header_len_le: "2 \<le> length_end s" "header_len h \<le> 14" "2 \<le> header_len h"
  by (auto simp: header_len_def length_end_def)

text \<open>The header fields depend only on the header's own bytes.\<close>

lemma header_payload_len_prefix:
  assumes "take (header_len (h ! 1)) h = take (header_len (h ! 1)) bs" and "header_len (h ! 1) \<le> length h"
    and "header_len (h ! 1) \<le> length bs"
  shows "header_payload_len h = header_payload_len bs" and "h ! 0 = bs ! 0" and "h ! 1 = bs ! 1"
    and "take 4 (drop (length_end (h ! 1 AND 0x7F)) h) = take 4 (drop (length_end (h ! 1 AND 0x7F)) bs) \<or>
         h ! 1 AND 0x80 = 0"
proof -
  let ?n = "header_len (h ! 1)"
  have n2: "2 \<le> ?n" by (rule header_len_le)
  have nth: "h ! i = bs ! i" if "i < ?n" for i
    using arg_cong [OF assms(1), of "\<lambda>xs. xs ! i"] that by simp
  show h0: "h ! 0 = bs ! 0" and h1: "h ! 1 = bs ! 1"
    using nth [of 0] nth [of 1] n2 by simp_all
  have tk: "take k (drop 2 h) = take k (drop 2 bs)" if "k + 2 \<le> ?n" for k
    using arg_cong [OF assms(1), of "\<lambda>xs. take k (drop 2 xs)"] that
    by (simp add: drop_take min_def split: if_splits)
  show "header_payload_len h = header_payload_len bs"
    using tk [of 2] tk [of 8] h1
    by (auto simp: header_payload_len_def Let_def header_len_def length_end_def)
  show "take 4 (drop (length_end (h ! 1 AND 0x7F)) h) = take 4 (drop (length_end (h ! 1 AND 0x7F)) bs) \<or>
      h ! 1 AND 0x80 = 0"
    using arg_cong [OF assms(1), of "\<lambda>xs. take 4 (drop (length_end (h ! 1 AND 0x7F)) xs)"]
    by (auto simp: drop_take header_len_def)
qed


lemma fill_header_clean:
  assumes "clean es" and "fr_header_read st \<le> len" and "len \<le> length (fr_header st)"
    and "fill_header len st es = (res, st', es')"
  obtains k h where "st' = st\<lparr>fr_header := h, fr_header_read := fr_header_read st + k\<rparr>"
    and "clean es'" and "length h = length (fr_header st)"
    and "take (fr_header_read st + k) h = take (fr_header_read st) (fr_header st) @ take k (flat es)"
    and "k \<le> length (flat es)" and "fr_header_read st + k \<le> len" and "flat es' = drop k (flat es)"
    and "timeouts es' \<le> timeouts es"
    and "res = Ok True \<and> fr_header_read st + k = len \<or>
         res = Ok False \<and> fr_header_read st + k < len \<and> es' = [] \<or>
         res = Err timed_out_err \<and> fr_header_read st + k < len \<and> timeouts es' < timeouts es"
proof -
  let ?s = "\<lparr>fp_buf = fr_header st, fp_filled = fr_header_read st, fp_failed = fr_failed st, fp_sock = es\<rparr>"
  obtain r s where rs: "fill_frame_part len ?s = (r, s)" by fastforce
  from fill_frame_part_clean [of ?s len] assms(1-3) obtain k where m: "moved k len ?s s"
    and r: "r = Ok True \<and> len \<le> fp_filled s \<or> r = Ok False \<and> fp_filled s < len \<and> fp_sock s = [] \<or>
     r = Err timed_out_err \<and> fp_filled s < len \<and> timeouts (fp_sock s) < timeouts es"
    by (auto simp: fill_outcome_def rs)
  have st': "st' = st\<lparr>fr_header := fp_buf s, fr_header_read := fr_header_read st + k\<rparr>" "res = r" "es' = fp_sock s"
    using assms(4) m by (auto simp: fill_header_def rs Let_def moved_def)
  show thesis
    by (rule that [of k "fp_buf s"]) (use m r st' assms(2,3) in \<open>auto simp: moved_def min_def\<close>)
qed

lemma fill_payload_clean:
  assumes "clean es" and "fr_payload_read st \<le> length (fr_payload st)"
    and "fill_payload st es = (res, st', es')"
  obtains k p where "st' = st\<lparr>fr_payload := p, fr_payload_read := fr_payload_read st + k\<rparr>"
    and "clean es'" and "length p = length (fr_payload st)"
    and "take (fr_payload_read st + k) p = take (fr_payload_read st) (fr_payload st) @ take k (flat es)"
    and "k \<le> length (flat es)" and "fr_payload_read st + k \<le> length (fr_payload st)" and "flat es' = drop k (flat es)"
    and "timeouts es' \<le> timeouts es"
    and "res = Ok True \<and> fr_payload_read st + k = length (fr_payload st) \<or>
         res = Ok False \<and> fr_payload_read st + k < length (fr_payload st) \<and> es' = [] \<or>
         res = Err timed_out_err \<and> fr_payload_read st + k < length (fr_payload st) \<and> timeouts es' < timeouts es"
proof -
  let ?len = "length (fr_payload st)"
  let ?s = "\<lparr>fp_buf = fr_payload st, fp_filled = fr_payload_read st, fp_failed = fr_failed st, fp_sock = es\<rparr>"
  obtain r s where rs: "fill_frame_part ?len ?s = (r, s)" by fastforce
  from fill_frame_part_clean [of ?s ?len] assms(1-2) obtain k where m: "moved k ?len ?s s"
    and r: "r = Ok True \<and> ?len \<le> fp_filled s \<or> r = Ok False \<and> fp_filled s < ?len \<and> fp_sock s = [] \<or>
     r = Err timed_out_err \<and> fp_filled s < ?len \<and> timeouts (fp_sock s) < timeouts es"
    by (auto simp: fill_outcome_def rs)
  have st': "st' = st\<lparr>fr_payload := fp_buf s, fr_payload_read := fr_payload_read st + k\<rparr>" "res = r" "es' = fp_sock s"
    using assms(3) m by (auto simp: fill_payload_def rs Let_def moved_def)
  show thesis
    by (rule that [of k "fp_buf s"]) (use m r st' assms(2) in \<open>auto simp: moved_def min_def\<close>)
qed

text \<open>How one call of \<open>read_frame\<close> relates to the parse of the pending bytes.\<close>

definition same_message :: "frame_reader \<Rightarrow> frame_reader \<Rightarrow> bool" where
  "same_message st st' \<longleftrightarrow> fr_message st' = fr_message st \<and> fr_message_opcode st' = fr_message_opcode st \<and>
    fr_message_compressed st' = fr_message_compressed st"

definition frame_step ::
  "bool \<Rightarrow> frame_reader \<Rightarrow> read_event list \<Rightarrow> received_frame option read_out \<Rightarrow> bool" where
  "frame_step c st es = (\<lambda>(res, st', es').
    let parse = parse_frame c (fr_message_opcode st) (length (fr_message st)) (pending st es)
    in clean es' \<and> same_message st st' \<and> timeouts es' \<le> timeouts es \<and>
       (case res of
          Panic \<Rightarrow> False
        | Err e \<Rightarrow>
            (e = timed_out_err \<and> reader_ok c st' \<and> pending st' es' = pending st es \<and> timeouts es' < timeouts es) \<or>
            (e \<noteq> timed_out_err \<and> fr_failed st' \<and>
               (parse = Bad e \<or> parse = NeedMore \<and> pending st es \<noteq> [] \<and> e = truncated_frame))
        | Ok None \<Rightarrow> pending st es = [] \<and> reader_ok c st' \<and> pending st' es' = []
        | Ok (Some f) \<Rightarrow> parse = Frame f (pending st' es') \<and> reader_ok c st' \<and> fr_header_read st' = 0))"

lemma errs_distinct [simp]:
  "truncated_frame \<noteq> timed_out_err" "too_big_err \<noteq> timed_out_err" "Protocol m \<noteq> timed_out_err"
  "timed_out_err \<noteq> truncated_frame"
  by (simp_all add: truncated_frame_def timed_out_err_def too_big_err_def)


lemma length_resize0 [simp]: "length (resize0 bs n) = n"
  by (simp add: resize0_def)

lemma resize0_same [simp]: "length bs = n \<Longrightarrow> resize0 bs n = bs"
  by (simp add: resize0_def)

lemma too_big_prefix:
  "\<lbrakk>header_payload_len h = header_payload_len bs; h ! 0 = bs ! 0\<rbrakk> \<Longrightarrow> too_big h m = too_big bs m"
  by (simp add: too_big_def)

lemma parse_frame_header:
  assumes P: "P = take hl h @ Q" and hl: "hl = header_len (h ! 1)" and len: "length h = 14"
    and v: "frame_violation (h ! 0) (h ! 1) c op = None"
  shows "parse_frame c op m P =
    (if too_big h m then Bad too_big_err
     else if length Q < header_payload_len h then NeedMore
     else Frame (frame_with h (take (header_payload_len h) Q)) (drop (header_payload_len h) Q))"
proof -
  let ?n = "header_payload_len h"
  have h14: "hl \<le> 14" "2 \<le> hl" using header_len_le hl by auto
  have pre: "take hl h = take hl P" "hl \<le> length h" "hl \<le> length P" using P h14 len by auto
  note hp = header_payload_len_prefix [OF pre [unfolded hl]]
  have big: "too_big P m = too_big h m" using too_big_prefix [OF hp(1,2)] by simp
  have fw: "frame_with P y = frame_with h y" for y
    using hp(2,3,4) by (auto simp: frame_with_def)
  have dr: "drop hl P = Q" "length P = hl + length Q" using P h14 len by auto
  have "drop (hl + ?n) P = drop ?n Q" using dr by (metis add.commute drop_drop)
  moreover have "P ! Suc 0 = h ! Suc 0" "P ! 0 = h ! 0" "header_payload_len P = header_payload_len h"
    "header_len (h ! Suc 0) = hl"
    using hp(1-3) hl by simp_all
  ultimately show ?thesis
    using dr h14 v by (simp add: parse_frame_def Let_def big fw)
qed

lemma read_payload_step:
  assumes st: "\<not> fr_failed st" "length (fr_header st) = 14" "length (fr_message st) \<le> max_frame_size"
    and hr: "fr_header_read st = header_len (fr_header st ! 1)"
    and v: "frame_violation (fr_header st ! 0) (fr_header st ! 1) c (fr_message_opcode st) = None"
    and pr: "fr_payload_read st \<noteq> 0 \<longrightarrow> \<not> too_big (fr_header st) (length (fr_message st)) \<and>
        length (fr_payload st) = header_payload_len (fr_header st) \<and> fr_payload_read st \<le> length (fr_payload st)"
    and es: "clean es"
  shows "frame_step c st es (read_payload st es)"
proof -
  let ?h = "fr_header st" and ?n = "header_payload_len (fr_header st)" and ?m = "length (fr_message st)"
  let ?pr = "fr_payload_read st" and ?hl = "header_len (fr_header st ! 1)"
  let ?P = "pending st es" and ?Q = "take ?pr (fr_payload st) @ flat es"
  have P: "?P = take ?hl ?h @ ?Q" using hr by (simp add: pending_def)
  note parse = parse_frame_header [OF P refl st(2) v, of ?m]
  have ne: "?P \<noteq> []" unfolding P using st(2) header_len_le(3) [of "?h ! 1"] by auto
  show ?thesis
  proof (cases "too_big ?h ?m")
    case True
    then have "read_payload st es = fail_with too_big_err st es"
      by (simp add: read_payload_def too_big_def Let_def too_big_err_def)
    with parse True es show ?thesis
      by (simp add: frame_step_def fail_with_def same_message_def)
  next
    case False
    let ?st1 = "st\<lparr>fr_payload := resize0 (fr_payload st) ?n\<rparr>"
    obtain res st2 es2 where fp: "fill_payload ?st1 es = (res, st2, es2)" by (metis prod_cases3)
    have prn: "?pr \<le> ?n" and tk: "take ?pr (resize0 (fr_payload st) ?n) = take ?pr (fr_payload st)"
      using pr by (cases "?pr = 0"; simp)+
    from fill_payload_clean [OF es _ fp] prn obtain k p where
      st2: "st2 = ?st1\<lparr>fr_payload := p, fr_payload_read := ?pr + k\<rparr>" and es2: "clean es2"
      and p: "length p = ?n" "take (?pr + k) p = take ?pr (fr_payload st) @ take k (flat es)"
      and k: "k \<le> length (flat es)" "?pr + k \<le> ?n" "flat es2 = drop k (flat es)" "timeouts es2 \<le> timeouts es"
      and res: "res = Ok True \<and> ?pr + k = ?n \<or> res = Ok False \<and> ?pr + k < ?n \<and> es2 = [] \<or>
         res = Err timed_out_err \<and> ?pr + k < ?n \<and> timeouts es2 < timeouts es"
      using tk by auto
    have rp: "read_payload st es = on_ok (res, st2, es2) (\<lambda>complete st1 es1.
        if \<not> complete then fail_with truncated_frame st1 es1 else finish_frame st1 es1)"
      using False fp by (auto simp: read_payload_def too_big_def Let_def)
    have lq: "length (take ?pr (fr_payload st)) = ?pr"
      using arg_cong [OF tk, of length] prn by simp
    from res show ?thesis
    proof (elim disjE conjE)
      assume r: "res = Ok True" "?pr + k = ?n"
      have "take ?n ?Q = p" using p r(2) lq by (simp add: take_append) (metis add_diff_cancel_left' order_refl take_all)
      moreover have "?n - ?pr = k" using r(2) by linarith
      then have "drop ?n ?Q = drop k (flat es)" using lq prn by simp
      moreover have "\<not> length ?Q < ?n" using r(2) k lq by simp
      ultimately have "parse_frame c (fr_message_opcode st) ?m ?P = Frame (frame_with ?h p) (drop k (flat es))"
        using parse False by simp
      then show ?thesis
        using st es2 k st2 r(1)
        by (simp add: rp on_ok_def finish_frame_def Let_def frame_step_def pending_def same_message_def
            reader_ok_def frame_with_def)
    next
      assume r: "res = Ok False" "?pr + k < ?n" "es2 = []"
      then have "k = length (flat es)" using k by simp
      then have "length ?Q < ?n" using r(2) lq by simp
      with parse False have "parse_frame c (fr_message_opcode st) ?m ?P = NeedMore" by simp
      then show ?thesis
        using es2 k(4) r st2 ne
        by (simp add: rp on_ok_def frame_step_def fail_with_def same_message_def)
    next
      assume r: "res = Err timed_out_err" "?pr + k < ?n" "timeouts es2 < timeouts es"
      have "pending st2 es2 = ?P"
        using p k st2 hr by (simp add: pending_def)
      moreover have "reader_ok c st2"
        using st st2 hr v False p k header_len_le(3) [of "?h ! 1"] by (simp add: reader_ok_def)
      ultimately show ?thesis
        using es2 r k(4) st2 by (simp add: rp on_ok_def frame_step_def same_message_def)
    qed
  qed
qed


lemma frame_step_trans:
  assumes "frame_step c st1 es1 out" and "same_message st st1" and "pending st1 es1 = pending st es"
    and "timeouts es1 \<le> timeouts es"
  shows "frame_step c st es out"
proof -
  obtain res st' es' where out: "out = (res, st', es')" by (metis prod_cases3)
  show ?thesis
    using assms unfolding frame_step_def out prod.case Let_def
    by (cases res) (auto simp: same_message_def split: option.splits)
qed

text \<open>From the moment the first two bytes are there and legal.\<close>

lemma read_frame_stage2:
  assumes st: "\<not> fr_failed st" "length (fr_header st) = 14" "length (fr_message st) \<le> max_frame_size"
    and hr: "2 \<le> fr_header_read st" "fr_header_read st \<le> header_len (fr_header st ! 1)"
    and v: "frame_violation (fr_header st ! 0) (fr_header st ! 1) c (fr_message_opcode st) = None"
    and pr: "fr_payload_read st \<noteq> 0 \<longrightarrow> fr_header_read st = header_len (fr_header st ! 1) \<and>
        \<not> too_big (fr_header st) (length (fr_message st)) \<and>
        length (fr_payload st) = header_payload_len (fr_header st) \<and> fr_payload_read st \<le> length (fr_payload st)"
    and es: "clean es"
  shows "frame_step c st es (on_ok (fill_header (header_len (fr_header st ! 1)) st es) (\<lambda>complete st2 es2.
     if \<not> complete then fail_with truncated_frame st2 es2 else read_payload st2 es2))"
proof -
  let ?h = "fr_header st" and ?hl = "header_len (fr_header st ! 1)"
  obtain res st2 es2 where fh: "fill_header ?hl st es = (res, st2, es2)" by (metis prod_cases3)
  have hl: "?hl \<le> 14" "2 \<le> ?hl" by (rule header_len_le)+
  from fill_header_clean [OF es hr(2) _ fh] hl st(2) obtain k h where
    st2: "st2 = st\<lparr>fr_header := h, fr_header_read := fr_header_read st + k\<rparr>" and es2: "clean es2"
    and h: "length h = 14" "take (fr_header_read st + k) h = take (fr_header_read st) ?h @ take k (flat es)"
    and k: "k \<le> length (flat es)" "fr_header_read st + k \<le> ?hl" "flat es2 = drop k (flat es)" "timeouts es2 \<le> timeouts es"
    and res: "res = Ok True \<and> fr_header_read st + k = ?hl \<or>
         res = Ok False \<and> fr_header_read st + k < ?hl \<and> es2 = [] \<or>
         res = Err timed_out_err \<and> fr_header_read st + k < ?hl \<and> timeouts es2 < timeouts es"
    by auto
  have nth: "h ! i = ?h ! i" if "i < 2" for i
    using arg_cong [OF h(2), of "\<lambda>xs. xs ! i"] that hr(1) st(2) hl(1) hr(2) by (simp add: nth_append)
  have h01: "h ! 0 = ?h ! 0" "h ! Suc 0 = ?h ! Suc 0" using nth by simp_all
  have k0: "fr_payload_read st = 0 \<or> k = 0 \<and> h = ?h"
  proof (cases "fr_payload_read st = 0")
    case False
    with pr k(2) have "k = 0" by simp
    with fh False pr show ?thesis
      using st2 by (simp add: fill_header_def fill_frame_part.simps Let_def)
        (metis frame_reader.ext_inject frame_reader.surjective frame_reader.update_convs(1,2))
  qed simp
  have pend: "pending st2 es2 = pending st es"
    using k0 h(2) k(1,3) st2 by (auto simp: pending_def)
  have same: "same_message st st2" using st2 by (simp add: same_message_def)
  from res show ?thesis
  proof (elim disjE conjE)
    assume r: "res = Ok True" "fr_header_read st + k = ?hl"
    have "frame_step c st2 es2 (read_payload st2 es2)"
      by (rule read_payload_step) (use st st2 h v h01 r(2) k0 pr es2 in \<open>auto\<close>)
    from frame_step_trans [OF this same pend k(4)] show ?thesis
      using r(1) fh by (simp add: on_ok_def)
  next
    assume r: "res = Ok False" "fr_header_read st + k < ?hl" "es2 = []"
    then have fl: "k = length (flat es)" using k by simp
    have pr0: "fr_payload_read st = 0" using k0 r(2) pr by auto
    have P: "pending st es = take (fr_header_read st) ?h @ flat es" using pr0 by (simp add: pending_def)
    then have lp: "length (pending st es) < ?hl" "2 \<le> length (pending st es)"
      using fl r(2) hr st(2) hl(1) by auto
    have "pending st es ! i = ?h ! i" if "i < 2" for i
      using P that hr st(2) hl(1) by (simp add: nth_append)
    then have "parse_frame c (fr_message_opcode st) (length (fr_message st)) (pending st es) = NeedMore"
      using lp v by (simp add: parse_frame_def Let_def)
    moreover have "pending st es \<noteq> []" using lp(2) by auto
    ultimately show ?thesis
      using r fh es2 k(4) same by (auto simp: on_ok_def frame_step_def fail_with_def same_message_def)
  next
    assume r: "res = Err timed_out_err" "fr_header_read st + k < ?hl" "timeouts es2 < timeouts es"
    have "fr_payload_read st = 0" using k0 r(2) pr by auto
    then have "reader_ok c st2"
      using st st2 h h01 v hr k(2) by (simp add: reader_ok_def)
    then show ?thesis
      using r fh es2 k(4) same pend by (simp add: on_ok_def frame_step_def)
  qed
qed


lemma reader_ok_message: "reader_ok c st \<Longrightarrow> \<not> fr_failed st \<and> length (fr_header st) = 14 \<and>
    length (fr_message st) \<le> max_frame_size"
  by (simp add: reader_ok_def)

lemma read_frame_step:
  assumes ok: "reader_ok c st" and es: "clean es"
  shows "frame_step c st es (read_frame c st es)"
proof -
  let ?h = "fr_header st"
  note st = reader_ok_message [OF ok]
  let ?rest = "\<lambda>st1 es1. on_ok (fill_header (header_len (fr_header st1 ! 1)) st1 es1) (\<lambda>complete st2 es2.
     if \<not> complete then fail_with truncated_frame st2 es2 else read_payload st2 es2)"
  have rf: "read_frame c st es = on_ok (fill_header 2 st es) (\<lambda>complete st1 es1.
       if \<not> complete
       then if fr_header_read st1 = 0 then (Ok None, st1, es1) else fail_with truncated_frame st1 es1
       else case frame_violation (fr_header st1 ! 0) (fr_header st1 ! 1) c (fr_message_opcode st1) of
              Some msg \<Rightarrow> fail_with (Protocol msg) st1 es1
            | None \<Rightarrow> ?rest st1 es1)"
    unfolding read_frame_def Let_def header_len_def using st by simp
  show ?thesis
  proof (cases "2 \<le> fr_header_read st")
    case True
    then have "fill_header 2 st es = (Ok True, st, es)"
      by (simp add: fill_header_def fill_frame_part.simps)
    moreover have v: "frame_violation (?h ! 0) (?h ! 1) c (fr_message_opcode st) = None"
      using ok True by (simp add: reader_ok_def)
    ultimately have "read_frame c st es = ?rest st es" by (simp add: rf on_ok_def)
    moreover have "frame_step c st es (?rest st es)"
      by (rule read_frame_stage2) (use ok st True es v in \<open>auto simp: reader_ok_def\<close>)
    ultimately show ?thesis by simp
  next
    case False
    then have pr0: "fr_payload_read st = 0" using ok by (simp add: reader_ok_def)
    obtain res st1 es1 where fh: "fill_header 2 st es = (res, st1, es1)" by (metis prod_cases3)
    from fill_header_clean [OF es _ _ fh] False st obtain k h where
      st1: "st1 = st\<lparr>fr_header := h, fr_header_read := fr_header_read st + k\<rparr>" and es1: "clean es1"
      and h: "length h = 14" "take (fr_header_read st + k) h = take (fr_header_read st) ?h @ take k (flat es)"
      and k: "k \<le> length (flat es)" "fr_header_read st + k \<le> 2" "flat es1 = drop k (flat es)" "timeouts es1 \<le> timeouts es"
      and res: "res = Ok True \<and> fr_header_read st + k = 2 \<or>
         res = Ok False \<and> fr_header_read st + k < 2 \<and> es1 = [] \<or>
         res = Err timed_out_err \<and> fr_header_read st + k < 2 \<and> timeouts es1 < timeouts es"
      by auto
    have pend: "pending st1 es1 = pending st es"
      using pr0 h(2) k(1,3) st1 by (simp add: pending_def)
    have same: "same_message st st1" using st1 by (simp add: same_message_def)
    from res show ?thesis
    proof (elim disjE conjE)
      assume r: "res = Ok True" "fr_header_read st + k = 2"
      have P: "pending st1 es1 = take 2 h @ flat es1" using st1 pr0 r(2) by (simp add: pending_def)
      then have P01: "pending st1 es1 ! 0 = h ! 0" "pending st1 es1 ! Suc 0 = h ! Suc 0"
        "2 \<le> length (pending st1 es1)"
        using h(1) by (simp_all add: nth_append)
      have "frame_step c st1 es1 (case frame_violation (fr_header st1 ! 0) (fr_header st1 ! 1) c (fr_message_opcode st1) of
              Some msg \<Rightarrow> fail_with (Protocol msg) st1 es1 | None \<Rightarrow> ?rest st1 es1)"
      proof (cases "frame_violation (fr_header st1 ! 0) (fr_header st1 ! 1) c (fr_message_opcode st1)")
        case None
        have "frame_step c st1 es1 (?rest st1 es1)"
          by (rule read_frame_stage2)
            (use st st1 h r(2) None pr0 es1 header_len_le(3) [of "h ! 1"] in \<open>auto\<close>)
        with None show ?thesis by simp
      next
        case (Some msg)
        with P01 es1 st1 show ?thesis
          by (auto simp: frame_step_def fail_with_def same_message_def parse_frame_def)
      qed
      from frame_step_trans [OF this same pend k(4)] show ?thesis
        unfolding rf fh r(1) on_ok_def by simp
    next
      assume r: "res = Ok False" "fr_header_read st + k < 2" "es1 = []"
      then have P: "pending st es = take (fr_header_read st + k) h"
        using pend st1 pr0 by (simp add: pending_def)
      with r(2) h(1) have lp: "length (pending st es) = fr_header_read st + k" by simp
      have "reader_ok c st1" using ok st1 h(1) r(2) pr0 by (simp add: reader_ok_def)
      moreover have "parse_frame c (fr_message_opcode st) (length (fr_message st)) (pending st es) = NeedMore"
        using lp r(2) by (simp add: parse_frame_def)
      ultimately show ?thesis
        using r fh st1 same k(4) lp P pend
        by (auto simp: rf on_ok_def frame_step_def fail_with_def same_message_def)
    next
      assume r: "res = Err timed_out_err" "fr_header_read st + k < 2" "timeouts es1 < timeouts es"
      have "reader_ok c st1" using ok st1 h(1) r(2) pr0 by (simp add: reader_ok_def)
      then show ?thesis
        using r fh es1 k(4) same pend by (simp add: rf on_ok_def frame_step_def)
    qed
  qed
qed

end
