(* ===== verification/WsConn.thy ===== *)
theory WsConn
  imports WsSpec
begin

text \<open>
  Messages: the reassembly of \<open>FrameReader::read_message\<close> as a function of the byte stream,
  the proof that a reader called again after timeouts computes it, and the round trip of what
  \<open>write_masked_frame\<close> sends.
\<close>

section \<open>A message as a function of the bytes\<close>

type_synonym message_state = "u8 \<times> bool \<times> bytes"

definition mstate :: "frame_reader \<Rightarrow> message_state" where
  "mstate st = (fr_message_opcode st, fr_message_compressed st, fr_message st)"

fun accept_spec :: "received_frame \<Rightarrow> message_state \<Rightarrow> message_state" where
  "accept_spec f (op, cm, msg) =
    (if rf_opcode f \<noteq> 0 then (rf_opcode f, rf_compressed f, rf_payload f) else (op, cm, msg @ rf_payload f))"

fun deliver_spec :: "message_state \<Rightarrow> bytes \<Rightarrow> (ws_message option \<times> message_state \<times> bytes, ws_err) outcome" where
  "deliver_spec (op, cm, msg) rest =
    and_then (if cm then inflate_permessage_deflate msg else Ok msg) (\<lambda>payload.
      Ok (Some (if op = 1 then TextMsg payload else BinaryMsg payload), (0, False, []), rest))"

lemma parse_frame_shorter: "parse_frame c op m bs = Frame f rest \<Longrightarrow> length rest < length bs"
  using header_len_le(3) [of "bs ! 1"]
  by (auto simp: parse_frame_def Let_def split: if_splits option.splits)

function message_spec ::
  "bool \<Rightarrow> message_state \<Rightarrow> bytes \<Rightarrow> (ws_message option \<times> message_state \<times> bytes, ws_err) outcome" where
  "message_spec c ms bs =
    (case parse_frame c (fst ms) (length (snd (snd ms))) bs of
       NeedMore \<Rightarrow>
         if bs \<noteq> [] then Err truncated_frame
         else if fst ms \<noteq> 0 then Err eof_in_message else Ok (None, ms, [])
     | Bad e \<Rightarrow> Err e
     | Frame f rest \<Rightarrow>
         if rf_opcode f = 8 then Ok (Some CloseMsg, (0, False, []), rest)
         else if rf_opcode f = 9 then Ok (Some (PingMsg (rf_payload f)), ms, rest)
         else if rf_opcode f = 10 then Ok (Some (PongMsg (rf_payload f)), ms, rest)
         else if \<not> rf_fin f then message_spec c (accept_spec f ms) rest
         else deliver_spec (accept_spec f ms) rest)"
  by auto
termination by (relation "measure (\<lambda>(c, ms, bs). length bs)") (auto dest: parse_frame_shorter)

declare message_spec.simps [simp del]

section \<open>Retrying after a timeout\<close>

text \<open>A caller that calls \<open>read_message\<close> again, at most \<open>n\<close> times, when a read timed out.\<close>

primrec resume :: "nat \<Rightarrow> bool \<Rightarrow> frame_reader \<Rightarrow> read_event list \<Rightarrow> ws_message option read_out" where
  "resume 0 c st es = read_message c st es"
| "resume (Suc n) c st es =
    (let (res, st', es') = read_message c st es
     in if res = Err timed_out_err then resume n c st' es' else (res, st', es'))"

lemma length_apply_mask [simp]: "length (apply_mask key data) = length data"
  by (simp add: apply_mask_def)

lemma parse_frame_bounds:
  "parse_frame c op m bs = Frame f rest \<Longrightarrow>
    length (rf_payload f) \<le> max_frame_size \<and>
    (\<not> is_control (rf_opcode f) \<longrightarrow> length (rf_payload f) \<le> max_frame_size - m)"
  by (auto simp: parse_frame_def Let_def too_big_def frame_with_def split: if_splits option.splits)

definition message_step ::
  "bool \<Rightarrow> frame_reader \<Rightarrow> read_event list \<Rightarrow> ws_message option read_out \<Rightarrow> bool" where
  "message_step c st es = (\<lambda>(res, st', es').
    let spec = message_spec c (mstate st) (pending st es)
    in clean es' \<and> timeouts es' \<le> timeouts es \<and>
       (if res = Err timed_out_err
        then reader_ok c st' \<and> message_spec c (mstate st') (pending st' es') = spec \<and> timeouts es' < timeouts es
        else case spec of
               Panic \<Rightarrow> False
             | Err e \<Rightarrow> res = Err e \<and> fr_failed st'
             | Ok (msg, ms, rest) \<Rightarrow> res = Ok msg \<and> reader_ok c st' \<and> mstate st' = ms \<and> pending st' es' = rest))"

lemma same_message_mstate: "same_message st st' \<Longrightarrow> mstate st' = mstate st"
  by (simp add: same_message_def mstate_def)

lemma eof_in_message_distinct [simp]: "eof_in_message \<noteq> timed_out_err"
  by (simp add: eof_in_message_def timed_out_err_def)

lemma inflate_permessage_not_panic: "inflate_permessage_deflate z \<noteq> Panic"
  using inflate_loop_ensures [of "br_new (z @ permessage_deflate_trailer)" "[]"]
  by (auto simp: inflate_permessage_deflate_def ensures_iff inflate_raw_def split: outcome.splits)

lemma inflate_permessage_not_timeout: "inflate_permessage_deflate z \<noteq> Err timed_out_err"
  by (auto simp: inflate_permessage_deflate_def timed_out_err_def split: outcome.splits)

lemma accept_data_mstate: "mstate (accept_data f st) = accept_spec f (mstate st)"
  by (simp add: accept_data_def mstate_def)

lemma accept_data_ok:
  assumes "reader_ok c st" and "fr_header_read st = 0"
    and "length (rf_payload f) \<le> max_frame_size"
    and "length (rf_payload f) \<le> max_frame_size - length (fr_message st)"
  shows "reader_ok c (accept_data f st)" and "fr_header_read (accept_data f st) = 0"
    and "pending (accept_data f st) es = pending st es"
  using assms by (auto simp: reader_ok_def accept_data_def pending_def)

lemma deliver_step:
  assumes "reader_ok c st" and "fr_header_read st = 0" and "clean es"
  shows "case deliver_message st es of (res, st', es') \<Rightarrow> es' = es \<and> res \<noteq> Err timed_out_err \<and>
    (case deliver_spec (mstate st) (pending st es) of
       Panic \<Rightarrow> False
     | Err e \<Rightarrow> res = Err e \<and> fr_failed st'
     | Ok (msg, ms, rest) \<Rightarrow> res = Ok msg \<and> reader_ok c st' \<and> mstate st' = ms \<and> pending st' es' = rest)"
  using assms inflate_permessage_not_panic [of "fr_message st"]
    inflate_permessage_not_timeout [of "fr_message st"]
  by (auto simp: deliver_message_def mstate_def Let_def reader_ok_def pending_def split: outcome.splits)

lemma message_step_trans:
  assumes "message_step c st1 es1 out"
    and "message_spec c (mstate st1) (pending st1 es1) = message_spec c (mstate st) (pending st es)"
    and "timeouts es1 \<le> timeouts es"
  shows "message_step c st es out"
  using assms by (cases out) (auto simp: message_step_def Let_def split: if_splits)

lemma read_message_step:
  "\<lbrakk>reader_ok c st; clean es\<rbrakk> \<Longrightarrow> message_step c st es (read_message c st es)"
proof (induction c st es rule: read_message.induct)
  case (1 c st es)
  obtain res st1 es1 where rf: "read_frame c st es = (res, st1, es1)" by (metis prod_cases3)
  from read_frame_step [OF "1.prems"] have fs: "frame_step c st es (res, st1, es1)" by (simp add: rf)
  let ?P = "pending st es"
  have ms: "mstate st1 = mstate st" and t: "timeouts es1 \<le> timeouts es" "clean es1"
    using fs by (auto simp: frame_step_def Let_def same_message_mstate)
  have fld: "fst (mstate st) = fr_message_opcode st" "snd (snd (mstate st)) = fr_message st"
    by (simp_all add: mstate_def)
  note spec = message_spec.simps [of c "mstate st" ?P, unfolded fld]
  show ?case
  proof (cases res)
    case Panic
    with fs show ?thesis by (simp add: frame_step_def)
  next
    case (Err e)
    show ?thesis
    proof (cases "e = timed_out_err")
      case True
      with fs Err show ?thesis
        by (auto simp: read_message.simps [of c st es] rf message_step_def frame_step_def ms)
    next
      case False
      with fs Err show ?thesis
        by (auto simp: read_message.simps [of c st es] rf message_step_def frame_step_def spec Let_def)
    qed
  next
    case (Ok fo)
    show ?thesis
    proof (cases fo)
      case None
      have op: "fr_message_opcode st1 = fr_message_opcode st" using ms by (simp add: mstate_def)
      have "parse_frame c (fr_message_opcode st) (length (fr_message st)) [] = NeedMore"
        by (simp add: parse_frame_def)
      with fs Ok None ms op show ?thesis
        by (auto simp: read_message.simps [of c st es] rf message_step_def frame_step_def Let_def
            fail_with_def message_spec.simps [of c "mstate st" "[]", unfolded fld])
    next
      case (Some f)
      with fs Ok have f: "parse_frame c (fr_message_opcode st) (length (fr_message st)) ?P = Frame f (pending st1 es1)"
        and ok1: "reader_ok c st1" "fr_header_read st1 = 0"
        by (auto simp: frame_step_def Let_def)
      have msg: "fr_message st1 = fr_message st" using ms by (simp add: mstate_def)
      show ?thesis
      proof (cases "is_control (rf_opcode f)")
        case True
        let ?st2 = "st1\<lparr>fr_message := [], fr_message_opcode := 0, fr_message_compressed := False\<rparr>"
        have closed: "reader_ok c ?st2" "mstate ?st2 = (0, False, [])" "pending ?st2 es1 = pending st1 es1"
          using ok1 by (simp_all add: reader_ok_def mstate_def pending_def)
        from True rf Ok Some f ok1 ms t closed show ?thesis
          by (auto simp: read_message.simps [of c st es] message_step_def spec is_control_def Let_def)
      next
        case False
        let ?st2 = "accept_data f st1"
        note bounds = parse_frame_bounds [OF f]
        have ok2: "reader_ok c ?st2" "fr_header_read ?st2 = 0" "pending ?st2 es1 = pending st1 es1"
          using accept_data_ok [OF ok1] bounds False msg by auto
        have nc: "rf_opcode f \<noteq> 8" "rf_opcode f \<noteq> 9" "rf_opcode f \<noteq> 10"
          using False by (auto simp: is_control_def)
        show ?thesis
        proof (cases "rf_fin f")
          case True
          from deliver_step [OF ok2(1,2) t(2)] show ?thesis
            using rf Ok Some nc True f ms t ok2(3)
            by (auto simp: read_message.simps [of c st es] message_step_def spec Let_def
                accept_data_mstate split: prod.splits)
        next
          case fin: False
          have rm: "read_message c st es = read_message c ?st2 es1"
            using rf Ok Some nc fin by (simp add: read_message.simps [of c st es])
          have "message_step c ?st2 es1 (read_message c ?st2 es1)"
            using "1.IH" [OF rf [symmetric] Ok Some refl nc fin ok2(1) t(2)] .
          from message_step_trans [OF this _ t(1)] show ?thesis
            unfolding rm by (simp add: spec f nc fin accept_data_mstate ms ok2(3))
        qed
      qed
    qed
  qed
qed


lemma resume_spec:
  assumes "reader_ok c st" and "clean es" and "timeouts es \<le> n"
  shows "case resume n c st es of (res, st', es') \<Rightarrow>
    clean es' \<and> timeouts es' \<le> timeouts es \<and>
    (case message_spec c (mstate st) (pending st es) of
       Panic \<Rightarrow> False
     | Err e \<Rightarrow> res = Err e \<and> fr_failed st'
     | Ok (msg, ms, rest) \<Rightarrow> res = Ok msg \<and> reader_ok c st' \<and> mstate st' = ms \<and> pending st' es' = rest)"
  using assms
proof (induction n arbitrary: st es)
  case 0
  with read_message_step [OF 0(1,2)] show ?case
    by (auto simp: message_step_def Let_def split: if_splits prod.splits)
next
  case (Suc n)
  obtain res st1 es1 where rm: "read_message c st es = (res, st1, es1)" by (metis prod_cases3)
  from read_message_step [OF Suc.prems(1,2)] have ms: "message_step c st es (res, st1, es1)" by (simp add: rm)
  show ?case
  proof (cases "res = Err timed_out_err")
    case True
    with ms have "reader_ok c st1" "clean es1" "timeouts es1 \<le> n"
      "message_spec c (mstate st1) (pending st1 es1) = message_spec c (mstate st) (pending st es)"
      "timeouts es1 \<le> timeouts es"
      using Suc.prems(3) by (auto simp: message_step_def Let_def)
    with Suc.IH [of st1 es1] True rm show ?thesis by auto
  next
    case False
    with ms rm show ?thesis by (auto simp: message_step_def Let_def)
  qed
qed

text \<open>
  C2: Refinement of the reader, for every way the bytes may arrive: in any state a reader can
  be in between two calls and for every schedule of arrivals, interruptions and timeouts, calling
  \<open>read_message\<close> again after each timeout returns what the message semantics gives for the bytes
  taken so far followed by the bytes still to come: the same message or error, the same
  reassembly state, and no byte lost or read twice.
\<close>

theorem reader_refines_message_spec:
  assumes "reader_ok c st" and "clean es" and "timeouts es \<le> n"
  shows "case resume n c st es of (res, st', es') \<Rightarrow>
    (case message_spec c (mstate st) (pending st es) of
       Panic \<Rightarrow> False
     | Err e \<Rightarrow> res = Err e \<and> fr_failed st'
     | Ok (msg, ms, rest) \<Rightarrow> res = Ok msg \<and> reader_ok c st' \<and> mstate st' = ms \<and> pending st' es' = rest)"
  using resume_spec [OF assms] by (auto split: prod.splits)

lemma reader_refines_message_spec_witness:
  "case resume 1 False frame_reader_default [Arrived [0x81], TimedOut, Arrived [2, 72], Interrupted, Arrived [105]] of
     (res, st', es') \<Rightarrow> res = Ok (Some (TextMsg [72, 105]))"
proof -
  let ?es = "[Arrived [0x81], TimedOut, Arrived [2, 72], Interrupted, Arrived [105]]"
  have "message_spec False (mstate frame_reader_default) (pending frame_reader_default ?es) =
      Ok (Some (TextMsg [72, 105]), (0, False, []), [])"
    by code_simp
  with reader_refines_message_spec [of False frame_reader_default ?es 1] show ?thesis
    by (auto split: prod.splits)
qed

section \<open>A failed reader\<close>

text \<open>
  Poisoning: once an error other than a timeout has been reported the reader never again
  interprets a byte: every further call returns the same error, consumes nothing and keeps the
  state, so bytes in the middle of a frame are never taken for a header.
\<close>

theorem failed_reader_is_poisoned:
  assumes "reader_ok c st" and "clean es" and "read_message c st es = (Err e, st', es')"
    and "e \<noteq> timed_out_err"
  shows "read_message c' st' es'' = (Err (Protocol ''cannot resume a failed WebSocket frame reader''), st', es'')"
proof -
  from read_message_step [OF assms(1,2)] assms(3,4) have "fr_failed st'"
    by (auto simp: message_step_def Let_def split: outcome.splits prod.splits)
  then show ?thesis by (simp add: read_message.simps [of c' st'] read_frame_def)
qed

lemma failed_reader_is_poisoned_witness:
  "\<exists>st' es'. read_message False frame_reader_default [Arrived [0x83, 0, 0x81, 0]] = (Err (Protocol ''unsupported WebSocket opcode''), st', es') \<and>
     read_message True st' es' = (Err (Protocol ''cannot resume a failed WebSocket frame reader''), st', es')"
proof -
  obtain res st' es' where r: "read_message False frame_reader_default [Arrived [0x83, 0, 0x81, 0]] = (res, st', es')"
    by (metis prod_cases3)
  moreover have "fst (read_message False frame_reader_default [Arrived [0x83, 0, 0x81, 0]]) =
      Err (Protocol ''unsupported WebSocket opcode'')"
    by code_simp
  ultimately have r': "read_message False frame_reader_default [Arrived [0x83, 0, 0x81, 0]] =
      (Err (Protocol ''unsupported WebSocket opcode''), st', es')" by simp
  have "clean [Arrived [0x83, 0, 0x81, 0]]" by simp
  from failed_reader_is_poisoned [OF reader_ok_default this r'] r' show ?thesis by auto
qed

end
