(* ===== verification/WsRoundTrip.thy ===== *)
theory WsRoundTrip
  imports WsConn
begin

text \<open>
  What \<open>write_masked_frame\<close> writes is what \<open>FrameReader\<close> reads, and how much the reader may
  hold in memory whatever the peer sends.
\<close>

section \<open>Big-endian lengths\<close>

lemma from_be_snoc: "from_be (bs @ [b]) = from_be bs * 256 + unat b"
  by (simp add: from_be_def)

lemma from_be_Cons: "from_be (b # bs) = unat b * 256 ^ length bs + from_be bs"
proof (induction bs rule: rev_induct)
  case Nil
  show ?case by (simp add: from_be_def)
next
  case (snoc x xs)
  have "from_be (b # xs @ [x]) = from_be (b # xs) * 256 + unat x"
    using from_be_snoc [of "b # xs" x] by simp
  with snoc show ?case by (simp add: from_be_snoc algebra_simps)
qed

lemma be_bytes_Suc: "be_bytes (Suc k) v = of_nat (v div 256 ^ k) # be_bytes k v"
proof (rule nth_equalityI)
  fix i assume "i < length (be_bytes (Suc k) v)"
  then show "be_bytes (Suc k) v ! i = (of_nat (v div 256 ^ k) # be_bytes k v) ! i"
    by (cases i) (simp_all add: be_bytes_def del: upt_Suc)
qed (simp add: be_bytes_def)

lemma length_be_bytes [simp]: "length (be_bytes k v) = k"
  by (simp add: be_bytes_def)

lemma from_be_be_bytes: "from_be (be_bytes k v) = v mod 256 ^ k"
proof (induction k)
  case (Suc k)
  have "unat (of_nat (v div 256 ^ k) :: u8) = v div 256 ^ k mod 256"
    by (simp add: unat_of_nat)
  with Suc show ?case
    by (simp add: be_bytes_Suc from_be_Cons mod_mult2_eq [of v "256 ^ k" 256, simplified mult.commute])
qed (simp add: be_bytes_def from_be_def)

section \<open>Masking\<close>

lemma apply_mask_involutive: "apply_mask key (apply_mask key data) = data"
  by (rule nth_equalityI) (simp_all add: apply_mask_def xor.assoc)

lemma nth_apply_mask: "i < length data \<Longrightarrow> apply_mask key data ! i = data ! i XOR key ! (i mod 4)"
  by (simp add: apply_mask_def)

lemma apply_mask_append:
  "4 dvd length xs \<Longrightarrow> apply_mask key (xs @ ys) = apply_mask key xs @ apply_mask key ys"
proof (rule nth_equalityI)
  assume d: "4 dvd length xs"
  fix i assume i: "i < length (apply_mask key (xs @ ys))"
  show "apply_mask key (xs @ ys) ! i = (apply_mask key xs @ apply_mask key ys) ! i"
  proof (cases "i < length xs")
    case False
    then have "i mod 4 = (i - length xs) mod 4"
      using d by (metis le_add_diff_inverse mod_mod_trivial mod_add_left_eq dvd_imp_mod_0 add_0 not_less)
    moreover have "i - length xs < length ys" using i False by simp
    ultimately show ?thesis using False i by (simp add: nth_apply_mask nth_append)
  qed (use i in \<open>simp add: nth_apply_mask nth_append\<close>)
qed simp

text \<open>Masking chunk by chunk, each from the start of the key, masks the whole payload.\<close>

lemma mask_chunks: "concat (map (apply_mask key) (chunks_of mask_chunk_size data)) = apply_mask key data"
proof (induction "length data" arbitrary: data rule: less_induct)
  case less
  show ?case
  proof (cases "length data \<le> 4096")
    case True
    then show ?thesis
      by (simp add: chunks_of.simps [of _ data] chunks_of.simps [of _ "[]"] mask_chunk_size_def apply_mask_def)
  next
    case False
    let ?n = "4096 :: nat"
    have "apply_mask key data = apply_mask key (take ?n data @ drop ?n data)" by simp
    also have "\<dots> = apply_mask key (take ?n data) @ apply_mask key (drop ?n data)"
      using False by (intro apply_mask_append) simp
    also have "apply_mask key (drop ?n data) =
        concat (map (apply_mask key) (chunks_of mask_chunk_size (drop ?n data)))"
      using less.hyps [of "drop ?n data"] False by simp
    finally show ?thesis
      using False by (subst chunks_of.simps) (auto simp: mask_chunk_size_def)
  qed
qed

section \<open>A written frame parses\<close>

lemma word_low7:
  assumes "n < 126"
  shows "(0x80 OR of_nat n :: u8) AND 0x7F = of_nat n" and "(0x80 OR of_nat n :: u8) AND 0x80 \<noteq> 0"
    and "unat (of_nat n :: u8) = n" and "(of_nat n :: u8) \<noteq> 126" and "(of_nat n :: u8) \<noteq> 127"
proof -
  have "list_all (\<lambda>n. (0x80 OR of_nat n :: u8) AND 0x7F = of_nat n \<and> (0x80 OR of_nat n :: u8) AND 0x80 \<noteq> 0) [0..<126]"
    by code_simp
  with assms show "(0x80 OR of_nat n :: u8) AND 0x7F = of_nat n" "(0x80 OR of_nat n :: u8) AND 0x80 \<noteq> 0"
    by (simp_all add: list_all_iff)
  show u: "unat (of_nat n :: u8) = n" using assms by (simp add: unat_of_nat)
  show "(of_nat n :: u8) \<noteq> 126" "(of_nat n :: u8) \<noteq> 127" using u assms by auto
qed

text \<open>The header of a masked frame: what the reader's fields are.\<close>

lemma header_fields:
  assumes "n < 2 ^ 64" and "h = build_frame_header opcode n True rsv1"
  shows "header_len (h ! 1) = length h + 4" and "header_payload_len (h @ rest) = n"
    and "length_end (h ! 1 AND 0x7F) = length h" and "h ! 1 AND 0x80 \<noteq> 0" and "2 \<le> length h"
    and "h ! 0 = (if rsv1 then 0xC0 else 0x80) OR (opcode AND 0x0F)"
    and "n \<le> 125 \<Longrightarrow> \<not> h ! 1 AND 0x7F > 125"
proof -
  have c: "(0x80 OR 126 :: u8) AND 0x7F = 126" "(0x80 OR 127 :: u8) AND 0x7F = 127"
    "(0x80 OR 126 :: u8) AND 0x80 \<noteq> 0" "(0x80 OR 127 :: u8) AND 0x80 \<noteq> 0"
    by code_simp+
  consider "n < 126" | "126 \<le> n" "n \<le> 65535" | "65535 < n" by linarith
  then have "header_len (h ! 1) = length h + 4 \<and> header_payload_len (h @ rest) = n \<and>
    length_end (h ! 1 AND 0x7F) = length h \<and> h ! 1 AND 0x80 \<noteq> 0 \<and> 2 \<le> length h \<and>
    h ! 0 = (if rsv1 then 0xC0 else 0x80) OR (opcode AND 0x0F) \<and> (n \<le> 125 \<longrightarrow> \<not> h ! 1 AND 0x7F > 125)"
  proof cases
    case 1
    with word_low7 [OF 1] assms(2) show ?thesis
      by (simp add: build_frame_header_def Let_def header_len_def length_end_def header_payload_len_def
          word_less_nat_alt)
  next
    case 2
    with assms(2) c show ?thesis
      by (simp add: build_frame_header_def Let_def header_len_def length_end_def header_payload_len_def
          from_be_be_bytes)
  next
    case 3
    with assms c show ?thesis
      by (simp add: build_frame_header_def Let_def header_len_def length_end_def header_payload_len_def
          from_be_be_bytes)
  qed
  then show "header_len (h ! 1) = length h + 4" "header_payload_len (h @ rest) = n"
    "length_end (h ! 1 AND 0x7F) = length h" "h ! 1 AND 0x80 \<noteq> 0" "2 \<le> length h"
    "h ! 0 = (if rsv1 then 0xC0 else 0x80) OR (opcode AND 0x0F)" "n \<le> 125 \<Longrightarrow> \<not> h ! 1 AND 0x7F > 125"
    by blast+
qed

text \<open>The first byte, for the opcodes the agent sends.\<close>

lemma first_byte:
  assumes "opcode \<in> {1, 2, 8, 9, 10}" and "h0 = (if rsv1 then 0xC0 else 0x80) OR (opcode AND 0x0F :: u8)"
  shows "h0 AND 0x80 \<noteq> 0 \<and> (h0 AND 0x40 \<noteq> 0 \<longleftrightarrow> rsv1) \<and> h0 AND 0x0F = opcode \<and> h0 AND 0x30 = 0"
proof -
  define good where "good = (\<lambda>(h0 :: u8) r (opc :: u8). h0 AND 0x80 \<noteq> 0 \<and> (h0 AND 0x40 \<noteq> 0 \<longleftrightarrow> r) \<and> h0 AND 0x0F = opc \<and> h0 AND 0x30 = 0)"
  have "list_all (\<lambda>opc. good (0xC0 OR (opc AND 0x0F)) True opc \<and> good (0x80 OR (opc AND 0x0F)) False opc) [1, 2, 8, 9, 10]"
    unfolding good_def by code_simp
  with assms have "good h0 rsv1 opcode" by (cases rsv1) auto
  then show ?thesis unfolding good_def by blast
qed

lemma parse_written:
  assumes opc: "opcode \<in> {1, 2, 8, 9, 10}" and key: "length key = 4"
    and len: "length p \<le> max_frame_size" "\<not> is_control opcode \<Longrightarrow> length p \<le> max_frame_size - m"
    and ctl: "is_control opcode \<Longrightarrow> length p \<le> 125 \<and> \<not> rsv1" and cmp: "rsv1 \<Longrightarrow> c"
    and op: "\<not> is_control opcode \<Longrightarrow> op = 0"
  shows "parse_frame c op m (build_frame_header opcode (length p) True rsv1 @ key @ apply_mask key p @ rest) =
    Frame \<lparr>rf_fin = True, rf_opcode = opcode, rf_compressed = rsv1, rf_payload = p\<rparr> rest"
proof -
  let ?h = "build_frame_header opcode (length p) True rsv1"
  let ?bs = "?h @ key @ apply_mask key p @ rest"
  have n: "length p < 2 ^ 64" using len(1) by (simp add: max_frame_size_def)
  note hf = header_fields [OF n refl, of opcode rsv1]
  note fb = first_byte [OF opc hf(6)]
  have b01: "?bs ! 0 = ?h ! 0" "?bs ! Suc 0 = ?h ! Suc 0" 
    by (rule nth_append_left, use hf(5) in linarith)+
  have "opcode \<notin> {0}" "opcode \<in> {0, 1, 2, 8, 9, 10}" using opc by auto
  then have v: "frame_violation (?h ! 0) (?h ! Suc 0) c op = None"
    using fb ctl cmp op hf(7) by (auto simp: frame_violation_def Let_def is_control_def)
  have big: "\<not> too_big ?bs m"
    using len hf(2) fb b01 by (auto simp: too_big_def Let_def)
  have tk: "take (length p) (drop (header_len (?h ! 1)) ?bs) = apply_mask key p"
    "drop (header_len (?h ! 1) + length p) ?bs = rest" "take 4 (drop (length ?h) ?bs) = key"
    using hf(1) key by simp_all
  have "frame_with ?bs (apply_mask key p) =
      \<lparr>rf_fin = True, rf_opcode = opcode, rf_compressed = rsv1, rf_payload = p\<rparr>"
    using fb b01 hf(3,4) tk(3) by (simp add: frame_with_def apply_mask_involutive)
  with v big tk hf(1,2,5) b01 key show ?thesis
    by (simp add: parse_frame_def Let_def)
qed

section \<open>What is sent is received\<close>

text \<open>The sending operation for each kind of message, with the payloads the client uses.\<close>

fun send_message :: "bytes \<Rightarrow> bool \<Rightarrow> ws_message \<Rightarrow> (bytes, gzip_err) outcome" where
  "send_message key c (TextMsg data) = send_text key c data"
| "send_message key c (BinaryMsg data) = send_binary key c data"
| "send_message key c (PingMsg data) = send_ping key"
| "send_message key c (PongMsg data) = send_pong key data"
| "send_message key c CloseMsg = send_close key"

text \<open>
  The messages a frame can carry to this reader: 1 MiB before and after compression, control
  payloads of at most 125 bytes (\<open>send_ping\<close> sends none).
\<close>

definition sendable_data :: "bool \<Rightarrow> bytes \<Rightarrow> bool" where
  "sendable_data c data \<longleftrightarrow> length data \<le> 1024 * 1024 \<and>
    (c \<longrightarrow> (case permessage_deflate_encode data of Ok z \<Rightarrow> length z \<le> 1024 * 1024 | _ \<Rightarrow> False))"

fun sendable :: "bool \<Rightarrow> ws_message \<Rightarrow> bool" where
  "sendable c (PingMsg data) = (data = [])"
| "sendable c (PongMsg data) = (length data \<le> 125)"
| "sendable c CloseMsg = True"
| "sendable c (TextMsg data) = sendable_data c data"
| "sendable c (BinaryMsg data) = sendable_data c data"

lemma permessage_returns:
  assumes "length data \<le> 1024 * 1024"
  shows "\<exists>z. permessage_deflate_encode data = Ok z \<and> inflate_permessage_deflate z = Ok data"
  using permessage_stream [OF assms] by auto

text \<open>A written data frame is one message to a reader between messages.\<close>

lemma data_frame_spec:
  assumes "opcode \<in> {1, 2}" and "length key = 4" and "sendable_data c data"
  shows "\<exists>bs. write_masked_frame key opcode data c = Ok bs \<and>
    message_spec c (0, False, []) (bs @ rest) =
      Ok (Some (if opcode = 1 then TextMsg data else BinaryMsg data), (0, False, []), rest)"
proof -
  obtain p where p: "(if c then permessage_deflate_encode data else Ok data) = Ok p"
    "(if c then inflate_permessage_deflate p else Ok p) = Ok data" "length p \<le> max_frame_size"
    using assms(3) permessage_returns [of data] by (cases c) (auto simp: max_frame_size_def sendable_data_def)
  have nc: "\<not> is_control opcode" "opcode \<in> {1, 2, 8, 9, 10}" "opcode \<noteq> 0"
    using assms(1) by (auto simp: is_control_def)
  have w: "write_masked_frame key opcode data c =
      Ok (build_frame_header opcode (length p) True c @ key @ apply_mask key p)"
    using p(1) by (simp add: write_masked_frame_def mask_chunks)
  have "parse_frame c 0 0 (build_frame_header opcode (length p) True c @ key @ apply_mask key p @ rest) =
      Frame \<lparr>rf_fin = True, rf_opcode = opcode, rf_compressed = c, rf_payload = p\<rparr> rest"
    by (rule parse_written) (use nc assms(2) p(3) in auto)
  with w nc(1,3) p(2) show ?thesis
    by (auto simp: message_spec.simps [of c "(0, False, [])"] is_control_def)
qed

text \<open>A written control frame, even between the fragments of a message.\<close>

lemma control_frame_spec:
  assumes "opcode \<in> {8, 9, 10}" and "length key = 4" and "length data \<le> 125"
  shows "\<exists>bs. write_masked_frame key opcode data False = Ok bs \<and>
    message_spec c ms (bs @ rest) =
      (if opcode = 8 then Ok (Some CloseMsg, (0, False, []), rest)
       else Ok (Some (if opcode = 9 then PingMsg data else PongMsg data), ms, rest))"
proof -
  have nc: "is_control opcode" "opcode \<in> {1, 2, 8, 9, 10}"
    using assms(1) by (auto simp: is_control_def)
  have w: "write_masked_frame key opcode data False =
      Ok (build_frame_header opcode (length data) True False @ key @ apply_mask key data)"
    by (simp add: write_masked_frame_def mask_chunks)
  have "parse_frame c (fst ms) (length (snd (snd ms)))
      (build_frame_header opcode (length data) True False @ key @ apply_mask key data @ rest) =
      Frame \<lparr>rf_fin = True, rf_opcode = opcode, rf_compressed = False, rf_payload = data\<rparr> rest"
    by (rule parse_written) (use nc assms(2,3) in \<open>auto simp: max_frame_size_def\<close>)
  with w assms(1) show ?thesis
    by (auto simp: message_spec.simps [of c ms])
qed

lemma sent_message_spec:
  assumes "length key = 4" and "sendable c msg"
  shows "\<exists>bs. send_message key c msg = Ok bs \<and>
    message_spec c (0, False, []) (bs @ rest) = Ok (Some msg, (0, False, []), rest)"
proof (cases msg)
  case (TextMsg data)
  with data_frame_spec [of 1 key c data rest] assms show ?thesis by (auto simp: send_text_def)
next
  case (BinaryMsg data)
  with data_frame_spec [of 2 key c data rest] assms show ?thesis by (auto simp: send_binary_def)
next
  case (PingMsg data)
  with control_frame_spec [of 9 key "[]" c "(0, False, [])" rest] assms show ?thesis by (auto simp: send_ping_def)
next
  case (PongMsg data)
  with control_frame_spec [of 10 key data c "(0, False, [])" rest] assms show ?thesis by (auto simp: send_pong_def)
next
  case CloseMsg
  with control_frame_spec [of 8 key "[]" c "(0, False, [])" rest] assms show ?thesis by (auto simp: send_close_def)
qed

text \<open>A whole conversation: frames sent one after the other, messages received one after the other.\<close>

fun send_all :: "bool \<Rightarrow> (bytes \<times> ws_message) list \<Rightarrow> (bytes, gzip_err) outcome" where
  "send_all c [] = Ok []"
| "send_all c ((key, msg) # kms) =
    and_then (send_message key c msg) (\<lambda>bs. and_then (send_all c kms) (\<lambda>bs'. Ok (bs @ bs')))"

fun receive :: "nat \<Rightarrow> nat \<Rightarrow> bool \<Rightarrow> frame_reader \<Rightarrow> read_event list \<Rightarrow> ws_message option list read_out" where
  "receive 0 n c st es = (Ok [], st, es)"
| "receive (Suc k) n c st es =
    on_ok (resume n c st es) (\<lambda>m st1 es1. on_ok (receive k n c st1 es1) (\<lambda>ms st2 es2. (Ok (m # ms), st2, es2)))"

lemma receive_sent:
  "\<lbrakk>reader_ok c st; mstate st = (0, False, []); clean es; timeouts es \<le> n;
    \<forall>(key, msg) \<in> set kms. length key = 4 \<and> sendable c msg;
    send_all c kms = Ok bs; pending st es = bs @ rest\<rbrakk> \<Longrightarrow>
    case receive (length kms) n c st es of (res, st', es') \<Rightarrow>
      res = Ok (map (\<lambda>(key, msg). Some msg) kms) \<and> reader_ok c st' \<and> mstate st' = (0, False, []) \<and>
      pending st' es' = rest"
proof (induction kms arbitrary: st es bs)
  case (Cons km kms)
  obtain key msg where km: "km = (key, msg)" by fastforce
  with Cons.prems(5,6) obtain b bs' where
    b: "send_message key c msg = Ok b" "send_all c kms = Ok bs'" "bs = b @ bs'" "length key = 4" "sendable c msg"
    by (auto simp: and_then_eq_Ok)
  obtain res st1 es1 where r: "resume n c st es = (res, st1, es1)" by (metis prod_cases3)
  from sent_message_spec [OF b(4,5), of "bs' @ rest"] b(1,3) Cons.prems(7)
  have spec: "message_spec c (0, False, []) (pending st es) = Ok (Some msg, (0, False, []), bs' @ rest)"
    by simp
  with resume_spec [OF Cons.prems(1,3,4)] r Cons.prems(2)
  have s1: "res = Ok (Some msg)" "reader_ok c st1" "mstate st1 = (0, False, [])" "clean es1"
    "timeouts es1 \<le> timeouts es" "pending st1 es1 = bs' @ rest"
    by auto
  obtain res2 st2 es2 where r2: "receive (length kms) n c st1 es1 = (res2, st2, es2)" by (metis prod_cases3)
  have "\<forall>(key, msg) \<in> set kms. length key = 4 \<and> sendable c msg" using Cons.prems(5) by simp
  from Cons.IH [OF s1(2,3,4) _ this b(2) s1(6)] s1(5) Cons.prems(4) r r2 s1(1) km show ?case
    by (auto simp: on_ok_def)
qed auto

text \<open>
  C1: End to end over the WebSocket: frames for any list of messages, each written under its own
  masking key (compressed with permessage-deflate when that was negotiated, split into masked
  chunks of 4096 bytes), are received as exactly those messages in order, however the bytes
  arrive in pieces, interrupted or with reads timing out, and the bytes after them are left.
\<close>

theorem sent_messages_received:
  assumes "reader_ok c st" and "mstate st = (0, False, [])"
    and "\<forall>(key, msg) \<in> set kms. length key = 4 \<and> sendable c msg"
  shows "\<exists>bs. send_all c kms = Ok bs \<and>
    (\<forall>es n rest. clean es \<and> timeouts es \<le> n \<and> pending st es = bs @ rest \<longrightarrow>
      (case receive (length kms) n c st es of (res, st', es') \<Rightarrow>
         res = Ok (map (\<lambda>(key, msg). Some msg) kms) \<and> mstate st' = (0, False, []) \<and>
         pending st' es' = rest))"
proof -
  have "\<exists>bs. send_all c kms = Ok bs"
    using assms(3)
  proof (induction kms)
    case (Cons km kms)
    with sent_message_spec [of "fst km" c "snd km" "[]"] show ?case by (cases km) auto
  qed simp
  then obtain bs where bs: "send_all c kms = Ok bs" ..
  show ?thesis
  proof (intro exI conjI allI impI)
    fix es n rest
    assume "clean es \<and> timeouts es \<le> n \<and> pending st es = bs @ rest"
    then have "case receive (length kms) n c st es of (res, st', es') \<Rightarrow>
        res = Ok (map (\<lambda>(key, msg). Some msg) kms) \<and> reader_ok c st' \<and> mstate st' = (0, False, []) \<and>
        pending st' es' = rest"
      by (intro receive_sent [OF assms(1,2) _ _ assms(3) bs]) simp_all
    then show "case receive (length kms) n c st es of (res, st', es') \<Rightarrow>
        res = Ok (map (\<lambda>(key, msg). Some msg) kms) \<and> mstate st' = (0, False, []) \<and> pending st' es' = rest"
      by (simp add: case_prod_beta)
  qed (rule bs)
qed

lemma sent_messages_received_witness:
  "\<exists>bs. send_all False [([1, 2, 3, 4], TextMsg [104, 105]), ([5, 6, 7, 8], PongMsg [9])] = Ok bs \<and>
    fst (receive 2 1 False frame_reader_default [Arrived bs, TimedOut]) =
      Ok [Some (TextMsg [104, 105]), Some (PongMsg [9])]"
proof -
  let ?kms = "[([1, 2, 3, 4], TextMsg [104, 105]), ([5, 6, 7, 8], PongMsg [9])] :: (bytes \<times> ws_message) list"
  have m0: "mstate frame_reader_default = (0, False, [])"
    by (simp add: mstate_def frame_reader_default_def)
  have ok: "\<forall>(key, msg) \<in> set ?kms. length key = 4 \<and> sendable False msg"
    by (simp add: sendable_data_def)
  obtain bs where
    bs: "send_all False ?kms = Ok bs" and
    all: "\<forall>es n rest. clean es \<and> timeouts es \<le> n \<and> pending frame_reader_default es = bs @ rest \<longrightarrow>
      (case receive (length ?kms) n False frame_reader_default es of (res, st', es') \<Rightarrow>
         res = Ok (map (\<lambda>(key, msg). Some msg) ?kms) \<and> mstate st' = (0, False, []) \<and> pending st' es' = rest)"
    by (rule exE [OF sent_messages_received [OF reader_ok_default m0 ok]]) (erule conjE, rule that)
  have "bs \<noteq> []" using bs by (auto simp: and_then_eq_Ok send_text_def write_masked_frame_def build_frame_header_def Let_def)
  then have "clean [Arrived bs, TimedOut] \<and> timeouts [Arrived bs, TimedOut] \<le> 1 \<and>
      pending frame_reader_default [Arrived bs, TimedOut] = bs @ []"
    by (simp add: pending_def frame_reader_default_def)
  from all [rule_format, OF this] have "fst (receive (length ?kms) 1 False frame_reader_default [Arrived bs, TimedOut]) =
      Ok (map (\<lambda>(key, msg). Some msg) ?kms)"
    by (elim case_prodE) (simp only: fst_conv)
  then have "fst (receive 2 1 False frame_reader_default [Arrived bs, TimedOut]) =
      Ok [Some (TextMsg [104, 105]), Some (PongMsg [9])]"
    by (simp only: list.map list.size numeral_2_eq_2 add_0 add_Suc_right add_0_right prod.case)
  with bs show ?thesis by blast
qed

end
