(* ===== verification/WsBounds.thy ===== *)
theory WsBounds
  imports WsConn
begin

text \<open>
  How much \<open>FrameReader\<close> may hold in memory, whatever the peer sends and however reads fail.
\<close>

section \<open>Buffers keep their size while they fill\<close>

lemma fill_frame_part_buf:
  "\<lbrakk>fill_frame_part len s = (res, s'); len \<le> length (fp_buf s)\<rbrakk> \<Longrightarrow>
    length (fp_buf s') = length (fp_buf s) \<and> take (fp_filled s) (fp_buf s') = take (fp_filled s) (fp_buf s)"
proof (induction len s arbitrary: res s' rule: fill_frame_part.induct)
  case (1 len s)
  show ?case
  proof (cases "fp_filled s < len")
    case False
    with "1.prems" show ?thesis by (auto simp: fill_frame_part.simps [of len s])
  next
    case True
    obtain out es where r: "sock_read (len - fp_filled s) (fp_sock s) = (out, es)" by fastforce
    note unf = fill_frame_part.simps [of len s]
    show ?thesis
    proof (cases out)
      case (Got bs)
      with r sock_read_got have b: "length bs \<le> len - fp_filled s" by blast
      show ?thesis
      proof (cases "bs = []")
        case True
        with "1.prems" r Got \<open>fp_filled s < len\<close> show ?thesis by (auto simp: unf)
      next
        case False
        let ?t = "s\<lparr>fp_buf := take (fp_filled s) (fp_buf s) @ bs @ drop (fp_filled s + length bs) (fp_buf s),
                    fp_filled := fp_filled s + length bs, fp_sock := es\<rparr>"
        have t: "fill_frame_part len ?t = (res, s')" "length (fp_buf ?t) = length (fp_buf s)"
          using "1.prems" r Got True False b by (auto simp: unf)
        with "1.IH"(1) [OF True r [symmetric] Got False t(1)] "1.prems"(2)
        have ih: "length (fp_buf s') = length (fp_buf s)"
          "take (fp_filled s + length bs) (fp_buf s') = take (fp_filled s + length bs) (fp_buf ?t)" by auto
        have "take (fp_filled s) (fp_buf s') = take (fp_filled s) (take (fp_filled s + length bs) (fp_buf s'))"
          by simp
        also have "\<dots> = take (fp_filled s) (fp_buf s)"
          unfolding ih(2) using True "1.prems"(2) by simp
        finally show ?thesis using ih(1) by simp
      qed
    next
      case ReadInterrupted
      with "1.prems" r True "1.IH"(2) [OF True r [symmetric] ReadInterrupted] show ?thesis
        by (force simp: unf)
    qed (use "1.prems" r True in \<open>auto simp: unf\<close>)
  qed
qed

section \<open>The bound\<close>

definition mem_ok :: "frame_reader \<Rightarrow> bool" where
  "mem_ok st \<longleftrightarrow> length (fr_header st) = 14 \<and> fr_header_read st \<le> 14 \<and>
    length (fr_message st) \<le> max_frame_size \<and>
    length (fr_message st) + length (fr_payload st) \<le> max_frame_size + 125"

lemma mem_ok_default: "mem_ok frame_reader_default"
  by (simp add: mem_ok_def frame_reader_default_def)

lemma fill_frame_part_done: "len \<le> fp_filled s \<Longrightarrow> fill_frame_part len s = (Ok True, s)"
  by (simp add: fill_frame_part.simps [of len s])

lemma fill_header_mem:
  "\<lbrakk>fill_header len st es = (res, st', es'); mem_ok st; len \<le> 14\<rbrakk> \<Longrightarrow>
    mem_ok st' \<and> fr_message st' = fr_message st \<and> res \<noteq> Panic \<and> (res = Ok True \<longrightarrow> len \<le> fr_header_read st') \<and>
    take (fr_header_read st) (fr_header st') = take (fr_header_read st) (fr_header st)"
  by (cases "fr_header_read st \<le> len")
    (auto simp: fill_header_def mem_ok_def fill_frame_part_done
      split: prod.splits dest: fill_frame_part_buf fill_frame_part_progress)

lemma fill_payload_mem:
  "fill_payload st es = (res, st', es') \<Longrightarrow>
    length (fr_payload st') = length (fr_payload st) \<and> fr_message st' = fr_message st \<and>
    fr_header st' = fr_header st \<and> fr_header_read st' = fr_header_read st \<and> res \<noteq> Panic"
  by (auto simp: fill_payload_def split: prod.splits dest: fill_frame_part_buf fill_frame_part_progress)

text \<open>What a frame read in the state \<open>st\<close> may weigh.\<close>

definition frame_mem_ok :: "frame_reader \<Rightarrow> received_frame \<Rightarrow> bool" where
  "frame_mem_ok st f \<longleftrightarrow>
    (if is_control (rf_opcode f) then length (rf_payload f) \<le> 125
     else length (rf_payload f) \<le> max_frame_size - length (fr_message st))"

lemma control_payload_len:
  "\<lbrakk>frame_violation (h ! 0) (h ! 1) c op = None; is_control (h ! 0 AND 0x0F)\<rbrakk> \<Longrightarrow> header_payload_len h \<le> 125"
proof -
  assume "frame_violation (h ! 0) (h ! 1) c op = None" and "is_control (h ! 0 AND 0x0F)"
  then have "h ! 1 AND 0x7F \<le> 125"
    by (auto simp: frame_violation_def Let_def split: if_splits)
  then have "unat (h ! 1 AND 0x7F) \<le> 125" "h ! 1 AND 0x7F \<noteq> 126" "h ! 1 AND 0x7F \<noteq> 127"
    by (auto simp: word_le_nat_alt)
  then show ?thesis by (simp add: header_payload_len_def)
qed

lemma read_payload_mem:
  assumes "read_payload st es = (res, st', es')" and "mem_ok st"
    and "is_control (fr_header st ! 0 AND 0x0F) \<Longrightarrow> header_payload_len (fr_header st) \<le> 125"
  shows "mem_ok st' \<and> fr_message st' = fr_message st \<and> res \<noteq> Panic \<and>
    (\<forall>f. res = Ok (Some f) \<longrightarrow> frame_mem_ok st f)"
proof -
  let ?n = "header_payload_len (fr_header st)" and ?ctl = "is_control (fr_header st ! 0 AND 0x0F)"
  let ?st1 = "st\<lparr>fr_payload := resize0 (fr_payload st) ?n\<rparr>"
  show ?thesis
  proof (cases "?n > max_frame_size \<or> (\<not> ?ctl \<and> ?n > max_frame_size - length (fr_message st))")
    case True
    with assms show ?thesis by (auto simp: read_payload_def fail_with_def mem_ok_def)
  next
    case False
    obtain r st2 es2 where f: "fill_payload ?st1 es = (r, st2, es2)" by (metis prod_cases3)
    note fm = fill_payload_mem [OF f]
    have n: "if ?ctl then ?n \<le> 125 else ?n \<le> max_frame_size - length (fr_message st)"
      using False assms(3) by auto
    have m: "mem_ok st2" "fr_header st2 = fr_header st" "length (fr_payload st2) = ?n"
      using fm n assms(2) by (auto simp: mem_ok_def split: if_splits)
    have ctl: "\<not> ?n > max_frame_size" using False by simp
    from assms(1) False ctl f have "(res, st', es') =
        on_ok (r, st2, es2) (\<lambda>complete st1 es1. if \<not> complete then fail_with truncated_frame st1 es1 else finish_frame st1 es1)"
      by (auto simp: read_payload_def Let_def)
    with m n fm show ?thesis
      by (auto simp: on_ok_def fail_with_def finish_frame_def Let_def mem_ok_def frame_mem_ok_def
          split: outcome.splits if_splits)
  qed
qed

lemma on_ok_simps [simp]:
  "on_ok (Ok x, st, es) f = f x st es" "on_ok (Err e, st, es) f = (Err e, st, es)"
  "on_ok (Panic, st, es) f = (Panic, st, es)"
  by (simp_all add: on_ok_def)

lemma read_frame_eq:
  "\<not> fr_failed st \<Longrightarrow> read_frame c st es = on_ok (fill_header 2 st es) (\<lambda>complete st1 es1.
    if \<not> complete
    then if fr_header_read st1 = 0 then (Ok None, st1, es1) else fail_with truncated_frame st1 es1
    else case frame_violation (fr_header st1 ! 0) (fr_header st1 ! 1) c (fr_message_opcode st1) of
           Some msg \<Rightarrow> fail_with (Protocol msg) st1 es1
         | None \<Rightarrow> on_ok (fill_header (header_len (fr_header st1 ! 1)) st1 es1) (\<lambda>complete st2 es2.
                  if \<not> complete then fail_with truncated_frame st2 es2 else read_payload st2 es2))"
  by (simp only: read_frame_def header_len_def Let_def if_False)

lemma read_frame_mem:
  assumes "read_frame c st es = (res, st', es')" and "mem_ok st"
  shows "mem_ok st' \<and> fr_message st' = fr_message st \<and> res \<noteq> Panic \<and>
    (\<forall>f. res = Ok (Some f) \<longrightarrow> frame_mem_ok st f)"
proof (cases "fr_failed st")
  case True
  with assms show ?thesis by (auto simp: read_frame_def)
next
  case False
  obtain r1 st1 es1 where f1: "fill_header 2 st es = (r1, st1, es1)" by (metis prod_cases3)
  note m1 = fill_header_mem [OF f1 assms(2)]
  let ?v = "frame_violation (fr_header st1 ! 0) (fr_header st1 ! 1) c (fr_message_opcode st1)"
  let ?hl = "header_len (fr_header st1 ! 1)"
  note hl = header_len_le(2) [of "fr_header st1 ! 1"]
  obtain r2 st2 es2 where f2: "fill_header ?hl st1 es1 = (r2, st2, es2)" by (metis prod_cases3)
  show ?thesis
  proof (cases "r1 = Ok True \<and> ?v = None \<and> r2 = Ok True")
    case False
    from m1 have "mem_ok st1" by simp
    note m2 = fill_header_mem [OF f2 this hl]
    have failed: "mem_ok (s\<lparr>fr_failed := b\<rparr>) = mem_ok s" for s :: frame_reader and b by (simp add: mem_ok_def)
    from assms(1) have res: "(res, st', es') = on_ok (r1, st1, es1) (\<lambda>complete st1 es1.
      if \<not> complete
      then if fr_header_read st1 = 0 then (Ok None, st1, es1) else fail_with truncated_frame st1 es1
      else case ?v of Some msg \<Rightarrow> fail_with (Protocol msg) st1 es1
           | None \<Rightarrow> on_ok (r2, st2, es2) (\<lambda>complete st2 es2.
               if \<not> complete then fail_with truncated_frame st2 es2 else read_payload st2 es2))"
      unfolding read_frame_eq [OF \<open>\<not> fr_failed st\<close>] f1 by (cases r1) (simp_all only: on_ok_simps f2)
    with False assms(2) m1 m2 show ?thesis
      by (cases r1; cases ?v; cases r2) (auto simp: on_ok_def fail_with_def failed split: if_splits)
  next
    case True
    with assms(1) False f1 f2 have rp: "read_payload st2 es2 = (res, st', es')"
      by (simp add: read_frame_eq)
    from m1 have mo: "mem_ok st1" "fr_message st1 = fr_message st" by auto
    note m2 = fill_header_mem [OF f2 mo(1) hl]
    have "2 \<le> fr_header_read st1" "2 \<le> length (fr_header st1)" using m1 True by (auto simp: mem_ok_def)
    moreover have "take (fr_header_read st1) (fr_header st2) ! i = take (fr_header_read st1) (fr_header st1) ! i" for i
      using m2 by simp
    from this [of 0] this [of 1] calculation
    have "fr_header st2 ! 0 = fr_header st1 ! 0" "fr_header st2 ! 1 = fr_header st1 ! 1"
      by simp_all
    then have keep: "is_control (fr_header st2 ! 0 AND 0x0F) \<Longrightarrow> header_payload_len (fr_header st2) \<le> 125"
      using True control_payload_len [of "fr_header st2" c "fr_message_opcode st1"] by simp
    from read_payload_mem [OF rp _ keep] m2 mo show ?thesis
      by (auto simp: frame_mem_ok_def)
  qed
qed

section \<open>Messages\<close>

fun message_size :: "ws_message \<Rightarrow> nat" where
  "message_size (TextMsg data) = length data"
| "message_size (BinaryMsg data) = length data"
| "message_size (PingMsg data) = length data"
| "message_size (PongMsg data) = length data"
| "message_size CloseMsg = 0"

lemma inflate_permessage_size:
  "inflate_permessage_deflate z = Ok data \<Longrightarrow> length data \<le> max_frame_size"
  by (auto simp: inflate_permessage_deflate_def split: outcome.splits if_splits)

lemma deliver_message_mem:
  assumes "deliver_message st es = (res, st', es')" and "mem_ok st"
  shows "mem_ok st' \<and> res \<noteq> Panic \<and> (\<forall>m. res = Ok (Some m) \<longrightarrow> message_size m \<le> max_frame_size)"
  using assms inflate_permessage_not_panic [of "fr_message st"] inflate_permessage_size [of "fr_message st"]
  by (auto simp: deliver_message_def mem_ok_def Let_def split: outcome.splits if_splits)

lemma accept_data_mem:
  assumes "mem_ok st1" and "frame_mem_ok st1 f" and "\<not> is_control (rf_opcode f)" and "fr_payload st1 = []"
  shows "mem_ok (accept_data f st1)"
  using assms by (auto simp: mem_ok_def frame_mem_ok_def accept_data_def)

lemma read_frame_payload_empty:
  "read_frame c st es = (Ok (Some f), st', es') \<Longrightarrow> fr_payload st' = []"
  by (auto simp: read_frame_def read_payload_def Let_def on_ok_eq_Ok finish_frame_def split: if_splits option.splits)

lemma read_message_mem:
  "\<lbrakk>read_message c st es = (res, st', es'); mem_ok st\<rbrakk> \<Longrightarrow>
    mem_ok st' \<and> res \<noteq> Panic \<and> (\<forall>m. res = Ok (Some m) \<longrightarrow> message_size m \<le> max_frame_size)"
proof (induction c st es arbitrary: res st' es' rule: read_message.induct)
  case (1 c st es)
  obtain r st1 es1 where rf: "read_frame c st es = (r, st1, es1)" by (metis prod_cases3)
  note fm = read_frame_mem [OF rf "1.prems"(2)]
  note unf = read_message.simps [of c st es]
  show ?case
  proof (cases "\<exists>f. r = Ok (Some f)")
    case False
    have failed: "mem_ok (s\<lparr>fr_failed := b\<rparr>) = mem_ok s" for s :: frame_reader and b by (simp add: mem_ok_def)
    from False "1.prems" fm rf show ?thesis
      by (auto simp: unf fail_with_def failed split: outcome.splits option.splits if_splits)
  next
    case True
    then obtain f where f: "r = Ok (Some f)" ..
    with rf fm have fo: "frame_mem_ok st1 f" "mem_ok st1" "fr_payload st1 = []"
      using read_frame_payload_empty by (auto simp: frame_mem_ok_def)
    show ?thesis
    proof (cases "is_control (rf_opcode f)")
      case True
      with fo have "length (rf_payload f) \<le> max_frame_size"
        by (simp add: frame_mem_ok_def max_frame_size_def)
      with True "1.prems"(1) rf f fo(2) show ?thesis
        by (auto simp: unf is_control_def mem_ok_def split: if_splits)
    next
      case False
      then have nc: "rf_opcode f \<noteq> 8" "rf_opcode f \<noteq> 9" "rf_opcode f \<noteq> 10" by (auto simp: is_control_def)
      note am = accept_data_mem [OF fo(2,1) False fo(3)]
      show ?thesis
      proof (cases "rf_fin f")
        case True
        with deliver_message_mem [OF _ am] "1.prems"(1) rf f nc show ?thesis by (simp add: unf)
      next
        case fin: False
        with "1.prems"(1) rf f nc have "read_message c (accept_data f st1) es1 = (res, st', es')"
          by (simp add: unf)
        from "1.IH" [OF rf [symmetric] f refl refl nc fin this am] show ?thesis .
      qed
    qed
  qed
qed

text \<open>
  C8: Bounded memory whatever the peer sends: for any sequence of reads, failed ones included,
  \<open>read_message\<close> keeps the reassembled message within 1 MiB and message and frame buffer
  together within 1 MiB and the 125 bytes of an interleaved control frame, delivers no message
  above 1 MiB (after inflation too) and never panics.
\<close>

theorem reader_memory_bounded:
  assumes "mem_ok st" and "read_message c st es = (res, st', es')"
  shows "mem_ok st' \<and> length (fr_message st') \<le> 1024 * 1024 \<and>
    length (fr_message st') + length (fr_payload st') \<le> 1024 * 1024 + 125 \<and>
    res \<noteq> Panic \<and> (\<forall>m. res = Ok (Some m) \<longrightarrow> message_size m \<le> 1024 * 1024)"
  using read_message_mem [OF assms(2,1)] by (auto simp: mem_ok_def max_frame_size_def)

lemma reader_memory_bounded_witness:
  "\<exists>res st' es'. read_message False frame_reader_default [Arrived [0x81, 126, 4], Failure ''reset''] = (res, st', es') \<and>
     mem_ok st' \<and> res \<noteq> Panic"
proof -
  obtain res st' es' where r: "read_message False frame_reader_default [Arrived [0x81, 126, 4], Failure ''reset''] = (res, st', es')"
    by (metis prod_cases3)
  from reader_memory_bounded [OF mem_ok_default r] r show ?thesis by blast
qed

end
