(* ===== verification/Utf8.thy ===== *)
theory Utf8
  imports Prelude
begin

text \<open>
  Rust's \<open>char\<close> and \<open>str\<close>: a \<open>String\<close> is the list of its Unicode scalar values, its bytes are
  their UTF-8 encoding (\<open>str::as_bytes\<close>), and \<open>std::str::from_utf8\<close> accepts exactly the
  well-formed byte strings.
\<close>

type_synonym ustring = "nat list"

definition scalar_value :: "nat \<Rightarrow> bool" where
  "scalar_value c \<longleftrightarrow> c < 0xD800 \<or> 0xE000 \<le> c \<and> c < 0x110000"

definition char_from_u32 :: "nat \<Rightarrow> nat option" where
  "char_from_u32 c = (if scalar_value c then Some c else None)"

text \<open>A string literal of the sources, as a text and as its (ASCII) bytes.\<close>

definition ustr :: "string \<Rightarrow> ustring" where
  "ustr s = map of_char s"

definition lit :: "string \<Rightarrow> bytes" where
  "lit s = map of_char s"

section \<open>Encoding\<close>

definition encode_char :: "nat \<Rightarrow> bytes" where
  "encode_char c =
    (if c < 0x80 then [of_nat c]
     else if c < 0x800 then [of_nat (0xC0 + c div 64), of_nat (0x80 + c mod 64)]
     else if c < 0x10000
     then [of_nat (0xE0 + c div 4096), of_nat (0x80 + c div 64 mod 64), of_nat (0x80 + c mod 64)]
     else [of_nat (0xF0 + c div 262144), of_nat (0x80 + c div 4096 mod 64),
           of_nat (0x80 + c div 64 mod 64), of_nat (0x80 + c mod 64)])"

definition as_bytes :: "ustring \<Rightarrow> bytes" where
  "as_bytes s = concat (map encode_char s)"

section \<open>Decoding\<close>

text \<open>The low six bits of a continuation byte.\<close>

definition cont_byte :: "u8 \<Rightarrow> nat option" where
  "cont_byte b = (if 0x80 \<le> unat b \<and> unat b < 0xC0 then Some (unat b - 0x80) else None)"

text \<open>The first character, with its length; only the shortest form of a scalar value is accepted.\<close>

fun decode_char :: "bytes \<Rightarrow> (nat \<times> bytes) option" where
  "decode_char [] = None"
| "decode_char (b0 # bs) =
    (if unat b0 < 0x80 then Some (unat b0, bs)
     else if unat b0 < 0xC0 then None
     else if unat b0 < 0xE0
     then (case bs of
             b1 # bs1 \<Rightarrow>
               (case cont_byte b1 of
                  Some x1 \<Rightarrow>
                    let c = (unat b0 - 0xC0) * 64 + x1
                    in if 0x80 \<le> c then Some (c, bs1) else None
                | _ \<Rightarrow> None)
           | _ \<Rightarrow> None)
     else if unat b0 < 0xF0
     then (case bs of
             b1 # b2 # bs2 \<Rightarrow>
               (case (cont_byte b1, cont_byte b2) of
                  (Some x1, Some x2) \<Rightarrow>
                    let c = (unat b0 - 0xE0) * 4096 + x1 * 64 + x2
                    in if 0x800 \<le> c \<and> scalar_value c then Some (c, bs2) else None
                | _ \<Rightarrow> None)
           | _ \<Rightarrow> None)
     else if unat b0 < 0xF8
     then (case bs of
             b1 # b2 # b3 # bs3 \<Rightarrow>
               (case (cont_byte b1, cont_byte b2, cont_byte b3) of
                  (Some x1, Some x2, Some x3) \<Rightarrow>
                    let c = (unat b0 - 0xF0) * 262144 + x1 * 4096 + x2 * 64 + x3
                    in if 0x10000 \<le> c \<and> scalar_value c then Some (c, bs3) else None
                | _ \<Rightarrow> None)
           | _ \<Rightarrow> None)
     else None)"

lemma decode_char_shorter: "decode_char bs = Some (c, rest) \<Longrightarrow> length rest < length bs"
  by (cases bs) (auto simp: Let_def split: if_splits list.splits option.splits)

function from_utf8 :: "bytes \<Rightarrow> ustring option" where
  "from_utf8 bs =
    (if bs = [] then Some []
     else case decode_char bs of
            None \<Rightarrow> None
          | Some (c, rest) \<Rightarrow> (case from_utf8 rest of None \<Rightarrow> None | Some cs \<Rightarrow> Some (c # cs)))"
  by auto
termination by (relation "measure length") (auto dest: decode_char_shorter)

declare from_utf8.simps [simp del]

section \<open>Round trips\<close>

lemma unat_of_nat_byte: "n < 256 \<Longrightarrow> unat (of_nat n :: u8) = n"
  by (simp add: unat_of_nat)

lemma encode_char_bytes:
  assumes "scalar_value c"
  shows "map unat (encode_char c) =
    (if c < 0x80 then [c]
     else if c < 0x800 then [0xC0 + c div 64, 0x80 + c mod 64]
     else if c < 0x10000 then [0xE0 + c div 4096, 0x80 + c div 64 mod 64, 0x80 + c mod 64]
     else [0xF0 + c div 262144, 0x80 + c div 4096 mod 64, 0x80 + c div 64 mod 64, 0x80 + c mod 64])"
proof -
  have "c div 64 < 32" if "c < 0x800" using that by simp
  moreover have "c div 4096 < 16" if "c < 0x10000" using that by simp
  moreover have "c div 262144 < 5" using assms by (auto simp: scalar_value_def)
  ultimately show ?thesis
    by (auto simp: encode_char_def unat_of_nat_byte simp del: of_nat_add)
qed

text \<open>Base-64 digits.\<close>

lemma digits64:
  fixes n :: nat
  shows "n div 64 * 64 + n mod 64 = n"
    and "n div 4096 * 4096 + n div 64 mod 64 * 64 + n mod 64 = n"
    and "n div 262144 * 262144 + n div 4096 mod 64 * 4096 + n div 64 mod 64 * 64 + n mod 64 = n"
proof -
  have d: "n div 4096 = n div 64 div 64" "n div 262144 = n div 64 div 64 div 64"
    by (simp_all flip: div_mult2_eq)
  have s: "k = k div 64 * 64 + k mod 64" for k :: nat by simp
  show "n div 64 * 64 + n mod 64 = n" by simp
  from s [of n] s [of "n div 64"] s [of "n div 64 div 64"]
  show "n div 4096 * 4096 + n div 64 mod 64 * 64 + n mod 64 = n"
    "n div 262144 * 262144 + n div 4096 mod 64 * 4096 + n div 64 mod 64 * 64 + n mod 64 = n"
    unfolding d by linarith+
qed

lemma digits64_unique:
  fixes k x y z :: nat
  assumes "x < 64" and "y < 64" and "z < 64"
  shows "(k * 64 + z) div 64 = k" "(k * 64 + z) mod 64 = z"
    and "(k * 4096 + y * 64 + z) div 4096 = k" "(k * 4096 + y * 64 + z) div 64 mod 64 = y"
      "(k * 4096 + y * 64 + z) mod 64 = z"
    and "(k * 262144 + x * 4096 + y * 64 + z) div 262144 = k"
      "(k * 262144 + x * 4096 + y * 64 + z) div 4096 mod 64 = x"
      "(k * 262144 + x * 4096 + y * 64 + z) div 64 mod 64 = y" "(k * 262144 + x * 4096 + y * 64 + z) mod 64 = z"
proof -
  have s: "(k * 64 + z) div 64 = k" "(k * 64 + z) mod 64 = z" if "z < 64" for k z :: nat
    using that by simp_all
  have e: "k * 4096 + y * 64 + z = (k * 64 + y) * 64 + z"
    "k * 262144 + x * 4096 + y * 64 + z = ((k * 64 + x) * 64 + y) * 64 + z" by simp_all
  have d: "m div 4096 = m div 64 div 64" "m div 262144 = m div 64 div 64 div 64" for m :: nat
    by (simp_all flip: div_mult2_eq)
  show "(k * 64 + z) div 64 = k" "(k * 64 + z) mod 64 = z"
    "(k * 4096 + y * 64 + z) div 4096 = k" "(k * 4096 + y * 64 + z) div 64 mod 64 = y"
    "(k * 4096 + y * 64 + z) mod 64 = z" "(k * 262144 + x * 4096 + y * 64 + z) div 262144 = k"
    "(k * 262144 + x * 4096 + y * 64 + z) div 4096 mod 64 = x"
    "(k * 262144 + x * 4096 + y * 64 + z) div 64 mod 64 = y" "(k * 262144 + x * 4096 + y * 64 + z) mod 64 = z"
    unfolding e d using s assms by metis+
qed

lemma cont_byte_of_nat: "x < 64 \<Longrightarrow> cont_byte (of_nat (0x80 + x)) = Some x"
  by (simp add: cont_byte_def unat_of_nat_byte del: of_nat_add)

lemma decode_encode_char:
  assumes "scalar_value c"
  shows "decode_char (encode_char c @ rest) = Some (c, rest)"
proof -
  have c: "c < 0x110000" using assms by (auto simp: scalar_value_def)
  have m: "c mod 64 < 64" "c div 64 mod 64 < 64" "c div 4096 mod 64 < 64" by simp_all
  consider "c < 0x80" | "0x80 \<le> c" "c < 0x800" | "0x800 \<le> c" "c < 0x10000" | "0x10000 \<le> c" by linarith
  then show ?thesis
  proof cases
    case 1
    then show ?thesis by (simp add: encode_char_def unat_of_nat_byte)
  next
    case 2
    then have "c div 64 < 32" by simp
    then have "unat (of_nat (0xC0 + c div 64) :: u8) = 0xC0 + c div 64" by (intro unat_of_nat_byte) simp
    with 2 m \<open>c div 64 < 32\<close> show ?thesis
      by (simp add: encode_char_def cont_byte_of_nat Let_def del: of_nat_add)
  next
    case 3
    then have "c div 4096 < 16" by simp
    then have "unat (of_nat (0xE0 + c div 4096) :: u8) = 0xE0 + c div 4096" by (intro unat_of_nat_byte) simp
    moreover have "encode_char c = [of_nat (0xE0 + c div 4096), of_nat (0x80 + c div 64 mod 64), of_nat (0x80 + c mod 64)]"
      using 3 by (simp add: encode_char_def)
    ultimately show ?thesis using 3(1) m assms \<open>c div 4096 < 16\<close> digits64(2) [of c]
      by (simp add: cont_byte_of_nat Let_def del: of_nat_add)
  next
    case 4
    then have "c div 262144 < 5" using c by simp
    then have "unat (of_nat (0xF0 + c div 262144) :: u8) = 0xF0 + c div 262144" by (intro unat_of_nat_byte) simp
    with 4 m assms \<open>c div 262144 < 5\<close> digits64(3) [of c] show ?thesis
      by (simp add: encode_char_def cont_byte_of_nat Let_def del: of_nat_add)
  qed
qed

lemma as_bytes_simps [simp]: "as_bytes [] = []" "as_bytes (c # cs) = encode_char c @ as_bytes cs"
  "as_bytes (cs @ ds) = as_bytes cs @ as_bytes ds"
  by (simp_all add: as_bytes_def)

lemma encode_char_not_Nil [simp]: "encode_char c \<noteq> []"
  by (simp add: encode_char_def)

definition valid_text :: "ustring \<Rightarrow> bool" where
  "valid_text s \<longleftrightarrow> list_all scalar_value s"

lemma from_utf8_as_bytes: "valid_text s \<Longrightarrow> from_utf8 (as_bytes s) = Some s"
  by (induction s)
    (simp_all add: valid_text_def from_utf8.simps [of "_ @ _"] from_utf8.simps [of "[]"] decode_encode_char)

text \<open>Decoding loses nothing: the bytes are the encoding of the text they decode to.\<close>

lemma encode_decode_char:
  assumes "decode_char bs = Some (c, rest)"
  shows "bs = encode_char c @ rest" and "scalar_value c"
proof -
  obtain b0 bs' where bs: "bs = b0 # bs'" using assms by (cases bs) auto
  have "bs = encode_char c @ rest \<and> scalar_value c"
  proof (cases "unat b0 < 0xC0")
    case True
    with assms bs show ?thesis by (auto simp: encode_char_def scalar_value_def split: if_splits)
  next
    case ge: False
    show ?thesis
    proof (cases "unat b0 < 0xE0")
      case True
      with ge assms bs obtain b1 x1 where *: "bs' = b1 # rest" "cont_byte b1 = Some x1"
        "c = (unat b0 - 0xC0) * 64 + x1" "0x80 \<le> c"
        by (auto simp: Let_def split: if_splits list.splits option.splits)
      have "x1 < 64" "unat b1 = 0x80 + x1" using *(2) by (auto simp: cont_byte_def split: if_splits)
      then have "c div 64 = unat b0 - 0xC0" "c mod 64 = x1" "c < 0x800" using *(3) True ge by auto
      with *(1,4) bs ge \<open>unat b1 = 0x80 + x1\<close> [symmetric] show ?thesis
        by (simp add: encode_char_def scalar_value_def flip: of_nat_add)
    next
      case ge2: False
      show ?thesis
      proof (cases "unat b0 < 0xF0")
        case True
        with ge2 assms bs obtain b1 b2 x1 x2 where *: "bs' = b1 # b2 # rest" "cont_byte b1 = Some x1"
          "cont_byte b2 = Some x2" "c = (unat b0 - 0xE0) * 4096 + x1 * 64 + x2" "0x800 \<le> c" "scalar_value c"
          by (auto simp: Let_def split: if_splits list.splits option.splits)
        have x: "x1 < 64" "unat b1 = 0x80 + x1" "x2 < 64" "unat b2 = 0x80 + x2"
          using *(2,3) by (auto simp: cont_byte_def split: if_splits)
        have "c < 0x10000" using *(4) True ge2 x(1,3) by simp
        moreover have "c div 4096 = unat b0 - 0xE0" "c div 64 mod 64 = x1" "c mod 64 = x2"
          unfolding *(4) by (rule digits64_unique(3-5) [OF x(1,1,3)])+
        ultimately
        show ?thesis using *(1,5,6) bs ge2 x(2,4) [symmetric]
          by (simp add: encode_char_def flip: of_nat_add)
      next
        case ge3: False
        with ge2 assms bs obtain b1 b2 b3 x1 x2 x3 where *: "bs' = b1 # b2 # b3 # rest" "cont_byte b1 = Some x1"
          "cont_byte b2 = Some x2" "cont_byte b3 = Some x3" "unat b0 < 0xF8"
          "c = (unat b0 - 0xF0) * 262144 + x1 * 4096 + x2 * 64 + x3" "0x10000 \<le> c" "scalar_value c"
          by (auto simp: Let_def split: if_splits list.splits option.splits)
        have x: "x1 < 64" "unat b1 = 0x80 + x1" "x2 < 64" "unat b2 = 0x80 + x2" "x3 < 64" "unat b3 = 0x80 + x3"
          using *(2,3,4) by (auto simp: cont_byte_def split: if_splits)
        have "c div 262144 = unat b0 - 0xF0" "c div 4096 mod 64 = x1" "c div 64 mod 64 = x2" "c mod 64 = x3"
          unfolding *(6) by (rule digits64_unique(6-9) [OF x(1,3,5)])+
        with *(1,7,8) bs ge3 x(2,4,6) [symmetric] show ?thesis
          by (simp add: encode_char_def flip: of_nat_add)
      qed
    qed
  qed
  then show "bs = encode_char c @ rest" "scalar_value c" by auto
qed

lemma from_utf8_eq_Some: "from_utf8 bs = Some s \<longleftrightarrow> valid_text s \<and> bs = as_bytes s"
proof
  show "from_utf8 bs = Some s \<Longrightarrow> valid_text s \<and> bs = as_bytes s"
  proof (induction bs arbitrary: s rule: from_utf8.induct)
    case (1 bs)
    then show ?case
      by (force simp: from_utf8.simps [of bs] valid_text_def split: if_splits option.splits
          dest: encode_decode_char)
  qed
qed (auto simp: from_utf8_as_bytes)

lemma encode_char_ascii: "c < 0x80 \<Longrightarrow> encode_char c = [of_nat c]"
  by (simp add: encode_char_def)

lemma encode_char_high:
  assumes "scalar_value c" and "0x80 \<le> c" and "b \<in> set (encode_char c)"
  shows "0x80 \<le> unat b"
proof -
  have "unat b \<in> set (map unat (encode_char c))" using assms(3) by auto
  then show ?thesis unfolding encode_char_bytes [OF assms(1)] using assms(2) by (auto split: if_splits)
qed

end
