(* ===== verification/JsonScan.thy ===== *)
theory JsonScan
  imports Utf8
begin

text \<open>
  The field scanner of \<open>json.rs\<close>: white space, string and value ends, the decoder of string
  tokens, and the lookup of a field of an object.  All of it works on positions of one byte
  string; \<open>get_opt\<close> is \<open>slice::get\<close>.
\<close>

definition get_opt :: "'a list \<Rightarrow> nat \<Rightarrow> 'a option" where
  "get_opt xs i = (if i < length xs then Some (xs ! i) else None)"

definition slice_of :: "nat \<Rightarrow> nat \<Rightarrow> 'a list \<Rightarrow> 'a list" where
  "slice_of i j xs = drop i (take j xs)"

section \<open>Tokens\<close>

definition is_ws :: "u8 \<Rightarrow> bool" where
  "is_ws c \<longleftrightarrow> c \<in> {0x20, 0x09, 0x0D, 0x0A}"

function skip_ws :: "bytes \<Rightarrow> nat \<Rightarrow> nat" where
  "skip_ws b i = (if i < length b \<and> is_ws (b ! i) then skip_ws b (i + 1) else i)"
  by auto
termination by (relation "measure (\<lambda>(b, i). length b - i)") auto

declare skip_ws.simps [simp del]

text \<open>\<open>skip_string\<close> after the opening quote: 0x5C is the backslash, 0x22 the quote.\<close>

function string_end :: "bytes \<Rightarrow> nat \<Rightarrow> nat" where
  "string_end b i =
    (if i < length b
     then if b ! i = 0x5C then string_end b (i + 2)
          else if b ! i = 0x22 then i + 1 else string_end b (i + 1)
     else length b)"
  by auto
termination by (relation "measure (\<lambda>(b, i). length b - i)") auto

declare string_end.simps [simp del]

definition skip_string :: "bytes \<Rightarrow> nat \<Rightarrow> nat" where
  "skip_string b i = string_end b (i + 1)"

definition is_hexdigit :: "u8 \<Rightarrow> bool" where
  "is_hexdigit b \<longleftrightarrow> 0x30 \<le> b \<and> b \<le> 0x39 \<or> 0x41 \<le> b \<and> b \<le> 0x46 \<or> 0x61 \<le> b \<and> b \<le> 0x66"

definition hex_digit_value :: "u8 \<Rightarrow> nat" where
  "hex_digit_value b = (if b \<le> 0x39 then unat b - 0x30 else if b \<le> 0x46 then unat b - 0x37 else unat b - 0x57)"

text \<open>\<open>u32::from_str_radix(hex, 16)\<close> on hexadecimal digits.\<close>

definition hex_value :: "bytes \<Rightarrow> nat" where
  "hex_value hex = foldl (\<lambda>n b. n * 16 + hex_digit_value b) 0 hex"

text \<open>Four hexadecimal digits at the front of the remaining characters.\<close>

definition take_hex4 :: "ustring \<Rightarrow> nat option" where
  "take_hex4 cs =
    (let hex = as_bytes (take 4 cs)
     in if length hex \<noteq> 4 \<or> \<not> list_all is_hexdigit hex then None else Some (hex_value hex))"

text \<open>
  The character loop of \<open>decode_json_string\<close>: \<open>n\<close>, \<open>r\<close>, \<open>t\<close>, \<open>b\<close>, \<open>f\<close>, \<open>u\<close> are 0x6E, 0x72,
  0x74, 0x62, 0x66, 0x75.
\<close>

function unescape :: "ustring \<Rightarrow> ustring \<Rightarrow> ustring option" where
  "unescape [] out = Some out"
| "unescape (c # cs) out =
    (if c \<noteq> 0x5C then (if c \<le> 0x1F \<or> c = 0x22 then None else unescape cs (out @ [c]))
     else case cs of
            [] \<Rightarrow> None
          | e # cs1 \<Rightarrow>
              if e = 0x6E then unescape cs1 (out @ [0x0A])
              else if e = 0x72 then unescape cs1 (out @ [0x0D])
              else if e = 0x74 then unescape cs1 (out @ [0x09])
              else if e = 0x62 then unescape cs1 (out @ [0x08])
              else if e = 0x66 then unescape cs1 (out @ [0x0C])
              else if e = 0x75
              then (case take_hex4 cs1 of
                      None \<Rightarrow> None
                    | Some cp \<Rightarrow>
                        let cs2 = drop 4 cs1
                        in if 0xD800 \<le> cp \<and> cp < 0xDC00
                           then (if length cs2 < 2 \<or> cs2 ! 0 \<noteq> 0x5C \<or> cs2 ! 1 \<noteq> 0x75 then None
                                 else case take_hex4 (drop 2 cs2) of
                                        None \<Rightarrow> None
                                      | Some lo \<Rightarrow>
                                          if \<not> (0xDC00 \<le> lo \<and> lo < 0xE000) then None
                                          else (case char_from_u32 (0x10000 + (cp - 0xD800) * 1024 + (lo - 0xDC00)) of
                                                  None \<Rightarrow> None
                                                | Some ch \<Rightarrow> unescape (drop 6 cs2) (out @ [ch])))
                           else (case char_from_u32 cp of None \<Rightarrow> None | Some ch \<Rightarrow> unescape cs2 (out @ [ch])))
              else if e \<in> {0x22, 0x5C, 0x2F} then unescape cs1 (out @ [e])
              else None)"
  by pat_completeness auto
termination by (relation "measure (\<lambda>(cs, out). length cs)") auto

declare unescape.simps(2) [simp del]

definition decode_json_string :: "bytes \<Rightarrow> ustring option" where
  "decode_json_string raw =
    (if length raw < 2 \<or> raw ! 0 \<noteq> 0x22 \<or> raw ! (length raw - 1) \<noteq> 0x22 then None
     else case from_utf8 (slice_of 1 (length raw - 1) raw) of
            None \<Rightarrow> None
          | Some t \<Rightarrow>
              if list_ex (\<lambda>c. c \<le> 0x1F \<or> c = 0x22) t \<and> 0x5C \<notin> set t then None
              else if 0x5C \<notin> set t then Some t
              else unescape t [])"

section \<open>Literals and numbers\<close>

definition is_digit :: "u8 \<Rightarrow> bool" where
  "is_digit b \<longleftrightarrow> 0x30 \<le> b \<and> b \<le> 0x39"

definition digits_end :: "bytes \<Rightarrow> nat \<Rightarrow> nat" where
  "digits_end bs n = n + length (takeWhile is_digit (drop n bs))"

definition number_int :: "bytes \<Rightarrow> nat option" where
  "number_int bs =
    (let n = (if get_opt bs 0 = Some 0x2D then 1 else 0)
     in case get_opt bs n of
          None \<Rightarrow> None
        | Some c \<Rightarrow> if c = 0x30 then Some (n + 1)
                    else if 0x31 \<le> c \<and> c \<le> 0x39 then Some (digits_end bs (n + 1)) else None)"

definition number_frac :: "bytes \<Rightarrow> nat \<Rightarrow> nat option" where
  "number_frac bs n =
    (if get_opt bs n = Some 0x2E
     then let m = digits_end bs (n + 1) in if m = n + 1 then None else Some m
     else Some n)"

definition number_exp :: "bytes \<Rightarrow> nat \<Rightarrow> nat option" where
  "number_exp bs n =
    (if get_opt bs n \<in> {Some 0x65, Some 0x45}
     then let start = (if get_opt bs (n + 1) \<in> {Some 0x2B, Some 0x2D} then n + 2 else n + 1);
              m = digits_end bs start
          in if m = start then None else Some m
     else Some n)"

definition is_number :: "bytes \<Rightarrow> bool" where
  "is_number bs \<longleftrightarrow>
    (case number_int bs of
       None \<Rightarrow> False
     | Some n \<Rightarrow> (case number_frac bs n of
                     None \<Rightarrow> False
                   | Some m \<Rightarrow> number_exp bs m = Some (length bs)))"

definition is_delim :: "u8 \<Rightarrow> bool" where
  "is_delim c \<longleftrightarrow> c \<in> {0x2C, 0x7D, 0x5D} \<or> c \<in> {0x20, 0x09, 0x0A, 0x0C, 0x0D}"

definition is_scalar_token :: "bytes \<Rightarrow> bool" where
  "is_scalar_token token \<longleftrightarrow>
    from_utf8 token \<noteq> None \<and>
    (token = lit ''true'' \<or> token = lit ''false'' \<or> token = lit ''null'' \<or> is_number token)"

definition scalar_end :: "bytes \<Rightarrow> nat \<Rightarrow> nat option" where
  "scalar_end b i =
    (let token = takeWhile (\<lambda>c. \<not> is_delim c) (drop i b)
     in if is_scalar_token token then Some (i + length token) else None)"

section \<open>Values\<close>

text \<open>
  The opening bracket decides what a member is: after \<open>{\<close> (0x7B) a key not seen before, a
  colon and a value; after \<open>[\<close> (0x5B) a value.  \<open>members_end\<close> is the loop.
\<close>

definition closing :: "u8 \<Rightarrow> u8" where
  "closing opn = (if opn = 0x7B then 0x7D else 0x5D)"

function (sequential) value_end :: "bytes \<Rightarrow> nat \<Rightarrow> nat \<Rightarrow> nat option"
  and members_end :: "bytes \<Rightarrow> u8 \<Rightarrow> ustring list \<Rightarrow> nat \<Rightarrow> nat \<Rightarrow> nat option" where
  "value_end b i depth =
    (if depth > 32 then None
     else case get_opt b i of
            None \<Rightarrow> None
          | Some c \<Rightarrow>
              if c = 0x22
              then (let e = skip_string b i
                    in case decode_json_string (slice_of i e b) of None \<Rightarrow> None | Some _ \<Rightarrow> Some e)
              else if c = 0x7B \<or> c = 0x5B
              then (let j = skip_ws b (i + 1)
                    in if get_opt b j = Some (closing c) then Some (j + 1)
                       else members_end b c [] j depth)
              else scalar_end b i)"
| "members_end b opn keys j depth =
    (case (if opn = 0x7B
           then if get_opt b j \<noteq> Some 0x22 then None
                else case value_end b j (depth + 1) of
                       None \<Rightarrow> None
                     | Some key_end \<Rightarrow>
                         (case decode_json_string (slice_of j key_end b) of
                            None \<Rightarrow> None
                          | Some key \<Rightarrow>
                              if key \<in> set keys then None
                              else let k = skip_ws b key_end
                                   in if get_opt b k \<noteq> Some 0x3A then None
                                      else Some (key # keys, skip_ws b (k + 1)))
           else Some (keys, j)) of
       None \<Rightarrow> None
     | Some (keys', v) \<Rightarrow>
         (case value_end b v (depth + 1) of
            None \<Rightarrow> None
          | Some ve \<Rightarrow>
              let e = skip_ws b ve
              in if get_opt b e = Some (closing opn) then Some (e + 1)
                 else if get_opt b e \<noteq> Some 0x2C then None
                 else members_end b opn keys' (skip_ws b (e + 1)) depth))"
  by pat_completeness auto

lemma skip_ws_ge: "i \<le> skip_ws b i"
  by (induction b i rule: skip_ws.induct) (subst skip_ws.simps, auto)

lemma string_end_bounds: "string_end b i \<le> length b \<and> min i (length b) \<le> string_end b i"
proof (induction b i rule: string_end.induct)
  case (1 b i)
  then show ?case by (subst (1 2) string_end.simps) auto
qed

lemma get_opt_eq_Some [simp]: "get_opt xs i = Some x \<longleftrightarrow> i < length xs \<and> xs ! i = x"
  by (auto simp: get_opt_def)

lemma get_opt_eq_None [simp]: "get_opt xs i = None \<longleftrightarrow> length xs \<le> i"
  by (auto simp: get_opt_def)

lemma scalar_token_not_Nil: "is_scalar_token t \<Longrightarrow> t \<noteq> []"
  by (auto simp: is_scalar_token_def is_number_def number_int_def lit_def split: option.splits)

lemma scalar_end_bounds:
  assumes "scalar_end b i = Some e"
  shows "i < e \<and> e \<le> length b"
proof -
  let ?t = "takeWhile (\<lambda>c. \<not> is_delim c) (drop i b)"
  have e: "is_scalar_token ?t" "e = i + length ?t"
    using assms by (auto simp: scalar_end_def Let_def split: if_splits)
  have "length ?t \<le> length b - i" using length_takeWhile_le [of _ "drop i b"] by simp
  with e scalar_token_not_Nil [OF e(1)] show ?thesis
    by (cases "i \<le> length b") auto
qed

text \<open>The key and the colon of an object's member do not go back.\<close>

lemma member_value_ge:
  assumes m: "(if opn = 0x7B
       then if get_opt b j \<noteq> Some 0x22 then None
            else case value_end b j (depth + 1) of
                   None \<Rightarrow> None
                 | Some key_end \<Rightarrow>
                     (case decode_json_string (slice_of j key_end b) of
                        None \<Rightarrow> None
                      | Some key \<Rightarrow>
                          if key \<in> set keys then None
                          else let k = skip_ws b key_end
                               in if get_opt b k \<noteq> Some 0x3A then None
                                  else Some (key # keys, skip_ws b (k + 1)))
       else Some (keys, j)) = Some (keys', v)"
    and ve: "\<And>ke. \<lbrakk>opn = 0x7B; get_opt b j = Some 0x22; value_end b j (depth + 1) = Some ke\<rbrakk> \<Longrightarrow> j < ke"
  shows "j \<le> v"
proof (cases "opn = 0x7B")
  case True
  with m obtain ke where ke: "value_end b j (depth + 1) = Some ke" "v = skip_ws b (skip_ws b ke + 1)"
    by (auto simp: Let_def split: if_splits option.splits)
  from True m have "get_opt b j = Some 0x22" by (auto split: if_splits)
  with ve True ke skip_ws_ge [of ke b] skip_ws_ge [of "skip_ws b ke + 1" b] show ?thesis by fastforce
qed (use m in auto)

text \<open>A value ends after it begins, which is also why the loop over members ends.\<close>

lemma value_end_partial:
  "value_end_members_end_dom (Inl (b, i, d)) \<Longrightarrow> value_end b i d = Some e \<Longrightarrow> i < e \<and> e \<le> length b"
  "value_end_members_end_dom (Inr (b, opn, keys, j, d)) \<Longrightarrow> members_end b opn keys j d = Some e \<Longrightarrow>
    j < e \<and> e \<le> length b"
proof (induction b i d and b opn keys j d arbitrary: e and e rule: value_end_members_end.pinduct)
  case (1 b i depth)
  note ps = value_end.psimps [OF "1.hyps"(1)]
  note sw = skip_ws_ge [of "i + 1" b]
  from "1.prems" have c: "\<not> depth > 32" "i < length b" by (auto simp: ps split: if_splits option.splits)
  have g: "get_opt b i = Some (b ! i)" using c(2) by simp
  consider "b ! i = 0x22" | "b ! i = 0x7B \<or> b ! i = 0x5B" | "b ! i \<noteq> 0x22" "\<not> (b ! i = 0x7B \<or> b ! i = 0x5B)"
    by blast
  then show ?case
  proof cases
    case 1
    with "1.prems" c string_end_bounds [of b "i + 1"] show ?thesis
      by (auto simp: ps g Let_def skip_string_def simp del: get_opt_eq_Some split: option.splits)
  next
    case 2
    let ?j = "skip_ws b (i + 1)"
    show ?thesis
    proof (cases "get_opt b ?j = Some (closing (b ! i))")
      case True
      with 2 "1.prems" c(1) have "e = ?j + 1" "?j < length b"
        by (auto simp: ps g Let_def simp del: get_opt_eq_Some split: if_splits) (simp_all)
      with sw show ?thesis by simp
    next
      case False
      with 2 "1.prems" c(1) have "members_end b (b ! i) [] ?j depth = Some e"
        by (auto simp: ps g Let_def simp del: get_opt_eq_Some)
      from "1.IH" [OF c(1) g _ 2 refl False this] 2 sw show ?thesis by auto
    qed
  next
    case 3
    with "1.prems" c scalar_end_bounds show ?thesis by (auto simp: ps g simp del: get_opt_eq_Some)
  qed
next
  case (2 b opn keys j depth)
  note ps = members_end.psimps [OF "2.hyps"(1)]
  let ?m = "if opn = 0x7B
       then if get_opt b j \<noteq> Some 0x22 then None
            else case value_end b j (depth + 1) of
                   None \<Rightarrow> None
                 | Some key_end \<Rightarrow>
                     (case decode_json_string (slice_of j key_end b) of
                        None \<Rightarrow> None
                      | Some key \<Rightarrow>
                          if key \<in> set keys then None
                          else let k = skip_ws b key_end
                               in if get_opt b k \<noteq> Some 0x3A then None
                                  else Some (key # keys, skip_ws b (k + 1)))
       else Some (keys, j)"
  obtain keys' v where m: "?m = Some (keys', v)"
    using "2.prems" by (auto simp: ps split: option.splits)
  have jv: "j \<le> v"
    using "2.IH"(1) by (intro member_value_ge [OF m]) auto
  from "2.prems" obtain ve where ve: "value_end b v (depth + 1) = Some ve"
    by (auto simp: ps m split: option.splits)
  from "2.IH"(2) [OF m refl ve] have v: "v < ve" "ve \<le> length b" by auto
  note sw = skip_ws_ge [of ve b] skip_ws_ge [of "skip_ws b ve + 1" b]
  show ?case
  proof (cases "get_opt b (skip_ws b ve) = Some (closing opn)")
    case True
    with "2.prems" m ve jv v sw show ?thesis by (auto simp: ps)
  next
    case False
    with "2.prems" m ve have "members_end b opn keys' (skip_ws b (skip_ws b ve + 1)) depth = Some e"
      "get_opt b (skip_ws b ve) = Some 0x2C"
      by (auto simp: ps Let_def split: if_splits)
    with "2.IH"(3) [OF m refl ve refl False] jv v sw show ?thesis by auto
  qed
qed

lemma value_end_total: "All value_end_members_end_dom"
proof (relation "measure (\<lambda>x. case x of Inl (b, i, d) \<Rightarrow> 2 * (length b - i)
    | Inr (b, opn, keys, j, d) \<Rightarrow> 2 * (length b - j) + 1)", goal_cases)
  case 1
  show ?case by simp
next
  case (2 b i depth c j)
  then have "i < length b" "i + 1 \<le> j" using skip_ws_ge [of "i + 1" b] by auto
  then show ?case by simp
next
  case (3 b opn keys j depth)
  show ?case by simp
next
  case (4 b opn keys j depth x keys' v)
  have "j \<le> v"
    using 4 value_end_partial(1) [of b j "depth + 1"] by (intro member_value_ge [OF 4(1) [folded 4(2)]]) auto
  then show ?case by simp
next
  case (5 b opn keys j depth x keys' v ve e)
  have "j \<le> v"
    using 5 value_end_partial(1) [of b j "depth + 1"] by (intro member_value_ge [OF 5(1) [folded 5(2)]]) auto
  moreover have "v < ve" "ve \<le> length b"
    using value_end_partial(1) 5 by blast+
  ultimately show ?case
    using skip_ws_ge [of ve b] skip_ws_ge [of "skip_ws b ve + 1" b] 5 by auto
qed

termination value_end
  by (rule value_end_total)

declare value_end.simps [simp del] members_end.simps [simp del]

lemma value_end_bounds: "value_end b i d = Some e \<Longrightarrow> i < e \<and> e \<le> length b"
  and members_end_bounds: "members_end b opn keys j d = Some e \<Longrightarrow> j < e \<and> e \<le> length b"
  using value_end_partial value_end_total by blast+

definition skip_value :: "bytes \<Rightarrow> nat \<Rightarrow> nat" where
  "skip_value b i = (case value_end b i 0 of None \<Rightarrow> length b | Some e \<Rightarrow> e)"

definition is_valid_object :: "bytes \<Rightarrow> bool" where
  "is_valid_object b \<longleftrightarrow>
    (let start = skip_ws b 0
     in get_opt b start = Some 0x7B \<and>
        (case value_end b start 0 of None \<Rightarrow> False | Some e \<Rightarrow> skip_ws b e = length b))"

text \<open>The loop of \<open>object_field\<close> over the members of the outer object.\<close>

function field_loop :: "bytes \<Rightarrow> ustring \<Rightarrow> nat \<Rightarrow> bytes option \<Rightarrow> bytes option" where
  "field_loop b key i found =
    (if get_opt b i = Some 0x7D then found
     else case value_end b i 1 of
            None \<Rightarrow> None
          | Some key_end \<Rightarrow>
              (case decode_json_string (slice_of i key_end b) of
                 None \<Rightarrow> None
               | Some name \<Rightarrow>
                   let c = skip_ws b key_end
                   in if get_opt b c \<noteq> Some 0x3A then None
                      else let v = skip_ws b (c + 1)
                           in case value_end b v 1 of
                                None \<Rightarrow> None
                              | Some ve \<Rightarrow>
                                  if name = key \<and> found \<noteq> None then None
                                  else let found' = (if name = key then Some (slice_of v ve b) else found);
                                           n = skip_ws b ve;
                                           n' = (if get_opt b n = Some 0x2C then skip_ws b (n + 1) else n)
                                       in field_loop b key n' found'))"
  by pat_completeness auto

lemma member_progress:
  assumes "value_end b i d = Some key_end" and "value_end b (skip_ws b (skip_ws b key_end + 1)) d' = Some ve"
    and "n = skip_ws b ve" and "n' = (if get_opt b n = Some 0x2C then skip_ws b (n + 1) else n)"
  shows "i < n'" and "i < length b"
  using value_end_bounds [OF assms(1)] value_end_bounds [OF assms(2)] assms(3,4)
    skip_ws_ge [of key_end b] skip_ws_ge [of "skip_ws b key_end + 1" b] skip_ws_ge [of ve b]
    skip_ws_ge [of "n + 1" b]
  by (auto simp del: get_opt_eq_Some split: if_splits)

termination field_loop
proof (relation "measure (\<lambda>(b, key, i, found). length b - i)", goal_cases)
  case (2 b key i found key_end name c v ve found' n n')
  have "i < n'" "i < length b"
    by (rule member_progress [OF 2(2) 2(7) [unfolded 2(6,4)] 2(10,11)])+
  then show ?case by simp
qed simp

declare field_loop.simps [simp del]

definition object_field :: "bytes \<Rightarrow> ustring \<Rightarrow> bytes option" where
  "object_field b key =
    (let start = skip_ws b 0
     in if get_opt b start \<noteq> Some 0x7B then None
        else case value_end b start 0 of
               None \<Rightarrow> None
             | Some e \<Rightarrow> if skip_ws b e \<noteq> length b then None
                          else field_loop b key (skip_ws b (start + 1)) None)"

declare get_opt_eq_Some [simp del] get_opt_eq_None [simp del]

end
