(* ===== verification/JsonLocal.thy ===== *)
theory JsonLocal
  imports JsonScan
begin

text \<open>
  The scanner is local: what it finds depends only on the bytes of the value, not on what
  stands before it, and on what follows only through the delimiter of a number or literal.
  So values can be composed: the members of an object, written one after the other, are what
  \<open>object_field\<close> finds.
\<close>

section \<open>The loop over members, in steps\<close>

text \<open>One turn of the loop: up to the value, given the end of the key.\<close>

definition member_start :: "bytes \<Rightarrow> u8 \<Rightarrow> ustring list \<Rightarrow> nat \<Rightarrow> nat option \<Rightarrow> (ustring list \<times> nat) option" where
  "member_start b opn keys j ke =
    (if opn = 0x7B
     then if get_opt b j \<noteq> Some 0x22 then None
          else case ke of
                 None \<Rightarrow> None
               | Some key_end \<Rightarrow>
                   (case decode_json_string (slice_of j key_end b) of
                      None \<Rightarrow> None
                    | Some key \<Rightarrow>
                        if key \<in> set keys then None
                        else let k = skip_ws b key_end
                             in if get_opt b k \<noteq> Some 0x3A then None
                                else Some (key # keys, skip_ws b (k + 1)))
     else Some (keys, j))"

lemma members_end_eq:
  "members_end b opn keys j d =
    (case member_start b opn keys j (value_end b j (Suc d)) of
       None \<Rightarrow> None
     | Some (keys', v) \<Rightarrow>
         (case value_end b v (Suc d) of
            None \<Rightarrow> None
          | Some ve \<Rightarrow>
              let e = skip_ws b ve
              in if get_opt b e = Some (closing opn) then Some (Suc e)
                 else if get_opt b e \<noteq> Some 0x2C then None
                 else members_end b opn keys' (skip_ws b (Suc e)) d))"
  unfolding member_start_def Suc_eq_plus1 by (rule members_end.simps)

lemma scan_induct [case_names val mem]:
  assumes val: "\<And>b i d. (\<And>c. \<lbrakk>\<not> d > 32; get_opt b i = Some c; c = 0x7B \<or> c = 0x5B;
        get_opt b (skip_ws b (Suc i)) \<noteq> Some (closing c)\<rbrakk> \<Longrightarrow> Q b c [] (skip_ws b (Suc i)) d) \<Longrightarrow> P b i d"
    and mem: "\<And>b opn keys j d.
      \<lbrakk>opn = 0x7B \<Longrightarrow> get_opt b j = Some 0x22 \<Longrightarrow> P b j (Suc d);
       \<And>keys' v. member_start b opn keys j (value_end b j (Suc d)) = Some (keys', v) \<Longrightarrow> P b v (Suc d);
       \<And>keys' v ve. \<lbrakk>member_start b opn keys j (value_end b j (Suc d)) = Some (keys', v);
         value_end b v (Suc d) = Some ve; get_opt b (skip_ws b ve) \<noteq> Some (closing opn);
         get_opt b (skip_ws b ve) = Some 0x2C\<rbrakk> \<Longrightarrow> Q b opn keys' (skip_ws b (Suc (skip_ws b ve))) d\<rbrakk>
      \<Longrightarrow> Q b opn keys j d"
  shows "P b i d" and "Q b opn keys j d"
proof (induction b i d and b opn keys j d rule: value_end_members_end.induct)
  case (1 b i depth)
  show ?case by (rule val) (use 1 [unfolded Suc_eq_plus1 [symmetric]] in \<open>auto\<close>)
next
  case (2 b opn keys j depth)
  note IH = "2.IH" [folded member_start_def, unfolded Suc_eq_plus1 [symmetric]]
  show ?case
    by (rule mem) (use IH in \<open>auto\<close>)
qed

section \<open>Nothing depends on the bytes before\<close>

lemma get_opt_prefix [simp]: "get_opt (pre @ b) (length pre + i) = get_opt b i"
  "get_opt (pre @ b) (Suc (length pre + i)) = get_opt b (Suc i)"
  using nth_append_length_plus [of pre b "Suc i"] by (auto simp: get_opt_def)

lemma slice_of_prefix [simp]: "slice_of (length pre + i) (length pre + e) (pre @ b) = slice_of i e b"
  by (simp add: slice_of_def)

lemma nth_Suc_prefix [simp]: "(pre @ b) ! Suc (length pre + i) = b ! Suc i"
  using nth_append_length_plus [of pre b "Suc i"] by simp

lemma skip_ws_prefix: "skip_ws (pre @ b) (length pre + i) = length pre + skip_ws b i"
  by (induction b i rule: skip_ws.induct) (subst (1 2) skip_ws.simps, auto)

lemma string_end_prefix: "string_end (pre @ b) (length pre + i) = length pre + string_end b i"
  by (induction b i rule: string_end.induct) (subst (1 2) string_end.simps, auto)

lemma scalar_end_prefix: "scalar_end (pre @ b) (length pre + i) = map_option ((+) (length pre)) (scalar_end b i)"
  by (simp add: scalar_end_def Let_def)

lemma skip_ws_prefix_Suc: "skip_ws (pre @ b) (Suc (length pre + i)) = length pre + skip_ws b (Suc i)"
  and string_end_prefix_Suc: "string_end (pre @ b) (Suc (length pre + i)) = length pre + string_end b (Suc i)"
  using skip_ws_prefix [of pre b "Suc i"] string_end_prefix [of pre b "Suc i"] by simp_all

lemmas prefix_simps = skip_ws_prefix string_end_prefix scalar_end_prefix skip_ws_prefix_Suc string_end_prefix_Suc

lemma value_end_prefix: "value_end (pre @ b) (length pre + i) d = map_option ((+) (length pre)) (value_end b i d)"
  and members_end_prefix: "members_end (pre @ b) opn keys (length pre + j) d =
    map_option ((+) (length pre)) (members_end b opn keys j d)"
proof (induction b i d and b opn keys j d rule: scan_induct)
  case (val b i d)
  note s = value_end.simps [of b i d] value_end.simps [of "pre @ b" "length pre + i" d]
  show ?case
    by (auto simp: s prefix_simps skip_string_def Let_def val split: option.splits)
next
  case (mem b opn keys j d)
  let ?p = "length pre"
  have m: "member_start (pre @ b) opn keys (?p + j) (value_end (pre @ b) (?p + j) (Suc d)) =
      map_option (apsnd ((+) ?p)) (member_start b opn keys j (value_end b j (Suc d)))"
    using mem(1) by (auto simp: member_start_def prefix_simps Let_def split: option.splits)
  note s = members_end_eq [of b opn keys j d] members_end_eq [of "pre @ b" opn keys "?p + j" d]
  show ?case
  proof (cases "member_start b opn keys j (value_end b j (Suc d))")
    case None
    then show ?thesis by (simp add: s m)
  next
    case (Some kv)
    obtain keys' v where kv: "kv = (keys', v)" by fastforce
    note ih = mem(2,3) [OF Some [unfolded kv]]
    show ?thesis
    proof (cases "value_end b v (Suc d)")
      case None
      with Some kv ih(1) show ?thesis by (simp add: s m)
    next
      case ve: (Some ve)
      with Some kv ih(1) ih(2) [OF ve] show ?thesis by (auto simp: s m prefix_simps Let_def)
    qed
  qed
qed

section \<open>String tokens\<close>

lemma string_end_Nil [simp]: "string_end [] i = 0"
  by (subst string_end.simps) simp

lemma string_end_Cons:
  "string_end (x # b) 0 =
    (if x = 0x5C then (case b of [] \<Rightarrow> 1 | y # b2 \<Rightarrow> 2 + string_end b2 0)
     else if x = 0x22 then 1 else 1 + string_end b 0)"
proof -
  have "string_end (x # b) (0 + 1) = 1 + string_end b 0"
    using string_end_prefix [of "[x]" b 0] by simp
  moreover have "string_end (x # b) (0 + 2) = (case b of [] \<Rightarrow> 1 | y # b2 \<Rightarrow> 2 + string_end b2 0)"
  proof (cases b)
    case Nil
    then show ?thesis by (subst string_end.simps) simp
  next
    case (Cons y b2)
    with string_end_prefix [of "[x, y]" b2 0] show ?thesis by (simp add: numeral_2_eq_2)
  qed
  moreover have "string_end (x # b) 0 = (if x = 0x5C then string_end (x # b) (0 + 2)
      else if x = 0x22 then 1 else string_end (x # b) (0 + 1))"
    by (subst string_end.simps) simp
  ultimately show ?thesis by (simp only:)
qed

lemma string_end_plain:
  "list_all (\<lambda>b. b \<noteq> 0x5C \<and> b \<noteq> 0x22) xs \<Longrightarrow> string_end (xs @ rest) 0 = length xs + string_end rest 0"
  by (induction xs) (auto simp: string_end_Cons)

lemma encode_char_plain:
  assumes "scalar_value c" and "c \<noteq> 0x5C" and "c \<noteq> 0x22"
  shows "list_all (\<lambda>b. b \<noteq> 0x5C \<and> b \<noteq> 0x22) (encode_char c)"
proof (cases "c < 0x80")
  case True
  then have "unat (of_nat c :: u8) = c" by (simp add: unat_of_nat_byte)
  with assms True show ?thesis by (auto simp: encode_char_ascii)
next
  case False
  have "b \<noteq> 0x5C \<and> b \<noteq> 0x22" if "b \<in> set (encode_char c)" for b
    using encode_char_high [OF assms(1) _ that] False by auto
  then show ?thesis by (simp add: list_all_iff)
qed

lemma take_hex4_plain:
  "take_hex4 cs = Some v \<Longrightarrow> list_all (\<lambda>b. b \<noteq> 0x5C \<and> b \<noteq> 0x22) (as_bytes (take 4 cs))"
  by (auto simp: take_hex4_def Let_def is_hexdigit_def list_all_iff split: if_splits)

lemma as_bytes_split: "as_bytes cs = as_bytes (take n cs) @ as_bytes (drop n cs)"
  by (metis append_take_drop_id as_bytes_simps(3))

lemma valid_text_simps [simp]: "valid_text []" "valid_text (c # cs) \<longleftrightarrow> scalar_value c \<and> valid_text cs"
  "valid_text (cs @ ds) \<longleftrightarrow> valid_text cs \<and> valid_text ds"
  by (simp_all add: valid_text_def)

lemma valid_text_drop: "valid_text cs \<Longrightarrow> valid_text (drop n cs)"
  by (auto simp: valid_text_def list_all_iff dest: in_set_dropD)

text \<open>What an accepted escape sequence looks like: an ASCII character, then hexadecimal digits.\<close>

lemma string_end_hex4:
  assumes "take_hex4 cs = Some v"
  shows "string_end (as_bytes (take 4 cs) @ rest) 0 = length (as_bytes (take 4 cs)) + string_end rest 0"
  using string_end_plain [OF take_hex4_plain [OF assms]] .

lemma unescape_sequence:
  assumes "unescape (0x5C # cs) out = Some s" and "valid_text cs"
  obtains e xs t out' where "cs = e # xs @ t" and "e < 0x80"
    and "\<And>rest. string_end (as_bytes xs @ rest) 0 = length (as_bytes xs) + string_end rest 0"
    and "unescape t out' = Some s" and "valid_text t"
proof -
  obtain e cs1 where cs: "cs = e # cs1"
    using assms(1) by (cases cs) (simp_all add: unescape.simps(2))
  have v: "valid_text cs1" using assms(2) cs by simp
  note u = assms(1) [unfolded cs unescape.simps(2), simplified]
  show thesis
  proof (cases "e = 0x75")
    case False
    with u obtain out' where "unescape cs1 out' = Some s" "e < 0x80"
      by (auto split: if_splits)
    with that [of e "[]" cs1] cs v show thesis by simp
  next
    case True
    with u obtain cp where cp: "take_hex4 cs1 = Some cp" by (auto split: option.splits)
    let ?cs2 = "drop 4 cs1"
    have split4: "cs1 = take 4 cs1 @ ?cs2" by simp
    show thesis
    proof (cases "0xD800 \<le> cp \<and> cp < 0xDC00")
      case False
      with u True cp obtain ch where "unescape ?cs2 (out @ [ch]) = Some s"
        by (auto simp: Let_def split: option.splits)
      with that [of e "take 4 cs1" ?cs2] cs True string_end_hex4 [OF cp] valid_text_drop [OF v] show thesis
        by simp
    next
      case surrogate: True
      with u True cp obtain lo ch where lo: "take_hex4 (drop 2 ?cs2) = Some lo" "2 \<le> length ?cs2"
        "?cs2 ! 0 = 0x5C" "?cs2 ! 1 = 0x75" "unescape (drop 6 ?cs2) (out @ [ch]) = Some s"
        by (auto simp: Let_def split: option.splits if_splits)
      have cs2: "?cs2 = 0x5C # 0x75 # drop 2 ?cs2"
        using lo(2,3,4) by (cases ?cs2; cases "tl ?cs2") auto
      have e: "encode_char 0x5C = [0x5C]" "encode_char 0x75 = [0x75]" by (simp_all add: encode_char_def)
      let ?xs = "take 4 cs1 @ 0x5C # 0x75 # take 4 (drop 2 ?cs2)"
      have "string_end (as_bytes ?xs @ rest) 0 = length (as_bytes ?xs) + string_end rest 0" for rest
        using string_end_hex4 [OF cp, of "0x5C # 0x75 # as_bytes (take 4 (drop 2 ?cs2)) @ rest"]
          string_end_hex4 [OF lo(1), of rest]
        by (simp add: e string_end_Cons)
      moreover have "cs1 = ?xs @ drop 6 ?cs2"
      proof -
        have "cs1 = take 4 cs1 @ 0x5C # 0x75 # drop 2 ?cs2" using split4 cs2 by metis
        also have "drop 2 ?cs2 = take 4 (drop 2 ?cs2) @ drop 6 ?cs2"
          using append_take_drop_id [of 4 "drop 2 ?cs2"] by simp
        finally show ?thesis by simp
      qed
      ultimately show thesis
        using that [of e ?xs "drop 6 ?cs2"] cs True lo(5) valid_text_drop [OF v, of 10] by simp
    qed
  qed
qed

lemma string_end_unescape:
  "\<lbrakk>unescape t out = Some s; valid_text t\<rbrakk> \<Longrightarrow> string_end (as_bytes t @ 0x22 # rest) 0 = length (as_bytes t) + 1"
proof (induction t arbitrary: out rule: length_induct)
  case (1 t)
  show ?case
  proof (cases t)
    case Nil
    then show ?thesis by (simp add: string_end_Cons)
  next
    case (Cons c cs)
    show ?thesis
    proof (cases "c = 0x5C")
      case False
      then have u: "unescape t out = (if c \<le> 0x1F \<or> c = 0x22 then None else unescape cs (out @ [c]))"
        by (simp add: Cons unescape.simps(2))
      with "1.prems"(1) have "c \<noteq> 0x22" "unescape cs (out @ [c]) = Some s" by (auto split: if_splits)
      with 1 Cons False encode_char_plain [of c] show ?thesis by (auto simp: string_end_plain)
    next
      case True
      with "1.prems" Cons have u: "unescape (0x5C # cs) out = Some s" "valid_text cs" by simp_all
      obtain e xs t' out' where cs: "cs = e # xs @ t'" and e: "e < 0x80"
        and xs: "\<And>rest. string_end (as_bytes xs @ rest) 0 = length (as_bytes xs) + string_end rest 0"
        and t': "unescape t' out' = Some s" "valid_text t'"
        using unescape_sequence [OF u] by metis
      have "string_end (as_bytes t' @ 0x22 # rest) 0 = length (as_bytes t') + 1"
        using cs Cons by (intro 1(1) [rule_format, OF _ t']) simp
      with xs [of "as_bytes t' @ 0x22 # rest"] show ?thesis
        by (simp add: Cons True cs string_end_Cons encode_char_ascii e)
    qed
  qed
qed

text \<open>A token that decodes is exactly what \<open>skip_string\<close> steps over.\<close>

lemma decode_string_token:
  assumes "decode_json_string w = Some s"
  shows "w \<noteq> []" and "hd w = 0x22" and "skip_string (w @ rest) 0 = length w"
proof -
  let ?m = "slice_of 1 (length w - 1) w"
  have w: "\<not> length w < 2" "w ! 0 = 0x22" "w ! (length w - 1) = 0x22"
    using assms by (auto simp: decode_json_string_def split: if_splits)
  have split: "w = 0x22 # ?m @ [0x22]"
  proof -
    have ne: "w \<noteq> []" using w(1) by auto
    have "w = butlast w @ [last w]" using ne by simp
    then have "w = take (length w - 1) w @ [last w]" by (simp only: butlast_conv_take)
    moreover have "last w = 0x22" using w(3) ne by (simp add: last_conv_nth)
    moreover have "take (length w - 1) w = w ! 0 # ?m"
      using w by (cases w) (auto simp: slice_of_def take_Cons')
    ultimately show ?thesis using w(2) by (metis append_Cons)
  qed
  obtain t where t: "from_utf8 ?m = Some t"
    using assms w by (auto simp: decode_json_string_def split: if_splits option.splits)
  then have m: "?m = as_bytes t" "valid_text t" by (auto simp: from_utf8_eq_Some)
  have e: "string_end (as_bytes t @ 0x22 # rest) 0 = length (as_bytes t) + 1"
  proof (cases "0x5C \<in> set t")
    case True
    with assms w t have "unescape t [] = Some s"
      by (auto simp: decode_json_string_def split: if_splits)
    from string_end_unescape [OF this m(2)] show ?thesis .
  next
    case False
    with assms w t have "\<not> list_ex (\<lambda>c. c \<le> 0x1F \<or> c = 0x22) t"
      by (auto simp: decode_json_string_def split: if_splits)
    with False m(2) have "list_all (\<lambda>b. b \<noteq> 0x5C \<and> b \<noteq> 0x22) (as_bytes t)"
      by (induction t) (auto dest: encode_char_plain)
    from string_end_plain [OF this] show ?thesis by (simp add: string_end_Cons)
  qed
  have "w @ rest = [0x22] @ (as_bytes t @ 0x22 # rest)" "length w = length (as_bytes t) + 2"
    using split m(1) by auto
  with e string_end_prefix [of "[0x22]" "as_bytes t @ 0x22 # rest" 0]
  show "skip_string (w @ rest) 0 = length w" by (simp add: skip_string_def)
  show "w \<noteq> []" "hd w = 0x22" using split by (metis list.distinct(1), metis list.sel(1))
qed

section \<open>Nothing depends on the bytes after\<close>

definition agree :: "nat \<Rightarrow> bytes \<Rightarrow> bytes \<Rightarrow> bool" where
  "agree e b b' \<longleftrightarrow> e \<le> length b \<and> e \<le> length b' \<and> take e b' = take e b"

lemma agree_nth: "\<lbrakk>agree e b b'; i < e\<rbrakk> \<Longrightarrow> b' ! i = b ! i"
  by (metis agree_def nth_take)

lemma agree_get_opt: "\<lbrakk>agree e b b'; i < e\<rbrakk> \<Longrightarrow> get_opt b' i = get_opt b i"
  using agree_nth [of e b b' i] by (auto simp: get_opt_def agree_def)

lemma agree_mono: "\<lbrakk>agree e b b'; n \<le> e\<rbrakk> \<Longrightarrow> agree n b b'"
  by (auto simp: agree_def) (metis min.absorb1 take_take)

lemma agree_slice: "\<lbrakk>agree e b b'; n \<le> e\<rbrakk> \<Longrightarrow> slice_of i n b' = slice_of i n b"
  using agree_mono [of e b b' n] by (simp add: slice_of_def agree_def)

lemma agree_split: "agree e b b' \<Longrightarrow> i \<le> e \<Longrightarrow> b' = take i b @ slice_of i e b @ drop e b'"
proof -
  assume a: "agree e b b'" "i \<le> e"
  then have "b' = take e b @ drop e b'" by (metis agree_def append_take_drop_id)
  also have "take e b = take i b @ slice_of i e b"
    using a by (metis append_take_drop_id min.absorb1 slice_of_def take_take)
  finally show ?thesis by simp
qed

lemma agree_skip_ws: "\<lbrakk>agree e b b'; skip_ws b i < e\<rbrakk> \<Longrightarrow> skip_ws b' i = skip_ws b i"
proof (induction b i rule: skip_ws.induct)
  case (1 b i)
  have i: "i < e" using skip_ws_ge [of i b] "1.prems"(2) by simp
  then have c: "i < length b" "i < length b'" "b' ! i = b ! i"
    using "1.prems"(1) agree_nth by (auto simp: agree_def)
  show ?case
    using 1 c by (cases "is_ws (b ! i)") (simp_all add: skip_ws.simps [of b i] skip_ws.simps [of b' i])
qed

lemma agree_skip_string:
  assumes "agree e b b'" and "e = skip_string b i" and "i < length b"
    and "decode_json_string (slice_of i e b) = Some s"
  shows "skip_string b' i = e"
proof -
  let ?w = "slice_of i e b"
  have "i + 1 \<le> e" using assms(2,3) string_end_bounds [of b "i + 1"] by (auto simp: skip_string_def)
  then have b': "b' = take i b @ ?w @ drop e b'" and l: "length (take i b) = i" "length ?w = e - i"
    using agree_split [OF assms(1), of i] assms(1,3) by (auto simp: agree_def slice_of_def)
  from decode_string_token(3) [OF assms(4)] have "string_end (?w @ drop e b') 1 = e - i"
    using l by (simp add: skip_string_def)
  with string_end_prefix [of "take i b" "?w @ drop e b'" 1] l b' \<open>i + 1 \<le> e\<close> show ?thesis
    by (simp add: skip_string_def)
qed

definition ends_at :: "bytes \<Rightarrow> nat \<Rightarrow> bool" where
  "ends_at b e \<longleftrightarrow> length b \<le> e \<or> is_delim (b ! e)"

lemma scalar_end_ends_at: "scalar_end b i = Some e \<Longrightarrow> ends_at b e"
  using nth_length_takeWhile [of "\<lambda>c. \<not> is_delim c" "drop i b"]
  by (cases "i \<le> length b") (fastforce simp: scalar_end_def ends_at_def Let_def split: if_splits)+

lemma agree_scalar_end:
  assumes "scalar_end b i = Some e" and "agree e b b'" and "ends_at b' e"
  shows "scalar_end b' i = Some e"
proof -
  let ?P = "\<lambda>c. \<not> is_delim c"
  let ?t = "takeWhile ?P (drop i b)"
  have t: "is_scalar_token ?t" "e = i + length ?t"
    using assms(1) by (auto simp: scalar_end_def Let_def split: if_splits)
  have ie: "i < e" "e \<le> length b" using scalar_end_bounds [OF assms(1)] by auto
  have "slice_of i e b = ?t"
    using t(2) takeWhile_eq_take [of ?P "drop i b"] by (simp only: slice_of_def drop_take diff_add_inverse)
  with agree_split [OF assms(2), of i] ie have "b' = take i b @ ?t @ drop e b'" "length (take i b) = i"
    by auto
  then have d: "drop i b' = ?t @ drop e b'" by (metis append_eq_conv_conj)
  have "takeWhile ?P (drop e b') = []"
    using assms(3) nth_via_drop [of e b'] by (cases "drop e b'") (auto simp: ends_at_def)
  moreover have "takeWhile ?P (?t @ drop e b') = ?t @ takeWhile ?P (drop e b')"
    by (rule takeWhile_append2) (auto dest: set_takeWhileD)
  ultimately have "takeWhile ?P (drop i b') = ?t" unfolding d by simp
  with t show ?thesis by (simp add: scalar_end_def Let_def)
qed

text \<open>
  The bytes of a value, followed by anything (a number or literal: by a delimiter or the end),
  are scanned the same.
\<close>

definition bracketed :: "u8 \<Rightarrow> bool" where
  "bracketed c \<longleftrightarrow> c \<in> {0x22, 0x7B, 0x5B}"

lemma member_start_agree:
  assumes m: "member_start b opn keys j (value_end b j (Suc d)) = Some (keys', v)"
    and a: "agree e b b'" and v: "v < e"
    and ve: "\<And>ke. \<lbrakk>opn = 0x7B; get_opt b j = Some 0x22; value_end b j (Suc d) = Some ke; ke \<le> e\<rbrakk> \<Longrightarrow>
      value_end b' j (Suc d) = Some ke"
  shows "member_start b' opn keys j (value_end b' j (Suc d)) = Some (keys', v)"
proof (cases "opn = 0x7B")
  case True
  with m obtain ke key where k: "get_opt b j = Some 0x22" "value_end b j (Suc d) = Some ke"
    "decode_json_string (slice_of j ke b) = Some key" "key \<notin> set keys"
    "get_opt b (skip_ws b ke) = Some 0x3A" "keys' = key # keys" "v = skip_ws b (skip_ws b ke + 1)"
    by (auto simp: member_start_def Let_def split: if_splits option.splits)
  have le: "skip_ws b ke < e" "ke \<le> e" "j < e"
    using k(7) v skip_ws_ge [of "skip_ws b ke + 1" b] skip_ws_ge [of ke b] value_end_bounds [OF k(2)] by auto
  then have "skip_ws b' ke = skip_ws b ke" "skip_ws b' (skip_ws b ke + 1) = v"
    using agree_skip_ws [OF a] k(7) v by auto
  with True k le ve agree_get_opt [OF a] agree_slice [OF a le(2)] show ?thesis
    by (simp add: member_start_def)
qed (use m in \<open>simp add: member_start_def\<close>)

lemma value_end_agree:
    "\<lbrakk>value_end b i d = Some e; agree e b b';
      ends_at b' e \<or> bracketed (b ! i) \<or> (e < length b \<and> e < length b' \<and> b' ! e = b ! e)\<rbrakk> \<Longrightarrow>
      value_end b' i d = Some e"
  and members_end_agree: "\<lbrakk>members_end b opn keys j d = Some e; agree e b b'\<rbrakk> \<Longrightarrow>
      members_end b' opn keys j d = Some e"
proof (induction b i d and b opn keys j d arbitrary: e and e rule: scan_induct)
  case (val b i d)
  have d: "\<not> d > 32" and i: "i < e" "e \<le> length b"
    using val.prems(1) value_end_bounds [OF val.prems(1)] by (auto simp: value_end.simps [of b i d] split: if_splits)
  then have g: "get_opt b i = Some (b ! i)" by (simp add: get_opt_eq_Some)
  then have g': "get_opt b' i = Some (b ! i)" using agree_get_opt [OF val.prems(2) i(1)] by simp
  note s = value_end.simps [of b i d] value_end.simps [of b' i d]
  show ?case
  proof (cases "b ! i = 0x22")
    case True
    with val.prems(1) d g have e: "e = skip_string b i" and "decode_json_string (slice_of i e b) \<noteq> None"
      by (auto simp: s Let_def split: option.splits)
    then obtain t where t: "decode_json_string (slice_of i e b) = Some t" by auto
    with agree_skip_string [OF val.prems(2) e _ t] agree_slice [OF val.prems(2), of e] True d g' i
    show ?thesis by (simp add: s Let_def)
  next
    case ns: False
    show ?thesis
    proof (cases "b ! i = 0x7B \<or> b ! i = 0x5B")
      case True
      let ?j = "skip_ws b (Suc i)"
      show ?thesis
      proof (cases "get_opt b ?j = Some (closing (b ! i))")
        case cl: True
        with True ns val.prems(1) d g have e: "e = ?j + 1" by (auto simp: s Let_def)
        then have "skip_ws b' (Suc i) = ?j" "get_opt b' ?j = Some (closing (b ! i))"
          using agree_skip_ws [OF val.prems(2)] agree_get_opt [OF val.prems(2)] cl by auto
        with True ns d g' e show ?thesis by (auto simp: s Let_def)
      next
        case ncl: False
        with True ns val.prems(1) d g have m: "members_end b (b ! i) [] ?j d = Some e" by (auto simp: s Let_def)
        then have j: "?j < e" using members_end_bounds by blast
        from val.IH [OF d g True ncl m val.prems(2)] have "members_end b' (b ! i) [] ?j d = Some e" .
        moreover have "skip_ws b' (Suc i) = ?j" "get_opt b' ?j = get_opt b ?j"
          using agree_skip_ws [OF val.prems(2)] agree_get_opt [OF val.prems(2)] j by auto
        ultimately show ?thesis using True ns d g' ncl by (auto simp: s Let_def)
      qed
    next
      case False
      with ns val.prems(1) d g have sc: "scalar_end b i = Some e" by (auto simp: s)
      have "ends_at b' e"
        using val.prems(3) scalar_end_ends_at [OF sc] False ns by (auto simp: bracketed_def ends_at_def)
      from agree_scalar_end [OF sc val.prems(2) this] False ns d g' show ?thesis by (auto simp: s)
    qed
  qed
next
  case (mem b opn keys j d)
  note s = members_end_eq [of b opn keys j d] members_end_eq [of b' opn keys j d]
  obtain keys' v where m: "member_start b opn keys j (value_end b j (Suc d)) = Some (keys', v)"
    using mem.prems(1) by (auto simp: s split: option.splits)
  obtain ve where ve: "value_end b v (Suc d) = Some ve"
    using mem.prems(1) by (auto simp: s m split: option.splits)
  let ?e = "skip_ws b ve"
  have vb: "v < ve" "ve \<le> length b" using value_end_bounds [OF ve] by auto
  have e: "?e < e"
  proof (cases "get_opt b ?e = Some (closing opn)")
    case True
    with mem.prems(1) m ve show ?thesis by (simp add: s)
  next
    case False
    with mem.prems(1) m ve have "members_end b opn keys' (skip_ws b (Suc ?e)) d = Some e"
      by (auto simp: s Let_def split: if_splits)
    from members_end_bounds [OF this] skip_ws_ge [of "Suc ?e" b] show ?thesis by simp
  qed
  then have le: "ve < e" using skip_ws_ge [of ve b] by simp
  have ee: "e \<le> length b" "e \<le> length b'" using mem.prems(2) by (auto simp: agree_def)
  have v': "value_end b' v (Suc d) = Some ve"
    using mem.IH(2) [OF m ve agree_mono [OF mem.prems(2)]] le ee agree_nth [OF mem.prems(2) le] by auto
  have m': "member_start b' opn keys j (value_end b' j (Suc d)) = Some (keys', v)"
  proof (rule member_start_agree [OF m mem.prems(2)])
    show "v < e" using le vb by simp
    fix ke assume k: "opn = 0x7B" "get_opt b j = Some 0x22" "value_end b j (Suc d) = Some ke" "ke \<le> e"
    then have "bracketed (b ! j)" by (auto simp: bracketed_def get_opt_eq_Some)
    with mem.IH(1) [OF k(1,2,3) agree_mono [OF mem.prems(2) k(4)]] show "value_end b' j (Suc d) = Some ke" by simp
  qed
  have sk: "skip_ws b' ve = ?e" "get_opt b' ?e = get_opt b ?e"
    using agree_skip_ws [OF mem.prems(2) e] agree_get_opt [OF mem.prems(2) e] by auto
  show ?case
  proof (cases "get_opt b ?e = Some (closing opn)")
    case True
    with v' m' sk mem.prems(1) m ve show ?thesis
      by (simp add: s)
  next
    case False
    with mem.prems(1) m ve have r: "members_end b opn keys' (skip_ws b (Suc ?e)) d = Some e"
      "get_opt b ?e = Some 0x2C"
      by (auto simp: s Let_def split: if_splits)
    have "skip_ws b' (Suc ?e) = skip_ws b (Suc ?e)"
      using agree_skip_ws [OF mem.prems(2)] members_end_bounds [OF r(1)] by blast
    with mem.IH(3) [OF m ve False r(2) r(1) mem.prems(2)] False r(2) v' m' sk show ?thesis
      by (simp add: s)
  qed
qed

end
