(* ===== verification/JsonText.thy ===== *)
theory JsonText
  imports JsonLocal
begin

text \<open>
  Writing JSON text and reading it back: \<open>write_json_string\<close> of \<open>json.rs\<close> and the objects that
  the agent assembles from already encoded values.
\<close>

section \<open>Writing a string\<close>

definition hex_digit :: "u8 \<Rightarrow> u8" where
  "hex_digit n = (if n < 10 then 0x30 + n else 0x61 + n - 10)"

text \<open>The escapes of one byte: \<open>n\<close>, \<open>r\<close>, \<open>t\<close>, \<open>u00\<close> are 0x6E, 0x72, 0x74, 0x75 0x30 0x30.\<close>

definition escape_byte :: "u8 \<Rightarrow> bytes" where
  "escape_byte b =
    (if b = 0x22 then [0x5C, 0x22]
     else if b = 0x5C then [0x5C, 0x5C]
     else if b = 0x0A then [0x5C, 0x6E]
     else if b = 0x0D then [0x5C, 0x72]
     else if b = 0x09 then [0x5C, 0x74]
     else if b \<le> 0x1F then [0x5C, 0x75, 0x30, 0x30, hex_digit (drop_bit 4 b), hex_digit (b AND 0x0F)]
     else [b])"

definition write_json_string :: "bytes \<Rightarrow> ustring \<Rightarrow> bytes" where
  "write_json_string out s = out @ [0x22] @ concat (map escape_byte (as_bytes s)) @ [0x22]"

text \<open>The token alone.\<close>

abbreviation json_string :: "ustring \<Rightarrow> bytes" where
  "json_string s \<equiv> write_json_string [] s"

text \<open>The characters an escaped character consists of.\<close>

definition escape_char :: "nat \<Rightarrow> ustring" where
  "escape_char c = (if c < 0x80 then map unat (escape_byte (of_nat c)) else [c])"

lemma escape_ascii:
  assumes "c < 0x80"
  shows "as_bytes (escape_char c) = escape_byte (of_nat c)" and "valid_text (escape_char c)"
    and "c \<le> 0x1F \<or> c = 0x22 \<or> c = 0x5C \<Longrightarrow> 0x5C \<in> set (escape_char c)"
    and "\<not> (c \<le> 0x1F \<or> c = 0x22 \<or> c = 0x5C) \<Longrightarrow> escape_char c = [c]"
proof -
  have hex: "unat (hex_digit (n AND 0x0F)) < 0x80" "unat (hex_digit (drop_bit 4 n)) < 0x80" for n
  proof -
    have "n AND 0x0F \<le> 0x0F" by (rule word_and_le1)
    moreover have "unat n < 256" using unsigned_less [of n] by simp
    then have "drop_bit 4 n \<le> 0x0F"
      by (simp add: word_le_nat_alt unat_drop_bit_eq) (simp add: drop_bit_eq_div)
    ultimately have "unat (n AND 0x0F) \<le> 15" "unat (drop_bit 4 n) \<le> 15" by (simp_all add: word_le_nat_alt)
    then show "unat (hex_digit (n AND 0x0F)) < 0x80" "unat (hex_digit (drop_bit 4 n)) < 0x80"
      by (auto simp: hex_digit_def word_less_nat_alt word_le_nat_alt unat_word_ariths)
  qed
  have u: "unat (of_nat c :: u8) = c" using assms by (simp add: unat_of_nat_byte)
  have small: "unat x < 0x80" if "x \<in> set (escape_byte (of_nat c))" for x
    using that assms u hex by (auto simp: escape_byte_def split: if_splits)
  have "as_bytes (map unat xs) = xs \<and> valid_text (map unat xs)" if "set xs \<subseteq> set (escape_byte (of_nat c))" for xs
    using that
  proof (induction xs)
    case (Cons x xs)
    then have "unat x < 0x80" using small by simp
    with Cons show ?case by (simp add: encode_char_ascii scalar_value_def)
  qed simp
  from this [OF subset_refl] assms
  show "as_bytes (escape_char c) = escape_byte (of_nat c)" "valid_text (escape_char c)"
    by (simp_all add: escape_char_def)
  show "c \<le> 0x1F \<or> c = 0x22 \<or> c = 0x5C \<Longrightarrow> 0x5C \<in> set (escape_char c)"
    "\<not> (c \<le> 0x1F \<or> c = 0x22 \<or> c = 0x5C) \<Longrightarrow> escape_char c = [c]"
    using assms u by (auto simp: escape_char_def escape_byte_def word_le_nat_alt)
qed

lemma escape_high: "0x80 \<le> unat b \<Longrightarrow> escape_byte b = [b]"
  by (auto simp: escape_byte_def word_le_nat_alt)

lemma escape_encode_char:
  assumes "scalar_value c"
  shows "concat (map escape_byte (encode_char c)) = as_bytes (escape_char c)"
proof (cases "c < 0x80")
  case True
  then show ?thesis by (simp add: escape_ascii encode_char_ascii)
next
  case False
  then have "map escape_byte (encode_char c) = map (\<lambda>b. [b]) (encode_char c)"
    using encode_char_high [OF assms] escape_high by (intro map_cong) auto
  then have "concat (map escape_byte (encode_char c)) = encode_char c" by (simp only: concat_map_singleton list.map_ident)
  with False show ?thesis by (simp add: escape_char_def)
qed

lemma escape_as_bytes:
  "valid_text s \<Longrightarrow> concat (map escape_byte (as_bytes s)) = as_bytes (concat (map escape_char s))"
  by (induction s) (simp_all add: escape_encode_char)

lemma valid_escaped: "valid_text s \<Longrightarrow> valid_text (concat (map escape_char s))"
proof (induction s)
  case (Cons c s)
  then show ?case by (cases "c < 0x80") (simp_all add: escape_ascii, simp add: escape_char_def)
qed simp

section \<open>Reading it back\<close>

lemma unescape_plain: "c \<noteq> 0x5C \<Longrightarrow> \<not> c \<le> 0x1F \<Longrightarrow> c \<noteq> 0x22 \<Longrightarrow> unescape (c # cs) out = unescape cs (out @ [c])"
  by (simp add: unescape.simps(2))

definition control_escape :: "nat \<Rightarrow> ustring" where
  "control_escape c = [0x30, 0x30, unat (hex_digit (drop_bit 4 (of_nat c))), unat (hex_digit (of_nat c AND 0x0F))]"

definition control_list :: "nat list" where
  "control_list = [0..<9] @ [0x0B, 0x0C] @ [0x0E..<0x20]"

lemma control_escapes:
  assumes "c \<in> set control_list"
  shows "take_hex4 (control_escape c) = Some c" and "char_from_u32 c = Some c"
    and "escape_char c = 0x5C # 0x75 # control_escape c"
proof -
  have "list_all (\<lambda>c. take_hex4 (control_escape c) = Some c \<and> char_from_u32 c = Some c \<and>
      escape_char c = 0x5C # 0x75 # control_escape c) control_list"
    by code_simp
  with assms show "take_hex4 (control_escape c) = Some c" "char_from_u32 c = Some c"
    "escape_char c = 0x5C # 0x75 # control_escape c"
    by (simp_all only: list_all_iff)
qed

lemma unescape_escape_control:
  assumes "c \<le> 0x1F \<or> c = 0x22 \<or> c = 0x5C"
  shows "unescape (escape_char c @ cs) out = unescape cs (out @ [c])"
proof -
  have "list_all (\<lambda>c. c \<in> set control_list \<or> c \<in> {0x22, 0x5C, 0x0A, 0x0D, 0x09}) ([0..<0x20] @ [0x22, 0x5C])"
    by code_simp
  with assms have "c \<in> set control_list \<or> c \<in> {0x22, 0x5C, 0x0A, 0x0D, 0x09}"
    by (fastforce simp only: list_all_iff set_append set_upt atLeastLessThan_iff)
  then consider "c \<in> set control_list" | "c \<in> {0x22, 0x5C, 0x0A, 0x0D, 0x09}" by blast
  then show ?thesis
  proof cases
    case 1
    have "c < 0xD800" using 1 by (auto simp: control_list_def)
    moreover have "take_hex4 (control_escape c @ cs) = Some c" "drop 4 (control_escape c @ cs) = cs"
      using control_escapes(1) [OF 1] by (simp_all add: take_hex4_def control_escape_def)
    ultimately show ?thesis
      using control_escapes(2,3) [OF 1] by (simp add: unescape.simps(2))
  next
    case 2
    then show ?thesis
      by (auto simp: escape_char_def escape_byte_def unescape.simps(2))
  qed
qed

lemma unescape_escaped:
  "unescape (concat (map escape_char s)) out = Some (out @ s)"
proof (induction s arbitrary: out)
  case (Cons c s)
  show ?case
  proof (cases "c \<le> 0x1F \<or> c = 0x22 \<or> c = 0x5C")
    case True
    then show ?thesis by (simp add: unescape_escape_control Cons)
  next
    case False
    then have "escape_char c = [c]" using escape_ascii(4) by (cases "c < 0x80") (auto simp: escape_char_def)
    with False show ?thesis by (simp add: unescape_plain Cons)
  qed
qed simp

lemma no_backslash_escaped:
  assumes "0x5C \<notin> set (concat (map escape_char s))"
  shows "concat (map escape_char s) = s" and "\<not> list_ex (\<lambda>c. c \<le> 0x1F \<or> c = 0x22) s"
proof -
  have "escape_char c = [c] \<and> \<not> (c \<le> 0x1F \<or> c = 0x22)" if "c \<in> set s" for c
    using assms that escape_ascii(3,4) [of c] by (cases "c < 0x80") (auto simp: escape_char_def)
  then show "concat (map escape_char s) = s" "\<not> list_ex (\<lambda>c. c \<le> 0x1F \<or> c = 0x22) s"
    by (induction s) auto
qed

lemma decode_written:
  assumes "valid_text s"
  shows "decode_json_string (json_string s) = Some s"
proof -
  let ?t = "concat (map escape_char s)"
  have w: "json_string s = 0x22 # as_bytes ?t @ [0x22]"
    using assms by (simp add: write_json_string_def escape_as_bytes)
  have "slice_of 1 (length (json_string s) - 1) (json_string s) = as_bytes ?t"
    unfolding w by (simp add: slice_of_def)
  moreover have "from_utf8 (as_bytes ?t) = Some ?t"
    by (intro from_utf8_as_bytes valid_escaped assms)
  moreover have "\<not> length (json_string s) < 2" "json_string s ! 0 = 0x22"
    "json_string s ! (length (json_string s) - 1) = 0x22"
    unfolding w by (simp_all add: nth_append)
  ultimately show ?thesis
    using no_backslash_escaped [of s] unescape_escaped [of s "[]"]
    by (cases "0x5C \<in> set ?t") (simp_all add: decode_json_string_def)
qed

text \<open>Names without special characters are their own tokens.\<close>

definition plain_byte :: "u8 \<Rightarrow> bool" where
  "plain_byte b \<longleftrightarrow> 0x20 \<le> unat b \<and> unat b < 0x80 \<and> unat b \<noteq> 0x22 \<and> unat b \<noteq> 0x5C"

lemma plain_token:
  assumes "list_all plain_byte bs"
  shows "json_string (map unat bs) = [0x22] @ bs @ [0x22]"
    and "decode_json_string ([0x22] @ bs @ [0x22]) = Some (map unat bs)"
proof -
  have "as_bytes (map unat bs) = bs \<and> valid_text (map unat bs) \<and> concat (map escape_byte bs) = bs"
    using assms
    by (induction bs) (auto simp: plain_byte_def encode_char_ascii scalar_value_def escape_byte_def word_le_nat_alt)
  then show "json_string (map unat bs) = [0x22] @ bs @ [0x22]"
    "decode_json_string ([0x22] @ bs @ [0x22]) = Some (map unat bs)"
    using decode_written [of "map unat bs"] by (simp_all add: write_json_string_def)
qed

text \<open>
  What the agent writes as a JSON string is read back as the same text: for every text of
  Unicode scalar values, quotes, backslashes and control characters included, the token
  \<open>write_json_string\<close> appends to any buffer decodes to the text.
\<close>

theorem json_string_roundtrip:
  assumes "list_all scalar_value s"
  shows "\<exists>token. write_json_string out s = out @ token \<and> decode_json_string token = Some s"
  using decode_written [of s] assms by (auto simp: write_json_string_def valid_text_def)

lemma json_string_roundtrip_witness:
  "\<exists>token. write_json_string [0x5B] [0x61, 0x22, 0x0A, 0x1F600] = [0x5B] @ token \<and>
    decode_json_string token = Some [0x61, 0x22, 0x0A, 0x1F600]"
  by (rule json_string_roundtrip) (simp add: scalar_value_def)

section \<open>Complete values\<close>

text \<open>\<open>w\<close> is the text of one value, from its first to its last byte, nested at depth \<open>d\<close>.\<close>

definition json_value :: "nat \<Rightarrow> bytes \<Rightarrow> bool" where
  "json_value d w \<longleftrightarrow> value_end w 0 d = Some (length w)"

lemma value_end_depth: "\<lbrakk>value_end b i d = Some e; d' \<le> d\<rbrakk> \<Longrightarrow> value_end b i d' = Some e"
  and members_end_depth: "\<lbrakk>members_end b opn keys j d = Some e; d' \<le> d\<rbrakk> \<Longrightarrow> members_end b opn keys j d' = Some e"
proof (induction b i d and b opn keys j d arbitrary: e d' and e d' rule: scan_induct)
  case (val b i d)
  note s = value_end.simps [of b i d] value_end.simps [of b i d']
  have d: "\<not> d > 32" "\<not> d' > 32" and g: "get_opt b i = Some (b ! i)"
    using val.prems value_end_bounds [OF val.prems(1)] by (auto simp: s get_opt_eq_Some split: if_splits)
  show ?case
  proof (cases "b ! i \<noteq> 0x22 \<and> (b ! i = 0x7B \<or> b ! i = 0x5B) \<and> get_opt b (skip_ws b (Suc i)) \<noteq> Some (closing (b ! i))")
    case True
    with val.prems(1) d g have "members_end b (b ! i) [] (skip_ws b (Suc i)) d = Some e" by (simp add: s)
    with val.IH [OF d(1) g _ _ this val.prems(2)] True d g show ?thesis by (simp add: s)
  next
    case False
    with val.prems(1) d g show ?thesis by (auto simp: s Let_def)
  qed
next
  case (mem b opn keys j d)
  note s = members_end_eq [of b opn keys j d] members_end_eq [of b opn keys j d']
  obtain keys' v where m: "member_start b opn keys j (value_end b j (Suc d)) = Some (keys', v)"
    using mem.prems(1) by (auto simp: s split: option.splits)
  have m': "member_start b opn keys j (value_end b j (Suc d')) = Some (keys', v)"
  proof (cases "opn = 0x7B")
    case True
    with m obtain ke where k: "get_opt b j = Some 0x22" "value_end b j (Suc d) = Some ke"
      by (auto simp: member_start_def split: if_splits option.splits)
    with mem.IH(1) [OF True k(1,2)] mem.prems(2) m show ?thesis by simp
  qed (use m in \<open>simp add: member_start_def\<close>)
  obtain ve where ve: "value_end b v (Suc d) = Some ve"
    using mem.prems(1) by (auto simp: s m split: option.splits)
  from mem.IH(2) [OF m ve] mem.prems(2) have ve': "value_end b v (Suc d') = Some ve" by simp
  show ?case
  proof (cases "get_opt b (skip_ws b ve) = Some (closing opn)")
    case True
    with mem.prems(1) m m' ve ve' show ?thesis by (simp add: s)
  next
    case False
    with mem.prems(1) m ve have r: "get_opt b (skip_ws b ve) = Some 0x2C"
      "members_end b opn keys' (skip_ws b (Suc (skip_ws b ve))) d = Some e"
      by (auto simp: s Let_def split: if_splits)
    with mem.IH(3) [OF m ve False r mem.prems(2)] False m' ve' show ?thesis by (simp add: s)
  qed
qed

lemma json_value_not_Nil:
  assumes "json_value d w"
  shows "w \<noteq> []" and "\<not> is_ws (hd w)" and "d \<le> 32"
proof -
  from assms have v: "value_end w 0 d = Some (length w)" by (simp add: json_value_def)
  then show w: "w \<noteq> []" using value_end_bounds [OF v] by auto
  show "d \<le> 32" using v by (auto simp: value_end.simps [of w 0 d] split: if_splits)
  show "\<not> is_ws (hd w)"
  proof
    assume ws: "is_ws (hd w)"
    then have "hd w \<noteq> 0x22" "hd w \<noteq> 0x7B" "hd w \<noteq> 0x5B" "is_delim (hd w)" by (auto simp: is_ws_def is_delim_def)
    moreover have "get_opt w 0 = Some (hd w)" using w by (simp add: get_opt_def hd_conv_nth)
    ultimately have "scalar_end w 0 = Some (length w)" using v \<open>d \<le> 32\<close> by (simp add: value_end.simps [of w 0 d])
    moreover have "takeWhile (\<lambda>c. \<not> is_delim c) w = []" using \<open>is_delim (hd w)\<close> w by (cases w) auto
    ultimately show False using scalar_token_not_Nil [of "[]"] by (auto simp: scalar_end_def Let_def split: if_splits)
  qed
qed

text \<open>A complete value is scanned the same wherever it stands.\<close>

lemma json_value_in_context:
  assumes "json_value d w" and "rest = [] \<or> is_delim (hd rest) \<or> bracketed (hd w)" and "d' \<le> d"
  shows "value_end (pre @ w @ rest) (length pre) d' = Some (length pre + length w)"
proof -
  have "value_end (w @ rest) 0 d' = Some (length w)"
  proof (rule value_end_agree)
    show "value_end w 0 d' = Some (length w)"
      by (rule value_end_depth [OF assms(1) [unfolded json_value_def] assms(3)])
    show "agree (length w) w (w @ rest)" by (simp add: agree_def)
    show "ends_at (w @ rest) (length w) \<or> bracketed (w ! 0) \<or>
        length w < length w \<and> length w < length (w @ rest) \<and> (w @ rest) ! length w = w ! length w"
      using assms(2) json_value_not_Nil(1) [OF assms(1)]
      by (cases rest) (auto simp: ends_at_def hd_conv_nth nth_append)
  qed
  with value_end_prefix [of pre "w @ rest" 0 d'] show ?thesis by simp
qed

lemma json_value_slice:
  assumes "value_end b i d = Some e"
  shows "json_value d (slice_of i e b)" and "length (slice_of i e b) = e - i"
proof -
  have e: "i < e" "e \<le> length b" using value_end_bounds [OF assms] by auto
  have a: "agree e b (take e b)" using e by (simp add: agree_def)
  have "value_end (take e b) i d = Some e"
    by (rule value_end_agree [OF assms a]) (use e in \<open>simp add: ends_at_def\<close>)
  moreover have "take e b = take i b @ slice_of i e b" using agree_split [OF a, of i] e by simp
  ultimately have "value_end (take i b @ slice_of i e b) (length (take i b) + 0) d = Some e" using e by simp
  then have "map_option ((+) i) (value_end (slice_of i e b) 0 d) = Some e"
    unfolding value_end_prefix using e by simp
  then show "length (slice_of i e b) = e - i" "json_value d (slice_of i e b)"
    using e by (auto simp: json_value_def slice_of_def)
qed

text \<open>The value kinds the agent writes.\<close>

lemma json_value_token:
  assumes "decode_json_string w = Some s" and "d \<le> 32"
  shows "json_value d w"
proof -
  have "get_opt w 0 = Some 0x22" using decode_string_token(1,2) [OF assms(1)] by (simp add: get_opt_def hd_conv_nth)
  moreover have "skip_string w 0 = length w" using decode_string_token(3) [OF assms(1), of "[]"] by simp
  ultimately show ?thesis
    using assms by (simp add: json_value_def value_end.simps [of w 0 d] slice_of_def)
qed

lemma json_value_string: "\<lbrakk>valid_text s; d \<le> 32\<rbrakk> \<Longrightarrow> json_value d (json_string s)"
  by (rule json_value_token [OF decode_written])

lemma json_value_scalar:
  assumes "is_scalar_token w" and "list_all (\<lambda>c. \<not> is_delim c) w" and "d \<le> 32" and "\<not> bracketed (hd w)"
  shows "json_value d w"
proof -
  have "w \<noteq> []" using scalar_token_not_Nil [OF assms(1)] .
  then have "get_opt w 0 = Some (hd w)" by (simp add: get_opt_def hd_conv_nth)
  moreover have tw: "takeWhile (\<lambda>c. \<not> is_delim c) w = w" using assms(2) by (simp add: takeWhile_eq_all_conv list_all_iff)
  have "scalar_end w 0 = Some (length w)"
    unfolding scalar_end_def Let_def drop_0 tw using assms(1) by simp
  ultimately show ?thesis
    using assms by (auto simp: json_value_def value_end.simps [of w 0 d] bracketed_def)
qed

section \<open>Objects\<close>

text \<open>The compact text of an object: its members, each key token and value, separated by commas.\<close>

definition member_text :: "bytes \<times> bytes \<Rightarrow> bytes" where
  "member_text kv = fst kv @ [0x3A] @ snd kv"

fun members_text :: "(bytes \<times> bytes) list \<Rightarrow> bytes" where
  "members_text [] = []"
| "members_text [kv] = member_text kv"
| "members_text (kv # kvs) = member_text kv @ [0x2C] @ members_text kvs"

definition object_text :: "(bytes \<times> bytes) list \<Rightarrow> bytes" where
  "object_text kvs = [0x7B] @ members_text kvs @ [0x7D]"

text \<open>The names, and what makes such an object well formed at depth \<open>d\<close>.\<close>

definition key_of :: "bytes \<Rightarrow> ustring" where
  "key_of k = the (decode_json_string k)"

definition members_ok :: "nat \<Rightarrow> (bytes \<times> bytes) list \<Rightarrow> bool" where
  "members_ok d kvs \<longleftrightarrow> d < 32 \<and> distinct (map (key_of \<circ> fst) kvs) \<and>
    (\<forall>(k, v) \<in> set kvs. decode_json_string k \<noteq> None \<and> json_value (Suc d) v)"

lemma skip_ws_stop: "i < length b \<Longrightarrow> \<not> is_ws (b ! i) \<Longrightarrow> skip_ws b i = i"
  by (simp add: skip_ws.simps [of b i])

lemma skip_ws_hd: "b \<noteq> [] \<Longrightarrow> \<not> is_ws (hd b) \<Longrightarrow> skip_ws (pre @ b) (length pre) = length pre"
  by (rule skip_ws_stop) (simp_all add: nth_append hd_conv_nth)

lemma get_opt_after: "get_opt (pre @ c # b) (length pre) = Some c"
  by (simp add: get_opt_def)

declare get_opt_prefix [simp del]

text \<open>One member, wherever it stands, followed by a comma or the closing brace.\<close>

lemma member_scan:
  assumes "decode_json_string k = Some key" and "key \<notin> set keys" and "json_value (Suc d) v"
    and "c = 0x2C \<or> c = 0x7D"
    and b_def: "b = pre @ member_text (k, v) @ c # rest"
  shows "member_start b 0x7B keys (length pre) (Some (length pre + length k)) =
      Some (key # keys, Suc (length pre + length k))"
    and "value_end b (Suc (length pre + length k)) (Suc d) = Some (length pre + length (member_text (k, v)))"
    and "get_opt b (length pre) = Some 0x22"
    and "value_end b (length pre) (Suc d) = Some (length pre + length k)"
    and "slice_of (length pre) (length pre + length k) b = k"
    and "skip_ws b (length pre + length k) = length pre + length k"
    and "get_opt b (length pre + length k) = Some 0x3A"
    and "skip_ws b (Suc (length pre + length k)) = Suc (length pre + length k)"
    and "slice_of (Suc (length pre + length k)) (length pre + length (member_text (k, v))) b = v"
    and "skip_ws b (length pre + length (member_text (k, v))) = length pre + length (member_text (k, v))"
    and "get_opt b (length pre + length (member_text (k, v))) = Some c"
proof -
  note k = decode_string_token(1,2) [OF assms(1)] and vn = json_value_not_Nil [OF assms(3)]
  have b1: "b = pre @ k @ 0x3A # v @ c # rest" and b2: "b = (pre @ k @ [0x3A]) @ v @ c # rest"
    and b3: "b = (pre @ k) @ 0x3A # v @ c # rest" and b4: "b = (pre @ member_text (k, v)) @ c # rest"
    by (simp_all add: b_def member_text_def)
  show "get_opt b (length pre) = Some 0x22"
    using k by (cases k) (simp_all add: b1 get_opt_after)
  have dl: "is_delim c" "\<not> is_ws c" using assms(4) by (auto simp: is_delim_def is_ws_def)
  show ke: "value_end b (length pre) (Suc d) = Some (length pre + length k)"
    unfolding b1 by (rule json_value_in_context [OF json_value_token [OF assms(1), of "Suc d"]])
      (use k vn in \<open>auto simp: bracketed_def\<close>)
  show ks: "slice_of (length pre) (length pre + length k) b = k" by (simp add: b1 slice_of_def)
  show kw: "skip_ws b (length pre + length k) = length pre + length k"
    using skip_ws_hd [of "0x3A # v @ c # rest" "pre @ k"] by (simp add: b1 is_ws_def)
  show colon: "get_opt b (length pre + length k) = Some 0x3A"
    using get_opt_after [of "pre @ k"] by (simp add: b3)
  show vw: "skip_ws b (Suc (length pre + length k)) = Suc (length pre + length k)"
    using skip_ws_hd [of "v @ c # rest" "pre @ k @ [0x3A]"] vn by (simp add: b1)
  show "member_start b 0x7B keys (length pre) (Some (length pre + length k)) =
      Some (key # keys, Suc (length pre + length k))"
    using assms(1,2) \<open>get_opt b (length pre) = Some 0x22\<close> by (simp add: member_start_def ke ks kw colon vw)
  show "value_end b (Suc (length pre + length k)) (Suc d) = Some (length pre + length (member_text (k, v)))"
    using json_value_in_context [OF assms(3), of "c # rest" "Suc d" "pre @ k @ [0x3A]"] dl
    by (simp add: b2 member_text_def)
  show "slice_of (Suc (length pre + length k)) (length pre + length (member_text (k, v))) b = v"
    by (simp add: b1 slice_of_def member_text_def)
  show "skip_ws b (length pre + length (member_text (k, v))) = length pre + length (member_text (k, v))"
    using skip_ws_hd [of "c # rest" "pre @ member_text (k, v)"] dl by (simp add: b_def)
  show "get_opt b (length pre + length (member_text (k, v))) = Some c"
    using get_opt_after [of "pre @ member_text (k, v)" c rest] by (simp add: b_def)
qed

lemma members_scan:
  "\<lbrakk>kvs \<noteq> []; members_ok d kvs; set (map (key_of \<circ> fst) kvs) \<inter> set keys = {}\<rbrakk> \<Longrightarrow>
    members_end (pre @ members_text kvs @ 0x7D # rest) 0x7B keys (length pre) d =
      Some (length pre + length (members_text kvs) + 1)"
proof (induction kvs arbitrary: pre keys rule: members_text.induct)
  case (2 kv)
  obtain k v where kv: "kv = (k, v)" by fastforce
  with 2 obtain key where k: "decode_json_string k = Some key" "key \<notin> set keys" "json_value (Suc d) v"
    by (auto simp: members_ok_def key_of_def)
  note m = member_scan [OF k disjI2 [OF refl] refl, of pre rest]
  show ?case by (subst members_end_eq) (simp add: kv m closing_def)
next
  case (3 kv kv' kvs)
  obtain k v where kv: "kv = (k, v)" by fastforce
  with 3 obtain key where k: "decode_json_string k = Some key" "key \<notin> set keys" "json_value (Suc d) v"
    by (auto simp: members_ok_def key_of_def)
  let ?rest = "members_text (kv' # kvs) @ 0x7D # rest"
  let ?pre = "pre @ member_text kv @ [0x2C]"
  note m = member_scan [OF k disjI1 [OF refl] refl, of pre ?rest]
  have ok: "members_ok d (kv' # kvs)" "set (map (key_of \<circ> fst) (kv' # kvs)) \<inter> set (key # keys) = {}"
    using "3.prems"(2,3) k kv by (auto simp: members_ok_def key_of_def)
  have ih: "members_end (?pre @ ?rest) 0x7B (key # keys) (length ?pre) d =
      Some (length ?pre + length (members_text (kv' # kvs)) + 1)"
    by (rule "3.IH" [OF _ ok]) simp
  obtain k' v' where kv': "kv' = (k', v')" by fastforce
  then have "members_text (kv' # kvs) \<noteq> [] \<and> hd (members_text (kv' # kvs)) = 0x22"
    using "3.prems"(2) decode_string_token(1,2) [of k'] by (cases kvs) (auto simp: members_ok_def member_text_def)
  then have "skip_ws (?pre @ ?rest) (length ?pre) = length ?pre"
    by (intro skip_ws_hd) (auto simp: is_ws_def)
  with ih show ?case by (subst members_end_eq) (simp add: kv m closing_def)
qed simp

lemma object_end:
  assumes "members_ok d kvs"
  shows "json_value d (object_text kvs)"
proof -
  have "value_end (object_text kvs @ rest) 0 d = Some (length (object_text kvs))" for rest
  proof (cases "kvs = []")
    case True
    with assms show ?thesis
      by (simp add: object_text_def value_end.simps [of "0x7B # 0x7D # rest" 0 d] get_opt_def skip_ws_stop
          is_ws_def members_ok_def closing_def)
  next
    case False
    have "members_end ([0x7B] @ members_text kvs @ 0x7D # rest) 0x7B [] (length [0x7B :: u8]) d =
        Some (length [0x7B :: u8] + length (members_text kvs) + 1)"
      by (rule members_scan [OF False assms]) simp
    moreover have "members_text kvs \<noteq> [] \<and> hd (members_text kvs) = 0x22"
      using False assms decode_string_token(1,2)
      by (cases kvs rule: members_text.cases) (fastforce simp: members_ok_def member_text_def)+
    moreover from this have "skip_ws ([0x7B] @ members_text kvs @ 0x7D # rest) 1 = 1"
      by (intro skip_ws_stop) (auto simp: is_ws_def nth_append hd_conv_nth)
    moreover have "get_opt ([0x7B] @ members_text kvs @ 0x7D # rest) 1 = Some 0x22"
      using calculation(2) by (auto simp: get_opt_def nth_append hd_conv_nth)
    moreover have "get_opt (0x7B # members_text kvs @ 0x7D # rest) 0 = Some 0x7B"
      by (simp add: get_opt_def)
    ultimately show ?thesis using assms
      by (simp add: object_text_def value_end.simps [of "0x7B # members_text kvs @ 0x7D # rest" 0 d]
          members_ok_def closing_def)
  qed
  from this [of "[]"] show ?thesis by (simp add: json_value_def)
qed

definition lookup_member :: "(bytes \<times> bytes) list \<Rightarrow> ustring \<Rightarrow> bytes option" where
  "lookup_member kvs = map_of (map (\<lambda>(k, v). (key_of k, v)) kvs)"

lemma lookup_member_simps [simp]: "lookup_member [] key = None"
  "lookup_member ((k, v) # kvs) key = (if key = key_of k then Some v else lookup_member kvs key)"
  by (simp_all add: lookup_member_def)

lemma lookup_member_None: "lookup_member kvs key = None \<longleftrightarrow> key \<notin> set (map (key_of \<circ> fst) kvs)"
  by (force simp: lookup_member_def map_of_eq_None_iff)

lemma fields_scan:
  "\<lbrakk>members_ok 0 kvs; found = None \<or> lookup_member kvs key = None\<rbrakk> \<Longrightarrow>
    field_loop (pre @ members_text kvs @ 0x7D # rest) key (length pre) found =
      (case lookup_member kvs key of None \<Rightarrow> found | Some v \<Rightarrow> Some v)"
proof (induction kvs arbitrary: pre found rule: members_text.induct)
  case 1
  then show ?case by (simp add: field_loop.simps [of "pre @ 0x7D # rest" key] get_opt_after)
next
  case (2 kv)
  obtain k v where kv: "kv = (k, v)" by fastforce
  with 2 obtain name where k: "decode_json_string k = Some name" "name \<notin> set []" "json_value (Suc 0) v"
    by (auto simp: members_ok_def)
  note m = member_scan [OF k disjI2 [OF refl] refl, of pre rest]
  let ?b = "pre @ member_text (k, v) @ 0x7D # rest"
  have "field_loop ?b key (length pre + length (member_text (k, v))) f = f" for f
    by (subst field_loop.simps) (simp add: m(11))
  then show ?case using "2.prems"(2)
    by (subst field_loop.simps) (auto simp: kv m k(1) key_of_def split: if_splits)
next
  case (3 kv kv' kvs)
  obtain k v where kv: "kv = (k, v)" by fastforce
  with 3 obtain name where k: "decode_json_string k = Some name" "name \<notin> set []" "json_value (Suc 0) v"
    by (auto simp: members_ok_def)
  let ?rest = "members_text (kv' # kvs) @ 0x7D # rest"
  let ?pre = "pre @ member_text kv @ [0x2C]"
  let ?b = "pre @ member_text (k, v) @ 0x2C # ?rest"
  note m = member_scan [OF k disjI1 [OF refl] refl, of pre ?rest]
  have ok: "members_ok 0 (kv' # kvs)" using "3.prems"(1) kv by (auto simp: members_ok_def)
  have fresh: "name = key \<Longrightarrow> lookup_member (kv' # kvs) key = None"
    using "3.prems"(1) kv k(1) unfolding lookup_member_None by (auto simp: members_ok_def key_of_def)
  obtain k' v' where kv': "kv' = (k', v')" by fastforce
  then have "members_text (kv' # kvs) \<noteq> [] \<and> hd (members_text (kv' # kvs)) = 0x22"
    using ok decode_string_token(1,2) [of k'] by (cases kvs) (auto simp: members_ok_def member_text_def)
  then have "skip_ws (?pre @ ?rest) (length ?pre) = length ?pre"
    by (intro skip_ws_hd) (auto simp: is_ws_def)
  then have sw: "skip_ws ?b (Suc (length pre + length (member_text (k, v)))) =
      Suc (length pre + length (member_text (k, v)))"
    by (simp add: kv)
  have ih: "field_loop ?b key (Suc (length pre + length (member_text (k, v)))) f =
      (case lookup_member (kv' # kvs) key of None \<Rightarrow> f | Some v \<Rightarrow> Some v)"
    if "f = None \<or> lookup_member (kv' # kvs) key = None" for f
    using "3.IH" [OF ok that, where pre = ?pre] by (simp add: kv)
  have "field_loop ?b key (length pre) found =
      (if name = key \<and> found \<noteq> None then None
       else field_loop ?b key (Suc (length pre + length (member_text (k, v)))) (if name = key then Some v else found))"
    by (subst field_loop.simps, cases found) (simp_all add: m k(1) sw)
  also have "\<dots> = (case lookup_member (kv # kv' # kvs) key of None \<Rightarrow> found | Some v \<Rightarrow> Some v)"
  proof (cases "name = key")
    case True
    with fresh have n: "lookup_member (kv' # kvs) key = None" by simp
    have "key_of k = key" using True k(1) by (simp add: key_of_def)
    with True n ih [of "Some v"] "3.prems"(2) show ?thesis by (cases found) (simp_all add: kv)
  next
    case False
    then have "key_of k \<noteq> key" using k(1) by (simp add: key_of_def)
    with False ih [of found] "3.prems"(2) show ?thesis by (simp add: kv)
  qed
  finally show ?case by (simp add: kv)
qed

lemma object_field_text:
  assumes "members_ok 0 kvs"
  shows "is_valid_object (object_text kvs)" and "object_field (object_text kvs) key = lookup_member kvs key"
proof -
  let ?b = "object_text kvs"
  have start: "skip_ws ?b 0 = 0" "get_opt ?b 0 = Some 0x7B"
    by (simp_all add: object_text_def skip_ws_stop is_ws_def get_opt_def)
  have e: "value_end ?b 0 0 = Some (length ?b)" using object_end [OF assms] by (simp add: json_value_def)
  have last: "skip_ws ?b (length ?b) = length ?b" by (simp add: skip_ws.simps [of ?b "length ?b"])
  show "is_valid_object ?b" by (simp add: is_valid_object_def start e last)
  have "members_text kvs @ [0x7D] \<noteq> [] \<and> \<not> is_ws (hd (members_text kvs @ [0x7D]))"
    using assms decode_string_token(1,2)
    by (cases kvs rule: members_text.cases) (fastforce simp: members_ok_def member_text_def is_ws_def)+
  with skip_ws_hd [of "members_text kvs @ [0x7D]" "[0x7B]"] have "skip_ws ?b 1 = 1"
    by (simp add: object_text_def)
  with fields_scan [OF assms, of None key "[0x7B]" "[]"] start e last
  show "object_field ?b key = lookup_member kvs key"
    by (simp add: object_field_def object_text_def split: option.splits)
qed

text \<open>Conversely, whatever \<open>object_field\<close> returns is a complete value of a valid object.\<close>

lemma field_loop_value:
  "field_loop b key i found = Some v \<Longrightarrow> (\<forall>u. found = Some u \<longrightarrow> json_value 1 u) \<Longrightarrow> json_value 1 v"
proof (induction b key i found rule: field_loop.induct)
  case (1 b key i found)
  show ?case
  proof (cases "get_opt b i = Some 0x7D")
    case True
    with 1 show ?thesis by (simp add: field_loop.simps [of b key i])
  next
    case False
    with "1.prems"(1) obtain ke name ve where k: "value_end b i 1 = Some ke"
      "decode_json_string (slice_of i ke b) = Some name" "get_opt b (skip_ws b ke) = Some 0x3A"
      "value_end b (skip_ws b (skip_ws b ke + 1)) 1 = Some ve" "\<not> (name = key \<and> found \<noteq> None)"
      by (auto simp: field_loop.simps [of b key i] Let_def split: option.splits if_splits)
    let ?v = "skip_ws b (skip_ws b ke + 1)"
    let ?f = "if name = key then Some (slice_of ?v ve b) else found"
    let ?n = "if get_opt b (skip_ws b ve) = Some 0x2C then skip_ws b (skip_ws b ve + 1) else skip_ws b ve"
    have "field_loop b key ?n ?f = Some v"
      using "1.prems"(1) False k by (simp add: field_loop.simps [of b key i] Let_def split: if_splits)
    moreover have "\<forall>u. ?f = Some u \<longrightarrow> json_value 1 u"
      using "1.prems"(2) json_value_slice(1) [OF k(4)] by simp
    ultimately show ?thesis
      using "1.IH" [OF False k(1,2) refl _ refl k(4,5) refl refl refl] k(3) by simp
  qed
qed

text \<open>
  Lookup is sound on any bytes: when \<open>object_field\<close> returns a field of untrusted input, the
  input as a whole was a valid object (nesting at most 32, no duplicate key at any level, nothing
  after it) and what is returned is one complete JSON value.
\<close>

theorem object_field_sound:
  assumes "object_field b key = Some v"
  shows "is_valid_object b \<and> value_end v 0 1 = Some (length v) \<and> v \<noteq> []"
proof -
  have "json_value 1 v"
    using assms field_loop_value [of b key "skip_ws b (skip_ws b 0 + 1)" None v]
    by (simp add: object_field_def Let_def split: if_splits option.splits)
  with json_value_not_Nil(1) [OF this] assms show ?thesis
    by (auto simp: object_field_def is_valid_object_def json_value_def Let_def split: if_splits option.splits)
qed

lemma object_field_sound_witness:
  "is_valid_object (lit ''{ \"a\" : [1, 2] }'') \<and> object_field (lit ''{ \"a\" : [1, 2] }'') (ustr ''a'') = Some (lit ''[1, 2]'')"
proof -
  have f: "object_field (lit ''{ \"a\" : [1, 2] }'') (ustr ''a'') = Some (lit ''[1, 2]'')" by code_simp
  from object_field_sound [OF f] f show ?thesis by simp
qed

text \<open>
  C10: Lookup is complete on what the agent writes: in an object assembled from key tokens with
  distinct names and complete values, each field is found with exactly its value, and no other.
\<close>

theorem object_field_finds_members:
  assumes "list_all (\<lambda>(k, v). decode_json_string k \<noteq> None \<and> value_end v 0 1 = Some (length v)) kvs"
    and "distinct (map (\<lambda>(k, v). decode_json_string k) kvs)"
  shows "object_field (object_text kvs) key =
    map_of (map (\<lambda>(k, v). (the (decode_json_string k), v)) kvs) key"
proof -
  have "inj_on the (set (map (\<lambda>(k, v). decode_json_string k) kvs))"
  proof (rule inj_onI)
    have "x \<noteq> None" if "x \<in> set (map (\<lambda>(k, v). decode_json_string k) kvs)" for x
      using that assms(1) by (force simp: list_all_iff)
    then show "x = y" if "x \<in> set (map (\<lambda>(k, v). decode_json_string k) kvs)"
      "y \<in> set (map (\<lambda>(k, v). decode_json_string k) kvs)" "the x = the y" for x y
      using that option.expand by blast
  qed
  with assms(2) have "distinct (map the (map (\<lambda>(k, v). decode_json_string k) kvs))"
    by (simp only: distinct_map)
  then have "distinct (map (key_of \<circ> fst) kvs)" by (simp add: key_of_def comp_def case_prod_beta)
  with assms(1) have "members_ok 0 kvs" by (auto simp: members_ok_def json_value_def list_all_iff)
  from object_field_text(2) [OF this] show ?thesis by (simp add: lookup_member_def key_of_def)
qed

lemma object_field_finds_members_witness:
  "object_field (object_text [(lit ''\"id\"'', lit ''7''), (lit ''\"ok\"'', lit ''true'')]) (ustr ''ok'') = Some (lit ''true'')"
proof -
  let ?kvs = "[(lit ''\"id\"'', lit ''7''), (lit ''\"ok\"'', lit ''true'')]"
  have "list_all (\<lambda>(k, v). decode_json_string k \<noteq> None \<and> value_end v 0 1 = Some (length v)) ?kvs"
    "distinct (map (\<lambda>(k, v). decode_json_string k) ?kvs)" by code_simp+
  from object_field_finds_members [OF this, of "ustr ''ok''"] show ?thesis
    by (simp only:) code_simp
qed

end
