(* ===== verification/JsonBuf.thy ===== *)
theory JsonBuf
  imports JsonText
begin

text \<open>
  The encoder of \<open>json.rs\<close>: \<open>JsonBuf\<close>, a byte buffer of fixed size with a cursor and a stack of
  comma flags, its building operations, and what they write.  An operation returns whether it
  succeeded; on \<open>JsonErr\<close> (the buffer is full) the bytes written so far stay in the buffer.
\<close>

section \<open>Field names\<close>

datatype field =
    FCpu | FRam | FDisk | FNet | FGpu | FLoad | FConnections | FProcess | FUptime | FOs | FArch
  | FVersion | FToken | FMessageType | FTimestamp | FCount | FName | FError | FMessage | FCode
  | FData | FId | FUsage | FTotal | FUsed | FUp | FDown | FTotalUp | FTotalDown | FSwap | FTcp
  | FUdp | FLoad1 | FLoad5 | FLoad15 | FCores | FBackend | FDevices | FMemoryTotal | FMemoryUsed
  | FUtilization | FTemperature | FAverageUsage | FDetailedInfo | FModels | FCpuName | FCpuCores
  | FCpuPhysicalCores | FKernelVersion | FIpv4 | FIpv6 | FMemTotal | FSwapTotal | FDiskTotal
  | FDiskUsed | FGpuName | FVirtualization

fun field_name :: "field \<Rightarrow> bytes" where
  "field_name FCpu = lit ''cpu''"
| "field_name FRam = lit ''ram''"
| "field_name FDisk = lit ''disk''"
| "field_name FNet = lit ''network''"
| "field_name FGpu = lit ''gpu''"
| "field_name FLoad = lit ''load''"
| "field_name FConnections = lit ''connections''"
| "field_name FProcess = lit ''process''"
| "field_name FUptime = lit ''uptime''"
| "field_name FOs = lit ''os''"
| "field_name FArch = lit ''arch''"
| "field_name FVersion = lit ''version''"
| "field_name FToken = lit ''token''"
| "field_name FMessageType = lit ''type''"
| "field_name FTimestamp = lit ''timestamp''"
| "field_name FCount = lit ''count''"
| "field_name FName = lit ''name''"
| "field_name FError = lit ''error''"
| "field_name FMessage = lit ''message''"
| "field_name FCode = lit ''code''"
| "field_name FData = lit ''data''"
| "field_name FId = lit ''id''"
| "field_name FUsage = lit ''usage''"
| "field_name FTotal = lit ''total''"
| "field_name FUsed = lit ''used''"
| "field_name FUp = lit ''up''"
| "field_name FDown = lit ''down''"
| "field_name FTotalUp = lit ''totalUp''"
| "field_name FTotalDown = lit ''totalDown''"
| "field_name FSwap = lit ''swap''"
| "field_name FTcp = lit ''tcp''"
| "field_name FUdp = lit ''udp''"
| "field_name FLoad1 = lit ''load1''"
| "field_name FLoad5 = lit ''load5''"
| "field_name FLoad15 = lit ''load15''"
| "field_name FCores = lit ''cores''"
| "field_name FBackend = lit ''backend''"
| "field_name FDevices = lit ''devices''"
| "field_name FMemoryTotal = lit ''memory_total''"
| "field_name FMemoryUsed = lit ''memory_used''"
| "field_name FUtilization = lit ''utilization''"
| "field_name FTemperature = lit ''temperature''"
| "field_name FAverageUsage = lit ''average_usage''"
| "field_name FDetailedInfo = lit ''detailed_info''"
| "field_name FModels = lit ''models''"
| "field_name FCpuName = lit ''cpu_name''"
| "field_name FCpuCores = lit ''cpu_cores''"
| "field_name FCpuPhysicalCores = lit ''cpu_physical_cores''"
| "field_name FKernelVersion = lit ''kernel_version''"
| "field_name FIpv4 = lit ''ipv4''"
| "field_name FIpv6 = lit ''ipv6''"
| "field_name FMemTotal = lit ''mem_total''"
| "field_name FSwapTotal = lit ''swap_total''"
| "field_name FDiskTotal = lit ''disk_total''"
| "field_name FDiskUsed = lit ''disk_used''"
| "field_name FGpuName = lit ''gpu_name''"
| "field_name FVirtualization = lit ''virtualization''"

section \<open>The buffer\<close>

record json_buf =
  jb_buf :: bytes
  jb_cursor :: nat
  jb_need_comma :: "bool list"
  jb_depth :: nat

definition jb_new :: "bytes \<Rightarrow> json_buf" where
  "jb_new buf = \<lparr>jb_buf = buf, jb_cursor = 0, jb_need_comma = replicate 8 False, jb_depth = 0\<rparr>"

definition jb_finish :: "json_buf \<Rightarrow> bytes" where
  "jb_finish j = take (jb_cursor j) (jb_buf j)"

text \<open>A method of \<open>JsonBuf\<close> that returns \<open>Result<(), JsonErr>\<close>: \<open>True\<close> is \<open>Ok(())\<close>.\<close>

type_synonym json_op = "json_buf \<Rightarrow> bool \<times> json_buf"

definition json_skip :: json_op where
  "json_skip j = (True, j)"

definition json_then :: "json_op \<Rightarrow> json_op \<Rightarrow> json_op" where
  "json_then a b j = (case a j of (True, j') \<Rightarrow> b j' | (False, j') \<Rightarrow> (False, j'))"

definition json_do :: "json_op list \<Rightarrow> json_op" where
  "json_do ops = foldr json_then ops json_skip"

definition push_byte :: "u8 \<Rightarrow> json_op" where
  "push_byte b j =
    (if jb_cursor j < length (jb_buf j)
     then (True, j\<lparr>jb_buf := (jb_buf j)[jb_cursor j := b], jb_cursor := jb_cursor j + 1\<rparr>)
     else (False, j))"

definition push_bytes :: "bytes \<Rightarrow> json_op" where
  "push_bytes bs = json_do (map push_byte bs)"

definition comma :: json_op where
  "comma j =
    (if jb_depth j > 0 \<and> jb_depth j - 1 < 8
     then json_then (if jb_need_comma j ! (jb_depth j - 1) then push_byte 0x2C else json_skip)
            (\<lambda>j. (True, j\<lparr>jb_need_comma := (jb_need_comma j)[jb_depth j - 1 := True]\<rparr>)) j
     else (True, j))"

definition clear_comma :: json_op where
  "clear_comma j =
    (True, if jb_depth j > 0 \<and> jb_depth j - 1 < 8
           then j\<lparr>jb_need_comma := (jb_need_comma j)[jb_depth j - 1 := False]\<rparr> else j)"

definition push_depth :: json_op where
  "push_depth j =
    (if jb_depth j \<ge> 8 then (False, j)
     else (True, j\<lparr>jb_need_comma := (jb_need_comma j)[jb_depth j := False], jb_depth := jb_depth j + 1\<rparr>))"

definition pop_depth :: json_op where
  "pop_depth j = (True, if jb_depth j > 0 then j\<lparr>jb_depth := jb_depth j - 1\<rparr> else j)"

definition begin_obj :: json_op where
  "begin_obj = json_do [comma, push_byte 0x7B, push_depth]"

definition end_obj :: json_op where
  "end_obj = json_do [push_byte 0x7D, pop_depth]"

definition begin_arr :: json_op where
  "begin_arr = json_do [comma, push_byte 0x5B, push_depth]"

definition end_arr :: json_op where
  "end_arr = json_do [push_byte 0x5D, pop_depth]"

section \<open>Values\<close>

definition push_json_str :: "ustring \<Rightarrow> json_op" where
  "push_json_str s =
    json_do ([comma, push_byte 0x22] @ map (\<lambda>b. push_bytes (escape_byte b)) (as_bytes s) @ [push_byte 0x22])"

text \<open>The decimal digits, written from the end of a scratch array of 20 bytes.\<close>

function digits_loop :: "bytes \<Rightarrow> nat \<Rightarrow> nat \<Rightarrow> bytes \<times> nat" where
  "digits_loop scratch i v =
    (if v > 0 then digits_loop (scratch[i - 1 := of_nat (v mod 10) + 0x30]) (i - 1) (v div 10)
     else (scratch, i))"
  by auto
termination by (relation "measure (\<lambda>(scratch, i, v). v)") auto

declare digits_loop.simps [simp del]

definition u64_digits :: "u64 \<Rightarrow> bytes" where
  "u64_digits n =
    (let scratch = replicate 20 0;
         (scratch', i) = (if n = 0 then (scratch[19 := 0x30], 19) else digits_loop scratch 20 (unat n))
     in drop i scratch')"

definition push_u64_raw :: "u64 \<Rightarrow> json_op" where
  "push_u64_raw n = push_bytes (u64_digits n)"

definition push_u64 :: "u64 \<Rightarrow> json_op" where
  "push_u64 n = json_do [comma, push_bytes (u64_digits n)]"

text \<open>
  A floating-point number, as far as \<open>push_f64_one_decimal\<close> looks at it: not a finite number, or
  its sign, its integer part and its first decimal (the floating-point arithmetic that computes
  the two is not modelled).
\<close>

datatype f64_view = NotFinite | Finite bool u64 u8

definition push_f64_one_decimal :: "f64_view \<Rightarrow> json_op" where
  "push_f64_one_decimal x =
    json_then comma
      (case x of
         NotFinite \<Rightarrow> push_bytes (lit ''null'')
       | Finite negative int_part dec_digit \<Rightarrow>
           json_do [if negative then push_byte 0x2D else json_skip, push_u64_raw int_part,
                    push_byte 0x2E, push_byte (0x30 + min dec_digit 9)])"

section \<open>Fields\<close>

definition write_field_prefix :: "field \<Rightarrow> json_op" where
  "write_field_prefix f = json_do [comma, push_byte 0x22, push_bytes (field_name f), push_bytes [0x22, 0x3A]]"

definition str_field :: "field \<Rightarrow> ustring \<Rightarrow> json_op" where
  "str_field f v = json_do [write_field_prefix f, clear_comma, push_json_str v]"

definition u64_field :: "field \<Rightarrow> u64 \<Rightarrow> json_op" where
  "u64_field f v = json_do [write_field_prefix f, clear_comma, push_u64 v]"

definition f64_field :: "field \<Rightarrow> f64_view \<Rightarrow> json_op" where
  "f64_field f v = json_do [write_field_prefix f, clear_comma, push_f64_one_decimal v]"

definition bool_field :: "field \<Rightarrow> bool \<Rightarrow> json_op" where
  "bool_field f v = json_then (write_field_prefix f) (if v then push_bytes (lit ''true'') else push_bytes (lit ''false''))"

definition begin_obj_field :: "field \<Rightarrow> json_op" where
  "begin_obj_field f =
    json_do [comma, push_byte 0x22, push_bytes (field_name f), push_bytes [0x22, 0x3A, 0x7B], push_depth]"

definition begin_arr_field :: "field \<Rightarrow> json_op" where
  "begin_arr_field f =
    json_do [comma, push_byte 0x22, push_bytes (field_name f), push_bytes [0x22, 0x3A, 0x5B], push_depth]"

section \<open>\<open>EncodeJson\<close>\<close>

datatype encode_json_value = EStr ustring | EU64 u64 | EI64 "64 word" | EF64 f64_view | EBool bool
  | ESlice "encode_json_value list"

fun encode_json :: "encode_json_value \<Rightarrow> json_op" where
  "encode_json (EStr s) = push_json_str s"
| "encode_json (EU64 n) = push_u64 n"
| "encode_json (EI64 n) =
    json_then comma (if n <s 0 then json_then (push_byte 0x2D) (push_u64_raw (- n)) else push_u64_raw n)"
| "encode_json (EF64 x) = push_f64_one_decimal x"
| "encode_json (EBool b) = json_then comma (if b then push_bytes (lit ''true'') else push_bytes (lit ''false''))"
| "encode_json (ESlice items) = json_do ([comma, begin_arr] @ map encode_json items @ [end_arr])"

end
