(* ===== verification/JsonEmit.thy ===== *)
theory JsonEmit
  imports JsonBuf
begin

text \<open>
  What the encoder writes.  Every building operation appends a text that depends only on the
  comma flags of the open levels; when the buffer is too small it writes the part of the text
  that fits and fails.  The texts of whole objects are valid JSON, and the scanner finds every
  field again.
\<close>

section \<open>Operations as emitted text\<close>

text \<open>The flags of the open levels, outermost first.\<close>

definition levels :: "json_buf \<Rightarrow> bool list" where
  "levels j = take (jb_depth j) (jb_need_comma j)"

definition room :: "json_buf \<Rightarrow> nat" where
  "room j = length (jb_buf j) - jb_cursor j"

definition jb_ok :: "json_buf \<Rightarrow> bool" where
  "jb_ok j \<longleftrightarrow> jb_cursor j \<le> length (jb_buf j) \<and> length (jb_need_comma j) = 8 \<and> jb_depth j \<le> 8"

text \<open>
  From levels satisfying \<open>P\<close>, the operation writes \<open>txt\<close> and changes the levels by \<open>nxt\<close>, or
  writes what fits of it and fails.
\<close>

definition emits :: "(bool list \<Rightarrow> bool) \<Rightarrow> json_op \<Rightarrow> (bool list \<Rightarrow> bytes) \<Rightarrow> (bool list \<Rightarrow> bool list) \<Rightarrow> bool" where
  "emits P op txt nxt \<longleftrightarrow> (\<forall>j. jb_ok j \<and> P (levels j) \<longrightarrow>
    (case op j of (ok, j') \<Rightarrow>
      jb_ok j' \<and> length (jb_buf j') = length (jb_buf j) \<and>
      (if length (txt (levels j)) \<le> room j
       then ok \<and> jb_finish j' = jb_finish j @ txt (levels j) \<and> levels j' = nxt (levels j)
       else \<not> ok \<and> jb_finish j' = jb_finish j @ take (room j) (txt (levels j)))))"

lemma jb_finish_length: "jb_ok j \<Longrightarrow> length (jb_finish j) = jb_cursor j"
  by (simp add: jb_ok_def jb_finish_def)

lemma emits_then:
  assumes a: "emits P a ta na" and b: "emits Q b tb nb" and PQ: "\<And>s. P s \<Longrightarrow> Q (na s)"
  shows "emits P (json_then a b) (\<lambda>s. ta s @ tb (na s)) (\<lambda>s. nb (na s))"
  unfolding emits_def
proof (intro allI impI)
  fix j assume j: "jb_ok j \<and> P (levels j)"
  obtain ok j1 where aj: "a j = (ok, j1)" by fastforce
  with a j have 1: "jb_ok j1" "length (jb_buf j1) = length (jb_buf j)"
    "if length (ta (levels j)) \<le> room j
     then ok \<and> jb_finish j1 = jb_finish j @ ta (levels j) \<and> levels j1 = na (levels j)
     else \<not> ok \<and> jb_finish j1 = jb_finish j @ take (room j) (ta (levels j))"
    by (auto simp: emits_def)
  have len: "length (jb_finish j) = jb_cursor j" "length (jb_finish j1) = jb_cursor j1"
    using j 1(1) jb_finish_length by auto
  let ?t = "\<lambda>s. ta s @ tb (na s)"
  show "case json_then a b j of (ok, j') \<Rightarrow>
      jb_ok j' \<and> length (jb_buf j') = length (jb_buf j) \<and>
      (if length (?t (levels j)) \<le> room j
       then ok \<and> jb_finish j' = jb_finish j @ ?t (levels j) \<and> levels j' = nb (na (levels j))
       else \<not> ok \<and> jb_finish j' = jb_finish j @ take (room j) (?t (levels j)))"
  proof (cases "length (ta (levels j)) \<le> room j")
    case False
    with 1 aj show ?thesis by (simp add: json_then_def)
  next
    case True
    then have s: "ok" "jb_finish j1 = jb_finish j @ ta (levels j)" "levels j1 = na (levels j)" using 1(3) by auto
    obtain ok2 j2 where bj: "b j1 = (ok2, j2)" by fastforce
    have r: "room j1 = room j - length (ta (levels j))"
      using len s(2) 1(2) by (auto simp: room_def)
    from b 1(1) s(3) PQ j bj have "jb_ok j2" "length (jb_buf j2) = length (jb_buf j1)"
      "if length (tb (na (levels j))) \<le> room j1
       then ok2 \<and> jb_finish j2 = jb_finish j1 @ tb (na (levels j)) \<and> levels j2 = nb (na (levels j))
       else \<not> ok2 \<and> jb_finish j2 = jb_finish j1 @ take (room j1) (tb (na (levels j)))"
      by (auto simp: emits_def)
    with aj bj s r 1(2) True show ?thesis by (auto simp: json_then_def)
  qed
qed

lemma emits_skip: "emits P json_skip (\<lambda>s. []) (\<lambda>s. s)"
  by (simp add: emits_def json_skip_def)

lemma emits_mono:
  assumes "emits P op t n" and "\<And>s. Q s \<Longrightarrow> P s" and "\<And>s. Q s \<Longrightarrow> t' s = t s" and "\<And>s. Q s \<Longrightarrow> n' s = n s"
  shows "emits Q op t' n'"
  unfolding emits_def
proof (intro allI impI)
  fix j assume j: "jb_ok j \<and> Q (levels j)"
  with assms(1) [unfolded emits_def, rule_format, of j] assms(2)
  show "case op j of (ok, j') \<Rightarrow>
      jb_ok j' \<and> length (jb_buf j') = length (jb_buf j) \<and>
      (if length (t' (levels j)) \<le> room j
       then ok \<and> jb_finish j' = jb_finish j @ t' (levels j) \<and> levels j' = n' (levels j)
       else \<not> ok \<and> jb_finish j' = jb_finish j @ take (room j) (t' (levels j)))"
    using assms(3,4) [of "levels j"] j by (cases "op j") (auto split: if_splits)
qed

lemma json_do_simps [simp]: "json_do [] = json_skip" "json_do (op # ops) = json_then op (json_do ops)"
  by (simp_all add: json_do_def)

lemma emits_push_byte: "emits P (push_byte b) (\<lambda>s. [b]) (\<lambda>s. s)"
  by (auto simp: emits_def push_byte_def room_def jb_ok_def jb_finish_def levels_def take_Suc_conv_app_nth)

lemma emits_push_bytes: "emits P (push_bytes bs) (\<lambda>s. bs) (\<lambda>s. s)"
proof (induction bs)
  case (Cons b bs)
  from emits_then [OF emits_push_byte [of P b] Cons] show ?case by (simp add: push_bytes_def)
qed (simp add: push_bytes_def emits_skip)

lemma emits_push_all: "emits P (json_do (map (\<lambda>b. push_bytes (f b)) bs)) (\<lambda>s. concat (map f bs)) (\<lambda>s. s)"
proof (induction bs)
  case (Cons b bs)
  from emits_then [OF emits_push_bytes [of P "f b"] Cons] show ?case by simp
qed (simp add: emits_skip)

lemma emits_levels:
  assumes "\<And>j. \<lbrakk>jb_ok j; P (levels j)\<rbrakk> \<Longrightarrow> fst (op j) \<and> jb_ok (snd (op j)) \<and> jb_buf (snd (op j)) = jb_buf j \<and>
    jb_cursor (snd (op j)) = jb_cursor j \<and> levels (snd (op j)) = nxt (levels j)"
  shows "emits P op (\<lambda>s. []) nxt"
  unfolding emits_def
proof (intro allI impI)
  fix j assume "jb_ok j \<and> P (levels j)"
  with assms [of j] show "case op j of (ok, j') \<Rightarrow>
      jb_ok j' \<and> length (jb_buf j') = length (jb_buf j) \<and>
      (if length ([] :: bytes) \<le> room j then ok \<and> jb_finish j' = jb_finish j @ [] \<and> levels j' = nxt (levels j)
       else \<not> ok \<and> jb_finish j' = jb_finish j @ take (room j) [])"
    by (cases "op j") (simp add: jb_finish_def)
qed

lemma emits_push_depth: "emits (\<lambda>s. length s < 8) push_depth (\<lambda>s. []) (\<lambda>s. s @ [False])"
  by (rule emits_levels) (auto simp: push_depth_def levels_def jb_ok_def take_Suc_conv_app_nth)

lemma emits_pop_depth: "emits (\<lambda>s. s \<noteq> []) pop_depth (\<lambda>s. []) butlast"
  by (rule emits_levels) (auto simp: pop_depth_def levels_def jb_ok_def butlast_take)

lemma emits_clear_comma: "emits (\<lambda>s. s \<noteq> []) clear_comma (\<lambda>s. []) (\<lambda>s. butlast s @ [False])"
  by (rule emits_levels) (auto simp: clear_comma_def levels_def jb_ok_def butlast_take take_Suc_conv_app_nth
      nth_list_update Suc_diff_Suc gr0_conv_Suc)

text \<open>The comma before an item, if the level has one already.\<close>

definition comma_text :: "bool list \<Rightarrow> bytes" where
  "comma_text s = (if s \<noteq> [] \<and> last s then [0x2C] else [])"

definition comma_next :: "bool list \<Rightarrow> bool list" where
  "comma_next s = (if s = [] then [] else butlast s @ [True])"

lemma comma_simps [simp]: "comma_text [] = []" "comma_text (s @ [f]) = (if f then [0x2C] else [])"
  "comma_next [] = []" "comma_next (s @ [f]) = s @ [True]"
  by (simp_all add: comma_text_def comma_next_def)

lemma last_levels: "\<lbrakk>jb_ok j; jb_depth j > 0\<rbrakk> \<Longrightarrow> last (levels j) = jb_need_comma j ! (jb_depth j - 1) \<and> levels j \<noteq> []"
proof -
  assume j: "jb_ok j" "jb_depth j > 0"
  then have "levels j \<noteq> []" "length (levels j) = jb_depth j" by (auto simp: levels_def jb_ok_def)
  with j(2) last_conv_nth [of "levels j"] show ?thesis by (simp add: levels_def)
qed

lemma emits_set_comma:
  "emits (\<lambda>s. s \<noteq> []) (\<lambda>j. (True, j\<lparr>jb_need_comma := (jb_need_comma j)[jb_depth j - 1 := True]\<rparr>))
    (\<lambda>s. []) (\<lambda>s. butlast s @ [True])"
  by (rule emits_levels) (auto simp: levels_def jb_ok_def butlast_take take_Suc_conv_app_nth
      nth_list_update Suc_diff_Suc gr0_conv_Suc)

lemma emits_comma: "emits P comma comma_text comma_next"
  unfolding emits_def
proof (intro allI impI)
  fix j assume j: "jb_ok j \<and> P (levels j)"
  show "case comma j of (ok, j') \<Rightarrow>
      jb_ok j' \<and> length (jb_buf j') = length (jb_buf j) \<and>
      (if length (comma_text (levels j)) \<le> room j
       then ok \<and> jb_finish j' = jb_finish j @ comma_text (levels j) \<and> levels j' = comma_next (levels j)
       else \<not> ok \<and> jb_finish j' = jb_finish j @ take (room j) (comma_text (levels j)))"
  proof (cases "jb_depth j > 0")
    case False
    then show ?thesis using j by (simp add: comma_def levels_def)
  next
    case True
    have d: "jb_depth j - 1 < 8" using j by (auto simp: jb_ok_def)
    have l: "levels j \<noteq> []" "last (levels j) = jb_need_comma j ! (jb_depth j - 1)" using last_levels j True by auto
    let ?set = "\<lambda>j. (True, j\<lparr>jb_need_comma := (jb_need_comma j)[jb_depth j - 1 := True]\<rparr>)"
    show ?thesis
    proof (cases "jb_need_comma j ! (jb_depth j - 1)")
      case need: True
      with True d have c: "comma j = json_then (push_byte 0x2C) ?set j" by (simp only: comma_def if_True simp_thms)
      from emits_then [OF emits_push_byte emits_set_comma, of "\<lambda>s. s \<noteq> []" "0x2C", unfolded emits_def, rule_format, of j]
      show ?thesis using j l need by (simp only: c comma_text_def comma_next_def append_Nil2) simp
    next
      case no: False
      with True d have c: "comma j = json_then json_skip ?set j" by (simp only: comma_def if_True if_False simp_thms)
      from emits_then [OF emits_skip emits_set_comma, of "\<lambda>s. s \<noteq> []", unfolded emits_def, rule_format, of j]
      show ?thesis using j l no by (simp only: c comma_text_def comma_next_def append_Nil) simp
    qed
  qed
qed

section \<open>Values and fields\<close>

text \<open>A value where one item is written: at a level with flag \<open>f\<close>, which becomes set.\<close>

definition emits_item :: "nat \<Rightarrow> json_op \<Rightarrow> bytes \<Rightarrow> bool" where
  "emits_item h op w \<longleftrightarrow>
    emits (\<lambda>s. s \<noteq> [] \<and> length s + h \<le> 8) op (\<lambda>s. comma_text s @ w) comma_next"

lemma emits_comma_then:
  assumes "emits (\<lambda>s. s \<noteq> [] \<and> length s + h \<le> 8) op (\<lambda>s. w) (\<lambda>s. s)"
  shows "emits_item h (json_then comma op) w"
proof -
  have "emits (\<lambda>s. s \<noteq> [] \<and> length s + h \<le> 8) (json_then comma op) (\<lambda>s. comma_text s @ w) (\<lambda>s. comma_next s)"
    by (rule emits_then [OF emits_comma assms]) (auto simp: comma_next_def)
  then show ?thesis by (simp add: emits_item_def)
qed

lemma emits_push_json_str: "emits_item 0 (push_json_str s) (json_string s)"
proof -
  let ?P = "\<lambda>s :: bool list. s \<noteq> [] \<and> length s + 0 \<le> 8"
  let ?body = "map (\<lambda>b. push_bytes (escape_byte b)) (as_bytes s)"
  have split: "json_do (xs @ ys) = json_then (json_do xs) (json_do ys)" for xs ys
    by (induction xs) (auto simp: json_then_def json_skip_def fun_eq_iff split: prod.splits bool.splits)
  have "emits ?P (json_then (push_byte 0x22) (json_then (json_do ?body) (json_then (push_byte 0x22) json_skip)))
      (\<lambda>_. [0x22] @ concat (map escape_byte (as_bytes s)) @ [0x22] @ []) (\<lambda>s. s)"
    by (intro emits_then [where Q = ?P] emits_push_byte emits_push_all emits_skip) simp_all
  from emits_comma_then [OF this] show ?thesis
    by (simp add: push_json_str_def split write_json_string_def)
qed

lemma emits_push_u64: "emits_item 0 (push_u64 n) (u64_digits n)"
proof -
  let ?P = "\<lambda>s :: bool list. s \<noteq> [] \<and> length s + 0 \<le> 8"
  have "emits ?P (json_then (push_bytes (u64_digits n)) json_skip) (\<lambda>_. u64_digits n @ []) (\<lambda>s. s)"
    by (intro emits_then [where Q = ?P] emits_push_bytes emits_skip)
  from emits_comma_then [OF this] show ?thesis by (simp add: push_u64_def)
qed

fun f64_text :: "f64_view \<Rightarrow> bytes" where
  "f64_text NotFinite = lit ''null''"
| "f64_text (Finite negative int_part dec_digit) =
    (if negative then [0x2D] else []) @ u64_digits int_part @ [0x2E, 0x30 + min dec_digit 9]"

lemma emits_push_f64: "emits_item 0 (push_f64_one_decimal x) (f64_text x)"
proof -
  let ?P = "\<lambda>s :: bool list. s \<noteq> [] \<and> length s + 0 \<le> 8"
  show ?thesis
  proof (cases x)
    case NotFinite
    with emits_comma_then [OF emits_push_bytes] show ?thesis by (simp add: push_f64_one_decimal_def)
  next
    case (Finite neg i d)
    have sign: "emits ?P (if neg then push_byte 0x2D else json_skip) (\<lambda>_. if neg then [0x2D] else []) (\<lambda>s. s)"
      by (simp add: emits_push_byte emits_skip)
    have "emits ?P (json_then (if neg then push_byte 0x2D else json_skip) (json_then (push_u64_raw i)
        (json_then (push_byte 0x2E) (json_then (push_byte (0x30 + min d 9)) json_skip))))
        (\<lambda>_. (if neg then [0x2D] else []) @ u64_digits i @ [0x2E] @ [0x30 + min d 9] @ []) (\<lambda>s. s)"
      unfolding push_u64_raw_def
      by (intro emits_then [where Q = ?P] sign emits_push_byte emits_push_bytes emits_skip)
    from emits_comma_then [OF this] Finite show ?thesis by (simp add: push_f64_one_decimal_def)
  qed
qed

text \<open>The key token of a field.\<close>

definition field_token :: "field \<Rightarrow> bytes" where
  "field_token f = [0x22] @ field_name f @ [0x22]"

lemma emits_prefix:
  "emits P (write_field_prefix f) (\<lambda>s. comma_text s @ field_token f @ [0x3A]) comma_next"
proof -
  let ?Q = "\<lambda>s :: bool list. True"
  have "emits P (write_field_prefix f)
      (\<lambda>s. comma_text s @ [0x22] @ field_name f @ [0x22, 0x3A] @ []) (\<lambda>s. comma_next s)"
    unfolding write_field_prefix_def json_do_simps
    by (rule emits_then [where Q = ?Q], rule emits_comma, intro emits_then [where Q = ?Q] emits_push_byte
        emits_push_bytes emits_skip) simp_all
  then show ?thesis by (simp add: field_token_def)
qed

text \<open>A field at a level with flag \<open>f\<close>.\<close>

lemma emits_field:
  assumes "emits_item h op w"
  shows "emits_item h (json_do [write_field_prefix f, clear_comma, op]) (member_text (field_token f, w))"
proof -
  let ?P = "\<lambda>s :: bool list. s \<noteq> [] \<and> length s + h \<le> 8"
  have "emits ?P (json_then clear_comma (json_then op json_skip))
      (\<lambda>s. [] @ (comma_text (butlast s @ [False]) @ w) @ []) (\<lambda>s. comma_next (butlast s @ [False]))"
    by (rule emits_then [OF emits_mono [OF emits_clear_comma] emits_then [OF assms [unfolded emits_item_def] emits_skip]])
      auto
  then have "emits ?P (json_then clear_comma (json_then op json_skip)) (\<lambda>s. w) (\<lambda>s. butlast s @ [True])" by simp
  from emits_then [OF emits_prefix [of ?P f] this]
  have "emits ?P (json_do [write_field_prefix f, clear_comma, op])
      (\<lambda>s. (comma_text s @ field_token f @ [0x3A]) @ w) (\<lambda>s. butlast (comma_next s) @ [True])"
    by (simp add: comma_next_def)
  then show ?thesis unfolding emits_item_def
    by (rule emits_mono) (auto simp: member_text_def comma_next_def)
qed

section \<open>Objects\<close>

text \<open>What the agent reports: fields holding strings, numbers, flags and objects of fields.\<close>

datatype report_value = RStr ustring | RU64 u64 | RF64 f64_view | RBool bool
  | RObj "(field \<times> report_value) list"

fun write_field :: "field \<times> report_value \<Rightarrow> json_op" where
  "write_field (f, RStr s) = str_field f s"
| "write_field (f, RU64 n) = u64_field f n"
| "write_field (f, RF64 x) = f64_field f x"
| "write_field (f, RBool b) = bool_field f b"
| "write_field (f, RObj fs) = json_do ([begin_obj_field f] @ map write_field fs @ [end_obj])"

definition write_object :: "(field \<times> report_value) list \<Rightarrow> json_op" where
  "write_object fs = json_do ([begin_obj] @ map write_field fs @ [end_obj])"

fun value_text :: "report_value \<Rightarrow> bytes" where
  "value_text (RStr s) = json_string s"
| "value_text (RU64 n) = u64_digits n"
| "value_text (RF64 x) = f64_text x"
| "value_text (RBool b) = (if b then lit ''true'' else lit ''false'')"
| "value_text (RObj fs) = object_text (map (\<lambda>fv. (field_token (fst fv), value_text (snd fv))) fs)"

definition fields_text :: "(field \<times> report_value) list \<Rightarrow> (bytes \<times> bytes) list" where
  "fields_text fs = map (\<lambda>fv. (field_token (fst fv), value_text (snd fv))) fs"

text \<open>How many levels a value opens.\<close>

fun levels_of :: "report_value \<Rightarrow> nat" where
  "levels_of (RObj fs) = Suc (foldr (max \<circ> levels_of \<circ> snd) fs 0)"
| "levels_of _ = 0"

definition levels_of_fields :: "(field \<times> report_value) list \<Rightarrow> nat" where
  "levels_of_fields fs = foldr (max \<circ> levels_of \<circ> snd) fs 0"

lemma levels_of_member: "fv \<in> set fs \<Longrightarrow> levels_of (snd fv) \<le> levels_of_fields fs"
  by (induction fs) (auto simp: levels_of_fields_def)

lemma json_do_append: "json_do (xs @ ys) = json_then (json_do xs) (json_do ys)"
  by (induction xs) (auto simp: json_then_def json_skip_def fun_eq_iff split: prod.splits bool.splits)

lemma emits_items:
  assumes "\<And>x. x \<in> set xs \<Longrightarrow> emits_item h (op x) (member_text (kv x))"
  shows "emits (\<lambda>s. s \<noteq> [] \<and> length s + h \<le> 8) (json_do (map op xs))
    (\<lambda>s. if xs = [] then [] else comma_text s @ members_text (map kv xs))
    (\<lambda>s. if xs = [] then s else comma_next s)"
  using assms
proof (induction xs)
  case (Cons x xs)
  let ?P = "\<lambda>s :: bool list. s \<noteq> [] \<and> length s + h \<le> 8"
  have ih: "emits ?P (json_do (map op xs))
    (\<lambda>s. if xs = [] then [] else comma_text s @ members_text (map kv xs))
    (\<lambda>s. if xs = [] then s else comma_next s)"
    using Cons by simp
  have "emits ?P (json_then (op x) (json_do (map op xs)))
    (\<lambda>s. (comma_text s @ member_text (kv x)) @ (if xs = [] then [] else comma_text (comma_next s) @ members_text (map kv xs)))
    (\<lambda>s. if xs = [] then comma_next s else comma_next (comma_next s))"
    by (rule emits_then [OF Cons.prems [unfolded emits_item_def] ih]) (auto simp: comma_next_def)
  from emits_mono [OF this] show ?case
    unfolding list.map json_do_simps by (cases xs) (auto simp: comma_text_def comma_next_def)
qed (simp add: emits_skip)

text \<open>An object whose opening brace is written by \<open>beg\<close> after the text \<open>t\<close>.\<close>

lemma emits_object:
  assumes beg: "emits (\<lambda>s. length s + Suc h \<le> 8) beg (\<lambda>s. comma_text s @ t @ [0x7B]) (\<lambda>s. comma_next s @ [False])"
    and items: "\<And>x. x \<in> set xs \<Longrightarrow> emits_item h (op x) (member_text (kv x))"
  shows "emits (\<lambda>s. length s + Suc h \<le> 8) (json_do ([beg] @ map op xs @ [end_obj]))
    (\<lambda>s. comma_text s @ t @ object_text (map kv xs)) comma_next"
proof -
  let ?P = "\<lambda>s :: bool list. s \<noteq> [] \<and> length s + h \<le> 8"
  have e: "emits ?P (json_then end_obj json_skip) (\<lambda>s. ([0x7D] @ [] @ []) @ []) butlast"
    unfolding end_obj_def json_do_simps
    by (rule emits_then [OF emits_then [OF emits_push_byte emits_then [OF emits_pop_depth emits_skip]] emits_skip]) auto
  have body: "emits ?P (json_then (json_do (map op xs)) (json_then end_obj json_skip))
      (\<lambda>s. (if xs = [] then [] else comma_text s @ members_text (map kv xs)) @ (([0x7D] @ [] @ []) @ []))
      (\<lambda>s. butlast (if xs = [] then s else comma_next s))"
    by (rule emits_then [OF emits_items [OF items] e]) (auto simp: comma_next_def)
  show ?thesis
    unfolding json_do_append append_Cons append_Nil json_do_simps
    by (rule emits_mono [OF emits_then [OF beg body]]) (auto simp: object_text_def comma_next_def butlast_append)
qed

lemma emits_begin_obj: "emits (\<lambda>s. length s + Suc h \<le> 8) begin_obj (\<lambda>s. comma_text s @ [] @ [0x7B]) (\<lambda>s. comma_next s @ [False])"
proof -
  have "emits (\<lambda>s. length s + Suc h \<le> 8) begin_obj (\<lambda>s. comma_text s @ [0x7B] @ [] @ []) (\<lambda>s. comma_next s @ [False])"
    unfolding begin_obj_def json_do_simps
    by (rule emits_then [OF emits_comma emits_then [OF emits_push_byte [of "\<lambda>s. length s < 8"]
        emits_then [OF emits_push_depth emits_skip]]])
      (auto simp: comma_next_def)
  then show ?thesis by simp
qed

lemma emits_begin_obj_field:
  "emits (\<lambda>s. length s + Suc h \<le> 8) (begin_obj_field f) (\<lambda>s. comma_text s @ (field_token f @ [0x3A]) @ [0x7B]) (\<lambda>s. comma_next s @ [False])"
proof -
  have "emits (\<lambda>s. length s + Suc h \<le> 8) (begin_obj_field f)
      (\<lambda>s. comma_text s @ [0x22] @ field_name f @ [0x22, 0x3A, 0x7B] @ [] @ []) (\<lambda>s. comma_next s @ [False])"
    unfolding begin_obj_field_def json_do_simps
    by (rule emits_then [OF emits_comma emits_then [OF emits_push_byte [of "\<lambda>s. length s < 8"] emits_then [OF
        emits_push_bytes [of "\<lambda>s. length s < 8"] emits_then [OF emits_push_bytes [of "\<lambda>s. length s < 8"]
        emits_then [OF emits_push_depth emits_skip]]]]])
      (auto simp: comma_next_def)
  then show ?thesis by (simp add: field_token_def)
qed

lemma emits_item_weaken: "emits_item 0 op w \<Longrightarrow> emits_item h op w"
  unfolding emits_item_def by (erule emits_mono) auto

lemma emits_bool_field: "emits_item 0 (bool_field f b) (member_text (field_token f, if b then lit ''true'' else lit ''false''))"
proof -
  let ?P = "\<lambda>s :: bool list. s \<noteq> [] \<and> length s + 0 \<le> 8"
  let ?t = "if b then lit ''true'' else lit ''false''"
  have "emits ?P (if b then push_bytes (lit ''true'') else push_bytes (lit ''false'')) (\<lambda>s. ?t) (\<lambda>s. s)"
    by (simp add: emits_push_bytes)
  from emits_then [OF emits_prefix [of ?P f] this] show ?thesis
    unfolding emits_item_def bool_field_def
    by (rule emits_mono) (auto simp: member_text_def comma_next_def)
qed

lemma emits_write_field:
  "levels_of v \<le> h \<Longrightarrow> emits_item h (write_field (f, v)) (member_text (field_token f, value_text v))"
proof (induction "(f, v)" arbitrary: f v h rule: write_field.induct)
  case (1 f s)
  from emits_field [OF emits_push_json_str] show ?case by (simp add: emits_item_weaken str_field_def)
next
  case (2 f n)
  from emits_field [OF emits_push_u64] show ?case by (simp add: emits_item_weaken u64_field_def)
next
  case (3 f x)
  from emits_field [OF emits_push_f64] show ?case by (simp add: emits_item_weaken f64_field_def)
next
  case (4 f b)
  from emits_bool_field show ?case by (simp add: emits_item_weaken)
next
  case (5 f fs)
  obtain h' where h: "h = Suc h'" "levels_of_fields fs \<le> h'"
    using "5.prems" by (cases h) (auto simp: levels_of_fields_def)
  have "emits_item h' (write_field x) (member_text (field_token (fst x), value_text (snd x)))" if "x \<in> set fs" for x
    using "5.hyps" [of "fst x" "snd x" h'] that levels_of_member [OF that] h(2) by simp
  from emits_object [OF emits_begin_obj_field this, where xs = fs]
  have "emits (\<lambda>s. length s + h \<le> 8) (write_field (f, RObj fs))
    (\<lambda>s. comma_text s @ (field_token f @ [0x3A]) @ value_text (RObj fs)) comma_next"
    by (simp add: h(1))
  then show ?case unfolding emits_item_def
    by (rule emits_mono) (auto simp: member_text_def)
qed

lemma emits_write_object:
  assumes "levels_of_fields fs < 8"
  shows "emits (\<lambda>s. s = []) (write_object fs) (\<lambda>s. object_text (fields_text fs)) (\<lambda>s. [])"
proof -
  have items: "emits_item (levels_of_fields fs) (write_field x) (member_text (field_token (fst x), value_text (snd x)))"
    if "x \<in> set fs" for x
    using emits_write_field [OF levels_of_member [OF that], of "fst x"] by simp
  from emits_object [OF emits_begin_obj items, where xs = fs] show ?thesis
    unfolding write_object_def fields_text_def
    by (rule emits_mono) (use assms in auto)
qed

section \<open>The text is valid JSON\<close>

fun decimal :: "nat \<Rightarrow> bytes" where
  "decimal n = (if n < 10 then [of_nat n + 0x30] else decimal (n div 10) @ [of_nat (n mod 10) + 0x30])"

declare decimal.simps [simp del]

lemma digits_loop_decimal:
  "\<lbrakk>v < 10 ^ i; i \<le> length scratch; digits_loop scratch i v = (s', i')\<rbrakk> \<Longrightarrow>
    drop i' s' = (if v = 0 then [] else decimal v) @ drop i scratch"
proof (induction scratch i v arbitrary: s' i' rule: digits_loop.induct)
  case (1 scratch i v)
  show ?case
  proof (cases "v > 0")
    case False
    with "1.prems"(3) show ?thesis by (simp add: digits_loop.simps [of scratch i v])
  next
    case True
    then obtain k where i: "i = Suc k" using "1.prems"(1) by (cases i) auto
    let ?s = "scratch[k := of_nat (v mod 10) + 0x30]"
    have "digits_loop ?s k (v div 10) = (s', i')"
      using "1.prems"(3) True unfolding i by (simp add: digits_loop.simps [of scratch "Suc k" v])
    moreover have "v div 10 < 10 ^ k" using "1.prems"(1) i by (simp add: less_mult_imp_div_less ac_simps)
    ultimately have "drop i' s' = (if v div 10 = 0 then [] else decimal (v div 10)) @ drop k ?s"
      using "1.IH" True "1.prems"(2) i by simp
    moreover have "drop k ?s = (of_nat (v mod 10) + 0x30) # drop i scratch"
      using "1.prems"(2) i by (subst Cons_nth_drop_Suc [symmetric]) simp_all
    ultimately show ?thesis using True by (auto simp: decimal.simps [of v])
  qed
qed

lemma u64_digits_decimal: "u64_digits n = decimal (unat n)"
proof (cases "n = 0")
  case True
  then show ?thesis by (simp add: u64_digits_def decimal.simps [of 0]) code_simp
next
  case False
  obtain s' i' where d: "digits_loop (replicate 20 0) 20 (unat n) = (s', i')" by fastforce
  have "unat n < 10 ^ 20" using unsigned_less [of n] by (rule less_trans) simp
  from digits_loop_decimal [OF this _ d] False d show ?thesis
    by (simp add: u64_digits_def unat_eq_0)
qed

lemma is_digit_of_nat: "n < 10 \<Longrightarrow> is_digit (of_nat n + 0x30) \<and> unat (of_nat n + 0x30 :: u8) = n + 0x30"
proof -
  assume n: "n < 10"
  then have "unat (of_nat n + 0x30 :: u8) = n + 0x30"
    by (simp add: unat_word_ariths unat_of_nat_byte)
  with n show ?thesis by (simp add: is_digit_def word_le_nat_alt)
qed

lemma decimal_digits: "list_all is_digit (decimal n) \<and> decimal n \<noteq> []"
proof (induction n rule: decimal.induct)
  case (1 n)
  then show ?case using is_digit_of_nat [of "n mod 10"] is_digit_of_nat [of n] by (auto simp: decimal.simps [of n])
qed

lemma decimal_leading: "hd (decimal n) = 0x30 \<longleftrightarrow> n = 0"
proof (induction n rule: decimal.induct)
  case (1 n)
  show ?case
  proof (cases "n < 10")
    case True
    have "(of_nat n + 0x30 :: u8) = 0x30 \<longleftrightarrow> unat (of_nat n + 0x30 :: u8) = unat (0x30 :: u8)"
      by (rule word_unat_eq_iff)
    also have "\<dots> \<longleftrightarrow> n = 0" using is_digit_of_nat [OF True] by simp
    finally show ?thesis using True by (simp only: decimal.simps [of n] if_True list.sel)
  next
    case False
    with 1 decimal_digits [of "n div 10"] show ?thesis by (simp add: decimal.simps [of n])
  qed
qed

lemma from_utf8_ascii: "list_all (\<lambda>b. unat b < 0x80) bs \<Longrightarrow> from_utf8 bs \<noteq> None"
proof -
  assume a: "list_all (\<lambda>b. unat b < 0x80) bs"
  then have "as_bytes (map unat bs) = bs" "valid_text (map unat bs)"
    by (induction bs) (auto simp: encode_char_ascii scalar_value_def)
  then show ?thesis using from_utf8_as_bytes by fastforce
qed

lemma digits_end_all: "\<lbrakk>list_all is_digit ds; rest = [] \<or> \<not> is_digit (hd rest)\<rbrakk> \<Longrightarrow>
    digits_end (pre @ ds @ rest) (length pre) = length pre + length ds"
proof -
  assume "list_all is_digit ds" and r: "rest = [] \<or> \<not> is_digit (hd rest)"
  then have "takeWhile is_digit (ds @ rest) = ds @ takeWhile is_digit rest"
    by (intro takeWhile_append2) (auto simp: list_all_iff)
  moreover have "takeWhile is_digit rest = []" using r by (cases rest) auto
  ultimately show ?thesis by (simp add: digits_end_def)
qed

lemma number_int_decimal:
  assumes "rest = [] \<or> \<not> is_digit (hd rest)"
  shows "number_int ((if neg then [0x2D] else []) @ decimal n @ rest) =
    Some (length ((if neg then [0x2D] else []) @ decimal n))"
proof -
  obtain d ds where dec: "decimal n = d # ds" using decimal_digits [of n] by (cases "decimal n") auto
  have dig: "is_digit d" "list_all is_digit ds" using decimal_digits [of n] dec by simp_all
  then have nd: "d \<noteq> 0x2D" by (auto simp: is_digit_def)
  let ?p = "if neg then [0x2D] else [] :: bytes"
  have g: "get_opt (?p @ decimal n @ rest) (if get_opt (?p @ decimal n @ rest) 0 = Some 0x2D then 1 else 0) = Some d"
    "(if get_opt (?p @ decimal n @ rest) 0 = Some 0x2D then 1 else 0) = length ?p"
    using dec nd by (auto simp: get_opt_def)
  show ?thesis
  proof (cases "d = 0x30")
    case True
    with decimal_leading [of n] dec have "n = 0" by simp
    then have "ds = []" using dec by (simp add: decimal.simps [of 0])
    with True g dec show ?thesis by (simp add: number_int_def)
  next
    case False
    with dig have "0x31 \<le> d \<and> d \<le> 0x39" by (auto simp: is_digit_def word_le_nat_alt word_unat_eq_iff)
    moreover have "digits_end (?p @ decimal n @ rest) (length ?p + 1) = length ?p + 1 + length ds"
      using digits_end_all [OF dig(2) assms, of "?p @ [d]"] dec by simp
    ultimately show ?thesis using False g dec by (simp add: number_int_def)
  qed
qed

lemma digit_plain: "is_digit b \<Longrightarrow> unat b < 0x80 \<and> \<not> is_delim b \<and> b \<notin> {0x22, 0x7B, 0x5B}"
  by (auto simp: is_digit_def is_delim_def word_le_nat_alt)

lemma json_value_u64: "d \<le> 32 \<Longrightarrow> json_value d (u64_digits n)"
proof -
  assume d: "d \<le> 32"
  let ?w = "decimal (unat n)"
  note dig = decimal_digits [of "unat n"]
  have "number_int ?w = Some (length ?w)" using number_int_decimal [of "[]" False] by simp
  then have "is_number ?w"
    by (simp add: is_number_def number_frac_def number_exp_def get_opt_def)
  moreover have "list_all (\<lambda>b. unat b < 0x80) ?w" "list_all (\<lambda>c. \<not> is_delim c) ?w" "\<not> bracketed (hd ?w)"
    using dig digit_plain by (auto simp: list_all_iff bracketed_def)
  moreover from this have "from_utf8 ?w \<noteq> None" by (intro from_utf8_ascii)
  ultimately show ?thesis using d by (simp add: u64_digits_decimal json_value_scalar is_scalar_token_def)
qed

lemma json_value_f64: "d \<le> 32 \<Longrightarrow> json_value d (f64_text x)"
proof (cases x)
  case NotFinite
  assume "d \<le> 32"
  moreover have "is_scalar_token (lit ''null'')" "list_all (\<lambda>c. \<not> is_delim c) (lit ''null'')"
    "\<not> bracketed (hd (lit ''null''))" by code_simp+
  ultimately show ?thesis using NotFinite by (simp add: json_value_scalar)
next
  case (Finite neg i dd)
  assume d: "d \<le> 32"
  let ?p = "if neg then [0x2D] else [] :: bytes" and ?n = "decimal (unat i)" and ?c = "0x30 + min dd 9"
  let ?w = "?p @ ?n @ [0x2E, ?c]"
  have c: "is_digit ?c"
  proof -
    have "unat (min dd 9) < 10" by (auto simp: min_def word_le_nat_alt)
    from is_digit_of_nat [OF this] show ?thesis by (simp add: add.commute)
  qed
  have "number_int ?w = Some (length (?p @ ?n))"
    by (rule number_int_decimal) (simp add: is_digit_def)
  moreover have "number_frac ?w (length (?p @ ?n)) = Some (length ?w)"
    using digits_end_all [of "[?c]" "[]" "?p @ ?n @ [0x2E]"] c get_opt_after [of "?p @ ?n" "0x2E" "[?c]"]
    by (simp add: number_frac_def)
  moreover have "number_exp ?w (length ?w) = Some (length ?w)" by (simp add: number_exp_def get_opt_def)
  ultimately have num: "is_number ?w" unfolding is_number_def by simp
  note dig = decimal_digits [of "unat i"]
  have all: "unat b < 0x80 \<and> \<not> is_delim b" if "b \<in> set ?w" for b
  proof -
    from that consider "b = 0x2D" | "b \<in> set ?n" | "b = 0x2E" | "b = ?c" by (auto split: if_splits)
    then show ?thesis
    proof cases
      case 2
      with dig digit_plain [of b] show ?thesis by (auto simp: list_all_iff)
    next
      case 4
      with c digit_plain [of b] show ?thesis by simp
    qed (simp_all add: is_delim_def)
  qed
  have "\<not> bracketed (hd ?w)"
    using dig digit_plain [of "hd ?n"] by (cases ?n) (auto simp: bracketed_def)
  moreover have "from_utf8 ?w \<noteq> None" using all by (intro from_utf8_ascii) (simp only: list_all_iff, blast)
  moreover have "list_all (\<lambda>c. \<not> is_delim c) ?w" using all by (simp only: list_all_iff, blast)
  ultimately have "json_value d ?w" using num d by (intro json_value_scalar) (simp_all add: is_scalar_token_def)
  then show ?thesis using Finite by (simp add: u64_digits_decimal)
qed

lemma json_value_bool: "d \<le> 32 \<Longrightarrow> json_value d (if b then lit ''true'' else lit ''false'')"
proof -
  assume "d \<le> 32"
  moreover have "is_scalar_token (lit ''true'') \<and> list_all (\<lambda>c. \<not> is_delim c) (lit ''true'') \<and> \<not> bracketed (hd (lit ''true''))"
    "is_scalar_token (lit ''false'') \<and> list_all (\<lambda>c. \<not> is_delim c) (lit ''false'') \<and> \<not> bracketed (hd (lit ''false''))"
    by code_simp+
  ultimately show ?thesis by (simp add: json_value_scalar)
qed

definition field_key :: "field \<Rightarrow> ustring" where
  "field_key f = map unat (field_name f)"

definition all_fields :: "field list" where
  "all_fields =
   [FCpu, FRam, FDisk, FNet, FGpu, FLoad, FConnections, FProcess, FUptime, FOs, FArch,
    FVersion, FToken, FMessageType, FTimestamp, FCount, FName, FError, FMessage, FCode, FData,
    FId, FUsage, FTotal, FUsed, FUp, FDown, FTotalUp, FTotalDown, FSwap, FTcp, FUdp, FLoad1,
    FLoad5, FLoad15, FCores, FBackend, FDevices, FMemoryTotal, FMemoryUsed, FUtilization,
    FTemperature, FAverageUsage, FDetailedInfo, FModels, FCpuName, FCpuCores,
    FCpuPhysicalCores, FKernelVersion, FIpv4, FIpv6, FMemTotal, FSwapTotal, FDiskTotal,
    FDiskUsed, FGpuName, FVirtualization]"

lemma in_all_fields: "f \<in> set all_fields"
  by (cases f) (simp_all add: all_fields_def)

lemma field_name_plain: "list_all plain_byte (field_name f)"
  by (cases f) (simp_all add: lit_def plain_byte_def)

lemma decode_field_token: "decode_json_string (field_token f) = Some (field_key f)"
  using plain_token(2) [OF field_name_plain] by (simp add: field_token_def field_key_def)

lemma field_key_inj: "field_key f = field_key g \<longleftrightarrow> f = g"
proof -
  have "distinct (map field_key all_fields)" by code_simp
  then have "inj_on field_key (set all_fields)" by (simp only: distinct_map)
  with in_all_fields show ?thesis by (auto dest: inj_onD)
qed

text \<open>Texts are Unicode, and no object has a field twice.\<close>

fun value_ok :: "report_value \<Rightarrow> bool" where
  "value_ok (RStr s) = valid_text s"
| "value_ok (RObj fs) = (distinct (map fst fs) \<and> list_all (\<lambda>fv. value_ok (snd fv)) fs)"
| "value_ok _ = True"

definition fields_ok :: "(field \<times> report_value) list \<Rightarrow> bool" where
  "fields_ok fs \<longleftrightarrow> distinct (map fst fs) \<and> list_all (\<lambda>fv. value_ok (snd fv)) fs"

lemma members_ok_fields:
  assumes "d < 32" and "fields_ok fs" and "\<And>fv. fv \<in> set fs \<Longrightarrow> json_value (Suc d) (value_text (snd fv))"
  shows "members_ok d (fields_text fs)"
proof -
  have "map (key_of \<circ> fst) (fields_text fs) = map field_key (map fst fs)"
    by (simp add: fields_text_def key_of_def decode_field_token)
  moreover have "distinct (map field_key (map fst fs))"
    using assms(2) by (simp add: fields_ok_def distinct_map inj_on_def field_key_inj del: map_map)
  ultimately show ?thesis
    using assms(1,3) by (auto simp only: members_ok_def) (auto simp: fields_text_def decode_field_token)
qed

lemma value_text_valid: "\<lbrakk>value_ok v; levels_of v + d \<le> 32\<rbrakk> \<Longrightarrow> json_value d (value_text v)"
proof (induction v arbitrary: d rule: value_text.induct)
  case (1 s)
  then show ?case by (simp add: json_value_string)
next
  case (2 n)
  then show ?case by (simp add: json_value_u64)
next
  case (3 x)
  then show ?case by (simp add: json_value_f64)
next
  case (4 b)
  then show ?case using json_value_bool by simp
next
  case (5 fs)
  have "json_value (Suc d) (value_text (snd fv))" if "fv \<in> set fs" for fv
    using "5.IH" [OF that, of "Suc d"] "5.prems" levels_of_member [OF that] that
    by (auto simp: levels_of_fields_def list_all_iff)
  from object_end [OF members_ok_fields [OF _ _ this]] "5.prems" show ?case
    by (simp add: fields_ok_def fields_text_def)
qed

lemma lookup_fields: "lookup_member (fields_text fs) (field_key f) = map_option value_text (map_of fs f)"
  by (induction fs) (auto simp: fields_text_def key_of_def decode_field_token field_key_inj)

text \<open>
  C9: The encoder and the scanner agree: an object of fields written into a buffer that is large
  enough is a valid JSON object in which every field is found with the text of its value (a
  string decodes to the string that was written); in a buffer that is too small the encoder
  reports an error, and what it leaves is the part of that text that fits.
\<close>

theorem encoder_writes_valid_json:
  assumes "fields_ok fs" and "levels_of_fields fs < 8"
  shows "\<exists>doc. is_valid_object doc \<and>
    (\<forall>f. object_field doc (field_key f) = map_option value_text (map_of fs f)) \<and>
    (\<forall>f s. map_of fs f = Some (RStr s) \<longrightarrow> decode_json_string (value_text (RStr s)) = Some s) \<and>
    (\<forall>buf. case write_object fs (jb_new buf) of (ok, j) \<Rightarrow>
       (ok \<longleftrightarrow> length doc \<le> length buf) \<and> jb_finish j = take (length buf) doc)"
proof (intro exI conjI allI impI)
  let ?text = "object_text (fields_text fs)"
  have "json_value (Suc 0) (value_text (snd fv))" if "fv \<in> set fs" for fv
    using that assms levels_of_member [OF that] by (intro value_text_valid) (auto simp: fields_ok_def list_all_iff)
  then have ok: "members_ok 0 (fields_text fs)" by (intro members_ok_fields assms(1)) simp_all
  show "is_valid_object ?text" using object_field_text(1) [OF ok] .
  fix f s buf
  show "object_field ?text (field_key f) = map_option value_text (map_of fs f)"
    using object_field_text(2) [OF ok] by (simp add: lookup_fields)
  show "decode_json_string (value_text (RStr s)) = Some s" if "map_of fs f = Some (RStr s)"
  proof -
    have "value_ok (RStr s)" using map_of_SomeD [OF that] assms(1) by (force simp: fields_ok_def list_all_iff)
    then show ?thesis by (simp add: decode_written)
  qed
  have "jb_ok (jb_new buf)" "levels (jb_new buf) = []" "room (jb_new buf) = length buf" "jb_finish (jb_new buf) = []"
    by (simp_all add: jb_ok_def jb_new_def levels_def room_def jb_finish_def)
  with emits_write_object [OF assms(2), unfolded emits_def, rule_format, of "jb_new buf"]
  show "case write_object fs (jb_new buf) of (ok, j) \<Rightarrow>
       (ok \<longleftrightarrow> length ?text \<le> length buf) \<and> jb_finish j = take (length buf) ?text"
    by (cases "write_object fs (jb_new buf)") (auto split: if_splits)
qed

lemma encoder_writes_valid_json_witness:
  "case write_object [(FCpu, RObj [(FUsage, RF64 (Finite False 12 5))]), (FMessage, RStr [0x22])] (jb_new (replicate 64 0)) of
     (ok, j) \<Rightarrow> ok \<and> is_valid_object (jb_finish j) \<and> object_field (jb_finish j) (field_key FMessage) = Some [0x22, 0x5C, 0x22, 0x22]"
proof -
  let ?fs = "[(FCpu, RObj [(FUsage, RF64 (Finite False 12 5))]), (FMessage, RStr [0x22])]"
  have "fields_ok ?fs" "levels_of_fields ?fs < 8"
    by (simp_all add: fields_ok_def levels_of_fields_def scalar_value_def)
  from encoder_writes_valid_json [OF this] obtain doc where t: "is_valid_object doc"
    "\<forall>f. object_field doc (field_key f) = map_option value_text (map_of ?fs f)"
    "\<forall>buf. case write_object ?fs (jb_new buf) of (ok, j) \<Rightarrow>
       (ok \<longleftrightarrow> length doc \<le> length buf) \<and> jb_finish j = take (length buf) doc" by blast
  have "fst (write_object ?fs (jb_new (replicate 64 0)))" by code_simp
  moreover have "value_text (RStr [0x22]) = [0x22, 0x5C, 0x22, 0x22]" by code_simp
  ultimately show ?thesis
    using t(1) t(2) [rule_format, of FMessage] t(3) [rule_format, of "replicate 64 0"]
    by (cases "write_object ?fs (jb_new (replicate 64 0))") simp
qed

text \<open>
  A slice inside a slice is not valid JSON: \<open>encode_json\<close> writes its comma and \<open>begin_arr\<close>
  writes another (no caller nests slices today).
\<close>

lemma nested_slice_double_comma:
  "jb_finish (snd (encode_json (ESlice [ESlice [EU64 1]]) (jb_new (replicate 16 0)))) = lit ''[,[1]]'' \<and>
   value_end (lit ''[,[1]]'') 0 0 = None"
  by code_simp

end
