(* ===== verification/Rpc.thy ===== *)
theory Rpc
  imports JsonEmit
begin

text \<open>
  JSON-RPC 2.0 messages: \<open>protocol/v2.rs\<close>.  The builders put already encoded parameters between
  fixed texts; responses are judged by their envelope only.
\<close>

section \<open>Types and method names\<close>

datatype rpc_id = IdStr ustring | IdNum "64 word" | IdNull

record rpc_request =
  rq_jsonrpc :: ustring
  rq_method :: ustring
  rq_params :: "bytes option"
  rq_id :: "rpc_id option"

record rpc_error =
  re_code :: "32 word"
  re_message :: ustring
  re_data :: "bytes option"

record rpc_response =
  rs_jsonrpc :: ustring
  rs_id :: "rpc_id option"
  rs_result :: "bytes option"
  rs_error :: "rpc_error option"

record rpc_event =
  ev_id :: ustring
  ev_method :: ustring
  ev_params :: "bytes option"
  ev_created_at :: "ustring option"
  ev_expires_at :: "ustring option"

record rpc_event_result =
  er_status :: "ustring option"
  er_events :: "rpc_event list"

definition method_agent_pull :: ustring where "method_agent_pull = ustr ''agent.pull''"
definition method_agent_report :: ustring where "method_agent_report = ustr ''agent.report''"
definition method_agent_basic_info :: ustring where "method_agent_basic_info = ustr ''agent.basicInfo''"
definition method_agent_ping_result :: ustring where "method_agent_ping_result = ustr ''agent.pingResult''"
definition method_agent_task_result :: ustring where "method_agent_task_result = ustr ''agent.taskResult''"
definition method_agent_exec :: ustring where "method_agent_exec = ustr ''agent.exec''"
definition method_agent_ping :: ustring where "method_agent_ping = ustr ''agent.ping''"
definition method_agent_message :: ustring where "method_agent_message = ustr ''agent.message''"
definition method_agent_event :: ustring where "method_agent_event = ustr ''agent.event''"
definition method_agent_terminal :: ustring where "method_agent_terminal = ustr ''agent.terminal.request''"
definition method_agent_file :: ustring where "method_agent_file = ustr ''agent.file''"
definition method_agent_file_result :: ustring where "method_agent_file_result = ustr ''agent.file.result''"
definition method_agent_startup_config :: ustring where "method_agent_startup_config = ustr ''agent.startupConfig''"
definition method_agent_startup_config_result :: ustring where
  "method_agent_startup_config_result = ustr ''agent.startupConfig.result''"
definition method_agent_switch_version :: ustring where "method_agent_switch_version = ustr ''agent.switchVersion''"

section \<open>Builders\<close>

definition new_notification :: "ustring \<Rightarrow> bytes \<Rightarrow> bytes" where
  "new_notification method params =
    write_json_string (lit ''{\"jsonrpc\":\"2.0\",\"method\":'') method @ lit '',\"params\":'' @ params @ [0x7D]"

definition new_request :: "ustring \<Rightarrow> ustring \<Rightarrow> bytes \<Rightarrow> bytes" where
  "new_request rid method params =
    write_json_string
      (write_json_string (lit ''{\"jsonrpc\":\"2.0\",\"method\":'') method @ lit '',\"params\":'' @ params @ lit '',\"id\":'')
      rid @ [0x7D]"

definition build_startup_config_params :: "ustring \<Rightarrow> bytes \<Rightarrow> bytes" where
  "build_startup_config_params request_id config_json =
    write_json_string (lit ''{\"request_id\":'') request_id @ lit '',\"config\":'' @ config_json @ [0x7D]"

section \<open>Responses\<close>

definition response_has_error :: "bytes \<Rightarrow> bool" where
  "response_has_error body =
    (case object_field body (ustr ''error'') of None \<Rightarrow> False | Some v \<Rightarrow> v \<noteq> lit ''null'')"

definition validate_response :: "bytes \<Rightarrow> (unit, string) outcome" where
  "validate_response body =
    (if response_has_error body then Err ''server returned a JSON-RPC error''
     else if object_field body (ustr ''jsonrpc'') \<noteq> Some (lit ''\"2.0\"'') \<or>
             (case object_field body (ustr ''result'') of None \<Rightarrow> True | Some v \<Rightarrow> v = lit ''null'')
     then Err ''invalid JSON-RPC response envelope''
     else Ok ())"

section \<open>What a message carries\<close>

text \<open>The key token of a literal field name.\<close>

definition quoted :: "string \<Rightarrow> bytes" where
  "quoted s = [0x22] @ lit s @ [0x22]"

lemma quoted_token: "list_all plain_byte (lit s) \<Longrightarrow> decode_json_string (quoted s) = Some (map unat (lit s))"
  unfolding quoted_def by (rule plain_token)

lemma lit_append: "lit (s @ t) = lit s @ lit t"
  by (simp add: lit_def)

lemma message_texts:
  "new_notification method params =
    object_text [(quoted ''jsonrpc'', quoted ''2.0''), (quoted ''method'', json_string method), (quoted ''params'', params)]"
  "new_request rid method params =
    object_text [(quoted ''jsonrpc'', quoted ''2.0''), (quoted ''method'', json_string method),
      (quoted ''params'', params), (quoted ''id'', json_string rid)]"
  "build_startup_config_params rid config =
    object_text [(quoted ''request_id'', json_string rid), (quoted ''config'', config)]"
  by (simp_all add: new_notification_def new_request_def build_startup_config_params_def write_json_string_def
      object_text_def member_text_def quoted_def lit_def)

lemma key_names:
  "decode_json_string (quoted ''jsonrpc'') = Some (ustr ''jsonrpc'')"
  "decode_json_string (quoted ''method'') = Some (ustr ''method'')"
  "decode_json_string (quoted ''params'') = Some (ustr ''params'')"
  "decode_json_string (quoted ''id'') = Some (ustr ''id'')"
  "decode_json_string (quoted ''request_id'') = Some (ustr ''request_id'')"
  "decode_json_string (quoted ''config'') = Some (ustr ''config'')"
  "decode_json_string (quoted ''2.0'') = Some (ustr ''2.0'')"
  by (simp_all add: quoted_token lit_def ustr_def plain_byte_def)

lemma ustr_eq [simp]: "ustr s = ustr t \<longleftrightarrow> s = t"
  by (auto simp: ustr_def inj_map_eq_map inj_def)

lemma key_of_names: "decode_json_string k = Some n \<Longrightarrow> key_of k = n"
  by (simp add: key_of_def)

lemma request_members:
  assumes "valid_text method" and "valid_text rid" and "json_value 1 params"
  shows "members_ok 0 [(quoted ''jsonrpc'', quoted ''2.0''), (quoted ''method'', json_string method),
      (quoted ''params'', params), (quoted ''id'', json_string rid)]"
    and "members_ok 0 [(quoted ''jsonrpc'', quoted ''2.0''), (quoted ''method'', json_string method),
      (quoted ''params'', params)]"
  using assms by (auto simp: members_ok_def key_names key_names [THEN key_of_names] json_value_string
      intro: json_value_token [OF key_names(7)])

text \<open>
  C11: A request carries what was put into it: for every method, id and any complete JSON value
  as parameters, \<open>new_request\<close> is a valid object whose fields are the version, the method, the
  parameters unchanged and the id, and \<open>new_notification\<close> the same without an id; the method and
  id texts are recovered even when they contain quotes or control characters.
\<close>

theorem rpc_messages_carry_fields:
  assumes "list_all scalar_value method" and "list_all scalar_value rid"
    and "value_end params 0 1 = Some (length params)"
  shows "(let req = new_request rid method params; note = new_notification method params; get = \<lambda>m k. object_field m (ustr k)
    in is_valid_object req \<and> is_valid_object note \<and>
       get req ''jsonrpc'' = Some (lit ''\"2.0\"'') \<and> get req ''params'' = Some params \<and>
       map_option decode_json_string (get req ''method'') = Some (Some method) \<and>
       map_option decode_json_string (get req ''id'') = Some (Some rid) \<and>
       get note ''params'' = Some params \<and>
       map_option decode_json_string (get note ''method'') = Some (Some method) \<and>
       get note ''id'' = None)"
proof -
  have v: "valid_text method" "valid_text rid" "json_value 1 params"
    using assms by (simp_all add: valid_text_def json_value_def)
  have q: "quoted ''2.0'' = lit ''\"2.0\"''" by (simp add: quoted_def lit_def)
  note m = object_field_text [OF request_members(1) [OF v]] object_field_text [OF request_members(2) [OF v]]
  show ?thesis
    using v by (simp add: Let_def message_texts m key_names [THEN key_of_names] decode_written flip: q)
qed

lemma rpc_messages_carry_fields_witness:
  "object_field (new_request [0x22] (ustr ''agent.pull'') (lit ''{\"n\":[1]}'')) (ustr ''params'') = Some (lit ''{\"n\":[1]}'')"
proof -
  have "list_all scalar_value (ustr ''agent.pull'')" "list_all scalar_value [0x22]"
    "value_end (lit ''{\"n\":[1]}'') 0 1 = Some (length (lit ''{\"n\":[1]}''))" by code_simp+
  from rpc_messages_carry_fields [OF this] show ?thesis by (simp add: Let_def)
qed

text \<open>
  A response is accepted exactly when its body is one valid JSON object with version 2.0, a
  result that is present and not null, and no error other than null; anything else, an HTML
  page of a proxy included, is rejected, and the error returned never contains text of the body.
\<close>

theorem validate_response_exact:
  "(validate_response body = Ok () \<longleftrightarrow>
    is_valid_object body \<and> object_field body (ustr ''jsonrpc'') = Some (lit ''\"2.0\"'') \<and>
    object_field body (ustr ''result'') \<notin> {None, Some (lit ''null'')} \<and>
    object_field body (ustr ''error'') \<in> {None, Some (lit ''null'')}) \<and>
   validate_response body \<in> {Ok (), Err ''server returned a JSON-RPC error'', Err ''invalid JSON-RPC response envelope''}"
proof -
  have "is_valid_object body" if "object_field body k = Some v" for k v
    using that by (auto simp: object_field_def is_valid_object_def Let_def split: if_splits option.splits)
  then show ?thesis
    by (auto simp: validate_response_def response_has_error_def split: option.splits)
qed

text \<open>The parameters of a startup configuration answer, and that they are a value themselves.\<close>

lemma startup_config_params_fields:
  assumes "valid_text rid" and "json_value 1 config"
  shows "object_field (build_startup_config_params rid config) (ustr ''config'') = Some config \<and>
    map_option decode_json_string (object_field (build_startup_config_params rid config) (ustr ''request_id'')) = Some (Some rid)"
proof -
  have "members_ok 0 [(quoted ''request_id'', json_string rid), (quoted ''config'', config)]"
    using assms
    by (auto simp: members_ok_def key_names key_names [THEN key_of_names] json_value_string)
  from object_field_text(2) [OF this] show ?thesis
    using assms by (simp add: message_texts key_names [THEN key_of_names] decode_written)
qed

end
