(* ===== verification/StdStr.thy ===== *)
theory StdStr
  imports Utf8
begin

text \<open>
  The string operations of Rust's standard library that the sources call, on byte slices and on
  texts alike: prefixes, splitting, trimming, and the decimal conversions of \<open>format!\<close> and
  \<open>str::parse\<close>.
\<close>

section \<open>Slices\<close>

text \<open>\<open>strip_prefix\<close> and \<open>strip_suffix\<close>.\<close>

definition strip_prefix_opt :: "'a list \<Rightarrow> 'a list \<Rightarrow> 'a list option" where
  "strip_prefix_opt p s = (if take (length p) s = p then Some (drop (length p) s) else None)"

definition strip_suffix_opt :: "'a list \<Rightarrow> 'a list \<Rightarrow> 'a list option" where
  "strip_suffix_opt p s =
    (if length p \<le> length s \<and> drop (length s - length p) s = p then Some (take (length s - length p) s) else None)"

text \<open>\<open>split_once\<close> at the first place a predicate holds, \<open>rsplit_once\<close> at the last, and \<open>split\<close>.\<close>

fun split_first :: "('a \<Rightarrow> bool) \<Rightarrow> 'a list \<Rightarrow> ('a list \<times> 'a list) option" where
  "split_first P [] = None"
| "split_first P (x # xs) = (if P x then Some ([], xs) else map_option (\<lambda>(a, b). (x # a, b)) (split_first P xs))"

definition split_last :: "('a \<Rightarrow> bool) \<Rightarrow> 'a list \<Rightarrow> ('a list \<times> 'a list) option" where
  "split_last P xs = map_option (\<lambda>(a, b). (rev b, rev a)) (split_first P (rev xs))"

fun split_all :: "('a \<Rightarrow> bool) \<Rightarrow> 'a list \<Rightarrow> 'a list list" where
  "split_all P [] = [[]]"
| "split_all P (x # xs) =
    (if P x then [] # split_all P xs
     else case split_all P xs of [] \<Rightarrow> [[x]] | part # parts \<Rightarrow> (x # part) # parts)"

text \<open>\<open>find\<close> of a pattern: the first position where it starts.\<close>

fun find_sub :: "'a list \<Rightarrow> 'a list \<Rightarrow> nat option" where
  "find_sub p [] = (if p = [] then Some 0 else None)"
| "find_sub p (x # xs) = (if take (length p) (x # xs) = p then Some 0 else map_option Suc (find_sub p xs))"

definition trim_start_by :: "('a \<Rightarrow> bool) \<Rightarrow> 'a list \<Rightarrow> 'a list" where
  "trim_start_by P s = dropWhile P s"

definition trim_end_by :: "('a \<Rightarrow> bool) \<Rightarrow> 'a list \<Rightarrow> 'a list" where
  "trim_end_by P s = rev (dropWhile P (rev s))"

definition trim_by :: "('a \<Rightarrow> bool) \<Rightarrow> 'a list \<Rightarrow> 'a list" where
  "trim_by P s = trim_end_by P (trim_start_by P s)"

text \<open>\<open>u8::is_ascii_whitespace\<close> and \<open>char::is_whitespace\<close>.\<close>

definition ascii_ws :: "u8 \<Rightarrow> bool" where
  "ascii_ws b \<longleftrightarrow> b = 0x20 \<or> b = 0x09 \<or> b = 0x0A \<or> b = 0x0C \<or> b = 0x0D"

definition char_ws :: "nat \<Rightarrow> bool" where
  "char_ws c \<longleftrightarrow> 9 \<le> c \<and> c \<le> 13 \<or> c = 0x20 \<or> c = 0x85 \<or> c = 0xA0 \<or> c = 0x1680 \<or>
    0x2000 \<le> c \<and> c \<le> 0x200A \<or> c = 0x2028 \<or> c = 0x2029 \<or> c = 0x202F \<or> c = 0x205F \<or> c = 0x3000"

definition trim :: "ustring \<Rightarrow> ustring" where
  "trim s = trim_by char_ws s"

definition lower_char :: "nat \<Rightarrow> nat" where
  "lower_char c = (if 65 \<le> c \<and> c \<le> 90 then c + 32 else c)"

text \<open>\<open>to_ascii_lowercase\<close> and \<open>eq_ignore_ascii_case\<close>.\<close>

definition ascii_lower :: "ustring \<Rightarrow> ustring" where
  "ascii_lower s = map lower_char s"

definition eq_ignore_case :: "ustring \<Rightarrow> ustring \<Rightarrow> bool" where
  "eq_ignore_case s t \<longleftrightarrow> ascii_lower s = ascii_lower t"

lemma strip_prefix_eq_Some: "strip_prefix_opt p s = Some t \<longleftrightarrow> s = p @ t"
proof
  show "strip_prefix_opt p s = Some t \<Longrightarrow> s = p @ t"
    by (auto simp: strip_prefix_opt_def split: if_splits) (metis append_take_drop_id)
qed (simp add: strip_prefix_opt_def)

lemma strip_suffix_eq_Some: "strip_suffix_opt p s = Some t \<longleftrightarrow> s = t @ p"
proof
  show "strip_suffix_opt p s = Some t \<Longrightarrow> s = t @ p"
    by (auto simp: strip_suffix_opt_def split: if_splits) (metis append_take_drop_id)
qed (simp add: strip_suffix_opt_def)

lemma split_first_eq_Some:
  "split_first P xs = Some (a, b) \<longleftrightarrow> (\<exists>x. xs = a @ x # b \<and> P x \<and> (\<forall>y\<in>set a. \<not> P y))"
proof (induction xs arbitrary: a)
  case (Cons y ys)
  show ?case
  proof (cases "P y")
    case False
    with Cons show ?thesis by (cases a) (auto simp: split: prod.splits)
  qed (cases a; auto)
qed simp

lemma split_first_eq_None: "split_first P xs = None \<longleftrightarrow> (\<forall>x\<in>set xs. \<not> P x)"
  by (induction xs) auto

lemma split_first_append: "\<lbrakk>\<forall>y\<in>set a. \<not> P y; P x\<rbrakk> \<Longrightarrow> split_first P (a @ x # b) = Some (a, b)"
  by (subst split_first_eq_Some) blast

lemma split_last_append: "\<lbrakk>\<forall>y\<in>set b. \<not> P y; P x\<rbrakk> \<Longrightarrow> split_last P (a @ x # b) = Some (a, b)"
  using split_first_append [of "rev b" P x "rev a"] by (simp add: split_last_def)

lemma split_last_eq_None: "split_last P xs = None \<longleftrightarrow> (\<forall>x\<in>set xs. \<not> P x)"
  by (simp add: split_last_def split_first_eq_None)

lemma split_last_eq_Some:
  "split_last P xs = Some (a, b) \<longleftrightarrow> (\<exists>x. xs = a @ x # b \<and> P x \<and> (\<forall>y\<in>set b. \<not> P y))"
proof
  assume "split_last P xs = Some (a, b)"
  then have "split_first P (rev xs) = Some (rev b, rev a)" by (auto simp: split_last_def)
  then obtain x where "rev xs = rev b @ x # rev a" "P x" "\<forall>y\<in>set (rev b). \<not> P y"
    unfolding split_first_eq_Some by blast
  then show "\<exists>x. xs = a @ x # b \<and> P x \<and> (\<forall>y\<in>set b. \<not> P y)" by (metis append.assoc append_Cons
      append_Nil rev_append rev_rev_ident rev_singleton_conv set_rev singleton_rev_conv)
qed (auto simp: split_last_append)

lemma find_sub_eq_Some:
  "find_sub p s = Some i \<Longrightarrow> i + length p \<le> length s \<and> take (length p) (drop i s) = p"
proof (induction s arbitrary: i)
  case (Cons x xs)
  show ?case
  proof (cases "take (length p) (x # xs) = p")
    case True
    then have "length p \<le> length (x # xs)" by (metis length_take min.cobounded1 min.commute)
    with True Cons.prems show ?thesis by auto
  qed (use Cons in auto)
qed (auto split: if_splits)

lemma trim_by_plain:
  assumes "s = [] \<or> \<not> P (hd s) \<and> \<not> P (last s)"
  shows "trim_by P s = s"
proof -
  have "dropWhile P s = s" using assms by (cases s) auto
  moreover have "dropWhile P (rev s) = rev s" using assms by (cases s rule: rev_cases) auto
  ultimately show ?thesis by (simp add: trim_by_def trim_start_by_def trim_end_by_def)
qed

section \<open>Decimal numbers\<close>

text \<open>What \<open>format!(\"{}\", n)\<close> writes for an unsigned and for a signed integer.\<close>

fun dec :: "nat \<Rightarrow> ustring" where
  "dec n = (if n < 10 then [48 + n] else dec (n div 10) @ [48 + n mod 10])"

declare dec.simps [simp del]

definition dec_int :: "int \<Rightarrow> ustring" where
  "dec_int i = (if i < 0 then 45 # dec (nat (- i)) else dec (nat i))"

text \<open>
  \<open>str::parse\<close> of an integer type with range \<open>lo\<close> to \<open>hi\<close>: an optional sign (the minus only for
  signed types), at least one digit, nothing else, and no overflow.
\<close>

definition dec_digit :: "nat \<Rightarrow> bool" where
  "dec_digit c \<longleftrightarrow> 48 \<le> c \<and> c \<le> 57"

definition dec_value :: "ustring \<Rightarrow> nat" where
  "dec_value s = foldl (\<lambda>acc c. 10 * acc + (c - 48)) 0 s"

definition parse_digits :: "ustring \<Rightarrow> nat option" where
  "parse_digits s = (if s \<noteq> [] \<and> list_all dec_digit s then Some (dec_value s) else None)"

definition parse_unsigned :: "nat \<Rightarrow> ustring \<Rightarrow> nat option" where
  "parse_unsigned hi s =
    (case parse_digits (case s of [] \<Rightarrow> [] | c # cs \<Rightarrow> if c = 43 then cs else s) of
       None \<Rightarrow> None | Some n \<Rightarrow> if n \<le> hi then Some n else None)"

definition parse_signed :: "int \<Rightarrow> int \<Rightarrow> ustring \<Rightarrow> int option" where
  "parse_signed lo hi s =
    (let neg = (s \<noteq> [] \<and> hd s = 45); body = (if s \<noteq> [] \<and> (hd s = 45 \<or> hd s = 43) then tl s else s)
     in case parse_digits body of
          None \<Rightarrow> None
        | Some n \<Rightarrow> let i = (if neg then - int n else int n) in if lo \<le> i \<and> i \<le> hi then Some i else None)"

abbreviation parse_i64 :: "ustring \<Rightarrow> int option" where
  "parse_i64 \<equiv> parse_signed (- (2 ^ 63)) (2 ^ 63 - 1)"

lemma dec_digits: "dec n \<noteq> [] \<and> list_all dec_digit (dec n)"
proof (induction n rule: dec.induct)
  case (1 n)
  then show ?case by (auto simp: dec.simps [of n] dec_digit_def)
qed

lemma dec_value_snoc: "dec_value (s @ [c]) = 10 * dec_value s + (c - 48)"
  by (simp add: dec_value_def)

lemma dec_value_dec: "dec_value (dec n) = n"
proof (induction n rule: dec.induct)
  case (1 n)
  show ?case
  proof (cases "n < 10")
    case True
    then show ?thesis by (simp add: dec.simps [of n] dec_value_def)
  next
    case False
    with 1 have "dec_value (dec n) = 10 * (n div 10) + n mod 10"
      by (simp add: dec.simps [of n] dec_value_snoc)
    then show ?thesis by simp
  qed
qed

lemma dec_hd: "48 \<le> hd (dec n) \<and> hd (dec n) \<le> 57"
  using dec_digits [of n] by (cases "dec n") (auto simp: dec_digit_def)

lemma dec_not_Nil [simp]: "dec n \<noteq> []"
  using dec_digits by blast

lemma parse_digits_dec [simp]: "parse_digits (dec n) = Some n"
  using dec_digits by (simp add: parse_digits_def dec_value_dec)

lemma parse_unsigned_dec: "n \<le> hi \<Longrightarrow> parse_unsigned hi (dec n) = Some n"
  using dec_hd [of n] parse_digits_dec [of n] by (cases "dec n") (auto simp: parse_unsigned_def)

lemma parse_signed_dec:
  assumes "lo \<le> i" and "i \<le> hi"
  shows "parse_signed lo hi (dec_int i) = Some i"
proof (cases "i < 0")
  case True
  with assms show ?thesis by (simp add: parse_signed_def dec_int_def)
next
  case False
  then have "hd (dec_int i) \<noteq> 45" "hd (dec_int i) \<noteq> 43"
    using dec_hd [of "nat i"] by (auto simp: dec_int_def)
  with False assms show ?thesis by (simp add: parse_signed_def dec_int_def)
qed

end
