(* ===== verification/Tasks.thy ===== *)
theory Tasks
  imports Rpc StdStr "HOL-Library.Signed_Division"
begin

text \<open>
  Server-sent tasks: \<open>server/task.rs\<close>.  Fields are looked up in the event and in its nested
  \<open>params\<close>; results are sent back as JSON with a UTC time stamp.  The clock, the probes and the
  subprocess are inputs.
\<close>

section \<open>Classification and fields\<close>

datatype task_kind = ExecTask | PingTask | TerminalTask

definition from_method :: "ustring \<Rightarrow> task_kind option" where
  "from_method method =
    (if method = ustr ''agent.exec'' then Some ExecTask
     else if method = ustr ''agent.ping'' then Some PingTask
     else if method = ustr ''agent.terminal.request'' then Some TerminalTask
     else None)"

definition lookup_field :: "bytes \<Rightarrow> ustring \<Rightarrow> bytes option" where
  "lookup_field data key =
    (case object_field data key of
       Some v \<Rightarrow> Some v
     | None \<Rightarrow> (case object_field data (ustr ''params'') of None \<Rightarrow> None | Some p \<Rightarrow> object_field p key))"

definition extract_json_raw :: "bytes \<Rightarrow> ustring \<Rightarrow> bytes option" where
  "extract_json_raw data key = lookup_field data key"

definition extract_json_string :: "bytes \<Rightarrow> ustring \<Rightarrow> ustring option" where
  "extract_json_string params key =
    (case lookup_field params key of None \<Rightarrow> None | Some raw \<Rightarrow> decode_json_string raw)"

definition extract_json_number :: "bytes \<Rightarrow> ustring \<Rightarrow> int option" where
  "extract_json_number params key =
    (case lookup_field params key of
       None \<Rightarrow> None
     | Some raw \<Rightarrow>
         (case from_utf8 raw of None \<Rightarrow> None | Some s \<Rightarrow> parse_i64 (trim_by (\<lambda>c. c = 0x22) s)))"

definition extract_json_method :: "bytes \<Rightarrow> ustring option" where
  "extract_json_method params = extract_json_string params (ustr ''method'')"

definition parse_ping_params :: "bytes \<Rightarrow> (ustring \<times> ustring) option" where
  "parse_ping_params params =
    (case (case extract_json_string params (ustr ''pingType'') of
             Some t \<Rightarrow> Some t | None \<Rightarrow> extract_json_string params (ustr ''ping_type'')) of
       None \<Rightarrow> None
     | Some ping_type \<Rightarrow>
         (case extract_json_string params (ustr ''target'') of
            None \<Rightarrow> None | Some target \<Rightarrow> Some (ping_type, target)))"

section \<open>Time stamps\<close>

text \<open>
  \<open>civil_from_days\<close>: the machine integers of the source are held as integers; \<open>sdiv\<close> is the
  truncating division of \<open>i64\<close>.  No intermediate value leaves its type (below).
\<close>

definition year_of_era :: "int \<Rightarrow> int" where
  "year_of_era doe = (doe - doe div 1460 + doe div 36524 - doe div 146096) div 365"

definition civil_from_days :: "int \<Rightarrow> int \<times> int \<times> int" where
  "civil_from_days z0 =
    (let z = z0 + 719468;
         era = (if z \<ge> 0 then z else z - 146096) sdiv 146097;
         doe = z - era * 146097;
         yoe = year_of_era doe;
         y = yoe + era * 400;
         doy = doe - (365 * yoe + yoe div 4 - yoe div 100);
         mp = (5 * doy + 2) div 153;
         d = doy - (153 * mp + 2) div 5 + 1;
         m = (if mp < 10 then mp + 3 else mp - 9)
     in (y + (if m \<le> 2 then 1 else 0), m, d))"

text \<open>\<open>{:04}\<close> and \<open>{:02}\<close>.\<close>

definition dec_pad :: "nat \<Rightarrow> nat \<Rightarrow> ustring" where
  "dec_pad w n = replicate (w - length (dec n)) 48 @ dec n"

definition iso8601 :: "nat \<Rightarrow> ustring" where
  "iso8601 secs =
    (let days = secs div 86400; time_of_day = secs mod 86400;
         hours = time_of_day div 3600; minutes = time_of_day mod 3600 div 60; seconds = time_of_day mod 60;
         (year, month, day) = civil_from_days (int days)
     in dec_pad 4 (nat year) @ [45] @ dec_pad 2 (nat month) @ [45] @ dec_pad 2 (nat day) @ [84] @
        dec_pad 2 hours @ [58] @ dec_pad 2 minutes @ [58] @ dec_pad 2 seconds @ [90])"

section \<open>Ping\<close>

record ping_result =
  pr_type :: ustring
  pr_value :: int

definition build_payload :: "nat \<Rightarrow> ping_result \<Rightarrow> nat \<Rightarrow> nat \<Rightarrow> bytes" where
  "build_payload now r task_id protocol_version =
    as_bytes ((if protocol_version \<ge> 2 then ustr ''{\"task_id\":'' else ustr ''{\"type\":\"ping_result\",\"task_id\":'') @
      dec task_id @ ustr '',\"ping_type\":\"'' @ pr_type r @ ustr ''\",\"value\":'' @ dec_int (pr_value r) @
      ustr '',\"finished_at\":\"'' @ iso8601 now @ ustr ''\"}'')"

definition high_latency_threshold_ms :: int where "high_latency_threshold_ms = 1000"
definition max_latency_retries :: nat where "max_latency_retries = 3"
definition tcp_retransmission_drop_threshold_ms :: int where "tcp_retransmission_drop_threshold_ms = 800"

text \<open>
  The measurements are numbered: \<open>probe k\<close> is what the \<open>k\<close>-th probe returns.  The loop runs over
  the attempts; the result comes with the number of probes made.
\<close>

fun retry_loop :: "bool \<Rightarrow> (nat \<Rightarrow> int) \<Rightarrow> int \<Rightarrow> int \<Rightarrow> nat list \<Rightarrow> nat \<Rightarrow> int \<times> nat" where
  "retry_loop tcp probe first best [] made = (best, made)"
| "retry_loop tcp probe first best (attempt # attempts) made =
    (let rtt = probe made
     in if rtt < 0 then (best, Suc made)
        else if tcp \<and> attempt = 0 \<and> first - rtt > tcp_retransmission_drop_threshold_ms then (-1, Suc made)
        else let best' = (if rtt < best then rtt else best)
             in if rtt \<le> high_latency_threshold_ms then (best', Suc made)
                else retry_loop tcp probe first best' attempts (Suc made))"

definition measure_with_retry :: "ustring \<Rightarrow> (nat \<Rightarrow> int) \<Rightarrow> int \<times> nat" where
  "measure_with_retry ping_type probe =
    (let first = probe 0
     in if first < 0 \<or> first \<le> high_latency_threshold_ms then (first, 1)
        else retry_loop (ping_type = ustr ''tcp'') probe first first [0..<max_latency_retries] 1)"

text \<open>The probes of the three kinds.\<close>

record probes =
  icmp_probe :: "nat \<Rightarrow> int"
  tcp_probe :: "nat \<Rightarrow> int"
  http_probe :: "nat \<Rightarrow> int"

definition ping_http_tier :: "probes \<Rightarrow> ping_result" where
  "ping_http_tier p =
    \<lparr>pr_type = ustr ''http'', pr_value = fst (measure_with_retry (ustr ''http'') (http_probe p))\<rparr>"

definition ping_tcp_tier :: "probes \<Rightarrow> ping_result" where
  "ping_tcp_tier p =
    (let rtt = fst (measure_with_retry (ustr ''tcp'') (tcp_probe p))
     in if rtt \<ge> 0 then \<lparr>pr_type = ustr ''tcp'', pr_value = rtt\<rparr> else ping_http_tier p)"

definition handle_ping :: "ustring \<Rightarrow> probes \<Rightarrow> ping_result" where
  "handle_ping ping_type p =
    (if ping_type = ustr ''icmp''
     then (let rtt = fst (measure_with_retry (ustr ''icmp'') (icmp_probe p))
           in if rtt \<ge> 0 then \<lparr>pr_type = ustr ''icmp'', pr_value = rtt\<rparr> else ping_tcp_tier p)
     else if ping_type = ustr ''tcp'' then ping_tcp_tier p
     else if ping_type = ustr ''http'' then ping_http_tier p
     else \<lparr>pr_type = ustr ''unknown'', pr_value = -1\<rparr>)"

section \<open>Remote commands\<close>

record exec_result =
  ex_output :: ustring
  ex_code :: int

datatype stop_reason = Exited | TimedOutReason | OutputLimit

text \<open>What \<open>subprocess::run\<close> returns; the exit code is absent when a signal ended the process.\<close>

record run_output =
  ro_stdout :: bytes
  ro_stderr :: bytes
  ro_code :: "int option"
  ro_reason :: stop_reason

text \<open>
  \<open>String::from_utf8_lossy\<close>: a maximal ill-formed part (the longest prefix of a well-formed
  sequence, or one byte) becomes one U+FFFD.
\<close>

definition second_ok :: "nat \<Rightarrow> nat \<Rightarrow> bool" where
  "second_ok b0 b1 \<longleftrightarrow>
    (if b0 = 0xE0 then 0xA0 \<le> b1 \<and> b1 \<le> 0xBF
     else if b0 = 0xED then 0x80 \<le> b1 \<and> b1 \<le> 0x9F
     else if b0 = 0xF0 then 0x90 \<le> b1 \<and> b1 \<le> 0xBF
     else if b0 = 0xF4 then 0x80 \<le> b1 \<and> b1 \<le> 0x8F
     else 0xE1 \<le> b0 \<and> b0 \<le> 0xF3 \<and> 0x80 \<le> b1 \<and> b1 \<le> 0xBF)"

definition bad_prefix :: "bytes \<Rightarrow> nat" where
  "bad_prefix bs =
    (case bs of
       b0 # b1 # b2 # _ \<Rightarrow>
         (if \<not> second_ok (unat b0) (unat b1) then 1
          else if unat b0 < 0xF0 then 2 else if cont_byte b2 \<noteq> None then 3 else 2)
     | [b0, b1] \<Rightarrow> (if second_ok (unat b0) (unat b1) then 2 else 1)
     | _ \<Rightarrow> 1)"

function from_utf8_lossy :: "bytes \<Rightarrow> ustring" where
  "from_utf8_lossy bs =
    (if bs = [] then []
     else case decode_char bs of
            Some (c, rest) \<Rightarrow> c # from_utf8_lossy rest
          | None \<Rightarrow> 0xFFFD # from_utf8_lossy (drop (bad_prefix bs) bs))"
  by auto
termination from_utf8_lossy
  by (relation "measure length") (auto dest: decode_char_shorter simp: bad_prefix_def split: list.splits)

declare from_utf8_lossy.simps [simp del]

text \<open>\<open>replace(\"\\r\\n\", \"\\n\")\<close>.\<close>

fun crlf_to_lf :: "ustring \<Rightarrow> ustring" where
  "crlf_to_lf [] = []"
| "crlf_to_lf (c # cs) = (if c = 13 \<and> cs \<noteq> [] \<and> hd cs = 10 then crlf_to_lf cs else c # crlf_to_lf cs)"

definition normalize_output :: "bytes \<Rightarrow> bytes \<Rightarrow> int option \<Rightarrow> exec_result" where
  "normalize_output stdout stderr code =
    (let combined = from_utf8_lossy stdout;
         combined1 = (if stderr = [] then combined
                      else (if combined = [] then combined else combined @ [10]) @ from_utf8_lossy stderr)
     in \<lparr>ex_output = crlf_to_lf combined1, ex_code = (case code of None \<Rightarrow> -1 | Some c \<Rightarrow> c)\<rparr>)"

definition exec_result_of :: "nat \<Rightarrow> ustring + run_output \<Rightarrow> exec_result" where
  "exec_result_of output_limit result =
    (case result of
       Inr r \<Rightarrow>
         (let exec = normalize_output (ro_stdout r) (ro_stderr r) (ro_code r)
          in case ro_reason r of
               Exited \<Rightarrow> exec
             | TimedOutReason \<Rightarrow>
                 \<lparr>ex_output = ex_output exec @ 10 # ustr ''[komari] command timed out after 30s and was killed'',
                  ex_code = -124\<rparr>
             | OutputLimit \<Rightarrow>
                 \<lparr>ex_output = ex_output exec @ 10 # ustr ''[komari] command output exceeded '' @ dec output_limit @
                    ustr '' bytes; output truncated and command stopped'',
                  ex_code = -125\<rparr>)
     | Inl e \<Rightarrow> \<lparr>ex_output = ustr ''failed to execute command: '' @ e, ex_code = -1\<rparr>)"

text \<open>On Unix; \<open>None\<close> as second component: no process was started.\<close>

definition execute_exec ::
  "nat \<Rightarrow> (bytes \<Rightarrow> ustring + run_output) \<Rightarrow> ustring \<Rightarrow> bool \<Rightarrow> exec_result \<times> bytes option" where
  "execute_exec output_limit run command disable_exec =
    (if disable_exec then (\<lparr>ex_output = ustr ''Remote control is disabled.'', ex_code = -1\<rparr>, None)
     else if trim command = [] then (\<lparr>ex_output = ustr ''No command provided'', ex_code = 0\<rparr>, None)
     else (exec_result_of output_limit (run (as_bytes command)), Some (as_bytes command)))"

section \<open>Task results\<close>

text \<open>\<open>{:04x}\<close> for the control characters.\<close>

definition json_escape_char :: "nat \<Rightarrow> ustring" where
  "json_escape_char c =
    (if c = 0x22 then [0x5C, 0x22] else if c = 0x5C then [0x5C, 0x5C]
     else if c = 10 then [0x5C, 0x6E] else if c = 13 then [0x5C, 0x72] else if c = 9 then [0x5C, 0x74]
     else if c < 0x20
     then [0x5C, 0x75, 0x30, 0x30, 0x30 + c div 16, (if c mod 16 < 10 then 0x30 + c mod 16 else 0x61 + c mod 16 - 10)]
     else [c])"

definition json_escape :: "ustring \<Rightarrow> ustring" where
  "json_escape s = concat (map json_escape_char s)"

definition task_result_text :: "nat \<Rightarrow> ustring \<Rightarrow> ustring \<Rightarrow> int \<Rightarrow> ustring" where
  "task_result_text now task_id result exit_code =
    ustr ''{\"task_id\":\"'' @ json_escape task_id @ ustr ''\",\"result\":\"'' @ json_escape result @
    ustr ''\",\"exit_code\":'' @ dec_int exit_code @ ustr '',\"finished_at\":\"'' @ iso8601 now @ ustr ''\"}''"

definition build_task_result :: "nat \<Rightarrow> ustring \<Rightarrow> ustring \<Rightarrow> int \<Rightarrow> bytes" where
  "build_task_result now task_id result exit_code = as_bytes (task_result_text now task_id result exit_code)"

definition build_task_result_v2 :: "nat \<Rightarrow> ustring \<Rightarrow> ustring \<Rightarrow> int \<Rightarrow> bytes" where
  "build_task_result_v2 now task_id result exit_code =
    new_notification method_agent_task_result (as_bytes (task_result_text now task_id result exit_code))"

end
