(* ===== verification/Calendar.thy ===== *)
theory Calendar
  imports Tasks
begin

text \<open>
  \<open>civil_from_days\<close> of \<open>server/task.rs\<close> computes the proleptic Gregorian calendar: the date of a day
  number is reached from 1970-01-01 by stepping day by day.
\<close>

section \<open>The calendar\<close>

definition leap_year :: "int \<Rightarrow> bool" where
  "leap_year y \<longleftrightarrow> y mod 4 = 0 \<and> (y mod 100 \<noteq> 0 \<or> y mod 400 = 0)"

definition days_in_month :: "int \<Rightarrow> int \<Rightarrow> int" where
  "days_in_month y m =
    (if m = 2 then if leap_year y then 29 else 28 else if m \<in> {4, 6, 9, 11} then 30 else 31)"

definition next_day :: "int \<times> int \<times> int \<Rightarrow> int \<times> int \<times> int" where
  "next_day date = (case date of (y, m, d) \<Rightarrow>
    if d < days_in_month y m then (y, m, d + 1) else if m < 12 then (y, m + 1, 1) else (y + 1, 1, 1))"

section \<open>Years of an era\<close>

text \<open>Years start in March; the last day of an era is its only 366th day of a century year.\<close>

definition year_start :: "int \<Rightarrow> int" where
  "year_start y = 365 * y + y div 4 - y div 100"

definition year_end :: "int \<Rightarrow> int" where
  "year_end y = (if y = 399 then 146097 else year_start (y + 1))"

lemma div_between: "\<lbrakk>0 < b; k * b \<le> a; a < k * b + b\<rbrakk> \<Longrightarrow> a div b = (k :: int)"
  by (rule int_div_pos_eq [of _ _ _ "a - k * b"]) auto

lemma div_bounds: "0 < b \<Longrightarrow> b * (a div b) \<le> a \<and> a < b * (a div b) + (b :: int)"
  using pos_mod_bound [of b a] pos_mod_sign [of b a] mult_div_mod_eq [of b a] by linarith

text \<open>A year of an era is a century, a group of four years and a year of the group.\<close>

lemma year_parts:
  assumes "0 \<le> y" and "y \<le> 399"
  obtains c q r where "y = 100 * c + 4 * q + r" "0 \<le> c" "c \<le> 3" "0 \<le> q" "q \<le> 24" "0 \<le> r" "r \<le> (3::int)"
    "year_start y = 36524 * c + 1461 * q + 365 * r"
proof -
  define c q r where "c = y div 100" and "q = y mod 100 div 4" and "r = y mod 100 mod 4"
  have cb: "100 * c \<le> y \<and> y < 100 * c + 100" unfolding c_def by (rule div_bounds) simp
  have qb: "4 * q \<le> y mod 100 \<and> y mod 100 < 4 * q + 4" unfolding q_def by (rule div_bounds) simp
  have y: "y = 100 * c + 4 * q + r" by (simp add: c_def q_def r_def)
  have r: "0 \<le> r" "r \<le> 3" by (simp_all add: r_def)
  have m: "0 \<le> y mod 100" "y mod 100 < 100" by simp_all
  have q: "0 \<le> q" "q \<le> 24" using qb m by linarith+
  have c: "0 \<le> c" "c \<le> 3" using cb assms by linarith+
  have "y div 4 = 25 * c + q" by (rule div_between) (use y r in simp_all)
  moreover have "y div 100 = c" by (simp add: c_def)
  ultimately have "year_start y = 36524 * c + 1461 * q + 365 * r" by (simp add: year_start_def y)
  with y c q r show ?thesis by (rule that)
qed

lemma year_parts_next:
  assumes "y = 100 * c + 4 * q + r" "0 \<le> c" "c \<le> 3" "0 \<le> q" "q \<le> 24" "0 \<le> r" "r \<le> (3::int)"
  shows "leap_year (y + 1) \<longleftrightarrow> r = 3 \<and> (q \<noteq> 24 \<or> c = 3)"
    and "(y + 1) div 4 = 25 * c + q + (if r = 3 then 1 else 0)"
    and "(y + 1) div 100 = c + (if q = 24 \<and> r = 3 then 1 else 0)"
proof -
  have m: "(a + b) mod b = 0 \<longleftrightarrow> a mod b = 0" for a b :: int by simp
  have z: "x mod b = 0 \<longleftrightarrow> x = 0 \<or> x = b" if "0 \<le> x" "x \<le> b" "0 < b" for x b :: int
    using that by (cases "x = b") (auto simp: zmod_trivial_iff)
  have "(y + 1) mod 4 = (r + 1) mod 4"
    using mod_mult_self4 [of 4 "25 * c + q" "r + 1"] assms(1) by (simp add: algebra_simps)
  then have 4: "(y + 1) mod 4 = 0 \<longleftrightarrow> r = 3" using z [of "r + 1" 4] assms by auto
  have "(y + 1) mod 100 = (4 * q + r + 1) mod 100"
    using mod_mult_self4 [of 100 c "4 * q + r + 1"] assms(1) by (simp add: algebra_simps)
  moreover have "4 * q + r + 1 = 100 \<longleftrightarrow> q = 24 \<and> r = 3" using assms by presburger
  ultimately have 100: "(y + 1) mod 100 = 0 \<longleftrightarrow> q = 24 \<and> r = 3" using z [of "4 * q + r + 1" 100] assms by simp
  have "y + 1 = 400 \<longleftrightarrow> c = 3 \<and> q = 24 \<and> r = 3" using assms by presburger
  then have 400: "(y + 1) mod 400 = 0 \<longleftrightarrow> c = 3 \<and> q = 24 \<and> r = 3" using z [of "y + 1" 400] assms by simp
  show "leap_year (y + 1) \<longleftrightarrow> r = 3 \<and> (q \<noteq> 24 \<or> c = 3)" using 4 100 400 by (auto simp: leap_year_def)
  show "(y + 1) div 4 = 25 * c + q + (if r = 3 then 1 else 0)"
    "(y + 1) div 100 = c + (if q = 24 \<and> r = 3 then 1 else 0)"
    by (rule div_between; use assms in auto)+
qed

lemma year_length:
  assumes "0 \<le> y" and "y \<le> 399"
  shows "year_end y - year_start y = (if leap_year (y + 1) then 366 else 365)"
proof -
  obtain c q r where p: "y = 100 * c + 4 * q + r" "0 \<le> c" "c \<le> 3" "0 \<le> q" "q \<le> 24" "0 \<le> r" "r \<le> 3"
    "year_start y = 36524 * c + 1461 * q + 365 * r"
    using assms by (rule year_parts)
  note n = year_parts_next [OF p(1-7)]
  have 399: "y = 399 \<longleftrightarrow> c = 3 \<and> q = 24 \<and> r = 3" using p(1-7) by presburger
  have "year_start (y + 1) = 365 * (y + 1) + (25 * c + q + (if r = 3 then 1 else 0)) - (c + (if q = 24 \<and> r = 3 then 1 else 0))"
    by (simp only: year_start_def n)
  then show ?thesis using p 399 n(1) by (auto simp: year_end_def)
qed

lemma year_end_le:
  assumes "0 \<le> y" and "y \<le> 399"
  shows "year_end y \<le> 146097"
proof -
  obtain c q r where p: "y = 100 * c + 4 * q + r" "0 \<le> c" "c \<le> 3" "0 \<le> q" "q \<le> 24" "0 \<le> r" "r \<le> 3"
    "year_start y = 36524 * c + 1461 * q + 365 * r"
    using assms by (rule year_parts)
  with year_length [OF assms] show ?thesis by (auto split: if_splits)
qed

lemma year_of_era_unique:
  assumes "0 \<le> y" and "y \<le> 399" and "year_start y \<le> doe" and "doe < year_end y"
  shows "year_of_era doe = y"
proof -
  obtain c q r where p: "y = 100 * c + 4 * q + r" "0 \<le> c" "c \<le> 3" "0 \<le> q" "q \<le> 24" "0 \<le> r" "r \<le> 3"
    "year_start y = 36524 * c + 1461 * q + 365 * r"
    using assms(1,2) by (rule year_parts)
  note lp = year_parts_next(1) [OF p(1-7)]
  define t where "t = doe - year_start y"
  have t: "0 \<le> t" "t \<le> 364 \<or> t = 365 \<and> r = 3 \<and> (q \<noteq> 24 \<or> c = 3)"
    using assms(3,4) year_length [OF assms(1,2)] lp by (auto simp: t_def split: if_splits)
  define lp' where "lp' = (if 1460 \<le> 24 * c + q + 365 * r + t then 1 else 0 :: int)"
  have doe: "doe = 36524 * c + 1461 * q + 365 * r + t" using p by (simp add: t_def)
  have 1: "doe div 1460 = 25 * c + q + lp'"
    using doe p t by (intro div_between) (auto simp: lp'_def)
  have 2: "doe div 36524 - doe div 146096 = c"
  proof (cases "doe < 146096")
    case True
    then have "doe div 146096 = 0" using doe p t by (intro div_between) auto
    moreover have "doe div 36524 = c" using True doe p t by (intro div_between) auto
    ultimately show ?thesis by simp
  next
    case False
    then have "doe div 146096 = 1" using doe p t by (intro div_between) auto
    moreover have "c = 3" using False doe p t by linarith
    moreover have "doe div 36524 = 4" using False doe p t by (intro div_between) auto
    ultimately show ?thesis by simp
  qed
  have "(doe - doe div 1460 + (doe div 36524 - doe div 146096)) div 365 = y"
    unfolding 1 2 using doe p t by (intro div_between) (auto simp: lp'_def)
  then show ?thesis by (simp add: year_of_era_def algebra_simps)
qed

lemma year_of_day:
  assumes "0 \<le> doe" and "doe < 146097"
  shows "0 \<le> year_of_era doe" "year_of_era doe \<le> 399"
    "year_start (year_of_era doe) \<le> doe" "doe < year_end (year_of_era doe)"
proof -
  have "\<exists>y. 0 \<le> y \<and> y \<le> 399 \<and> year_start y \<le> doe \<and> doe < year_end y"
  proof (rule ccontr)
    assume no: "\<not> ?thesis"
    have "int n \<le> 399 \<longrightarrow> year_start (int n) \<le> doe" for n
    proof (induction n)
      case 0
      then show ?case using assms by (simp add: year_start_def)
    next
      case (Suc n)
      show ?case
      proof
        assume s: "int (Suc n) \<le> 399"
        with Suc have "year_start (int n) \<le> doe" by simp
        with no s have "year_end (int n) \<le> doe" by force
        with s show "year_start (int (Suc n)) \<le> doe" by (simp add: year_end_def ac_simps)
      qed
    qed
    from this [of 399] no assms show False by (force simp: year_end_def)
  qed
  then obtain y where y: "0 \<le> y" "y \<le> 399" "year_start y \<le> doe" "doe < year_end y" by blast
  with year_of_era_unique [OF this] show "0 \<le> year_of_era doe" "year_of_era doe \<le> 399"
    "year_start (year_of_era doe) \<le> doe" "doe < year_end (year_of_era doe)" by simp_all
qed

section \<open>Days of a year\<close>

definition march_day :: "int \<Rightarrow> int \<times> int" where
  "march_day doy =
    (let mp = (5 * doy + 2) div 153
     in (if mp < 10 then mp + 3 else mp - 9, doy - (153 * mp + 2) div 5 + 1))"

definition era_date :: "int \<Rightarrow> int \<Rightarrow> int \<times> int \<times> int" where
  "era_date era doe =
    (let yoe = year_of_era doe; (m, d) = march_day (doe - year_start yoe)
     in (yoe + era * 400 + (if m \<le> 2 then 1 else 0), m, d))"

lemma civil_from_days_era:
  assumes "0 \<le> z"
  shows "civil_from_days (z - 719468) = era_date (z div 146097) (z mod 146097)"
proof -
  have "z sdiv 146097 = z div 146097" using assms by (cases "z = 0") (simp_all add: signed_divide_int_def sgn_if)
  moreover have "z - z div 146097 * 146097 = z mod 146097" by (simp add: minus_div_mult_eq_mod)
  moreover have "z - 719468 + 719468 = z" by simp
  ultimately show ?thesis
    using assms by (simp only: civil_from_days_def era_date_def march_day_def year_start_def Let_def if_True prod.case)
qed

lemma march_step:
  assumes "0 \<le> doy" and "doy \<le> 365" and "march_day doy = (m, d)"
  shows "1 \<le> m" "m \<le> 12" "1 \<le> d"
    and "doy = 364 \<longleftrightarrow> m = 2 \<and> d = 28" "doy = 365 \<longleftrightarrow> m = 2 \<and> d = 29" "m = 2 \<Longrightarrow> d \<le> 29"
    and "doy < 364 \<Longrightarrow> march_day (doy + 1) =
      (if d < (if m \<in> {4, 6, 9, 11} then 30 else 31) then (m, d + 1) else if m < 12 then (m + 1, 1) else (1, 1))"
proof -
  define mp where "mp = (5 * doy + 2) div 153"
  have mp: "153 * mp \<le> 5 * doy + 2" "5 * doy + 2 < 153 * mp + 153" using div_bounds [of 153 "5 * doy + 2"] by (simp_all add: mp_def)
  then have "0 \<le> mp" "mp \<le> 11" using assms(1,2) by linarith+
  then have "mp = 0 \<or> mp = 1 \<or> mp = 2 \<or> mp = 3 \<or> mp = 4 \<or> mp = 5 \<or> mp = 6 \<or> mp = 7 \<or> mp = 8 \<or> mp = 9 \<or>
      mp = 10 \<or> mp = 11" by presburger
  note mp_cases = this
  define np where "np = (5 * (doy + 1) + 2) div 153"
  have np: "153 * np \<le> 5 * doy + 7" "5 * doy + 7 < 153 * np + 153" using div_bounds [of 153 "5 * (doy + 1) + 2"] by (simp_all add: np_def)
  then have np_cases: "np = mp \<or> np = mp + 1" using mp by linarith
  have md: "m = (if mp < 10 then mp + 3 else mp - 9)" "d = doy - (153 * mp + 2) div 5 + 1"
    using assms(3) by (auto simp: march_day_def Let_def mp_def)
  have "march_day (doy + 1) = (if np < 10 then np + 3 else np - 9, doy + 1 - (153 * np + 2) div 5 + 1)"
    by (simp add: march_day_def Let_def np_def)
  note np_eq = this
  show "1 \<le> m" "m \<le> 12" "1 \<le> d" "m = 2 \<Longrightarrow> d \<le> 29"
    using mp_cases md mp assms(2) by (elim disjE; simp)+
  show "doy = 364 \<longleftrightarrow> m = 2 \<and> d = 28" "doy = 365 \<longleftrightarrow> m = 2 \<and> d = 29"
    using mp_cases md mp assms(2) by (elim disjE; auto)+
  show "march_day (doy + 1) =
      (if d < (if m \<in> {4, 6, 9, 11} then 30 else 31) then (m, d + 1) else if m < 12 then (m + 1, 1) else (1, 1))"
    if "doy < 364"
  proof -
    have cases: "P" if "\<And>k. \<lbrakk>mp = k; np = k\<rbrakk> \<Longrightarrow> P" "\<And>k. \<lbrakk>mp = k; np = k + 1\<rbrakk> \<Longrightarrow> P" for P
      using that np_cases by blast
    show ?thesis
      by (rule cases) (use mp_cases in \<open>elim disjE; use np_eq md mp np that in \<open>force\<close>\<close>)+
  qed
qed

section \<open>One day later\<close>

lemma leap_year_era: "leap_year (y + era * 400) = leap_year y"
proof -
  have "(y + era * 400) mod 4 = y mod 4" "(y + era * 400) mod 100 = y mod 100"
    using mod_mult_self1 [of y "era * 100" 4] mod_mult_self1 [of y "era * 4" 100] by (simp_all add: ac_simps)
  then show ?thesis by (simp add: leap_year_def)
qed

lemma next_day_era:
  assumes "0 \<le> doe" and "doe < 146097"
  shows "next_day (era_date era doe) =
    (if doe + 1 < 146097 then era_date era (doe + 1) else era_date (era + 1) 0)"
proof -
  let ?y = "year_of_era doe"
  note y = year_of_day [OF assms]
  define doy where "doy = doe - year_start ?y"
  obtain m d where md: "march_day doy = (m, d)" by fastforce
  have len: "year_end ?y - year_start ?y = (if leap_year (?y + 1) then 366 else 365)"
    by (rule year_length [OF y(1,2)])
  have doy: "0 \<le> doy" "doy \<le> 365" using y(3,4) len by (auto simp: doy_def split: if_splits)
  note step = march_step [OF doy md]
  have date: "era_date era doe = (?y + era * 400 + (if m \<le> 2 then 1 else 0), m, d)"
    using md by (simp add: era_date_def doy_def)
  show ?thesis
  proof (cases "doe + 1 < year_end ?y")
    case True
    then have yoe: "year_of_era (doe + 1) = ?y" using y by (intro year_of_era_unique) simp_all
    have "year_end ?y \<le> 146097" by (rule year_end_le [OF y(1,2)])
    then have lt: "doe + 1 < 146097" using True by simp
    obtain m' d' where md': "march_day (doy + 1) = (m', d')" by fastforce
    have date': "era_date era (doe + 1) = (?y + era * 400 + (if m' \<le> 2 then 1 else 0), m', d')"
      using md' yoe by (simp add: era_date_def doy_def algebra_simps)
    show ?thesis
    proof (cases "doy = 364")
      case 364: True
      with True len have leap: "leap_year (?y + 1)" by (auto simp: doy_def split: if_splits)
      have "march_day 365 = (2, 29)" by (simp add: march_day_def)
      with 364 md' have "m' = 2" "d' = 29" by auto
      moreover have "m = 2" "d = 28" using step(4) 364 by simp_all
      ultimately show ?thesis using leap lt leap_year_era [of "?y + 1" era]
        unfolding date date' by (simp add: next_day_def days_in_month_def algebra_simps)
    next
      case False
      then have "doy < 364" using True len doy by (auto simp: doy_def split: if_splits)
      then have "m = 2 \<Longrightarrow> d < 28" using step(4-6) by force
      with step(7) [OF \<open>doy < 364\<close>] md' step(1-3) lt show ?thesis
        unfolding date date' next_day_def days_in_month_def
        by (cases "m = 2") (auto split: if_splits)
    qed
  next
    case last: False
    then have e: "doe + 1 = year_end ?y" using y(4) by simp
    have m1: "march_day 0 = (3, 1)" by (simp add: march_day_def)
    have doy_last: "doy = (if leap_year (?y + 1) then 365 else 364)"
      using e len by (auto simp: doy_def split: if_splits)
    have nd: "next_day (era_date era doe) = (?y + era * 400 + 1, 3, 1)"
      using doy_last step(4,5) leap_year_era [of "?y + 1" era]
      unfolding date by (auto simp: next_day_def days_in_month_def algebra_simps split: if_splits)
    show ?thesis
    proof (cases "?y = 399")
      case True
      then have "doe + 1 = 146097" using e by (simp add: year_end_def)
      moreover have "year_of_era 0 = 0" "year_start 0 = 0" by (simp_all add: year_of_era_def year_start_def)
      then have "era_date (era + 1) 0 = ((era + 1) * 400, 3, 1)" by (simp add: era_date_def m1)
      moreover have "?y + era * 400 + 1 = (era + 1) * 400" using True by simp
      ultimately show ?thesis unfolding nd by simp
    next
      case False
      then have s: "doe + 1 = year_start (?y + 1)" using e by (simp add: year_end_def)
      have "year_start (?y + 1) < year_end (?y + 1)" "year_end (?y + 1) \<le> 146097"
        using year_end_le [of "?y + 1"] year_length [of "?y + 1"] False y(1,2) by (auto split: if_splits)
      moreover have "0 \<le> ?y + 1" "?y + 1 \<le> 399" using False y(1,2) by linarith+
      ultimately have "year_of_era (doe + 1) = ?y + 1" "doe + 1 < 146097"
        using s year_of_era_unique [of "?y + 1" "doe + 1"] by linarith+
      with s nd m1 show ?thesis by (simp add: era_date_def algebra_simps)
    qed
  qed
qed

lemma civil_step:
  assumes "-719468 \<le> n"
  shows "civil_from_days (n + 1) = next_day (civil_from_days n)"
proof -
  define k r where "k = (n + 719468) div 146097" and "r = (n + 719468) mod 146097"
  have r: "0 \<le> r" "r < 146097" by (simp_all add: r_def)
  have z: "n + 719468 = k * 146097 + r" by (simp add: k_def r_def)
  have date: "civil_from_days n = era_date k r"
    using civil_from_days_era [of "n + 719468"] assms by (simp add: k_def r_def)
  define k' r' where "k' = (n + 1 + 719468) div 146097" and "r' = (n + 1 + 719468) mod 146097"
  have date': "civil_from_days (n + 1) = era_date k' r'"
    using civil_from_days_era [of "n + 1 + 719468"] assms by (simp add: k'_def r'_def add.commute [of n 1])
  have k': "k' = (if r + 1 < 146097 then k else k + 1)"
    unfolding k'_def using z r by (intro div_between) (auto split: if_splits)
  have "n + 1 + 719468 = k' * 146097 + r'" by (simp add: k'_def r'_def)
  then have "r' = (if r + 1 < 146097 then r + 1 else 0)" using z r k' by (auto split: if_splits)
  with k' date date' next_day_era [OF r] show ?thesis by auto
qed

text \<open>
  C12: The agent's calendar is the Gregorian one: the date computed for a day number is the date
  reached from 1970-01-01 by that many steps of one day, leap years and century years included,
  and the date is a real one.
\<close>

theorem civil_from_days_calendar:
  "civil_from_days (int n) = (next_day ^^ n) (1970, 1, 1) \<and>
   (case civil_from_days (int n) of (y, m, d) \<Rightarrow> 1970 \<le> y \<and> 1 \<le> m \<and> m \<le> 12 \<and> 1 \<le> d \<and> d \<le> days_in_month y m)"
proof (induction n)
  case 0
  have "civil_from_days 0 = (1970, 1, 1)"
    using civil_from_days_era [of 719468] by (simp add: era_date_def march_day_def year_of_era_def year_start_def)
  then show ?case by (simp add: days_in_month_def)
next
  case (Suc n)
  have "civil_from_days (int (Suc n)) = next_day (civil_from_days (int n))"
    using civil_step [of "int n"] by (simp add: ac_simps)
  moreover have "1 \<le> days_in_month y m" for y m by (simp add: days_in_month_def)
  ultimately show ?case using Suc by (auto simp: next_day_def split: prod.splits if_splits)
qed

end
