(* ===== verification/TaskSpec.thy ===== *)
theory TaskSpec
  imports Calendar
begin

text \<open>
  What the server can read from the results of tasks, and what the retries and fallbacks of a ping
  return.
\<close>

section \<open>Numbers and texts as JSON values\<close>

lemma as_bytes_dec: "as_bytes (dec n) = decimal n"
proof (induction n rule: dec.induct)
  case (1 n)
  then show ?case
    by (simp add: dec.simps [of n] decimal.simps [of n] encode_char_ascii add.commute)
qed

lemma number_token:
  assumes "d \<le> 32"
  shows "json_value d ((if neg then [0x2D] else []) @ decimal n)"
proof -
  let ?w = "(if neg then [0x2D] else []) @ decimal n"
  note dig = decimal_digits [of n]
  have "number_int ?w = Some (length ?w)" using number_int_decimal [of "[]" neg] by simp
  then have num: "is_number ?w" by (simp add: is_number_def number_frac_def number_exp_def get_opt_def)
  have all: "unat b < 0x80 \<and> \<not> is_delim b \<and> \<not> bracketed b" if "b \<in> set ?w" for b
    using that dig digit_plain [of b] by (auto simp: list_all_iff bracketed_def is_delim_def split: if_splits)
  then have "from_utf8 ?w \<noteq> None" by (intro from_utf8_ascii) (simp only: list_all_iff, blast)
  moreover have "hd ?w \<in> set ?w" using dig by (cases "decimal n") (auto split: if_splits)
  ultimately show ?thesis using num all assms
    by (intro json_value_scalar) (auto simp: is_scalar_token_def list_all_iff)
qed

lemma as_bytes_dec_int:
  "as_bytes (dec_int i) = (if i < 0 then [0x2D] else []) @ decimal (if i < 0 then nat (- i) else nat i)"
  by (simp add: dec_int_def as_bytes_dec encode_char_ascii)

lemma json_value_int: "d \<le> 32 \<Longrightarrow> json_value d (as_bytes (dec_int i))"
  unfolding as_bytes_dec_int by (rule number_token)

lemma json_value_nat: "d \<le> 32 \<Longrightarrow> json_value d (as_bytes (dec n))"
  using number_token [of d False n] by (simp add: as_bytes_dec)

lemma valid_text_dec [simp]: "valid_text (dec n)"
  using dec_digits [of n] by (auto simp: valid_text_def list_all_iff dec_digit_def scalar_value_def)

lemma valid_text_dec_int [simp]: "valid_text (dec_int i)"
  by (simp add: dec_int_def scalar_value_def)

text \<open>ASCII literals.\<close>

definition ascii_text :: "string \<Rightarrow> bool" where
  "ascii_text s \<longleftrightarrow> list_all (\<lambda>c. (of_char c :: nat) < 0x80) s"

definition plain_text :: "string \<Rightarrow> bool" where
  "plain_text s \<longleftrightarrow> list_all (\<lambda>c. 0x20 \<le> (of_char c :: nat) \<and> (of_char c :: nat) < 0x80 \<and>
    (of_char c :: nat) \<noteq> 0x22 \<and> (of_char c :: nat) \<noteq> 0x5C) s"

lemma of_char_less: "(of_char c :: nat) < 256"
  using mod_less_divisor [of 256 "of_char c :: nat"] by simp

lemma unat_of_char: "unat (of_char c :: u8) = of_char c"
proof -
  have "(of_char c :: nat) < 256" by (rule of_char_less)
  moreover have "(of_char c :: u8) = of_nat (of_char c)" by (simp add: of_nat_of_char)
  ultimately show ?thesis by (simp add: unat_of_nat_byte)
qed

lemma as_bytes_ustr: "ascii_text s \<Longrightarrow> as_bytes (ustr s) = lit s"
  by (induction s) (auto simp: ascii_text_def ustr_def lit_def encode_char_ascii of_nat_of_char)

lemma valid_text_ustr [simp]: "valid_text (ustr s)"
proof -
  have "scalar_value (of_char c)" for c :: char
    unfolding scalar_value_def using of_char_less [of c] by linarith
  then show ?thesis by (auto simp: valid_text_def ustr_def list_all_iff)
qed

lemma decode_quoted: "plain_text s \<Longrightarrow> decode_json_string (quoted s) = Some (ustr s)"
proof -
  assume s: "plain_text s"
  then have "list_all plain_byte (lit s)"
    by (auto simp: plain_text_def lit_def list_all_iff plain_byte_def unat_of_char)
  from quoted_token [OF this] show ?thesis by (simp add: lit_def ustr_def unat_of_char comp_def)
qed

lemma ascii_of_plain: "plain_text s \<Longrightarrow> ascii_text s"
  by (auto simp: plain_text_def ascii_text_def list_all_iff)

section \<open>Escaped texts\<close>

lemma hex_digit_char:
  "n < 16 \<Longrightarrow> unat (hex_digit (of_nat n)) = (if n < 10 then 0x30 + n else 0x61 + n - 10)"
  by (auto simp: hex_digit_def word_less_nat_alt unat_word_ariths unat_of_nat_byte)

lemma json_escape_char_eq: "json_escape_char c = escape_char c"
proof (cases "c < 0x80")
  case True
  then have u: "unat (of_nat c :: u8) = c" by (simp add: unat_of_nat_byte)
  have e: "\<And>k. k < 256 \<Longrightarrow> of_nat c = (of_nat k :: u8) \<longleftrightarrow> c = k"
    using u unat_of_nat_byte by metis
  note ee = e [of "0x22"] e [of "0x5C"] e [of 10] e [of 13] e [of 9]
  have "drop_bit 4 (of_nat c :: u8) = of_nat (c div 16)"
    by (rule word_unat_eq_iff [THEN iffD2]) (use True u in \<open>simp only: unat_drop_bit_eq, simp add: drop_bit_eq_div unat_of_nat_byte\<close>)
  moreover have "of_nat c AND 0x0F = (of_nat (c mod 16) :: u8)"
  proof -
    have "of_nat c AND 0x0F = (take_bit 4 (of_nat c) :: u8)" by (simp add: take_bit_eq_mask mask_eq_exp_minus_1)
    moreover have "unat (take_bit 4 (of_nat c) :: u8) = c mod 16"
      by (simp only: unsigned_take_bit_eq u) (simp add: take_bit_eq_mod)
    ultimately show ?thesis by (intro word_unat_eq_iff [THEN iffD2]) (simp add: unat_of_nat_byte)
  qed
  moreover have "c div 16 < 16" "c mod 16 < 16" using True by simp_all
  ultimately have h: "unat (hex_digit (drop_bit 4 (of_nat c))) = (if c div 16 < 10 then 0x30 + c div 16 else 0x61 + c div 16 - 10)"
    "unat (hex_digit (of_nat c AND 0x0F)) = (if c mod 16 < 10 then 0x30 + c mod 16 else 0x61 + c mod 16 - 10)"
    by (simp_all only: hex_digit_char)
  have le: "(of_nat c :: u8) \<le> 0x1F \<longleftrightarrow> c < 0x20" using u by (auto simp: word_le_nat_alt)
  have "c div 16 < 10" if "c < 0x20" using that by simp
  then show ?thesis
    using True u ee
    by (auto simp: json_escape_char_def escape_char_def escape_byte_def le h)
qed (auto simp: json_escape_char_def escape_char_def)

lemma quoted_escape:
  "valid_text s \<Longrightarrow> [0x22] @ as_bytes (json_escape s) @ [0x22] = json_string s"
  by (simp add: write_json_string_def escape_as_bytes json_escape_def json_escape_char_eq [abs_def])

section \<open>Time stamps\<close>

lemma dec_pad_plain: "list_all dec_digit (dec_pad w n)"
  using dec_digits [of n] by (auto simp: dec_pad_def list_all_iff dec_digit_def)

lemma iso8601_plain: "list_all (\<lambda>c. 0x20 \<le> c \<and> c < 0x80 \<and> c \<noteq> 0x22 \<and> c \<noteq> 0x5C) (iso8601 secs)"
proof -
  have "list_all (\<lambda>c. 0x20 \<le> c \<and> c < 0x80 \<and> c \<noteq> 0x22 \<and> c \<noteq> 0x5C) (dec_pad w n)" for w n
    using dec_pad_plain [of w n] by (auto simp: list_all_iff dec_digit_def)
  then show ?thesis by (simp add: iso8601_def Let_def split: prod.splits)
qed

lemma iso8601_token: "[0x22] @ as_bytes (iso8601 secs) @ [0x22] = json_string (iso8601 secs)"
  and iso8601_valid: "valid_text (iso8601 secs)"
proof -
  have *: "as_bytes s = map of_nat s \<and> valid_text s \<and> concat (map escape_byte (map of_nat s)) = map of_nat s"
    if "list_all (\<lambda>c. 0x20 \<le> c \<and> c < 0x80 \<and> c \<noteq> 0x22 \<and> c \<noteq> 0x5C) s" for s
    using that
  proof (induction s)
    case (Cons c s)
    then have u: "unat (of_nat c :: u8) = c" by (simp add: unat_of_nat_byte)
    have "escape_byte (of_nat c) = [of_nat c]"
      using Cons.prems u by (auto simp: escape_byte_def word_le_nat_alt)
    with Cons show ?case by (simp add: encode_char_ascii scalar_value_def)
  qed simp
  from * [OF iso8601_plain] show "[0x22] @ as_bytes (iso8601 secs) @ [0x22] = json_string (iso8601 secs)"
    "valid_text (iso8601 secs)"
    by (simp_all add: write_json_string_def)
qed

section \<open>Messages about tasks\<close>

lemma members_ok_Suc: "members_ok (Suc d) kvs \<Longrightarrow> members_ok d kvs"
  using value_end_depth [of _ 0 "Suc (Suc d)" _ "Suc d"] by (fastforce simp: members_ok_def json_value_def)

text \<open>Fields of the parameters are found in the notification that carries them.\<close>

lemma notification_field:
  assumes "valid_text method" and "members_ok 1 kvs"
  shows "is_valid_object (new_notification method (object_text kvs))"
    and "extract_json_method (new_notification method (object_text kvs)) = Some method"
    and "key \<notin> {ustr ''jsonrpc'', ustr ''method'', ustr ''params''} \<Longrightarrow>
      lookup_field (new_notification method (object_text kvs)) key = lookup_member kvs key"
proof -
  have v: "json_value 1 (object_text kvs)" by (rule object_end [OF assms(2)])
  have inner: "object_field (object_text kvs) k = lookup_member kvs k" for k
    using members_ok_Suc [of 0 kvs] assms(2) by (simp add: object_field_text)
  note m = object_field_text [OF request_members(2) [OF assms(1) valid_text_simps(1) v]]
  note n = message_texts(1) key_names [THEN key_of_names]
  show "is_valid_object (new_notification method (object_text kvs))" by (simp add: n m)
  show "extract_json_method (new_notification method (object_text kvs)) = Some method"
    using assms(1) by (simp add: extract_json_method_def extract_json_string_def lookup_field_def n m decode_written)
  show "lookup_field (new_notification method (object_text kvs)) key = lookup_member kvs key"
    if "key \<notin> {ustr ''jsonrpc'', ustr ''method'', ustr ''params''}"
    using that by (simp add: lookup_field_def n m inner)
qed

lemma task_keys:
  "decode_json_string (quoted ''task_id'') = Some (ustr ''task_id'')"
  "decode_json_string (quoted ''result'') = Some (ustr ''result'')"
  "decode_json_string (quoted ''exit_code'') = Some (ustr ''exit_code'')"
  "decode_json_string (quoted ''finished_at'') = Some (ustr ''finished_at'')"
  "decode_json_string (quoted ''ping_type'') = Some (ustr ''ping_type'')"
  "decode_json_string (quoted ''value'') = Some (ustr ''value'')"
  by (rule decode_quoted, code_simp)+

text \<open>The number of a field is read back from its digits.\<close>

lemma trim_dec_int: "trim_by (\<lambda>c. c = 0x22) (dec_int i) = dec_int i"
proof (rule trim_by_plain)
  have "c \<noteq> 0x22" if "c \<in> set (dec_int i)" for c
    using that dec_digits [of "nat i"] dec_digits [of "nat (- i)"]
    by (auto simp: dec_int_def list_all_iff dec_digit_def split: if_splits)
  moreover have "dec_int i \<noteq> []" by (simp add: dec_int_def)
  ultimately show "dec_int i = [] \<or> \<not> hd (dec_int i) = 0x22 \<and> \<not> last (dec_int i) = 0x22" by simp
qed

lemma extract_number_of:
  assumes "lookup_field msg key = Some (as_bytes (dec_int i))" and "- (2 ^ 63) \<le> i" and "i < 2 ^ 63"
  shows "extract_json_number msg key = Some i"
  using assms by (simp add: extract_json_number_def from_utf8_as_bytes trim_dec_int parse_signed_dec)

lemma task_result_members:
  assumes "valid_text task_id" and "valid_text result"
  shows "as_bytes (task_result_text now task_id result code) = object_text
      [(quoted ''task_id'', json_string task_id), (quoted ''result'', json_string result),
       (quoted ''exit_code'', as_bytes (dec_int code)), (quoted ''finished_at'', json_string (iso8601 now))]"
    and "members_ok 1
      [(quoted ''task_id'', json_string task_id), (quoted ''result'', json_string result),
       (quoted ''exit_code'', as_bytes (dec_int code)), (quoted ''finished_at'', json_string (iso8601 now))]"
proof -
  have a: "as_bytes (ustr ''{\"task_id\":\"'') = [0x7B] @ quoted ''task_id'' @ [0x3A, 0x22]"
    "as_bytes (ustr ''\",\"result\":\"'') = [0x22, 0x2C] @ quoted ''result'' @ [0x3A, 0x22]"
    "as_bytes (ustr ''\",\"exit_code\":'') = [0x22, 0x2C] @ quoted ''exit_code'' @ [0x3A]"
    "as_bytes (ustr '',\"finished_at\":\"'') = [0x2C] @ quoted ''finished_at'' @ [0x3A, 0x22]"
    "as_bytes (ustr ''\"}'') = [0x22, 0x7D]" by code_simp+
  note q = quoted_escape [OF assms(1), symmetric] quoted_escape [OF assms(2), symmetric] iso8601_token [of now, symmetric]
  show "as_bytes (task_result_text now task_id result code) = object_text
      [(quoted ''task_id'', json_string task_id), (quoted ''result'', json_string result),
       (quoted ''exit_code'', as_bytes (dec_int code)), (quoted ''finished_at'', json_string (iso8601 now))]"
    unfolding task_result_text_def as_bytes_simps(3) a q object_text_def by (simp add: member_text_def)
  show "members_ok 1
      [(quoted ''task_id'', json_string task_id), (quoted ''result'', json_string result),
       (quoted ''exit_code'', as_bytes (dec_int code)), (quoted ''finished_at'', json_string (iso8601 now))]"
    using assms iso8601_valid [of now]
    by (simp add: members_ok_def task_keys task_keys [THEN key_of_names] json_value_string json_value_int)
qed

text \<open>
  C13: The server reads from a task result exactly what the command produced: for every task id,
  every output (quotes, control characters and any Unicode text included) and every exit code,
  the notification is one valid JSON object with method \<open>agent.taskResult\<close>, and its fields give
  back the id, the output, the code and the time stamp.
\<close>

theorem task_result_reported:
  assumes "list_all scalar_value task_id" and "list_all scalar_value output"
    and "- (2 ^ 31) \<le> code" and "code < 2 ^ 31"
  shows "(let msg = build_task_result_v2 now task_id output code in
    is_valid_object msg \<and> extract_json_method msg = Some (ustr ''agent.taskResult'') \<and>
    extract_json_string msg (ustr ''task_id'') = Some task_id \<and>
    extract_json_string msg (ustr ''result'') = Some output \<and>
    extract_json_number msg (ustr ''exit_code'') = Some code \<and>
    extract_json_string msg (ustr ''finished_at'') = Some (iso8601 now))"
proof -
  have v: "valid_text task_id" "valid_text output" using assms by (simp_all add: valid_text_def)
  have m: "valid_text method_agent_task_result" by (simp add: method_agent_task_result_def)
  note f = notification_field [OF m task_result_members(2) [OF v, of code now], unfolded method_agent_task_result_def]
  show ?thesis
    unfolding build_task_result_v2_def task_result_members(1) [OF v] Let_def
    using f(1,2) assms(3,4) v iso8601_valid [of now]
    by (auto simp: extract_json_string_def f(3) task_keys [THEN key_of_names] decode_written
        method_agent_task_result_def intro!: extract_number_of)
qed

lemma task_result_reported_witness:
  "extract_json_string (build_task_result_v2 0 (ustr ''t1'') [0x22, 0x0A, 0x4E16] (-124)) (ustr ''result'') =
    Some [0x22, 0x0A, 0x4E16]"
proof -
  have "list_all scalar_value (ustr ''t1'')" "list_all scalar_value [0x22, 0x0A, 0x4E16]" by code_simp+
  from task_result_reported [OF this, of "-124" 0] show ?thesis by (simp add: Let_def)
qed

section \<open>Retries and fallbacks of a ping\<close>

text \<open>The best of the probes made so far, all of which were answered.\<close>

definition best_of :: "(nat \<Rightarrow> int) \<Rightarrow> nat \<Rightarrow> int \<Rightarrow> bool" where
  "best_of probe n v \<longleftrightarrow> v \<in> probe ` {..<n} \<and> (\<forall>i<n. v \<le> probe i) \<and> (\<forall>i<n. 0 \<le> probe i)"

lemma best_of_next:
  assumes "best_of probe n v" and "0 \<le> probe n"
  shows "best_of probe (Suc n) (if probe n < v then probe n else v)"
  using assms by (fastforce simp: best_of_def less_Suc_eq)

lemma retry_loop_best:
  "\<lbrakk>retry_loop tcp probe first best attempts n = (v, n'); best_of probe n best\<rbrakk> \<Longrightarrow>
    n \<le> n' \<and> n' \<le> n + length attempts \<and>
    (best_of probe n' v \<or> n < n' \<and> probe (n' - 1) < 0 \<and> best_of probe (n' - 1) v \<or>
     tcp \<and> 0 \<in> set attempts \<and> n < n' \<and> v = -1 \<and> first - probe (n' - 1) > 800)"
proof (induction tcp probe first best attempts n rule: retry_loop.induct)
  case (2 tcp probe first best attempt attempts n)
  let ?best = "if probe n < best then probe n else best"
  have b: "best_of probe (Suc n) ?best" if "0 \<le> probe n" by (rule best_of_next [OF "2.prems"(2) that])
  note ih = "2.IH" [OF refl _ _ refl]
  show ?case
    using "2.prems" b ih
    by (auto simp: Let_def tcp_retransmission_drop_threshold_ms_def high_latency_threshold_ms_def split: if_splits)
qed simp

text \<open>
  What a ping measurement reports: a failing or fast first probe is reported as it is; a slow
  one is repeated at most three times, and then the report is the smallest round trip seen before
  the first failing probe, or -1, which only happens for TCP when a probe is more than 800 ms
  faster than the first one.
\<close>

theorem ping_retry_minimum:
  "(case measure_with_retry t probe of (v, n) \<Rightarrow>
     n \<le> 4 \<and>
     (if probe 0 \<le> 1000 then v = probe 0 \<and> n = 1
      else (\<exists>k. (k = n \<or> k + 1 = n \<and> probe k < 0) \<and> v \<in> probe ` {..<k} \<and> (\<forall>i<k. v \<le> probe i \<and> 0 \<le> probe i)) \<or>
           t = ustr ''tcp'' \<and> v = -1 \<and> (\<exists>k<n. probe 0 - probe k > 800)))"
proof (cases "probe 0 \<le> 1000")
  case False
  obtain v n where r: "retry_loop (t = ustr ''tcp'') probe (probe 0) (probe 0) [0..<max_latency_retries] 1 = (v, n)"
    by fastforce
  have "best_of probe 1 (probe 0)" using False by (simp add: best_of_def)
  from retry_loop_best [OF r this]
  have n: "1 \<le> n" "n \<le> 4" and c: "best_of probe n v \<or> 1 < n \<and> probe (n - 1) < 0 \<and> best_of probe (n - 1) v \<or>
      t = ustr ''tcp'' \<and> v = -1 \<and> 1 < n \<and> probe 0 - probe (n - 1) > 800"
    by (auto simp: max_latency_retries_def)
  have m: "measure_with_retry t probe = (v, n)"
    using r False by (simp add: measure_with_retry_def high_latency_threshold_ms_def Let_def)
  from c consider "best_of probe n v" | "1 < n" "probe (n - 1) < 0" "best_of probe (n - 1) v"
    | "t = ustr ''tcp''" "v = -1" "1 < n" "probe 0 - probe (n - 1) > 800" by blast
  then show ?thesis
  proof cases
    case 2
    then have "(n - 1 = n \<or> n - 1 + 1 = n \<and> probe (n - 1) < 0) \<and> v \<in> probe ` {..<n - 1} \<and>
        (\<forall>i<n - 1. v \<le> probe i \<and> 0 \<le> probe i)" by (auto simp: best_of_def)
    then have "\<exists>k. (k = n \<or> k + 1 = n \<and> probe k < 0) \<and> v \<in> probe ` {..<k} \<and>
        (\<forall>i<k. v \<le> probe i \<and> 0 \<le> probe i)" by (rule exI)
    with m n False show ?thesis by simp
  next
    case 3
    then have "n - 1 < n" by simp
    with 3 m n False show ?thesis by auto
  qed (use m n False in \<open>auto simp: best_of_def\<close>)
qed (simp add: measure_with_retry_def high_latency_threshold_ms_def Let_def)

lemma ping_retry_minimum_witness:
  "(case measure_with_retry (ustr ''icmp'') (\<lambda>n. 1500 - int n) of (v, n) \<Rightarrow> n \<le> 4) \<and>
   measure_with_retry (ustr ''icmp'') (\<lambda>n. 1500 - int n) = (1497, 4)"
proof
  show "case measure_with_retry (ustr ''icmp'') (\<lambda>n. 1500 - int n) of (v, n) \<Rightarrow> n \<le> 4"
    using ping_retry_minimum [where t = "ustr ''icmp''" and probe = "\<lambda>n. 1500 - int n"] by (auto split: prod.splits)
  show "measure_with_retry (ustr ''icmp'') (\<lambda>n. 1500 - int n) = (1497, 4)" by code_simp
qed

end
