(* ===== verification/JsonArray.thy ===== *)
theory JsonArray
  imports TaskSpec
begin

text \<open>
  Arrays as the agent writes them, and objects whose keys are literal names.
\<close>

section \<open>Arrays\<close>

fun items_text :: "bytes list \<Rightarrow> bytes" where
  "items_text [] = []"
| "items_text [v] = v"
| "items_text (v # vs) = v @ [0x2C] @ items_text vs"

definition array_text :: "bytes list \<Rightarrow> bytes" where
  "array_text vs = [0x5B] @ items_text vs @ [0x5D]"

lemma items_text_hd: "\<lbrakk>vs \<noteq> []; list_all (json_value d) vs\<rbrakk> \<Longrightarrow> items_text vs \<noteq> [] \<and> hd (items_text vs) = hd (hd vs)"
  using json_value_not_Nil(1) by (cases vs rule: items_text.cases) (force simp: list_all_iff)+

text \<open>One element, wherever it stands, followed by a comma or the closing bracket.\<close>

lemma element_scan:
  assumes "json_value (Suc d) v" and "c = 0x2C \<or> c = 0x5D" and "b = pre @ v @ c # rest"
  shows "value_end b (length pre) (Suc d) = Some (length pre + length v)"
    and "skip_ws b (length pre + length v) = length pre + length v"
    and "get_opt b (length pre + length v) = Some c"
    and "skip_ws b (length pre) = length pre"
proof -
  have dl: "is_delim c" "\<not> is_ws c" using assms(2) by (auto simp: is_delim_def is_ws_def)
  note vn = json_value_not_Nil [OF assms(1)]
  show "value_end b (length pre) (Suc d) = Some (length pre + length v)"
    using json_value_in_context [OF assms(1), of "c # rest" "Suc d" pre] dl by (simp add: assms(3))
  show "skip_ws b (length pre + length v) = length pre + length v"
    using skip_ws_hd [of "c # rest" "pre @ v"] dl by (simp add: assms(3))
  show "get_opt b (length pre + length v) = Some c"
    using get_opt_after [of "pre @ v" c rest] by (simp add: assms(3))
  show "skip_ws b (length pre) = length pre"
    using skip_ws_hd [of "v @ c # rest" pre] vn by (simp add: assms(3))
qed

lemma items_scan:
  "\<lbrakk>vs \<noteq> []; list_all (json_value (Suc d)) vs\<rbrakk> \<Longrightarrow>
    members_end (pre @ items_text vs @ 0x5D # rest) 0x5B keys (length pre) d =
      Some (length pre + length (items_text vs) + 1)"
proof (induction vs arbitrary: pre rule: items_text.induct)
  case (2 v)
  then have v: "json_value (Suc d) v" by simp
  note e = element_scan [OF v disjI2 [OF refl] refl, of pre rest]
  show ?case by (subst members_end_eq) (simp add: e closing_def member_start_def)
next
  case (3 v v' vs)
  let ?rest = "items_text (v' # vs) @ 0x5D # rest"
  let ?pre = "pre @ v @ [0x2C]"
  from 3 have v: "json_value (Suc d) v" and vs: "list_all (json_value (Suc d)) (v' # vs)" by simp_all
  note e = element_scan [OF v disjI1 [OF refl] refl, of pre ?rest]
  have ih: "members_end (?pre @ ?rest) 0x5B keys (length ?pre) d =
      Some (length ?pre + length (items_text (v' # vs)) + 1)"
    by (rule "3.IH" [OF _ vs]) simp
  have "items_text (v' # vs) \<noteq> [] \<and> hd (items_text (v' # vs)) = hd v'"
    using items_text_hd [OF _ vs] by simp
  moreover have "\<not> is_ws (hd v')" using json_value_not_Nil(2) [of "Suc d" v'] vs by simp
  ultimately have "skip_ws (?pre @ ?rest) (length ?pre) = length ?pre" by (intro skip_ws_hd) auto
  with ih show ?case by (subst members_end_eq) (simp add: e closing_def member_start_def)
qed simp

lemma json_value_array:
  assumes "d < 32" and "list_all (json_value (Suc d)) vs"
  shows "json_value d (array_text vs)"
proof -
  have "value_end (array_text vs) 0 d = Some (length (array_text vs))"
  proof (cases "vs = []")
    case True
    with assms show ?thesis
      by (simp add: array_text_def value_end.simps [of "[0x5B, 0x5D]" 0 d] get_opt_def skip_ws_stop is_ws_def closing_def)
  next
    case False
    let ?b = "[0x5B] @ items_text vs @ 0x5D # []"
    note hd = items_text_hd [OF False assms(2)]
    have "members_end ?b 0x5B [] (length [0x5B :: u8]) d = Some (length [0x5B :: u8] + length (items_text vs) + 1)"
      by (rule items_scan [OF False assms(2)])
    moreover have v: "json_value (Suc d) (hd vs)" using False assms(2) by (cases vs) auto
    moreover have "skip_ws ?b 1 = 1"
      using hd json_value_not_Nil(2) [OF v] by (intro skip_ws_stop) (auto simp: nth_append hd_conv_nth)
    moreover have "get_opt ?b 1 \<noteq> Some (closing 0x5B)"
    proof
      assume "get_opt ?b 1 = Some (closing 0x5B)"
      then have h: "hd (hd vs) = 0x5D" using hd by (auto simp: get_opt_def nth_append hd_conv_nth closing_def split: if_splits)
      have "get_opt (hd vs) 0 = Some 0x5D" using h json_value_not_Nil(1) [OF v] by (simp add: get_opt_def hd_conv_nth)
      moreover have "value_end (hd vs) 0 (Suc d) \<noteq> None" using v by (simp add: json_value_def)
      ultimately have "scalar_end (hd vs) 0 \<noteq> None" using assms(1) by (simp add: value_end.simps [of "hd vs" 0 "Suc d"])
      moreover have "takeWhile (\<lambda>c. \<not> is_delim c) (hd vs) = []"
        using h json_value_not_Nil(1) [OF v] by (cases "hd vs") (auto simp: is_delim_def)
      ultimately show False using scalar_token_not_Nil [of "[]"] by (auto simp: scalar_end_def Let_def split: if_splits)
    qed
    moreover have "get_opt (0x5B # items_text vs @ [0x5D]) 0 = Some 0x5B" by (simp add: get_opt_def)
    ultimately show ?thesis using assms(1) by (simp add: array_text_def value_end.simps [of "0x5B # items_text vs @ [0x5D]" 0 d])
  qed
  then show ?thesis by (simp add: json_value_def)
qed

lemma items_text_snoc: "vs \<noteq> [] \<Longrightarrow> items_text (vs @ [v]) = items_text vs @ [0x2C] @ v"
  by (induction vs rule: items_text.induct) auto

section \<open>Literal names\<close>

definition named :: "(string \<times> bytes) list \<Rightarrow> (bytes \<times> bytes) list" where
  "named fs = map (\<lambda>(n, v). (quoted n, v)) fs"

definition names_ok :: "(string \<times> bytes) list \<Rightarrow> bool" where
  "names_ok fs \<longleftrightarrow> distinct (map fst fs) \<and> list_all plain_text (map fst fs)"

lemma key_of_quoted: "plain_text n \<Longrightarrow> key_of (quoted n) = ustr n"
  by (simp add: decode_quoted key_of_def)

lemma members_ok_named:
  assumes "names_ok fs" and "d < 32" and "\<forall>v \<in> set (map snd fs). json_value (Suc d) v"
  shows "members_ok d (named fs)"
proof -
  have "map (key_of \<circ> fst) (named fs) = map ustr (map fst fs)"
    using assms(1) by (auto simp: names_ok_def named_def list_all_iff key_of_quoted)
  moreover have "distinct (map ustr (map fst fs))"
    using assms(1) by (simp add: names_ok_def distinct_map inj_on_def del: map_map)
  ultimately have "distinct (map (key_of \<circ> fst) (named fs))" by simp
  then show ?thesis
    using assms decode_quoted by (auto simp: members_ok_def names_ok_def named_def list_all_iff)
qed

lemma lookup_named:
  "list_all plain_text (map fst fs) \<Longrightarrow> lookup_member (named fs) (ustr n) = map_of fs n"
  by (induction fs) (auto simp: named_def key_of_quoted)

lemma members_text_snoc:
  "members_text (kvs @ [kv]) = members_text kvs @ (if kvs = [] then [] else [0x2C]) @ member_text kv"
  by (induction kvs rule: members_text.induct) auto

end
