(* ===== verification/AgentConfig.thy ===== *)
theory AgentConfig
  imports TaskSpec
begin

text \<open>
  The configuration: \<open>config.rs\<close>.  Defaults, command line, environment and JSON file, in that
  order; validation; and the redacted snapshot that is sent on \<open>agent.startupConfig\<close>.

  An \<open>f64\<close> is its IEEE 754 bit pattern.  Comparisons and casts are computed on the bits; reading
  one from text and printing one are parameters (\<open>float_text\<close>), as is the platform's test that an
  interval is a supported duration.
\<close>

section \<open>Floating point\<close>

type_synonym f64 = "64 word"

definition f64_exponent :: "f64 \<Rightarrow> nat" where "f64_exponent x = unat (drop_bit 52 x AND 0x7FF)"
definition f64_mantissa :: "f64 \<Rightarrow> nat" where "f64_mantissa x = unat (x AND 0xFFFFFFFFFFFFF)"
definition f64_negative :: "f64 \<Rightarrow> bool" where "f64_negative x \<longleftrightarrow> x AND 0x8000000000000000 \<noteq> 0"
definition f64_finite :: "f64 \<Rightarrow> bool" where "f64_finite x \<longleftrightarrow> f64_exponent x \<noteq> 0x7FF"
definition f64_nan :: "f64 \<Rightarrow> bool" where "f64_nan x \<longleftrightarrow> f64_exponent x = 0x7FF \<and> f64_mantissa x \<noteq> 0"
definition f64_zero :: "f64 \<Rightarrow> bool" where "f64_zero x \<longleftrightarrow> f64_exponent x = 0 \<and> f64_mantissa x = 0"

text \<open>\<open>x as u64\<close> and \<open>x as u8\<close>: truncation, saturating at the bounds; NaN gives 0.\<close>

definition f64_trunc :: "f64 \<Rightarrow> nat" where
  "f64_trunc x =
    (let e = f64_exponent x; m = (if e = 0 then f64_mantissa x else 2 ^ 52 + f64_mantissa x); s = max e 1
     in if s \<ge> 1075 then m * 2 ^ (s - 1075) else m div 2 ^ (1075 - s))"

definition f64_as_unsigned :: "nat \<Rightarrow> f64 \<Rightarrow> nat" where
  "f64_as_unsigned w x =
    (if f64_nan x \<or> f64_negative x then 0
     else if \<not> f64_finite x then 2 ^ w - 1
     else min (f64_trunc x) (2 ^ w - 1))"

text \<open>\<open>x <= 0.0\<close>.\<close>

definition f64_le_zero :: "f64 \<Rightarrow> bool" where
  "f64_le_zero x \<longleftrightarrow> \<not> f64_nan x \<and> (f64_zero x \<or> f64_negative x)"

record float_text =
  read_f64 :: "ustring \<Rightarrow> f64 option"
  show_f64 :: "f64 \<Rightarrow> ustring"

section \<open>Configuration\<close>

datatype config_err =
    MissingValue ustring
  | InvalidValue ustring ustring ustring
  | FileNotFound ustring
  | FileReadError ustring ustring
  | JsonError ustring
  | Validation ustring

record config =
  cf_endpoint :: ustring
  cf_token :: ustring
  cf_interval :: f64
  cf_info_report_interval :: u64
  cf_reconnect_interval :: u64
  cf_max_retries :: u64
  cf_disable_web_ssh :: bool
  cf_disable_exec :: bool
  cf_disable_auto_update :: bool
  cf_disable_compression :: bool
  cf_http_only :: bool
  cf_enable_gpu :: bool
  cf_ignore_unsafe_cert :: bool
  cf_debug_log :: bool
  cf_show_warning :: bool
  cf_get_ip_addr_from_nic :: bool
  cf_memory_include_cache :: bool
  cf_memory_report_raw_used :: bool
  cf_memory_mode_available :: bool
  cf_prefer_ip_version :: ustring
  cf_custom_ipv4 :: ustring
  cf_custom_ipv6 :: ustring
  cf_custom_dns :: "ustring list"
  cf_include_nics :: "ustring list"
  cf_exclude_nics :: "ustring list"
  cf_include_mountpoints :: "ustring list"
  cf_exclude_mountpoints :: "ustring list"
  cf_protocol_version :: u8
  cf_month_rotate :: u8
  cf_auto_discovery_key :: ustring
  cf_host_proc :: ustring
  cf_config_file :: ustring

definition config_default :: config where
  "config_default =
    \<lparr>cf_endpoint = [], cf_token = [], cf_interval = 0x4008000000000000, cf_info_report_interval = 5,
     cf_reconnect_interval = 5, cf_max_retries = 10, cf_disable_web_ssh = True, cf_disable_exec = True,
     cf_disable_auto_update = True, cf_disable_compression = False, cf_http_only = False, cf_enable_gpu = False,
     cf_ignore_unsafe_cert = False, cf_debug_log = False, cf_show_warning = False, cf_get_ip_addr_from_nic = False,
     cf_memory_include_cache = False, cf_memory_report_raw_used = False, cf_memory_mode_available = False,
     cf_prefer_ip_version = [], cf_custom_ipv4 = [], cf_custom_ipv6 = [], cf_custom_dns = [], cf_include_nics = [],
     cf_exclude_nics = [], cf_include_mountpoints = [], cf_exclude_mountpoints = [], cf_protocol_version = 2,
     cf_month_rotate = 0, cf_auto_discovery_key = [], cf_host_proc = [], cf_config_file = []\<rparr>"

section \<open>Values\<close>

definition parse_f64 :: "float_text \<Rightarrow> string \<Rightarrow> ustring \<Rightarrow> (f64, config_err) outcome" where
  "parse_f64 ft flag raw =
    ok_or (InvalidValue (ustr flag) raw (ustr ''expected a number (e.g. 1.0, 2.5)'')) (read_f64 ft raw)"

definition parse_u64 :: "string \<Rightarrow> ustring \<Rightarrow> (u64, config_err) outcome" where
  "parse_u64 flag raw =
    ok_or (InvalidValue (ustr flag) raw (ustr ''expected a non-negative integer (e.g. 5, 10)''))
      (map_option of_nat (parse_unsigned (2 ^ 64 - 1) raw))"

definition parse_u8 :: "string \<Rightarrow> ustring \<Rightarrow> (u8, config_err) outcome" where
  "parse_u8 flag raw =
    ok_or (InvalidValue (ustr flag) raw (ustr ''expected an integer in range 0'' @ [0x2013] @ ustr ''255''))
      (map_option of_nat (parse_unsigned 255 raw))"

text \<open>
  \<open>to_lowercase\<close> is the full Unicode mapping; no character outside ASCII is mapped to a letter of the
  words compared with, so the ASCII mapping decides the same.
\<close>

definition bool_words :: "(string \<times> bool) list" where
  "bool_words = [(''true'', True), (''1'', True), (''yes'', True), (''on'', True),
    (''false'', False), (''0'', False), (''no'', False), (''off'', False)]"

definition parse_bool :: "string \<Rightarrow> ustring \<Rightarrow> (bool, config_err) outcome" where
  "parse_bool flag raw =
    ok_or (InvalidValue (ustr flag) raw (ustr ''expected true/false, 1/0, yes/no, or on/off''))
      (map_of (map (\<lambda>(w, b). (ustr w, b)) bool_words) (ascii_lower raw))"

definition parse_bool_opt :: "string \<Rightarrow> ustring option \<Rightarrow> (bool, config_err) outcome" where
  "parse_bool_opt flag raw = (case raw of None \<Rightarrow> Ok True | Some v \<Rightarrow> parse_bool flag v)"

definition require_val :: "ustring \<Rightarrow> ustring option \<Rightarrow> (ustring, config_err) outcome" where
  "require_val flag raw =
    (case raw of Some v \<Rightarrow> if v \<noteq> [] then Ok v else Err (MissingValue flag) | None \<Rightarrow> Err (MissingValue flag))"

definition split_trimmed :: "nat \<Rightarrow> ustring \<Rightarrow> ustring list" where
  "split_trimmed sep raw = filter (\<lambda>s. s \<noteq> []) (map trim (split_all (\<lambda>c. c = sep) raw))"

definition split_comma :: "ustring \<Rightarrow> ustring list" where "split_comma raw = split_trimmed 0x2C raw"
definition split_semicolon :: "ustring \<Rightarrow> ustring list" where "split_semicolon raw = split_trimmed 0x3B raw"

section \<open>Command line\<close>

definition is_bool_flag :: "ustring \<Rightarrow> bool" where
  "is_bool_flag name \<longleftrightarrow> name \<in> set (map ustr
    [''disable-web-ssh'', ''disable-exec'', ''disable-auto-update'', ''disable-compression'', ''http-only'', ''gpu'',
     ''ignore-unsafe-cert'', ''debug-log'', ''show-warning'', ''get-ip-addr-from-nic'', ''memory-include-cache'',
     ''memory-report-raw-used'', ''memory-exclude-bcf''])"

text \<open>The three shapes of an arm: a value, a value after parsing, and a switch.\<close>

definition set_value :: "string \<Rightarrow> ustring option \<Rightarrow> (ustring \<Rightarrow> config) \<Rightarrow> (config, config_err) outcome" where
  "set_value flag val f = and_then (require_val (ustr flag) val) (\<lambda>v. Ok (f v))"

definition set_parsed ::
  "string \<Rightarrow> (string \<Rightarrow> ustring \<Rightarrow> ('a, config_err) outcome) \<Rightarrow> ustring option \<Rightarrow> ('a \<Rightarrow> config) \<Rightarrow> (config, config_err) outcome" where
  "set_parsed flag parse val f = and_then (require_val (ustr flag) val) (\<lambda>v. and_then (parse flag v) (\<lambda>x. Ok (f x)))"

definition set_switch :: "string \<Rightarrow> ustring option \<Rightarrow> (bool \<Rightarrow> config) \<Rightarrow> (config, config_err) outcome" where
  "set_switch flag val f = and_then (parse_bool_opt flag val) (\<lambda>b. Ok (f b))"

definition apply_long_flag :: "float_text \<Rightarrow> config \<Rightarrow> ustring \<Rightarrow> ustring option \<Rightarrow> (config, config_err) outcome" where
  "apply_long_flag ft c name val =
    (if name = ustr ''endpoint'' then set_value ''--endpoint'' val (\<lambda>v. c\<lparr>cf_endpoint := v\<rparr>)
     else if name = ustr ''token'' then set_value ''--token'' val (\<lambda>v. c\<lparr>cf_token := v\<rparr>)
     else if name = ustr ''interval'' then set_parsed ''--interval'' (parse_f64 ft) val (\<lambda>v. c\<lparr>cf_interval := v\<rparr>)
     else if name = ustr ''info-report-interval''
     then set_parsed ''--info-report-interval'' parse_u64 val (\<lambda>v. c\<lparr>cf_info_report_interval := v\<rparr>)
     else if name = ustr ''reconnect-interval''
     then set_parsed ''--reconnect-interval'' parse_u64 val (\<lambda>v. c\<lparr>cf_reconnect_interval := v\<rparr>)
     else if name = ustr ''max-retries'' then set_parsed ''--max-retries'' parse_u64 val (\<lambda>v. c\<lparr>cf_max_retries := v\<rparr>)
     else if name = ustr ''protocol-version''
     then set_parsed ''--protocol-version'' parse_u8 val (\<lambda>v. c\<lparr>cf_protocol_version := v\<rparr>)
     else if name = ustr ''month-rotate'' then set_parsed ''--month-rotate'' parse_u8 val (\<lambda>v. c\<lparr>cf_month_rotate := v\<rparr>)
     else if name = ustr ''disable-web-ssh'' then set_switch ''--disable-web-ssh'' val (\<lambda>b. c\<lparr>cf_disable_web_ssh := b\<rparr>)
     else if name = ustr ''disable-exec'' then set_switch ''--disable-exec'' val (\<lambda>b. c\<lparr>cf_disable_exec := b\<rparr>)
     else if name = ustr ''disable-auto-update''
     then set_switch ''--disable-auto-update'' val (\<lambda>b. c\<lparr>cf_disable_auto_update := b\<rparr>)
     else if name = ustr ''disable-compression''
     then set_switch ''--disable-compression'' val (\<lambda>b. c\<lparr>cf_disable_compression := b\<rparr>)
     else if name = ustr ''http-only'' then set_switch ''--http-only'' val (\<lambda>b. c\<lparr>cf_http_only := b\<rparr>)
     else if name = ustr ''gpu'' then set_switch ''--gpu'' val (\<lambda>b. c\<lparr>cf_enable_gpu := b\<rparr>)
     else if name = ustr ''ignore-unsafe-cert''
     then set_switch ''--ignore-unsafe-cert'' val (\<lambda>b. c\<lparr>cf_ignore_unsafe_cert := b\<rparr>)
     else if name = ustr ''debug-log'' then set_switch ''--debug-log'' val (\<lambda>b. c\<lparr>cf_debug_log := b\<rparr>)
     else if name = ustr ''show-warning'' then set_switch ''--show-warning'' val (\<lambda>b. c\<lparr>cf_show_warning := b\<rparr>)
     else if name = ustr ''get-ip-addr-from-nic''
     then set_switch ''--get-ip-addr-from-nic'' val (\<lambda>b. c\<lparr>cf_get_ip_addr_from_nic := b\<rparr>)
     else if name = ustr ''memory-include-cache''
     then set_switch ''--memory-include-cache'' val (\<lambda>b. c\<lparr>cf_memory_include_cache := b\<rparr>)
     else if name = ustr ''memory-report-raw-used'' \<or> name = ustr ''memory-exclude-bcf''
     then set_switch ''--memory-report-raw-used'' val (\<lambda>b. c\<lparr>cf_memory_report_raw_used := b\<rparr>)
     else if name = ustr ''prefer-ip-version''
     then set_value ''--prefer-ip-version'' val (\<lambda>v. c\<lparr>cf_prefer_ip_version := v\<rparr>)
     else if name = ustr ''custom-ipv4'' then set_value ''--custom-ipv4'' val (\<lambda>v. c\<lparr>cf_custom_ipv4 := v\<rparr>)
     else if name = ustr ''custom-ipv6'' then set_value ''--custom-ipv6'' val (\<lambda>v. c\<lparr>cf_custom_ipv6 := v\<rparr>)
     else if name = ustr ''auto-discovery'' then set_value ''--auto-discovery'' val (\<lambda>v. c\<lparr>cf_auto_discovery_key := v\<rparr>)
     else if name = ustr ''host-proc'' then set_value ''--host-proc'' val (\<lambda>v. c\<lparr>cf_host_proc := v\<rparr>)
     else if name = ustr ''config'' then set_value ''--config'' val (\<lambda>v. c\<lparr>cf_config_file := v\<rparr>)
     else if name = ustr ''custom-dns'' then set_value ''--custom-dns'' val (\<lambda>v. c\<lparr>cf_custom_dns := split_comma v\<rparr>)
     else if name = ustr ''include-nics'' then set_value ''--include-nics'' val (\<lambda>v. c\<lparr>cf_include_nics := split_comma v\<rparr>)
     else if name = ustr ''exclude-nics'' then set_value ''--exclude-nics'' val (\<lambda>v. c\<lparr>cf_exclude_nics := split_comma v\<rparr>)
     else if name = ustr ''include-mountpoints'' \<or> name = ustr ''include-mountpoint''
     then and_then (require_val name val) (\<lambda>v. Ok (c\<lparr>cf_include_mountpoints := split_semicolon v\<rparr>))
     else if name = ustr ''exclude-mountpoints'' \<or> name = ustr ''exclude-mountpoint''
     then and_then (require_val name val) (\<lambda>v. Ok (c\<lparr>cf_exclude_mountpoints := split_semicolon v\<rparr>))
     else Ok c)"

definition apply_short_flag :: "float_text \<Rightarrow> config \<Rightarrow> ustring \<Rightarrow> ustring \<Rightarrow> (config, config_err) outcome" where
  "apply_short_flag ft c short val =
    (if short = ustr ''e'' then Ok (c\<lparr>cf_endpoint := val\<rparr>)
     else if short = ustr ''t'' then Ok (c\<lparr>cf_token := val\<rparr>)
     else if short = ustr ''i'' then and_then (parse_f64 ft ''-i'' val) (\<lambda>v. Ok (c\<lparr>cf_interval := v\<rparr>))
     else if short = ustr ''u'' then and_then (parse_bool ''-u'' val) (\<lambda>v. Ok (c\<lparr>cf_ignore_unsafe_cert := v\<rparr>))
     else if short = ustr ''r'' then and_then (parse_u64 ''-r'' val) (\<lambda>v. Ok (c\<lparr>cf_max_retries := v\<rparr>))
     else if short = ustr ''c'' then and_then (parse_u64 ''-c'' val) (\<lambda>v. Ok (c\<lparr>cf_reconnect_interval := v\<rparr>))
     else Ok c)"

text \<open>Help and version end the process; an error ends the parse.\<close>

datatype args_stop = ShowHelp | ShowVersion | BadArgument config_err

fun stop_on_error :: "('a, config_err) outcome \<Rightarrow> ('a, args_stop) outcome" where
  "stop_on_error (Ok x) = Ok x"
| "stop_on_error (Err e) = Err (BadArgument e)"
| "stop_on_error Panic = Panic"

text \<open>The loop over the arguments after the program name.\<close>

fun parse_arg_loop :: "float_text \<Rightarrow> config \<Rightarrow> ustring list \<Rightarrow> (config, args_stop) outcome" where
  "parse_arg_loop ft c [] = Ok c"
| "parse_arg_loop ft c (arg # args) =
    (if arg = ustr ''--help'' \<or> arg = ustr ''-h'' then Err ShowHelp
     else if arg = ustr ''--version'' \<or> arg = ustr ''-V'' then Err ShowVersion
     else if arg = ustr ''--'' then Ok c
     else case (strip_prefix_opt (ustr ''--'') arg, split_first (\<lambda>x. x = 0x3D) arg) of
       (Some _, Some (flag, val)) \<Rightarrow>
         and_then (stop_on_error (apply_long_flag ft c (drop 2 flag) (Some val))) (\<lambda>c1. parse_arg_loop ft c1 args)
     | (Some flag, None) \<Rightarrow>
         if is_bool_flag flag
         then and_then (stop_on_error (apply_long_flag ft c flag None)) (\<lambda>c1. parse_arg_loop ft c1 args)
         else (case args of
                 [] \<Rightarrow> Err (BadArgument (MissingValue (ustr ''--'' @ flag)))
               | val # args1 \<Rightarrow>
                   and_then (stop_on_error (apply_long_flag ft c flag (Some val))) (\<lambda>c1. parse_arg_loop ft c1 args1))
     | (None, _) \<Rightarrow>
         if take 1 arg = ustr ''-'' \<and> length (as_bytes arg) = 2 \<and> drop 1 arg \<noteq> ustr ''-''
         then (case args of
                 [] \<Rightarrow> Err (BadArgument (MissingValue (ustr ''-'' @ drop 1 arg)))
               | val # args1 \<Rightarrow>
                   and_then (stop_on_error (apply_short_flag ft c (drop 1 arg) val)) (\<lambda>c1. parse_arg_loop ft c1 args1))
         else parse_arg_loop ft c args)"

definition parse_args :: "float_text \<Rightarrow> config \<Rightarrow> ustring list \<Rightarrow> (config, args_stop) outcome" where
  "parse_args ft c args = parse_arg_loop ft c (drop 1 args)"

end
