(* ===== verification/ConfigFile.thy ===== *)
theory ConfigFile
  imports AgentConfig
begin

text \<open>
  The environment, the JSON file, validation and the snapshot of \<open>config.rs\<close>, and the order in
  which \<open>main.rs\<close> applies the sources.
\<close>

section \<open>Environment\<close>

text \<open>\<open>env::var\<close>: a variable that is set and is Unicode.\<close>

type_synonym environment = "string \<Rightarrow> ustring option"

definition env_str :: "environment \<Rightarrow> string \<Rightarrow> (ustring \<Rightarrow> config \<Rightarrow> config) \<Rightarrow> config \<Rightarrow> config" where
  "env_str env key f c = (case env key of Some v \<Rightarrow> if v \<noteq> [] then f v c else c | None \<Rightarrow> c)"

definition env_unsigned :: "nat \<Rightarrow> environment \<Rightarrow> string \<Rightarrow> (nat \<Rightarrow> config \<Rightarrow> config) \<Rightarrow> config \<Rightarrow> config" where
  "env_unsigned hi env key f c =
    (case env key of
       Some v \<Rightarrow> (case parse_unsigned hi v of Some n \<Rightarrow> f n c | None \<Rightarrow> c)
     | None \<Rightarrow> c)"

definition env_bool :: "environment \<Rightarrow> string \<Rightarrow> (bool \<Rightarrow> config \<Rightarrow> config) \<Rightarrow> config \<Rightarrow> config" where
  "env_bool env key f c =
    (case env key of
       Some v \<Rightarrow> (case parse_bool key v of Ok b \<Rightarrow> f b c | _ \<Rightarrow> c)
     | None \<Rightarrow> c)"

definition load_env :: "float_text \<Rightarrow> environment \<Rightarrow> config \<Rightarrow> config" where
  "load_env ft env c = fold (\<lambda>step. step)
    [env_str env ''AGENT_ENDPOINT'' (\<lambda>v c. c\<lparr>cf_endpoint := v\<rparr>),
     env_str env ''AGENT_TOKEN'' (\<lambda>v c. c\<lparr>cf_token := v\<rparr>),
     (\<lambda>c. case env ''AGENT_INTERVAL'' of
        Some v \<Rightarrow> (case read_f64 ft v of Some n \<Rightarrow> c\<lparr>cf_interval := n\<rparr> | None \<Rightarrow> c) | None \<Rightarrow> c),
     env_unsigned (2 ^ 64 - 1) env ''AGENT_INFO_REPORT_INTERVAL'' (\<lambda>n c. c\<lparr>cf_info_report_interval := of_nat n\<rparr>),
     env_unsigned (2 ^ 64 - 1) env ''AGENT_RECONNECT_INTERVAL'' (\<lambda>n c. c\<lparr>cf_reconnect_interval := of_nat n\<rparr>),
     env_unsigned (2 ^ 64 - 1) env ''AGENT_MAX_RETRIES'' (\<lambda>n c. c\<lparr>cf_max_retries := of_nat n\<rparr>),
     (\<lambda>c. case env ''AGENT_PROTOCOL_VERSION'' of
        Some v \<Rightarrow> c\<lparr>cf_protocol_version := (case parse_unsigned 255 v of Some n \<Rightarrow> of_nat n | None \<Rightarrow> 0)\<rparr>
      | None \<Rightarrow> c),
     env_unsigned 255 env ''AGENT_MONTH_ROTATE'' (\<lambda>n c. c\<lparr>cf_month_rotate := of_nat n\<rparr>),
     env_bool env ''AGENT_DISABLE_WEB_SSH'' (\<lambda>b c. c\<lparr>cf_disable_web_ssh := b\<rparr>),
     env_bool env ''AGENT_DISABLE_EXEC'' (\<lambda>b c. c\<lparr>cf_disable_exec := b\<rparr>),
     env_bool env ''AGENT_DISABLE_AUTO_UPDATE'' (\<lambda>b c. c\<lparr>cf_disable_auto_update := b\<rparr>),
     env_bool env ''AGENT_DISABLE_COMPRESSION'' (\<lambda>b c. c\<lparr>cf_disable_compression := b\<rparr>),
     env_bool env ''AGENT_HTTP_ONLY'' (\<lambda>b c. c\<lparr>cf_http_only := b\<rparr>),
     env_bool env ''AGENT_ENABLE_GPU'' (\<lambda>b c. c\<lparr>cf_enable_gpu := b\<rparr>),
     env_bool env ''AGENT_IGNORE_UNSAFE_CERT'' (\<lambda>b c. c\<lparr>cf_ignore_unsafe_cert := b\<rparr>),
     env_bool env ''AGENT_DEBUG_LOG'' (\<lambda>b c. c\<lparr>cf_debug_log := b\<rparr>),
     env_bool env ''AGENT_SHOW_WARNING'' (\<lambda>b c. c\<lparr>cf_show_warning := b\<rparr>),
     env_bool env ''AGENT_GET_IP_ADDR_FROM_NIC'' (\<lambda>b c. c\<lparr>cf_get_ip_addr_from_nic := b\<rparr>),
     env_bool env ''AGENT_MEMORY_INCLUDE_CACHE'' (\<lambda>b c. c\<lparr>cf_memory_include_cache := b\<rparr>),
     env_bool env ''AGENT_MEMORY_REPORT_RAW_USED'' (\<lambda>b c. c\<lparr>cf_memory_report_raw_used := b\<rparr>),
     env_bool env ''AGENT_MEMORY_MODE_AVAILABLE'' (\<lambda>b c. c\<lparr>cf_memory_mode_available := b\<rparr>),
     env_str env ''AGENT_PREFER_IP_VERSION'' (\<lambda>v c. c\<lparr>cf_prefer_ip_version := v\<rparr>),
     env_str env ''AGENT_CUSTOM_IPV4'' (\<lambda>v c. c\<lparr>cf_custom_ipv4 := v\<rparr>),
     env_str env ''AGENT_CUSTOM_IPV6'' (\<lambda>v c. c\<lparr>cf_custom_ipv6 := v\<rparr>),
     env_str env ''AGENT_AUTO_DISCOVERY_KEY'' (\<lambda>v c. c\<lparr>cf_auto_discovery_key := v\<rparr>),
     env_str env ''HOST_PROC'' (\<lambda>v c. c\<lparr>cf_host_proc := v\<rparr>),
     env_str env ''AGENT_CONFIG_FILE'' (\<lambda>v c. c\<lparr>cf_config_file := v\<rparr>),
     env_str env ''AGENT_CUSTOM_DNS'' (\<lambda>v c. c\<lparr>cf_custom_dns := split_comma v\<rparr>),
     env_str env ''AGENT_INCLUDE_NICS'' (\<lambda>v c. c\<lparr>cf_include_nics := split_comma v\<rparr>),
     env_str env ''AGENT_EXCLUDE_NICS'' (\<lambda>v c. c\<lparr>cf_exclude_nics := split_comma v\<rparr>),
     env_str env ''AGENT_INCLUDE_MOUNTPOINTS'' (\<lambda>v c. c\<lparr>cf_include_mountpoints := split_semicolon v\<rparr>),
     env_str env ''AGENT_EXCLUDE_MOUNTPOINTS'' (\<lambda>v c. c\<lparr>cf_exclude_mountpoints := split_semicolon v\<rparr>)] c"

section \<open>Tokens\<close>

datatype cfg_value = CStr ustring | CNum f64 | CBool bool | CArray "cfg_value list" | CNull

datatype cfg_token =
    BraceOpen | BraceClose | BracketOpen | BracketClose | Colon | Comma
  | TStr ustring | TNum f64 | TBool bool | TNull

text \<open>What diagnostics show of a token: its kind only.\<close>

fun show_token :: "cfg_token \<Rightarrow> ustring" where
  "show_token BraceOpen = [0x27, 0x7B, 0x27]" | "show_token BraceClose = [0x27, 0x7D, 0x27]"
| "show_token BracketOpen = [0x27, 0x5B, 0x27]" | "show_token BracketClose = [0x27, 0x5D, 0x27]"
| "show_token Colon = [0x27, 0x3A, 0x27]" | "show_token Comma = [0x27, 0x2C, 0x27]"
| "show_token (TStr _) = ustr ''string''" | "show_token (TNum _) = ustr ''number''"
| "show_token (TBool _) = ustr ''boolean''" | "show_token TNull = ustr ''null''"

definition tokenize_string :: "bytes \<Rightarrow> nat \<Rightarrow> (ustring \<times> nat, config_err) outcome" where
  "tokenize_string input pos =
    (let e = skip_value input pos
     in and_then (ok_or (JsonError (ustr ''invalid JSON string'')) (decode_json_string (slice_of pos e input)))
          (\<lambda>v. Ok (v, e)))"

text \<open>One digit at least, then all that follow.\<close>

definition digits_from :: "string \<Rightarrow> bytes \<Rightarrow> nat \<Rightarrow> (nat, config_err) outcome" where
  "digits_from what input i =
    (if (case get_opt input i of Some c \<Rightarrow> is_digit c | None \<Rightarrow> False) then Ok (digits_end input i)
     else Err (JsonError (ustr what @ dec i)))"

definition tokenize_number :: "float_text \<Rightarrow> bytes \<Rightarrow> nat \<Rightarrow> (f64 \<times> nat, config_err) outcome" where
  "tokenize_number ft input pos =
    (let i0 = (if get_opt input pos = Some 0x2D then pos + 1 else pos)
     in and_then (digits_from ''expected digit at position '' input i0) (\<lambda>i1.
        and_then (if get_opt input i1 = Some 0x2E
                  then digits_from ''expected digit after decimal point at position '' input (i1 + 1) else Ok i1) (\<lambda>i2.
        and_then (if get_opt input i2 \<in> {Some 0x65, Some 0x45}
                  then digits_from ''expected digit in exponent at position '' input
                         (if get_opt input (i2 + 1) \<in> {Some 0x2B, Some 0x2D} then i2 + 2 else i2 + 1)
                  else Ok i2) (\<lambda>i3.
        and_then (ok_or (JsonError (ustr ''invalid UTF-8 in number'')) (from_utf8 (slice_of pos i3 input))) (\<lambda>num.
        and_then (ok_or (JsonError (ustr ''invalid number: '' @ num)) (read_f64 ft num)) (\<lambda>n. Ok (n, i3)))))))"

definition keyword_at :: "string \<Rightarrow> bytes \<Rightarrow> nat \<Rightarrow> cfg_token \<Rightarrow> (cfg_token \<times> nat, config_err) outcome" where
  "keyword_at w input pos tok =
    (if pos + length w \<le> length input \<and> slice_of pos (pos + length w) input = lit w then Ok (tok, pos + length w)
     else Err (JsonError (ustr ''unexpected character at position '' @ dec pos @ ustr '': expected '' @
                 [0x27] @ ustr w @ [0x27])))"

definition next_token :: "float_text \<Rightarrow> bytes \<Rightarrow> nat \<Rightarrow> (cfg_token \<times> nat, config_err) outcome" where
  "next_token ft input pos =
    (let ch = input ! pos
     in if ch = 0x7B then Ok (BraceOpen, pos + 1)
        else if ch = 0x7D then Ok (BraceClose, pos + 1)
        else if ch = 0x5B then Ok (BracketOpen, pos + 1)
        else if ch = 0x5D then Ok (BracketClose, pos + 1)
        else if ch = 0x3A then Ok (Colon, pos + 1)
        else if ch = 0x2C then Ok (Comma, pos + 1)
        else if ch = 0x22 then and_then (tokenize_string input pos) (\<lambda>(s, next). Ok (TStr s, next))
        else if ch = 0x2D \<or> is_digit ch then and_then (tokenize_number ft input pos) (\<lambda>(n, next). Ok (TNum n, next))
        else if ch = 0x74 then keyword_at ''true'' input pos (TBool True)
        else if ch = 0x66 then keyword_at ''false'' input pos (TBool False)
        else if ch = 0x6E then keyword_at ''null'' input pos TNull
        else Err (JsonError (ustr ''unexpected character '' @ [0x27, unat ch, 0x27] @ ustr '' at position '' @ dec pos)))"

lemma digits_end_ge: "i \<le> length b \<Longrightarrow> i \<le> digits_end b i \<and> digits_end b i \<le> length b"
  using length_takeWhile_le [of is_digit "drop i b"] by (simp add: digits_end_def)

lemma digits_from_gt:
  "digits_from what b i = Ok j \<Longrightarrow> i < j \<and> j \<le> length b"
proof -
  assume "digits_from what b i = Ok j"
  then have i: "i < length b" "is_digit (b ! i)" and j: "j = digits_end b i"
    by (auto simp: digits_from_def get_opt_def split: if_splits)
  then have "takeWhile is_digit (drop i b) = b ! i # takeWhile is_digit (drop (Suc i) b)"
    by (simp flip: Cons_nth_drop_Suc)
  then show ?thesis using j digits_end_ge [of i b] i by (simp add: digits_end_def)
qed

text \<open>A token ends after it starts.\<close>

definition advances :: "nat \<Rightarrow> ('a \<times> nat, 'e) outcome \<Rightarrow> bool" where
  "advances pos m \<longleftrightarrow> (\<forall>x n. m = Ok (x, n) \<longrightarrow> pos < n)"

lemma advances_rules:
  "pos < n \<Longrightarrow> advances pos (Ok (x, n))" "advances pos (Err e)"
  "\<lbrakk>advances pos m; advances pos m'\<rbrakk> \<Longrightarrow> advances pos (if c then m else m')"
  "advances pos m \<Longrightarrow> advances pos (and_then m (\<lambda>(a, b). Ok (f a, b)))"
  by (auto simp: advances_def outcome_simps)

lemma advances_token:
  assumes "pos < length input"
  shows "w \<noteq> [] \<Longrightarrow> advances pos (keyword_at w input pos tok)"
    and "advances pos (tokenize_string input pos)" and "advances pos (tokenize_number ft input pos)"
proof -
  show "advances pos (keyword_at w input pos tok)" if "w \<noteq> []"
    using that by (simp add: advances_def keyword_at_def)
  show "advances pos (tokenize_string input pos)"
    using assms value_end_bounds [of input pos 0]
    by (auto simp: advances_def tokenize_string_def skip_value_def Let_def outcome_simps split: option.splits)
  show "advances pos (tokenize_number ft input pos)"
    unfolding advances_def
  proof (intro allI impI)
    fix x n
    assume *: "tokenize_number ft input pos = Ok (x, n)"
    obtain i1 i2 where 1: "digits_from ''expected digit at position '' input
          (if get_opt input pos = Some 0x2D then pos + 1 else pos) = Ok i1"
      and 2: "(if get_opt input i1 = Some 0x2E
          then digits_from ''expected digit after decimal point at position '' input (i1 + 1) else Ok i1) = Ok i2"
      and 3: "(if get_opt input i2 \<in> {Some 0x65, Some 0x45}
          then digits_from ''expected digit in exponent at position '' input
            (if get_opt input (i2 + 1) \<in> {Some 0x2B, Some 0x2D} then i2 + 2 else i2 + 1) else Ok i2) = Ok n"
      using * [unfolded tokenize_number_def Let_def and_then_eq_Ok outcome.inject prod.inject] by blast
    have "pos < i1" using digits_from_gt [OF 1] by (simp split: if_splits)
    moreover have "i1 \<le> i2" using 2 digits_from_gt [of _ input "i1 + 1" i2] by (fastforce split: if_split_asm)
    moreover have "i2 \<le> n"
    proof (cases "get_opt input i2 \<in> {Some 0x65, Some 0x45}")
      case True
      with digits_from_gt 3 show ?thesis by (fastforce split: if_split_asm)
    next
      case False
      with 3 show ?thesis by (simp only: if_False outcome.inject)
    qed
    ultimately show "pos < n" by simp
  qed
qed

lemma next_token_advances: "pos < length input \<Longrightarrow> advances pos (next_token ft input pos)"
  unfolding next_token_def Let_def
  by (rule advances_rules(3) | (rule advances_rules(1), simp) | (rule advances_rules(4), rule advances_token(2,3), assumption) |
      (rule advances_token(1), assumption, simp) | rule advances_rules(2))+

function tokenize_from :: "float_text \<Rightarrow> bytes \<Rightarrow> nat \<Rightarrow> (cfg_token list, config_err) outcome" where
  "tokenize_from ft input pos =
    (if pos < length input
     then if ascii_ws (input ! pos) then tokenize_from ft input (pos + 1)
          else and_then (next_token ft input pos) (\<lambda>(tok, next).
                 and_then (tokenize_from ft input next) (\<lambda>toks. Ok (tok # toks)))
     else Ok [])"
  by auto
termination tokenize_from
  by (relation "measure (\<lambda>(ft, input, pos). length input - pos)") (use next_token_advances in \<open>fastforce simp: advances_def\<close>)+

declare tokenize_from.simps [simp del]

definition tokenize :: "float_text \<Rightarrow> bytes \<Rightarrow> (cfg_token list, config_err) outcome" where
  "tokenize ft input = tokenize_from ft input 0"

section \<open>Values\<close>

text \<open>
  The parser over the tokens that remain.  Nesting consumes tokens, so twice their number is
  fuel enough (\<open>parse_total\<close> below); a nested object is parsed and its contents are dropped.
\<close>

definition expect :: "cfg_token \<Rightarrow> cfg_token list \<Rightarrow> (cfg_token list, config_err) outcome" where
  "expect expected ts =
    (case ts of
       [] \<Rightarrow> Err (JsonError (ustr ''unexpected end of JSON input''))
     | t # rest \<Rightarrow>
         if t = expected then Ok rest
         else Err (JsonError (ustr ''expected '' @ show_token expected @ ustr '', got '' @ show_token t)))"

definition show_peek :: "cfg_token list \<Rightarrow> ustring" where
  "show_peek ts = (case ts of [] \<Rightarrow> ustr ''None'' | t # _ \<Rightarrow> ustr ''Some('' @ show_token t @ ustr '')'')"

type_synonym cfg_map = "ustring \<Rightarrow> cfg_value option"

fun parse_value :: "nat \<Rightarrow> cfg_token list \<Rightarrow> (cfg_value \<times> cfg_token list, config_err) outcome"
  and parse_members :: "nat \<Rightarrow> cfg_map \<Rightarrow> cfg_token list \<Rightarrow> (cfg_map \<times> cfg_token list, config_err) outcome"
  and parse_elements :: "nat \<Rightarrow> cfg_value list \<Rightarrow> cfg_token list \<Rightarrow> (cfg_value list \<times> cfg_token list, config_err) outcome" where
  "parse_value 0 ts = Panic"
| "parse_value (Suc fuel) ts =
    (case ts of
       [] \<Rightarrow> Err (JsonError (ustr ''unexpected end of input''))
     | TStr s # rest \<Rightarrow> Ok (CStr s, rest)
     | TNum n # rest \<Rightarrow> Ok (CNum n, rest)
     | TBool b # rest \<Rightarrow> Ok (CBool b, rest)
     | TNull # rest \<Rightarrow> Ok (CNull, rest)
     | BraceOpen # rest \<Rightarrow>
         (case rest of
            BraceClose # rest1 \<Rightarrow> Ok (CNull, rest1)
          | _ \<Rightarrow> and_then (parse_members fuel Map.empty rest) (\<lambda>(m, rest1). Ok (CNull, rest1)))
     | BracketOpen # rest \<Rightarrow>
         (case rest of
            BracketClose # rest1 \<Rightarrow> Ok (CArray [], rest1)
          | _ \<Rightarrow> and_then (parse_elements fuel [] rest) (\<lambda>(vs, rest1). Ok (CArray vs, rest1)))
     | _ \<Rightarrow> Err (JsonError (ustr ''unexpected token: '' @ show_peek ts)))"
| "parse_members 0 m ts = Panic"
| "parse_members (Suc fuel) m ts =
    (case ts of
       [] \<Rightarrow> Err (JsonError (ustr ''unexpected end of JSON input''))
     | TStr key # rest \<Rightarrow>
         and_then (expect Colon rest) (\<lambda>rest1.
         and_then (parse_value fuel rest1) (\<lambda>(v, rest2).
           case rest2 of
             Comma # rest3 \<Rightarrow> parse_members fuel (m(key \<mapsto> v)) rest3
           | BraceClose # rest3 \<Rightarrow> Ok (m(key \<mapsto> v), rest3)
           | _ \<Rightarrow> Err (JsonError (ustr ''expected ',' or '}', got '' @ show_peek rest2))))
     | t # _ \<Rightarrow> Err (JsonError (ustr ''expected string key, got '' @ show_token t)))"
| "parse_elements 0 vs ts = Panic"
| "parse_elements (Suc fuel) vs ts =
    and_then (parse_value fuel ts) (\<lambda>(v, rest).
      case rest of
        Comma # rest1 \<Rightarrow> parse_elements fuel (vs @ [v]) rest1
      | BracketClose # rest1 \<Rightarrow> Ok (vs @ [v], rest1)
      | _ \<Rightarrow> Err (JsonError (ustr ''expected ',' or ']', got '' @ show_peek rest)))"

definition parse_object :: "cfg_token list \<Rightarrow> (cfg_map \<times> cfg_token list, config_err) outcome" where
  "parse_object ts =
    and_then (expect BraceOpen ts) (\<lambda>rest.
      case rest of
        BraceClose # rest1 \<Rightarrow> Ok (Map.empty, rest1)
      | _ \<Rightarrow> parse_members (2 * length rest + 1) Map.empty rest)"

lemma expect_Ok: "expect t ts = Ok rest \<longleftrightarrow> ts = t # rest"
  and expect_not_Panic: "expect t ts \<noteq> Panic"
  and expect_same: "expect t (t # rest) = Ok rest"
  by (auto simp: expect_def split: list.splits)

text \<open>The parser returns, with fewer tokens left, whenever the fuel covers the tokens.\<close>

lemma parse_total_aux:
  "2 * length ts + 1 \<le> fuel \<Longrightarrow> ensures (parse_value fuel ts) (\<lambda>(v, rest). length rest < length ts)"
  "2 * length ts + 1 \<le> fuel \<Longrightarrow> ensures (parse_members fuel m ts) (\<lambda>(m', rest). length rest < length ts)"
  "2 * length ts + 2 \<le> fuel \<Longrightarrow> ensures (parse_elements fuel vs ts) (\<lambda>(vs', rest). length rest < length ts)"
proof (induction fuel arbitrary: ts m vs and ts m vs and ts m vs)
  case (Suc fuel)
  {
    case 1
    show ?case
    proof (cases ts)
      case (Cons t rest)
      have m: "ensures (parse_members fuel Map.empty rest) (\<lambda>(m', r). length r < length rest)"
        using 1 Cons by (intro Suc.IH(2)) simp
      have e: "ensures (parse_elements fuel [] rest) (\<lambda>(m', r). length r < length rest)"
        using 1 Cons by (intro Suc.IH(3)) simp
      have m': "ensures (and_then (parse_members fuel Map.empty rest) (\<lambda>(m, r). Ok (CNull, r))) (\<lambda>(v, r). length r < length ts)"
        by (rule ensures_and_then [OF m]) (use Cons in auto)
      have e': "ensures (and_then (parse_elements fuel [] rest) (\<lambda>(vs, r). Ok (CArray vs, r))) (\<lambda>(v, r). length r < length ts)"
        by (rule ensures_and_then [OF e]) (use Cons in auto)
      show ?thesis
        using Cons m' e' by (cases t) (auto split: list.split cfg_token.split)
    qed simp
  next
    case 2
    show ?case
    proof (cases ts)
      case (Cons t rest)
      show ?thesis
      proof (cases t)
        case (TStr key)
        have "ensures (and_then (parse_value fuel rest1) (\<lambda>(v, rest2).
            case rest2 of
              Comma # rest3 \<Rightarrow> parse_members fuel (m(key \<mapsto> v)) rest3
            | BraceClose # rest3 \<Rightarrow> Ok (m(key \<mapsto> v), rest3)
            | _ \<Rightarrow> Err (JsonError (ustr ''expected ',' or '}', got '' @ show_peek rest2))))
            (\<lambda>(m', r). length r < length ts)" if "rest = Colon # rest1" for rest1
        proof (rule ensures_and_then [OF Suc.IH(1)])
          show "2 * length rest1 + 1 \<le> fuel" using 2 Cons that by simp
          fix x :: "cfg_value \<times> cfg_token list"
          assume "case x of (v, rest2) \<Rightarrow> length rest2 < length rest1"
          then show "ensures (case x of (v, rest2) \<Rightarrow> (case rest2 of
              Comma # rest3 \<Rightarrow> parse_members fuel (m(key \<mapsto> v)) rest3
            | BraceClose # rest3 \<Rightarrow> Ok (m(key \<mapsto> v), rest3)
            | _ \<Rightarrow> Err (JsonError (ustr ''expected ',' or '}', got '' @ show_peek rest2))))
            (\<lambda>(m', r). length r < length ts)"
            using 2 Cons that
            by (auto split: list.splits cfg_token.splits intro!: ensures_weaken [OF Suc.IH(2)])
        qed
        then show ?thesis
          using Cons TStr by (cases "expect Colon rest") (auto simp: expect_Ok expect_not_Panic expect_same)
      qed (use Cons in simp_all)
    qed simp
  next
    case 3
    show ?case
      unfolding parse_elements.simps
    proof (rule ensures_and_then [OF Suc.IH(1)])
      show "2 * length ts + 1 \<le> fuel" using 3 by simp
      fix x :: "cfg_value \<times> cfg_token list"
      assume "case x of (v, rest) \<Rightarrow> length rest < length ts"
      then show "ensures (case x of (v, rest) \<Rightarrow> (case rest of
            Comma # rest1 \<Rightarrow> parse_elements fuel (vs @ [v]) rest1
          | BracketClose # rest1 \<Rightarrow> Ok (vs @ [v], rest1)
          | _ \<Rightarrow> Err (JsonError (ustr ''expected ',' or ']', got '' @ show_peek rest))))
          (\<lambda>(vs', rest). length rest < length ts)"
        using 3 by (auto split: list.splits cfg_token.splits intro!: ensures_weaken [OF Suc.IH(3)])
    qed
  }
qed simp_all

lemma parse_total: "parse_object ts \<noteq> Panic"
proof -
  have "ensures (parse_members (2 * length rest + 1) Map.empty rest) (\<lambda>_. True)" for rest
    by (rule ensures_weaken [OF parse_total_aux(2)]) simp_all
  then have m: "parse_members (2 * length rest + 1) Map.empty rest \<noteq> Panic" for rest
    by (simp add: ensures_iff)
  have "(case rest of BraceClose # rest1 \<Rightarrow> Ok (Map.empty, rest1)
      | _ \<Rightarrow> parse_members (2 * length rest + 1) Map.empty rest) \<noteq> Panic" for rest
  proof (cases rest)
    case Nil
    then show ?thesis using m [of "[]"] by simp
  next
    case (Cons t rest1)
    then show ?thesis using m [of rest] by (cases t) simp_all
  qed
  then show ?thesis
    unfolding parse_object_def by (intro and_then_no_panic expect_not_Panic)
qed

end
