(* ===== verification/ConfigApply.thy ===== *)
theory ConfigApply
  imports ConfigFile
begin

text \<open>
  What a JSON configuration file sets, and the validation of the result.
\<close>

section \<open>Fields of the file\<close>

definition map_str :: "cfg_map \<Rightarrow> string \<Rightarrow> ustring option" where
  "map_str m key = (case m (ustr key) of Some (CStr s) \<Rightarrow> Some s | _ \<Rightarrow> None)"

definition map_f64 :: "cfg_map \<Rightarrow> string \<Rightarrow> f64 option" where
  "map_f64 m key = (case m (ustr key) of Some (CNum n) \<Rightarrow> Some n | _ \<Rightarrow> None)"

definition map_bool :: "cfg_map \<Rightarrow> string \<Rightarrow> bool option" where
  "map_bool m key = (case m (ustr key) of Some (CBool b) \<Rightarrow> Some b | _ \<Rightarrow> None)"

definition str_items :: "cfg_value list \<Rightarrow> ustring list" where
  "str_items vs = List.map_filter (\<lambda>v. case v of CStr s \<Rightarrow> Some s | _ \<Rightarrow> None) vs"

definition map_str_vec :: "(ustring \<Rightarrow> ustring list) \<Rightarrow> cfg_map \<Rightarrow> string \<Rightarrow> ustring list option" where
  "map_str_vec split m key =
    (case m (ustr key) of
       Some (CStr s) \<Rightarrow> Some (split s)
     | Some (CArray arr) \<Rightarrow> (let v = str_items arr in if v = [] \<and> arr \<noteq> [] then None else Some v)
     | _ \<Rightarrow> None)"

text \<open>\<open>if let Some(v) = get(..) { config.field = v }\<close>.\<close>

definition set_if :: "'a option \<Rightarrow> ('a \<Rightarrow> config \<Rightarrow> config) \<Rightarrow> config \<Rightarrow> config" where
  "set_if opt f c = (case opt of Some v \<Rightarrow> f v c | None \<Rightarrow> c)"

definition json_protocol_version :: "cfg_map \<Rightarrow> u8" where
  "json_protocol_version m =
    (case map_f64 m ''protocol_version'' of
       Some n \<Rightarrow> if n = 0x4000000000000000 then 2 else if n = 0x3FF0000000000000 then 1 else 0
     | None \<Rightarrow> 0)"

definition apply_json_map :: "config \<Rightarrow> cfg_map \<Rightarrow> config" where
  "apply_json_map c m = fold (\<lambda>step. step)
    [set_if (map_str m ''endpoint'') (\<lambda>v c. c\<lparr>cf_endpoint := v\<rparr>),
     set_if (map_str m ''token'') (\<lambda>v c. c\<lparr>cf_token := v\<rparr>),
     set_if (map_f64 m ''interval'') (\<lambda>v c. c\<lparr>cf_interval := v\<rparr>),
     set_if (map_f64 m ''info_report_interval'') (\<lambda>v c. c\<lparr>cf_info_report_interval := of_nat (f64_as_unsigned 64 v)\<rparr>),
     set_if (map_f64 m ''reconnect_interval'') (\<lambda>v c. c\<lparr>cf_reconnect_interval := of_nat (f64_as_unsigned 64 v)\<rparr>),
     set_if (map_f64 m ''max_retries'') (\<lambda>v c. c\<lparr>cf_max_retries := of_nat (f64_as_unsigned 64 v)\<rparr>),
     (\<lambda>c. if m (ustr ''protocol_version'') \<noteq> None then c\<lparr>cf_protocol_version := json_protocol_version m\<rparr> else c),
     set_if (map_f64 m ''month_rotate'') (\<lambda>v c. c\<lparr>cf_month_rotate := of_nat (f64_as_unsigned 8 v)\<rparr>),
     set_if (map_bool m ''disable_web_ssh'') (\<lambda>v c. c\<lparr>cf_disable_web_ssh := v\<rparr>),
     set_if (map_bool m ''disable_exec'') (\<lambda>v c. c\<lparr>cf_disable_exec := v\<rparr>),
     set_if (map_bool m ''disable_auto_update'') (\<lambda>v c. c\<lparr>cf_disable_auto_update := v\<rparr>),
     set_if (map_bool m ''disable_compression'') (\<lambda>v c. c\<lparr>cf_disable_compression := v\<rparr>),
     set_if (map_bool m ''http_only'') (\<lambda>v c. c\<lparr>cf_http_only := v\<rparr>),
     set_if (map_bool m ''enable_gpu'') (\<lambda>v c. c\<lparr>cf_enable_gpu := v\<rparr>),
     set_if (map_bool m ''ignore_unsafe_cert'') (\<lambda>v c. c\<lparr>cf_ignore_unsafe_cert := v\<rparr>),
     set_if (map_bool m ''debug_log'') (\<lambda>v c. c\<lparr>cf_debug_log := v\<rparr>),
     set_if (map_bool m ''show_warning'') (\<lambda>v c. c\<lparr>cf_show_warning := v\<rparr>),
     set_if (map_bool m ''get_ip_addr_from_nic'') (\<lambda>v c. c\<lparr>cf_get_ip_addr_from_nic := v\<rparr>),
     set_if (map_bool m ''memory_include_cache'') (\<lambda>v c. c\<lparr>cf_memory_include_cache := v\<rparr>),
     set_if (map_bool m ''memory_report_raw_used'') (\<lambda>v c. c\<lparr>cf_memory_report_raw_used := v\<rparr>),
     set_if (map_bool m ''memory_mode_available'') (\<lambda>v c. c\<lparr>cf_memory_mode_available := v\<rparr>),
     set_if (map_str m ''prefer_ip_version'') (\<lambda>v c. c\<lparr>cf_prefer_ip_version := v\<rparr>),
     set_if (map_str m ''custom_ipv4'') (\<lambda>v c. c\<lparr>cf_custom_ipv4 := v\<rparr>),
     set_if (map_str m ''custom_ipv6'') (\<lambda>v c. c\<lparr>cf_custom_ipv6 := v\<rparr>),
     set_if (map_str m ''auto_discovery_key'') (\<lambda>v c. c\<lparr>cf_auto_discovery_key := v\<rparr>),
     set_if (map_str m ''host_proc'') (\<lambda>v c. c\<lparr>cf_host_proc := v\<rparr>),
     set_if (map_str m ''config_file'') (\<lambda>v c. c\<lparr>cf_config_file := v\<rparr>),
     set_if (map_str_vec split_comma m ''custom_dns'') (\<lambda>v c. c\<lparr>cf_custom_dns := v\<rparr>),
     set_if (map_str_vec split_comma m ''include_nics'') (\<lambda>v c. c\<lparr>cf_include_nics := v\<rparr>),
     set_if (map_str_vec split_comma m ''exclude_nics'') (\<lambda>v c. c\<lparr>cf_exclude_nics := v\<rparr>),
     set_if (map_str_vec split_semicolon m ''include_mountpoints'') (\<lambda>v c. c\<lparr>cf_include_mountpoints := v\<rparr>),
     set_if (map_str_vec split_semicolon m ''exclude_mountpoints'') (\<lambda>v c. c\<lparr>cf_exclude_mountpoints := v\<rparr>)] c"

definition max_config_bytes :: nat where "max_config_bytes = 1024 * 1024"

definition apply_json_bytes :: "float_text \<Rightarrow> config \<Rightarrow> bytes \<Rightarrow> (config, config_err) outcome" where
  "apply_json_bytes ft c bs =
    (if length bs > max_config_bytes then Err (JsonError (ustr ''config exceeds 1 MiB''))
     else if \<not> is_valid_object bs then Err (JsonError (ustr ''invalid JSON configuration object''))
     else and_then (tokenize ft bs) (\<lambda>tokens.
          and_then (parse_object tokens) (\<lambda>(m, _). Ok (apply_json_map c m))))"

text \<open>Reading a file: its bytes or an error; at most one byte more than the limit is read.\<close>

type_synonym file_reader = "ustring \<Rightarrow> (bytes, ustring) outcome"

definition load_json_config :: "float_text \<Rightarrow> file_reader \<Rightarrow> config \<Rightarrow> ustring \<Rightarrow> (config, config_err) outcome" where
  "load_json_config ft read_file c path =
    (case read_file path of
       Ok bs \<Rightarrow> apply_json_bytes ft c (take (max_config_bytes + 1) bs)
     | Err e \<Rightarrow> Err (FileReadError path e)
     | Panic \<Rightarrow> Panic)"

section \<open>Validation\<close>

definition validate :: "(f64 \<Rightarrow> bool) \<Rightarrow> config \<Rightarrow> (unit, config_err) outcome" where
  "validate supported c =
    (if cf_protocol_version c \<noteq> 2
     then Err (Validation (ustr ''protocol_version '' @ dec (unat (cf_protocol_version c)) @
            ustr '' is no longer supported; set protocol_version to 2 (Komari >= 1.5)''))
     else if f64_le_zero (cf_interval c) \<or> \<not> supported (cf_interval c)
     then Err (Validation (ustr ''interval must be a finite positive duration supported by the platform''))
     else if cf_endpoint c = []
     then Err (Validation (ustr ''endpoint is required (set via --endpoint, AGENT_ENDPOINT, or JSON config)''))
     else if cf_token c = [] \<and> cf_auto_discovery_key c = []
     then Err (Validation (ustr ''token or auto_discovery_key is required''))
     else if cf_prefer_ip_version c \<noteq> [] \<and> cf_prefer_ip_version c \<noteq> ustr ''4'' \<and> cf_prefer_ip_version c \<noteq> ustr ''6''
     then Err (Validation ([0x69] @ ustr ''nvalid prefer_ip_version '' @ [0x27] @ cf_prefer_ip_version c @ [0x27] @
            ustr '': expected empty, \"4\", or \"6\"''))
     else Ok ())"

end
