(* ===== verification/ConfigSnapshot.thy ===== *)
theory ConfigSnapshot
  imports ConfigApply JsonArray
begin

text \<open>
  The snapshot of the configuration that \<open>agent.startupConfig\<close> sends, and what it reveals.
\<close>

section \<open>Builder\<close>

record snapshot_builder =
  sb_out :: bytes
  sb_first :: bool

definition redacted :: ustring where "redacted = ustr ''[REDACTED]''"

definition sb_new :: snapshot_builder where
  "sb_new = \<lparr>sb_out = [0x7B], sb_first = True\<rparr>"

definition sb_push :: "bytes \<Rightarrow> snapshot_builder \<Rightarrow> snapshot_builder" where
  "sb_push bs b = b\<lparr>sb_out := sb_out b @ bs\<rparr>"

definition sb_key :: "string \<Rightarrow> snapshot_builder \<Rightarrow> snapshot_builder" where
  "sb_key name b =
    sb_push [0x22, 0x3A] (sb_push (lit name) (sb_push [0x22]
      ((if sb_first b then b else sb_push [0x2C] b)\<lparr>sb_first := False\<rparr>)))"

definition sb_str :: "string \<Rightarrow> ustring \<Rightarrow> snapshot_builder \<Rightarrow> snapshot_builder" where
  "sb_str name v b = (let b1 = sb_key name b in b1\<lparr>sb_out := write_json_string (sb_out b1) v\<rparr>)"

definition sb_redacted :: "string \<Rightarrow> ustring \<Rightarrow> snapshot_builder \<Rightarrow> snapshot_builder" where
  "sb_redacted name v b = sb_str name (if v = [] then [] else redacted) b"

definition sb_bool :: "string \<Rightarrow> bool \<Rightarrow> snapshot_builder \<Rightarrow> snapshot_builder" where
  "sb_bool name v b = sb_push (if v then lit ''true'' else lit ''false'') (sb_key name b)"

definition sb_u64 :: "string \<Rightarrow> u64 \<Rightarrow> snapshot_builder \<Rightarrow> snapshot_builder" where
  "sb_u64 name v b = sb_push (as_bytes (dec (unat v))) (sb_key name b)"

definition sb_f64 :: "float_text \<Rightarrow> string \<Rightarrow> f64 \<Rightarrow> snapshot_builder \<Rightarrow> snapshot_builder" where
  "sb_f64 ft name v b =
    (let b1 = sb_key name b
     in if f64_finite v then sb_push (as_bytes (show_f64 ft v)) b1 else sb_push (lit ''null'') b1)"

fun sb_items :: "nat \<Rightarrow> ustring list \<Rightarrow> snapshot_builder \<Rightarrow> snapshot_builder" where
  "sb_items i [] b = b"
| "sb_items i (v # vs) b =
    (let b1 = (if i > 0 then sb_push [0x2C] b else b)
     in sb_items (i + 1) vs (b1\<lparr>sb_out := write_json_string (sb_out b1) v\<rparr>))"

definition sb_list :: "string \<Rightarrow> ustring list \<Rightarrow> snapshot_builder \<Rightarrow> snapshot_builder" where
  "sb_list name vs b = sb_push [0x5D] (sb_items 0 vs (sb_push [0x5B] (sb_key name b)))"

definition sb_finish :: "snapshot_builder \<Rightarrow> bytes" where
  "sb_finish b = sb_out (sb_push [0x7D] b)"

text \<open>The compiled features, and the version of the package.\<close>

record build_stamps =
  bs_version :: ustring
  bs_ping :: bool
  bs_gpu_detection :: bool
  bs_terminal :: bool
  bs_self_update :: bool

definition join_comma :: "ustring list \<Rightarrow> ustring" where
  "join_comma parts = concat (case parts of [] \<Rightarrow> [] | p # ps \<Rightarrow> p # map (\<lambda>q. 0x2C # q) ps)"

definition compiled_features_csv :: "build_stamps \<Rightarrow> ustring" where
  "compiled_features_csv st =
    (let features = (if bs_ping st then [ustr ''ping''] else []) @
           (if bs_gpu_detection st then [ustr ''gpu-detection''] else []) @
           (if bs_terminal st then [ustr ''terminal''] else []) @
           (if bs_self_update st then [ustr ''self-update''] else [])
     in if features = [] then ustr ''none'' else join_comma features)"

definition version_text :: "build_stamps \<Rightarrow> ustring" where
  "version_text st =
    ustr ''komari-agent-rs '' @ bs_version st @ ustr '' (features: '' @ compiled_features_csv st @ ustr '')''"

definition startup_config_json :: "float_text \<Rightarrow> build_stamps \<Rightarrow> config \<Rightarrow> bytes" where
  "startup_config_json ft st c = sb_finish (fold (\<lambda>step. step)
    [sb_str ''endpoint'' (cf_endpoint c),
     sb_redacted ''token'' (cf_token c),
     sb_f64 ft ''interval'' (cf_interval c),
     sb_u64 ''info_report_interval'' (cf_info_report_interval c),
     sb_u64 ''reconnect_interval'' (cf_reconnect_interval c),
     sb_u64 ''max_retries'' (cf_max_retries c),
     sb_bool ''disable_web_ssh'' (cf_disable_web_ssh c),
     sb_bool ''disable_exec'' (cf_disable_exec c),
     sb_bool ''disable_auto_update'' (cf_disable_auto_update c),
     sb_bool ''disable_compression'' (cf_disable_compression c),
     sb_bool ''http_only'' (cf_http_only c),
     sb_bool ''enable_gpu'' (cf_enable_gpu c),
     sb_bool ''ignore_unsafe_cert'' (cf_ignore_unsafe_cert c),
     sb_bool ''debug_log'' (cf_debug_log c),
     sb_bool ''show_warning'' (cf_show_warning c),
     sb_bool ''get_ip_addr_from_nic'' (cf_get_ip_addr_from_nic c),
     sb_bool ''memory_include_cache'' (cf_memory_include_cache c),
     sb_bool ''memory_report_raw_used'' (cf_memory_report_raw_used c),
     sb_bool ''memory_mode_available'' (cf_memory_mode_available c),
     sb_str ''prefer_ip_version'' (cf_prefer_ip_version c),
     sb_str ''custom_ipv4'' (cf_custom_ipv4 c),
     sb_str ''custom_ipv6'' (cf_custom_ipv6 c),
     sb_list ''custom_dns'' (cf_custom_dns c),
     sb_list ''include_nics'' (cf_include_nics c),
     sb_list ''exclude_nics'' (cf_exclude_nics c),
     sb_list ''include_mountpoints'' (cf_include_mountpoints c),
     sb_list ''exclude_mountpoints'' (cf_exclude_mountpoints c),
     sb_u64 ''protocol_version'' (ucast (cf_protocol_version c)),
     sb_u64 ''month_rotate'' (ucast (cf_month_rotate c)),
     sb_redacted ''auto_discovery_key'' (cf_auto_discovery_key c),
     sb_str ''host_proc'' (cf_host_proc c),
     sb_str ''config_file'' (cf_config_file c),
     sb_str ''version'' (bs_version st),
     sb_str ''features'' (compiled_features_csv st)] sb_new)"

section \<open>The object it is\<close>

text \<open>A builder that holds the fields \<open>fs\<close>.\<close>

definition holds :: "(string \<times> bytes) list \<Rightarrow> snapshot_builder" where
  "holds fs = \<lparr>sb_out = [0x7B] @ members_text (named fs), sb_first = (fs = [])\<rparr>"

lemma named_append: "named (fs @ gs) = named fs @ named gs" and named_eq_Nil: "named fs = [] \<longleftrightarrow> fs = []"
  by (auto simp: named_def)

lemma sb_key_holds:
  "sb_key name (holds fs) =
    \<lparr>sb_out = sb_out (holds fs) @ (if fs = [] then [] else [0x2C]) @ quoted name @ [0x3A], sb_first = False\<rparr>"
  by (simp add: sb_key_def sb_push_def holds_def quoted_def)

lemma sb_push_holds:
  "sb_push v (sb_key name (holds fs)) = holds (fs @ [(name, v)])"
proof -
  have one: "named [(name, v)] = [(quoted name, v)]" by (simp add: named_def)
  have "members_text (named (fs @ [(name, v)])) =
      members_text (named fs) @ (if fs = [] then [] else [0x2C]) @ quoted name @ [0x3A] @ v"
    using one by (simp add: named_append members_text_snoc named_eq_Nil member_text_def)
  then show ?thesis unfolding sb_key_holds by (simp add: sb_push_def holds_def)
qed

definition f64_token :: "float_text \<Rightarrow> f64 \<Rightarrow> bytes" where
  "f64_token ft v = (if f64_finite v then as_bytes (show_f64 ft v) else lit ''null'')"

lemma write_json_string_append: "write_json_string out s = out @ json_string s"
  by (simp add: write_json_string_def)

lemma sb_items_eq:
  "ws \<noteq> [] \<Longrightarrow> sb_items (length ws) vs (sb_push (items_text ws) b) = sb_push (items_text (ws @ map json_string vs)) b"
proof (induction vs arbitrary: ws)
  case (Cons v vs)
  from Cons.IH [of "ws @ [json_string v]"] Cons.prems show ?case
    by (simp add: sb_push_def items_text_snoc write_json_string_append [of "_ @ _"])
qed simp

lemma sb_list_holds: "sb_list name vs (holds fs) = holds (fs @ [(name, array_text (map json_string vs))])"
proof -
  let ?b = "sb_key name (holds fs)"
  have "sb_items 0 vs (sb_push [0x5B] ?b) = sb_push (items_text (map json_string vs)) (sb_push [0x5B] ?b)"
  proof (cases vs)
    case (Cons v ws)
    with sb_items_eq [of "[json_string v]" ws "sb_push [0x5B] ?b"] show ?thesis
      by (simp add: sb_push_def write_json_string_append [of "_ @ _"])
  qed (simp add: sb_push_def)
  then have "sb_list name vs (holds fs) = sb_push (array_text (map json_string vs)) ?b"
    by (simp add: sb_list_def sb_push_def array_text_def)
  then show ?thesis by (simp add: sb_push_holds)
qed

lemma sb_steps:
  "sb_str name s (holds fs) = holds (fs @ [(name, json_string s)])"
  "sb_redacted name s (holds fs) = holds (fs @ [(name, json_string (if s = [] then [] else redacted))])"
  "sb_bool name v (holds fs) = holds (fs @ [(name, if v then lit ''true'' else lit ''false'')])"
  "sb_u64 name n (holds fs) = holds (fs @ [(name, as_bytes (dec (unat n)))])"
  "sb_f64 ft name x (holds fs) = holds (fs @ [(name, f64_token ft x)])"
proof -
  show s: "sb_str name s (holds fs) = holds (fs @ [(name, json_string s)])" for s
    using sb_push_holds [of "json_string s" name fs]
    by (simp add: sb_str_def sb_push_def Let_def write_json_string_append [of "sb_out _"])
  show "sb_redacted name s (holds fs) = holds (fs @ [(name, json_string (if s = [] then [] else redacted))])"
    by (simp add: sb_redacted_def s)
qed (simp_all add: sb_bool_def sb_u64_def sb_f64_def f64_token_def sb_push_holds Let_def)

text \<open>The fields of the snapshot.\<close>

definition flag_token :: "bool \<Rightarrow> bytes" where "flag_token v = (if v then lit ''true'' else lit ''false'')"
definition secret_token :: "ustring \<Rightarrow> bytes" where "secret_token s = json_string (if s = [] then [] else redacted)"

definition snapshot_fields :: "float_text \<Rightarrow> build_stamps \<Rightarrow> config \<Rightarrow> (string \<times> bytes) list" where
  "snapshot_fields ft st c =
    [(''endpoint'', json_string (cf_endpoint c)),
     (''token'', secret_token (cf_token c)),
     (''interval'', f64_token ft (cf_interval c)),
     (''info_report_interval'', as_bytes (dec (unat (cf_info_report_interval c)))),
     (''reconnect_interval'', as_bytes (dec (unat (cf_reconnect_interval c)))),
     (''max_retries'', as_bytes (dec (unat (cf_max_retries c)))),
     (''disable_web_ssh'', flag_token (cf_disable_web_ssh c)),
     (''disable_exec'', flag_token (cf_disable_exec c)),
     (''disable_auto_update'', flag_token (cf_disable_auto_update c)),
     (''disable_compression'', flag_token (cf_disable_compression c)),
     (''http_only'', flag_token (cf_http_only c)),
     (''enable_gpu'', flag_token (cf_enable_gpu c)),
     (''ignore_unsafe_cert'', flag_token (cf_ignore_unsafe_cert c)),
     (''debug_log'', flag_token (cf_debug_log c)),
     (''show_warning'', flag_token (cf_show_warning c)),
     (''get_ip_addr_from_nic'', flag_token (cf_get_ip_addr_from_nic c)),
     (''memory_include_cache'', flag_token (cf_memory_include_cache c)),
     (''memory_report_raw_used'', flag_token (cf_memory_report_raw_used c)),
     (''memory_mode_available'', flag_token (cf_memory_mode_available c)),
     (''prefer_ip_version'', json_string (cf_prefer_ip_version c)),
     (''custom_ipv4'', json_string (cf_custom_ipv4 c)),
     (''custom_ipv6'', json_string (cf_custom_ipv6 c)),
     (''custom_dns'', array_text (map json_string (cf_custom_dns c))),
     (''include_nics'', array_text (map json_string (cf_include_nics c))),
     (''exclude_nics'', array_text (map json_string (cf_exclude_nics c))),
     (''include_mountpoints'', array_text (map json_string (cf_include_mountpoints c))),
     (''exclude_mountpoints'', array_text (map json_string (cf_exclude_mountpoints c))),
     (''protocol_version'', as_bytes (dec (unat (cf_protocol_version c)))),
     (''month_rotate'', as_bytes (dec (unat (cf_month_rotate c)))),
     (''auto_discovery_key'', secret_token (cf_auto_discovery_key c)),
     (''host_proc'', json_string (cf_host_proc c)),
     (''config_file'', json_string (cf_config_file c)),
     (''version'', json_string (bs_version st)),
     (''features'', json_string (compiled_features_csv st))]"

lemma sb_new_holds: "sb_new = holds []"
  by (simp add: sb_new_def holds_def named_def)

lemma unat_ucast_u8: "unat (ucast (v :: u8) :: u64) = unat v"
  by (simp add: unsigned_ucast_eq take_bit_nat_eq_self unsigned_less [THEN less_le_trans])

lemma startup_config_json_eq: "startup_config_json ft st c = object_text (named (snapshot_fields ft st c))"
proof -
  have "fold (\<lambda>step. step) [] b = b" "fold (\<lambda>step. step) (s # ss) b = fold (\<lambda>step. step) ss (s b)"
    for s :: "snapshot_builder \<Rightarrow> snapshot_builder" and ss b by simp_all
  then have "startup_config_json ft st c = sb_finish (holds (snapshot_fields ft st c))"
    unfolding startup_config_json_def sb_new_holds snapshot_fields_def
    by (simp only: sb_steps sb_list_holds append.simps unat_ucast_u8 flag_token_def secret_token_def)
  then show ?thesis by (simp add: sb_finish_def sb_push_def holds_def object_text_def)
qed

section \<open>What it reveals\<close>

lemma snapshot_names: "names_ok (snapshot_fields ft st c)"
proof -
  have "map fst (snapshot_fields ft st c) = map fst (snapshot_fields ft \<lparr>bs_version = [], bs_ping = False,
      bs_gpu_detection = False, bs_terminal = False, bs_self_update = False\<rparr> config_default)"
    by (simp add: snapshot_fields_def)
  moreover have "map fst (snapshot_fields ft \<lparr>bs_version = [], bs_ping = False,
      bs_gpu_detection = False, bs_terminal = False, bs_self_update = False\<rparr> config_default) =
      [''endpoint'', ''token'', ''interval'', ''info_report_interval'', ''reconnect_interval'', ''max_retries'',
       ''disable_web_ssh'', ''disable_exec'', ''disable_auto_update'', ''disable_compression'', ''http_only'',
       ''enable_gpu'', ''ignore_unsafe_cert'', ''debug_log'', ''show_warning'', ''get_ip_addr_from_nic'',
       ''memory_include_cache'', ''memory_report_raw_used'', ''memory_mode_available'', ''prefer_ip_version'',
       ''custom_ipv4'', ''custom_ipv6'', ''custom_dns'', ''include_nics'', ''exclude_nics'',
       ''include_mountpoints'', ''exclude_mountpoints'', ''protocol_version'', ''month_rotate'',
       ''auto_discovery_key'', ''host_proc'', ''config_file'', ''version'', ''features'']"
    by (simp add: snapshot_fields_def)
  moreover have "distinct \<dots> \<and> list_all plain_text \<dots>" by code_simp
  ultimately show ?thesis by (simp only: names_ok_def)
qed

text \<open>The texts of a configuration, all of them Unicode, and an interval that prints as a number.\<close>

definition config_texts :: "config \<Rightarrow> ustring list" where
  "config_texts c =
    [cf_endpoint c, cf_token c, cf_prefer_ip_version c, cf_custom_ipv4 c, cf_custom_ipv6 c, cf_auto_discovery_key c,
     cf_host_proc c, cf_config_file c] @ cf_custom_dns c @ cf_include_nics c @ cf_exclude_nics c @
    cf_include_mountpoints c @ cf_exclude_mountpoints c"

lemma flag_value: "d \<le> 32 \<Longrightarrow> json_value d (flag_token v)"
  unfolding flag_token_def by (rule json_value_bool)

lemma null_value: "json_value 1 (lit ''null'')"
  unfolding json_value_def by code_simp

lemma secret_value: "d \<le> 32 \<Longrightarrow> json_value d (secret_token s)"
  by (auto simp: secret_token_def redacted_def intro!: json_value_string)

lemma features_valid: "valid_text (compiled_features_csv st)"
  by (auto simp: compiled_features_csv_def join_comma_def Let_def scalar_value_def)

lemma snapshot_members:
  assumes "list_all valid_text (config_texts c)" and "valid_text (bs_version st)"
    and "f64_finite (cf_interval c) \<Longrightarrow> json_value 1 (as_bytes (show_f64 ft (cf_interval c)))"
  shows "members_ok 0 (named (snapshot_fields ft st c))"
proof (rule members_ok_named [OF snapshot_names])
  have "json_value 1 (f64_token ft (cf_interval c))"
    using assms(3) null_value by (simp add: f64_token_def)
  moreover have "json_value 1 (array_text (map json_string ss))" if "list_all valid_text ss" for ss
    using that by (intro json_value_array) (auto simp: list_all_iff json_value_string)
  ultimately show "\<forall>v\<in>set (map snd (snapshot_fields ft st c)). json_value (Suc 0) v"
    using assms(1,2)
    by (simp add: snapshot_fields_def config_texts_def json_value_string json_value_nat flag_value secret_value features_valid)
qed simp

lemma snapshot_lookup:
  assumes "list_all valid_text (config_texts c)" and "valid_text (bs_version st)"
    and "f64_finite (cf_interval c) \<Longrightarrow> json_value 1 (as_bytes (show_f64 ft (cf_interval c)))"
  shows "is_valid_object (startup_config_json ft st c)"
    and "object_field (startup_config_json ft st c) (ustr n) = map_of (snapshot_fields ft st c) n"
  using object_field_text [OF snapshot_members [OF assms]] snapshot_names [of ft st c]
  by (simp_all add: startup_config_json_eq names_ok_def lookup_named)



end
