(* ===== verification/StdLines.thy ===== *)
theory StdLines
  imports StdStr
begin

text \<open>
  Lines, words and hexadecimal numbers of the standard library, shared by the protocols that are
  made of text.
\<close>

text \<open>\<open>str::lines\<close>: a line that ends in a line feed loses it and a carriage return before it.\<close>

definition strip_cr :: "ustring \<Rightarrow> ustring" where
  "strip_cr l = (case strip_suffix_opt [0x0D] l of Some s \<Rightarrow> s | None \<Rightarrow> l)"

definition lines_of :: "ustring \<Rightarrow> ustring list" where
  "lines_of s =
    (let parts = split_all (\<lambda>c. c = 0x0A) s
     in map strip_cr (butlast parts) @ (if last parts = [] then [] else [last parts]))"

definition split_whitespace :: "ustring \<Rightarrow> ustring list" where
  "split_whitespace s = filter (\<lambda>w. w \<noteq> []) (split_all char_ws s)"

definition is_hex_char :: "nat \<Rightarrow> bool" where
  "is_hex_char c \<longleftrightarrow> dec_digit c \<or> 65 \<le> c \<and> c \<le> 70 \<or> 97 \<le> c \<and> c \<le> 102"

definition hex_char_value :: "nat \<Rightarrow> nat" where
  "hex_char_value c = (if dec_digit c then c - 48 else if c \<le> 70 then c - 55 else c - 87)"

definition hex_number :: "ustring \<Rightarrow> nat" where
  "hex_number s = foldl (\<lambda>acc c. 16 * acc + hex_char_value c) 0 s"

fun hex :: "nat \<Rightarrow> ustring" where
  "hex n = (if n < 16 then [if n < 10 then 48 + n else 87 + n]
            else hex (n div 16) @ [if n mod 16 < 10 then 48 + n mod 16 else 87 + n mod 16])"

declare hex.simps [simp del]

lemma split_all_not_Nil [simp]: "split_all P s \<noteq> []"
  by (induction s) (auto split: list.splits)

lemma split_all_none: "\<forall>x\<in>set s. \<not> P x \<Longrightarrow> split_all P s = [s]"
  by (induction s) auto

lemma split_all_append:
  "\<lbrakk>\<forall>x\<in>set a. \<not> P x; P c\<rbrakk> \<Longrightarrow> split_all P (a @ c # b) = a # split_all P b"
  by (induction a) auto

lemma lines_of_simps:
  "lines_of [] = []"
  "\<lbrakk>0x0A \<notin> set l; l = [] \<or> last l \<noteq> 0x0D\<rbrakk> \<Longrightarrow> lines_of (l @ 0x0D # 0x0A # rest) = l # lines_of rest"
  "\<lbrakk>0x0A \<notin> set l; l \<noteq> []\<rbrakk> \<Longrightarrow> lines_of l = [l]"
proof -
  show "lines_of (l @ 0x0D # 0x0A # rest) = l # lines_of rest" if "0x0A \<notin> set l" "l = [] \<or> last l \<noteq> 0x0D"
  proof -
    have "split_all (\<lambda>c. c = 0x0A) ((l @ [0x0D]) @ 0x0A # rest) = (l @ [0x0D]) # split_all (\<lambda>c. c = 0x0A) rest"
      using that by (intro split_all_append) auto
    moreover have "strip_suffix_opt [0x0D] (l @ [0x0D]) = Some l" by (simp add: strip_suffix_eq_Some)
    ultimately show ?thesis by (simp add: lines_of_def strip_cr_def Let_def)
  qed
  show "lines_of l = [l]" if "0x0A \<notin> set l" "l \<noteq> []"
  proof -
    have "split_all (\<lambda>c. c = 0x0A) l = [l]" by (rule split_all_none) (use that(1) in auto)
    with that(2) show ?thesis by (simp add: lines_of_def)
  qed
qed (simp add: lines_of_def)

lemma hex_number_snoc: "hex_number (s @ [c]) = 16 * hex_number s + hex_char_value c"
  by (simp add: hex_number_def)

lemma hex_number_hex: "hex_number (hex n) = n"
proof (induction n rule: hex.induct)
  case (1 n)
  show ?case
  proof (cases "n < 16")
    case True
    then show ?thesis by (simp add: hex.simps [of n] hex_number_def hex_char_value_def dec_digit_def)
  next
    case False
    have "hex_char_value (if n mod 16 < 10 then 48 + n mod 16 else 87 + n mod 16) = n mod 16"
      using mod_less_divisor [of 16 n] by (auto simp: hex_char_value_def dec_digit_def)
    with 1 False have "hex_number (hex n) = 16 * (n div 16) + n mod 16"
      by (simp add: hex.simps [of n] hex_number_snoc)
    then show ?thesis by simp
  qed
qed

lemma hex_chars: "hex n \<noteq> [] \<and> list_all is_hex_char (hex n)"
proof (induction n rule: hex.induct)
  case (1 n)
  have "is_hex_char (if k < 10 then 48 + k else 87 + k)" if "k < 16" for k
    using that by (auto simp: is_hex_char_def dec_digit_def)
  from this [of n] this [of "n mod 16"] 1 show ?case by (simp add: hex.simps [of n])
qed

lemma hex_length: "n < 16 ^ Suc k \<Longrightarrow> length (hex n) \<le> Suc k"
proof (induction k arbitrary: n)
  case 0
  then show ?case by (simp add: hex.simps [of n])
next
  case (Suc k)
  then have "n div 16 < 16 ^ Suc k" by (simp add: div_less_iff_less_mult ac_simps)
  from Suc.IH [OF this] show ?case by (simp add: hex.simps [of n])
qed

end
