(* ===== verification/Http.thy ===== *)
theory Http
  imports TaskSpec StdLines
begin

text \<open>
  The HTTP/1.1 client: \<open>http.rs\<close>.  URL and response parsing, the request text, and the streaming
  exchange.  Sockets, TLS and name resolution are outside: an exchange is a function from the host,
  the port, the use of TLS and the bytes sent to what is then read.
\<close>

section \<open>Errors\<close>

datatype http_err = HttpIo ustring | HttpTls ustring | HttpParse ustring | HttpTimeout

definition http_err_text :: "http_err \<Rightarrow> ustring" where
  "http_err_text e =
    (case e of
       HttpIo s \<Rightarrow> ustr ''I/O error: '' @ s
     | HttpTls s \<Rightarrow> ustr ''TLS error: '' @ s
     | HttpParse s \<Rightarrow> ustr ''parse error: '' @ s
     | HttpTimeout \<Rightarrow> ustr ''connection timed out'')"

abbreviation parse_err :: "string \<Rightarrow> http_err" where
  "parse_err s \<equiv> HttpParse (ustr s)"

definition max_response_bytes :: nat where "max_response_bytes = 1024 * 1024"

section \<open>URLs\<close>

definition port_of :: "ustring \<Rightarrow> (nat, http_err) outcome" where
  "port_of s = ok_or (parse_err ''invalid URL port'') (parse_unsigned 65535 s)"

definition parse_authority :: "nat \<Rightarrow> ustring \<Rightarrow> (ustring \<times> nat, http_err) outcome" where
  "parse_authority default_port host_part =
    (case strip_prefix_opt [0x5B] host_part of
       Some literal \<Rightarrow>
         and_then (ok_or (parse_err ''unclosed IPv6 literal'') (split_first (\<lambda>c. c = 0x5D) literal)) (\<lambda>(host, tail).
           if tail = [] then Ok (host, default_port)
           else and_then (ok_or (parse_err ''invalid IPv6 authority'') (strip_prefix_opt [0x3A] tail)) (\<lambda>p.
                and_then (port_of p) (\<lambda>port. Ok (host, port))))
     | None \<Rightarrow>
         (case split_first (\<lambda>c. c = 0x3A) host_part of
            Some (h, p) \<Rightarrow> and_then (port_of p) (\<lambda>port. Ok (h, port))
          | None \<Rightarrow> Ok (host_part, default_port)))"

definition scheme_of :: "ustring \<Rightarrow> (ustring \<times> nat, http_err) outcome" where
  "scheme_of url =
    (case strip_prefix_opt (ustr ''https://'') url of
       Some s \<Rightarrow> Ok (s, 443)
     | None \<Rightarrow> (case strip_prefix_opt (ustr ''http://'') url of
                  Some s \<Rightarrow> Ok (s, 80)
                | None \<Rightarrow> Err (parse_err ''URL must start with http:// or https://'')))"

definition is_url_control :: "nat \<Rightarrow> bool" where
  "is_url_control c \<longleftrightarrow> c \<le> 0x20 \<or> c = 0x7F \<or> c = 0x23"

definition parse_url :: "ustring \<Rightarrow> (ustring \<times> nat \<times> ustring \<times> ustring, http_err) outcome" where
  "parse_url url =
    (if list_ex is_url_control url then Err (parse_err ''control character in URL'')
     else and_then (scheme_of url) (\<lambda>(rest, default_port).
       let host_part = takeWhile (\<lambda>c. c \<noteq> 0x2F \<and> c \<noteq> 0x3F) rest;
           tail = dropWhile (\<lambda>c. c \<noteq> 0x2F \<and> c \<noteq> 0x3F) rest;
           path_part = (if tail = [] then [0x2F] else tail)
       in and_then (parse_authority default_port host_part) (\<lambda>(host, port).
            if host = [] \<or> list_ex (\<lambda>c. c = 0x0D \<or> c = 0x0A \<or> c = 0x40) host
            then Err (parse_err ''invalid URL authority'')
            else case split_first (\<lambda>c. c = 0x3F) path_part of
                   Some (path, query) \<Rightarrow> Ok (host, port, if path = [] then [0x2F] else path, query)
                 | None \<Rightarrow> Ok (host, port, path_part, []))))"

definition host_header :: "ustring \<Rightarrow> nat \<Rightarrow> bool \<Rightarrow> ustring" where
  "host_header host port tls =
    (let authority = (if 0x3A \<in> set host then [0x5B] @ host @ [0x5D] else host)
     in if port = (if tls then 443 else 80) then authority else authority @ [0x3A] @ dec port)"

section \<open>Requests\<close>

abbreviation crlf :: ustring where "crlf \<equiv> [0x0D, 0x0A]"

type_synonym headers = "(ustring \<times> ustring) list"

definition header_line :: "ustring \<times> ustring \<Rightarrow> ustring" where
  "header_line h = fst h @ ustr '': '' @ snd h @ crlf"

definition request_target :: "ustring \<Rightarrow> ustring \<Rightarrow> ustring" where
  "request_target path query = (if query = [] then path else path @ [0x3F] @ query)"

definition request_head ::
  "ustring \<Rightarrow> ustring \<Rightarrow> nat \<Rightarrow> bool \<Rightarrow> ustring \<Rightarrow> ustring \<Rightarrow> ustring option \<Rightarrow> nat \<Rightarrow> ustring option \<Rightarrow> headers \<Rightarrow> ustring" where
  "request_head method host port tls path query content_type body_len encoding extra =
    method @ [0x20] @ request_target path query @ ustr '' HTTP/1.1'' @ crlf @
    header_line (ustr ''Host'', host_header host port tls) @
    (case content_type of Some t \<Rightarrow> header_line (ustr ''Content-Type'', t) | None \<Rightarrow> []) @
    (if method \<noteq> ustr ''GET'' then header_line (ustr ''Content-Length'', dec body_len) else []) @
    (case encoding of Some enc \<Rightarrow> header_line (ustr ''Content-Encoding'', enc) | None \<Rightarrow> []) @
    concat (map header_line extra) @
    header_line (ustr ''Connection'', ustr ''close'') @ crlf"

section \<open>Responses\<close>

record http_response =
  hr_status :: nat
  hr_headers :: headers
  hr_body :: bytes

text \<open>Reads until the end of the stream; the deadline is checked before each one.\<close>

datatype http_read = HttpData bytes | HttpFail http_err

fun read_response :: "bytes \<Rightarrow> http_read list \<Rightarrow> (bytes, http_err) outcome" where
  "read_response acc [] = Ok acc"
| "read_response acc (HttpFail e # reads) = Err e"
| "read_response acc (HttpData bs # reads) =
    (if bs = [] then Ok acc
     else if length acc + length bs > max_response_bytes then Err (parse_err ''HTTP response exceeds 1 MiB limit'')
     else read_response (acc @ bs) reads)"

function decode_chunks :: "bytes \<Rightarrow> bytes \<Rightarrow> (bytes, http_err) outcome" where
  "decode_chunks body raw =
    (let invalid = parse_err ''invalid or truncated chunked body''
     in case find_sub [0x0D, 0x0A] raw of
          None \<Rightarrow> Err invalid
        | Some e \<Rightarrow>
            if e > 1024 then Err invalid
            else case from_utf8 (take e raw) of
              None \<Rightarrow> Err invalid
            | Some line \<Rightarrow>
                (let digits = hd (split_all (\<lambda>c. c = 0x3B) line)
                 in if digits = [] \<or> \<not> list_all is_hex_char digits \<or> hex_number digits \<ge> 2 ^ 64 then Err invalid
                    else let size = hex_number digits; rest = drop (e + 2) raw
                    in if size = 0
                       then if rest = [0x0D, 0x0A] \<or> strip_suffix_opt [0x0D, 0x0A, 0x0D, 0x0A] rest \<noteq> None
                            then Ok body else Err invalid
                       else if size > max_response_bytes - length body \<or> size > length rest - 2 \<or>
                               slice_of size (size + 2) rest \<noteq> [0x0D, 0x0A]
                       then Err invalid
                       else decode_chunks (body @ take size rest) (drop (size + 2) rest)))"
  by auto
termination decode_chunks
proof (relation "measure (\<lambda>(body, raw). length raw)")
  fix body raw :: bytes and inv e line digits size rest
  assume "find_sub [0x0D, 0x0A] raw = Some e" "rest = drop (e + 2) raw"
  then show "((body @ take size rest, drop (size + 2) rest), body, raw) \<in> measure (\<lambda>(body, raw). length raw)"
    using find_sub_eq_Some [of "[0x0D, 0x0A]" raw e] by auto
qed simp

declare decode_chunks.simps [simp del]

definition decode_chunked :: "bytes \<Rightarrow> (bytes, http_err) outcome" where
  "decode_chunked raw = decode_chunks [] raw"

record header_state =
  hs_headers :: headers
  hs_length :: "nat option"
  hs_chunked :: bool

definition is_name :: "string \<Rightarrow> ustring \<Rightarrow> bool" where
  "is_name s name \<longleftrightarrow> eq_ignore_case name (ustr s)"

definition header_step :: "ustring \<Rightarrow> header_state \<Rightarrow> (header_state, http_err) outcome" where
  "header_step line st =
    (case split_first (\<lambda>c. c = 0x3A) line of
       None \<Rightarrow> Ok st
     | Some (n, v) \<Rightarrow>
         (let name = trim n; val = trim v
          in and_then
               (if is_name ''content-length'' name
                then if hs_length st \<noteq> None then Err (parse_err ''duplicate content length'')
                     else and_then (ok_or (parse_err ''invalid content length'') (parse_unsigned (2 ^ 64 - 1) val))
                            (\<lambda>n. Ok (st\<lparr>hs_length := Some n\<rparr>))
                else Ok st) (\<lambda>st1.
             and_then
               (if is_name ''transfer-encoding'' name
                then if hs_chunked st1 \<or> \<not> is_name ''chunked'' val
                     then Err (parse_err ''unsupported or duplicate transfer encoding'')
                     else Ok (st1\<lparr>hs_chunked := True\<rparr>)
                else Ok st1) (\<lambda>st2.
             Ok (st2\<lparr>hs_headers := hs_headers st2 @ [(name, val)]\<rparr>)))))"

fun header_steps :: "ustring list \<Rightarrow> header_state \<Rightarrow> (header_state, http_err) outcome" where
  "header_steps [] st = Ok st"
| "header_steps (line # ls) st = and_then (header_step line st) (header_steps ls)"

definition nth_word :: "nat \<Rightarrow> ustring \<Rightarrow> ustring option" where
  "nth_word i line = get_opt (split_whitespace line) i"

definition parse_http_response :: "bytes \<Rightarrow> (http_response, http_err) outcome" where
  "parse_http_response bs =
    and_then (ok_or (parse_err ''no header/body separator found'') (find_sub [0x0D, 0x0A, 0x0D, 0x0A] bs)) (\<lambda>sep.
    if sep > 65536 then Err (parse_err ''HTTP headers exceed 64 KiB limit'')
    else and_then (ok_or (parse_err ''headers are not valid UTF-8'') (from_utf8 (take sep bs))) (\<lambda>header_text.
    case lines_of header_text of
      [] \<Rightarrow> Err (parse_err ''empty response'')
    | status_line # ls \<Rightarrow>
        and_then (ok_or (HttpParse (ustr ''malformed status line: '' @ status_line)) (nth_word 1 status_line)) (\<lambda>word.
        and_then (ok_or (HttpParse (ustr ''invalid status code in: '' @ status_line)) (parse_unsigned 65535 word)) (\<lambda>code.
        and_then (header_steps ls \<lparr>hs_headers = [], hs_length = None, hs_chunked = False\<rparr>) (\<lambda>st.
          let raw_body = drop (sep + 4) bs
          in if hs_chunked st \<and> hs_length st \<noteq> None then Err (parse_err ''ambiguous HTTP framing'')
             else and_then
               (if hs_chunked st then decode_chunked raw_body
                else if hs_length st \<noteq> None \<and> hs_length st \<noteq> Some (length raw_body)
                then Err (parse_err ''HTTP content length mismatch'')
                else Ok raw_body) (\<lambda>body.
             Ok \<lparr>hr_status = code, hr_headers = hs_headers st, hr_body = body\<rparr>))))))"

section \<open>Exchanges\<close>

text \<open>
  Connecting, TLS, sending the request and reading: the reads that follow, or the error met first.
\<close>

type_synonym network = "ustring \<Rightarrow> nat \<Rightarrow> bool \<Rightarrow> bytes \<Rightarrow> (http_read list, http_err) outcome"

definition http_request ::
  "network \<Rightarrow> ustring \<Rightarrow> ustring \<Rightarrow> bytes option \<Rightarrow> ustring option \<Rightarrow> ustring option \<Rightarrow> headers \<Rightarrow>
    (http_response, http_err) outcome" where
  "http_request net method url body_opt content_type encoding extra =
    (let body = (case body_opt of Some b \<Rightarrow> b | None \<Rightarrow> [])
     in and_then (parse_url url) (\<lambda>(host, port, path, query).
        let tls = (strip_prefix_opt (ustr ''https://'') url \<noteq> None);
            head = request_head method host port tls path query content_type (length body) encoding extra
        in and_then (net host port tls (as_bytes head @ (if method \<noteq> ustr ''GET'' then body else []))) (\<lambda>reads.
           and_then (read_response [] reads) parse_http_response)))"

definition http_post ::
  "network \<Rightarrow> ustring \<Rightarrow> bytes \<Rightarrow> ustring \<Rightarrow> ustring option \<Rightarrow> headers \<Rightarrow> (http_response, http_err) outcome" where
  "http_post net url body content_type encoding extra =
    http_request net (ustr ''POST'') url (Some body) (Some content_type) encoding extra"

end
