(* ===== verification/HttpStream.thy ===== *)
theory HttpStream
  imports Http
begin

text \<open>
  The streaming exchange of \<open>http.rs\<close>, which the file relay uses: a body of exact length is sent, and
  a response of exact or bounded length is copied out without being buffered.
\<close>

text \<open>What can still be read: bytes, and then the end of the stream or an error.\<close>

type_synonym source = "bytes \<times> http_err option"

record stream_response =
  sr_status :: nat
  sr_body_len :: nat

definition read_bounded_line :: "nat \<Rightarrow> source \<Rightarrow> (ustring \<times> source, http_err) outcome" where
  "read_bounded_line limit s =
    (let window = take (limit + 1) (fst s);
         line = (case split_first (\<lambda>b. b = 0x0A) window of Some (a, _) \<Rightarrow> a @ [0x0A] | None \<Rightarrow> window);
         starved = (0x0A \<notin> set window \<and> length (fst s) \<le> limit)
     in case (starved, snd s) of
          (True, Some e) \<Rightarrow> Err e
        | _ \<Rightarrow>
            if length line > limit \<or> strip_suffix_opt [0x0D, 0x0A] line = None
            then Err (parse_err ''invalid or oversized HTTP line'')
            else and_then (ok_or (parse_err ''HTTP header is not UTF-8'') (from_utf8 (take (length line - 2) line))) (\<lambda>t.
                 Ok (t, drop (length line) (fst s), snd s)))"

text \<open>\<open>io::copy\<close> of at most \<open>n\<close> bytes.\<close>

definition copy_upto :: "nat \<Rightarrow> source \<Rightarrow> (bytes, http_err) outcome" where
  "copy_upto n s =
    (case (length (fst s) < n, snd s) of (True, Some e) \<Rightarrow> Err e | _ \<Rightarrow> Ok (take n (fst s)))"

definition stream_header :: "nat option \<Rightarrow> ustring \<Rightarrow> (nat option, http_err) outcome" where
  "stream_header content_length line =
    and_then (ok_or (parse_err ''malformed HTTP header'') (split_first (\<lambda>c. c = 0x3A) line)) (\<lambda>(name, v).
      let val = trim v
      in if is_name ''content-length'' name
         then if content_length \<noteq> None then Err (parse_err ''duplicate content length'')
              else and_then (ok_or (parse_err ''invalid content length'') (parse_unsigned (2 ^ 64 - 1) val)) (\<lambda>n. Ok (Some n))
         else if is_name ''transfer-encoding'' name
         then Err (parse_err ''streaming transfer requires Content-Length'')
         else if is_name ''content-encoding'' name \<and> \<not> is_name ''identity'' val
         then Err (parse_err ''unsupported content encoding'')
         else Ok content_length)"

lemma read_bounded_line_shorter:
  "read_bounded_line limit s = Ok (line, s') \<Longrightarrow> length (fst s') < length (fst s)"
proof -
  assume r: "read_bounded_line limit s = Ok (line, s')"
  let ?window = "take (limit + 1) (fst s)"
  let ?line = "case split_first (\<lambda>b. b = 0x0A) ?window of Some (a, _) \<Rightarrow> a @ [0x0A] | None \<Rightarrow> ?window"
  have "strip_suffix_opt [0x0D, 0x0A] ?line \<noteq> None" and s': "fst s' = drop (length ?line) (fst s)"
    using r by (auto simp: read_bounded_line_def Let_def outcome_simps split: option.splits bool.splits if_splits prod.splits)
  then obtain t where t: "?line = t @ [0x0D, 0x0A]" by (auto simp: strip_suffix_eq_Some)
  have "length ?line \<le> length ?window"
  proof (cases "split_first (\<lambda>b. b = 0x0A) ?window")
    case (Some ab)
    obtain a b where ab: "ab = (a, b)" by fastforce
    with Some obtain x where w: "?window = a @ x # b"
      using split_first_eq_Some [of "\<lambda>b. b = 0x0A" ?window a b] by auto
    have "length a + 1 \<le> length ?window" unfolding w by simp
    with Some ab show ?thesis by simp
  qed simp
  moreover have "0 < length ?line" using t by simp
  moreover have "length ?window \<le> length (fst s)" by simp
  ultimately show ?thesis unfolding s' length_drop by linarith
qed


text \<open>The header lines until the empty one, 64 KiB of them at most.\<close>

function stream_headers :: "nat \<Rightarrow> nat option \<Rightarrow> source \<Rightarrow> (nat option \<times> source, http_err) outcome" where
  "stream_headers header_bytes content_length s =
    (case read_bounded_line 8192 s of
       Err e \<Rightarrow> Err e
     | Panic \<Rightarrow> Panic
     | Ok (line, s') \<Rightarrow>
         if header_bytes + length (as_bytes line) > 65536 then Err (parse_err ''HTTP headers exceed 64 KiB limit'')
         else if line = [] then Ok (content_length, s')
         else and_then (stream_header content_length line) (\<lambda>cl.
              stream_headers (header_bytes + length (as_bytes line)) cl s'))"
  by auto
termination stream_headers
  by (relation "measure (\<lambda>(n, cl, s). length (fst s))") (auto dest: read_bounded_line_shorter)

declare stream_headers.simps [simp del]

text \<open>What the receiver reads and what is written to \<open>response\<close>.\<close>

definition receive_stream ::
  "nat \<Rightarrow> nat option \<Rightarrow> source \<Rightarrow> (stream_response \<times> bytes, http_err) outcome" where
  "receive_stream response_limit expected_response s =
    and_then (read_bounded_line 8192 s) (\<lambda>(status, s1).
    and_then (ok_or (parse_err ''invalid HTTP status'')
      (case nth_word 1 status of Some w \<Rightarrow> parse_unsigned 65535 w | None \<Rightarrow> None)) (\<lambda>code.
    and_then (stream_headers (length (as_bytes status)) None s1) (\<lambda>(content_length, s2).
      let n = (case content_length of Some n \<Rightarrow> n | None \<Rightarrow> 0)
      in if n > response_limit \<or> expected_response \<notin> {None, Some n}
         then Err (parse_err ''invalid streaming response length'')
         else and_then (copy_upto n s2) (\<lambda>out.
              if length out \<noteq> n then Err (parse_err ''response body ended early'')
              else Ok (\<lparr>sr_status = code, sr_body_len = n\<rparr>, out)))))"

definition header_injects :: "ustring \<times> ustring \<Rightarrow> bool" where
  "header_injects h \<longleftrightarrow>
    list_ex (\<lambda>b. unat b \<le> 0x20 \<or> unat b \<ge> 127) (as_bytes (fst h)) \<or>
    list_ex (\<lambda>b. b = 0x0D \<or> b = 0x0A) (as_bytes (snd h))"

text \<open>A connection that takes the bytes of the request and then is read.\<close>

type_synonym stream_network =
  "ustring \<Rightarrow> nat \<Rightarrow> bool \<Rightarrow> (bytes \<Rightarrow> (source, http_err) outcome, http_err) outcome"

definition stream_head :: "ustring \<Rightarrow> nat \<Rightarrow> bool \<Rightarrow> ustring \<Rightarrow> nat \<Rightarrow> ustring \<Rightarrow> headers \<Rightarrow> ustring" where
  "stream_head host port tls target body_len content_type extra =
    ustr ''POST '' @ target @ ustr '' HTTP/1.1'' @ crlf @
    header_line (ustr ''Host'', host_header host port tls) @
    header_line (ustr ''Content-Type'', content_type) @
    header_line (ustr ''Content-Length'', dec body_len) @
    header_line (ustr ''Accept-Encoding'', ustr ''identity'') @
    concat (map header_line extra) @
    header_line (ustr ''Connection'', ustr ''close'') @ crlf"

definition http_post_stream ::
  "stream_network \<Rightarrow> ustring \<Rightarrow> source \<Rightarrow> nat \<Rightarrow> nat \<Rightarrow> nat option \<Rightarrow> ustring \<Rightarrow> headers \<Rightarrow>
    (stream_response \<times> bytes, http_err) outcome" where
  "http_post_stream net url body body_len response_limit expected_response content_type extra =
    and_then (parse_url url) (\<lambda>(host, port, path, query).
      let tls = (strip_prefix_opt (ustr ''https://'') url \<noteq> None)
      in and_then (net host port tls) (\<lambda>send.
         if list_ex header_injects extra then Err (parse_err ''invalid HTTP header'')
         else and_then (copy_upto body_len body) (\<lambda>sent.
              if length sent \<noteq> body_len then Err (parse_err ''request body ended early'')
              else and_then (send (as_bytes (stream_head host port tls (request_target path query) body_len content_type extra) @ sent))
                     (receive_stream response_limit expected_response))))"

end
