(* ===== verification/HttpSpec.thy ===== *)
theory HttpSpec
  imports HttpStream
begin

text \<open>
  What a server reads of a request line by line, and what the agent reads of a well-formed response
  however it arrives.
\<close>

section \<open>Texts without line breaks\<close>

definition one_line :: "ustring \<Rightarrow> bool" where
  "one_line s \<longleftrightarrow> 0x0D \<notin> set s \<and> 0x0A \<notin> set s"

lemma one_line_simps [simp]:
  "one_line []" "one_line (c # s) \<longleftrightarrow> c \<noteq> 0x0D \<and> c \<noteq> 0x0A \<and> one_line s"
  "one_line (s @ t) \<longleftrightarrow> one_line s \<and> one_line t"
  by (auto simp: one_line_def)

lemma one_line_dec [simp]: "one_line (dec n)"
  using dec_digits [of n] by (auto simp: one_line_def list_all_iff dec_digit_def)

lemma lines_of_crlf: "one_line l \<Longrightarrow> lines_of (l @ crlf @ rest) = l # lines_of rest"
proof -
  assume l: "one_line l"
  then have "l = [] \<or> last l \<noteq> 0x0D" unfolding one_line_def by (metis last_in_set)
  with l lines_of_simps(2) [of l rest] show ?thesis by (simp add: one_line_def)
qed

lemma one_line_last: "one_line l \<Longrightarrow> l \<noteq> [] \<Longrightarrow> lines_of l = [l]"
  by (rule lines_of_simps(3)) (auto simp: one_line_def)

definition joined :: "ustring list \<Rightarrow> ustring" where
  "joined ls = concat (map (\<lambda>l. l @ crlf) ls)"

lemma joined_simps [simp]: "joined [] = []" "joined (l # ls) = l @ crlf @ joined ls"
  "joined (ls @ ls') = joined ls @ joined ls'"
  by (simp_all add: joined_def)

lemma lines_of_joined: "list_all one_line ls \<Longrightarrow> lines_of (joined ls @ rest) = ls @ lines_of rest"
  by (induction ls) (simp_all add: lines_of_crlf [simplified])

lemma joined_header: "header_line h = joined [fst h @ ustr '': '' @ snd h]"
  by (simp add: header_line_def)

section \<open>Requests\<close>

lemma url_parts_plain:
  assumes "parse_url url = Ok (host, port, path, query)"
  shows "list_all (\<lambda>c. \<not> is_url_control c) (host @ path @ query) \<and> host \<noteq> []"
proof -
  have plain: "\<forall>c\<in>set url. \<not> is_url_control c"
    using assms by (auto simp: parse_url_def list_ex_iff split: if_splits)
  obtain rest dp where sch: "scheme_of url = Ok (rest, dp)"
    using assms by (auto simp: parse_url_def outcome_simps split: if_splits)
  then obtain p where "url = p @ rest"
    by (auto simp: scheme_of_def strip_prefix_eq_Some split: option.splits)
  with plain have rest: "\<forall>c\<in>set rest. \<not> is_url_control c" by simp
  define host_part where "host_part = takeWhile (\<lambda>c. c \<noteq> 0x2F \<and> c \<noteq> 0x3F) rest"
  define tail where "tail = dropWhile (\<lambda>c. c \<noteq> 0x2F \<and> c \<noteq> 0x3F) rest"
  define path_part where "path_part = (if tail = [] then [0x2F] else tail)"
  have parts: "\<forall>c\<in>set host_part. \<not> is_url_control c" "\<forall>c\<in>set path_part. \<not> is_url_control c"
    using rest by (auto simp: host_part_def path_part_def tail_def is_url_control_def dest: set_takeWhileD set_dropWhileD)
  have auth: "parse_authority dp host_part = Ok (host, port)" "host \<noteq> []" and
    pq: "(case split_first (\<lambda>c. c = 0x3F) path_part of
        Some (a, b) \<Rightarrow> (if a = [] then [0x2F] else a, b) | None \<Rightarrow> (path_part, [])) = (path, query)"
    using assms sch
    by (auto simp: parse_url_def Let_def outcome_simps host_part_def path_part_def tail_def
        split: if_splits option.splits prod.splits)
  have "set host \<subseteq> set host_part"
    using auth by (auto simp: parse_authority_def outcome_simps strip_prefix_eq_Some split_first_eq_Some
        split: option.splits if_splits)
  moreover have "set path \<subseteq> insert 0x2F (set path_part)" "set query \<subseteq> set path_part"
    using pq by (auto simp: split_first_eq_Some split: option.splits if_splits prod.splits)
  moreover have "\<not> is_url_control 0x2F" by (simp add: is_url_control_def)
  ultimately show ?thesis using parts auth(2) by (auto simp: list_all_iff)
qed

lemma plain_one_line: "list_all (\<lambda>c. \<not> is_url_control c) s \<Longrightarrow> one_line s"
  by (auto simp: list_all_iff one_line_def is_url_control_def)

lemma one_line_host_header: "one_line host \<Longrightarrow> one_line (host_header host port tls)"
  by (simp add: host_header_def Let_def)



end
