(* ===== verification/HttpReply.thy ===== *)
theory HttpReply
  imports HttpSpec
begin

text \<open>
  A response that a server writes, with either framing, is parsed to its status, headers and body,
  for every way its bytes arrive.
\<close>

section \<open>Bytes of texts\<close>

lemma as_bytes_one_line:
  assumes "valid_text s" and "one_line s"
  shows "0x0D \<notin> set (as_bytes s)" and "0x0A \<notin> set (as_bytes s)"
proof -
  have "b \<noteq> 0x0D \<and> b \<noteq> 0x0A" if c: "c \<in> set s" and b: "b \<in> set (encode_char c)" for c b
  proof (cases "c < 0x80")
    case True
    then have "unat b = c" using b by (simp add: encode_char_ascii unat_of_nat_byte)
    moreover have "c \<noteq> 0x0D" "c \<noteq> 0x0A" using c assms(2) by (auto simp: one_line_def)
    ultimately show ?thesis by auto
  next
    case False
    have "scalar_value c" using c assms(1) by (auto simp: valid_text_def list_all_iff)
    from encode_char_high [OF this _ b] False show ?thesis by auto
  qed
  then show "0x0D \<notin> set (as_bytes s)" "0x0A \<notin> set (as_bytes s)" by (auto simp: as_bytes_def)
qed

abbreviation crlf_bytes :: bytes where "crlf_bytes \<equiv> [0x0D, 0x0A]"

lemma as_bytes_crlf [simp]: "as_bytes (s @ t) = as_bytes s @ as_bytes t"
  "encode_char 0x0D = [0x0D]" "encode_char 0x0A = [0x0A]"
  by (simp_all add: as_bytes_def encode_char_ascii)

lemma find_sub_skip:
  "\<lbrakk>p \<noteq> []; hd p \<notin> set l\<rbrakk> \<Longrightarrow> find_sub p (l @ s) = map_option (\<lambda>i. length l + i) (find_sub p s)"
proof (induction l)
  case Nil
  show ?case by (cases "find_sub p s") simp_all
next
  case (Cons a l)
  then have "take (length p) (a # l @ s) \<noteq> p" by (cases p) auto
  with Cons show ?case by (cases "find_sub p s") simp_all
qed

lemma find_sub_here: "find_sub p (p @ s) = Some 0"
proof (cases "p @ s")
  case (Cons a l)
  then have "take (length p) (a # l) = p" by (metis append_eq_conv_conj)
  with Cons show ?thesis by simp
qed simp

text \<open>The separator is the first empty line.\<close>

lemma find_separator:
  assumes "ls \<noteq> []" and "list_all (\<lambda>l. valid_text l \<and> one_line l \<and> l \<noteq> []) ls"
  shows "find_sub [0x0D, 0x0A, 0x0D, 0x0A] (as_bytes (joined ls) @ crlf_bytes @ body) = Some (length (as_bytes (joined ls)) - 2)"
  using assms
proof (induction ls)
  case (Cons l ls)
  let ?sep = "[0x0D, 0x0A, 0x0D, 0x0A] :: bytes"
  have l: "0x0D \<notin> set (as_bytes l)" using Cons.prems by (auto dest: as_bytes_one_line)
  show ?case
  proof (cases "ls = []")
    case True
    have "find_sub ?sep (as_bytes l @ ?sep @ body) = Some (length (as_bytes l))"
      using find_sub_skip [of ?sep "as_bytes l" "?sep @ body"] find_sub_here [of ?sep body] l by simp
    with True show ?thesis by simp
  next
    case False
    with Cons have ih: "find_sub ?sep (as_bytes (joined ls) @ crlf_bytes @ body) = Some (length (as_bytes (joined ls)) - 2)"
      by simp
    let ?t = "as_bytes (joined ls) @ crlf_bytes @ body"
    obtain l' ls' where ls: "ls = l' # ls'" using False by (cases ls) auto
    then have "0x0D \<notin> set (as_bytes l')" "as_bytes l' \<noteq> []"
      using Cons.prems as_bytes_one_line [of l'] by (cases l'; simp)+
    then obtain b bs where b: "?t = b # bs" "b \<noteq> 0x0D" unfolding ls by (cases "as_bytes l'") auto
    have "find_sub ?sep (0x0D # 0x0A # ?t) = Some (2 + (length (as_bytes (joined ls)) - 2))"
      using ih unfolding b(1) by (simp add: b(2))
    moreover have "2 \<le> length (as_bytes (joined ls))" by (simp add: ls)
    ultimately show ?thesis
      using find_sub_skip [of ?sep "as_bytes l" "0x0D # 0x0A # ?t"] l by simp
  qed
qed simp

section \<open>Framing\<close>

lemma is_hex_plain: "is_hex_char c \<Longrightarrow> c < 0x80 \<and> c \<noteq> 0x3B \<and> c \<noteq> 0x0D \<and> c \<noteq> 0x0A"
  by (auto simp: is_hex_char_def dec_digit_def)

lemma hex_plain:
  "valid_text (hex n)" "one_line (hex n)" "split_all (\<lambda>c. c = 0x3B) (hex n) = [hex n]"
  "length (as_bytes (hex n)) = length (hex n)"
proof -
  have c: "\<forall>c\<in>set (hex n). is_hex_char c" using hex_chars [of n] by (simp add: list_all_iff)
  show "valid_text (hex n)" using c is_hex_plain by (force simp: valid_text_def list_all_iff scalar_value_def)
  show "one_line (hex n)" using c is_hex_plain by (force simp: one_line_def)
  show "split_all (\<lambda>c. c = 0x3B) (hex n) = [hex n]" using c is_hex_plain by (intro split_all_none) blast
  have "length (as_bytes s) = length s" if "\<forall>c\<in>set s. is_hex_char c" for s
    using that is_hex_plain by (induction s) (auto simp: encode_char_ascii)
  from this [OF c] show "length (as_bytes (hex n)) = length (hex n)" .
qed

definition chunk_bytes :: "bytes \<Rightarrow> bytes" where
  "chunk_bytes chunk = as_bytes (hex (length chunk)) @ crlf_bytes @ chunk @ crlf_bytes"

definition chunked_bytes :: "bytes list \<Rightarrow> bytes" where
  "chunked_bytes chunks = concat (map chunk_bytes chunks) @ chunk_bytes []"

lemma hex_short: "n < 2 ^ 64 \<Longrightarrow> length (hex n) \<le> 16"
  using hex_length [of n 15] by simp

lemma chunk_line:
  fixes n :: nat and rest :: bytes
  defines "raw \<equiv> as_bytes (hex n) @ crlf_bytes @ rest"
  shows "find_sub [0x0D, 0x0A] raw = Some (length (hex n))"
    and "from_utf8 (take (length (hex n)) raw) = Some (hex n)" and "drop (length (hex n) + 2) raw = rest"
proof -
  note h = hex_plain [of n]
  show "find_sub [0x0D, 0x0A] raw = Some (length (hex n))"
    using find_sub_skip [of crlf_bytes "as_bytes (hex n)" "crlf_bytes @ rest"] find_sub_here [of crlf_bytes rest]
      as_bytes_one_line [OF h(1,2)] by (simp add: raw_def h(4))
  show "from_utf8 (take (length (hex n)) raw) = Some (hex n)" by (simp add: raw_def h from_utf8_as_bytes flip: h(4))
  show "drop (length (hex n) + 2) raw = rest" by (simp add: raw_def flip: h(4))
qed

lemma decode_chunks_chunked:
  "\<lbrakk>list_all (\<lambda>c. c \<noteq> []) chunks; length body + length (concat chunks) \<le> max_response_bytes\<rbrakk> \<Longrightarrow>
    decode_chunks body (chunked_bytes chunks) = Ok (body @ concat chunks)"
proof (induction chunks arbitrary: body)
  case Nil
  note l = chunk_line [where n = 0 and rest = "crlf_bytes"] hex_short [of 0]
  show ?case
    by (subst decode_chunks.simps)
      (use l hex_chars [of 0] in \<open>simp add: chunked_bytes_def chunk_bytes_def hex_plain hex_number_hex\<close>)
next
  case (Cons chunk chunks)
  let ?n = "length chunk" and ?rest = "chunk @ crlf_bytes @ chunked_bytes chunks"
  have n: "?n \<noteq> 0" "?n \<le> max_response_bytes - length body" "?n < 2 ^ 64"
    using Cons.prems by (auto simp: max_response_bytes_def)
  note l = chunk_line [where n = ?n and rest = ?rest] hex_short [OF n(3)]
  have raw: "chunked_bytes (chunk # chunks) = as_bytes (hex ?n) @ crlf_bytes @ ?rest"
    by (simp add: chunked_bytes_def chunk_bytes_def)
  have s: "slice_of ?n (?n + 2) ?rest = crlf_bytes" "take ?n ?rest = chunk" "drop (?n + 2) ?rest = chunked_bytes chunks"
    "\<not> ?n > length ?rest - 2" by (simp_all add: slice_of_def)
  have "decode_chunks body (chunked_bytes (chunk # chunks)) = decode_chunks (body @ take ?n ?rest) (drop (?n + 2) ?rest)"
    unfolding raw
    by (subst decode_chunks.simps)
      (use l n s hex_chars [of ?n] in \<open>simp add: hex_plain hex_number_hex Let_def del: append.simps take_append drop_append\<close>)
  also have "\<dots> = Ok (body @ concat (chunk # chunks))"
    using Cons.IH [of "body @ chunk"] Cons.prems s by simp
  finally show ?case .
qed

section \<open>Headers\<close>

definition framing_name :: "ustring \<Rightarrow> bool" where
  "framing_name n \<longleftrightarrow> is_name ''content-length'' n \<or> is_name ''transfer-encoding'' n"

definition plain_header :: "ustring \<times> ustring \<Rightarrow> bool" where
  "plain_header h \<longleftrightarrow>
    valid_text (fst h) \<and> valid_text (snd h) \<and> one_line (fst h) \<and> one_line (snd h) \<and>
    fst h \<noteq> [] \<and> 0x3A \<notin> set (fst h) \<and> trim (fst h) = fst h \<and> trim (snd h) = snd h"

abbreviation header_text :: "ustring \<times> ustring \<Rightarrow> ustring" where
  "header_text h \<equiv> fst h @ ustr '': '' @ snd h"

lemma trim_space: "trim (0x20 # s) = trim s"
  by (simp add: trim_def trim_by_def trim_start_by_def char_ws_def)

lemma header_step_plain:
  assumes "plain_header h"
  shows "header_step (header_text h) st =
    and_then
      (if is_name ''content-length'' (fst h)
       then if hs_length st \<noteq> None then Err (parse_err ''duplicate content length'')
            else and_then (ok_or (parse_err ''invalid content length'') (parse_unsigned (2 ^ 64 - 1) (snd h)))
                   (\<lambda>n. Ok (st\<lparr>hs_length := Some n\<rparr>))
       else Ok st) (\<lambda>st1.
    and_then
      (if is_name ''transfer-encoding'' (fst h)
       then if hs_chunked st1 \<or> \<not> is_name ''chunked'' (snd h)
            then Err (parse_err ''unsupported or duplicate transfer encoding'')
            else Ok (st1\<lparr>hs_chunked := True\<rparr>)
       else Ok st1) (\<lambda>st2. Ok (st2\<lparr>hs_headers := hs_headers st2 @ [h]\<rparr>)))"
proof -
  have "split_first (\<lambda>c. c = 0x3A) (fst h @ 0x3A # 0x20 # snd h) = Some (fst h, 0x20 # snd h)"
    using assms by (intro split_first_append) (auto simp: plain_header_def)
  moreover have "header_text h = fst h @ 0x3A # 0x20 # snd h" by (simp add: ustr_def)
  ultimately show ?thesis
    using assms by (simp only: header_step_def option.case prod.case Let_def trim_space plain_header_def prod.collapse)
qed

lemma header_steps_plain:
  "list_all (\<lambda>h. plain_header h \<and> \<not> framing_name (fst h)) hs \<Longrightarrow>
    header_steps (map header_text hs @ ls) st = header_steps ls (st\<lparr>hs_headers := hs_headers st @ hs\<rparr>)"
proof (induction hs arbitrary: st)
  case (Cons h hs)
  then have "header_step (header_text h) st = Ok (st\<lparr>hs_headers := hs_headers st @ [h]\<rparr>)"
    by (subst header_step_plain) (auto simp: framing_name_def)
  with Cons show ?case by simp
qed simp

text \<open>The two ways a server may frame a body.\<close>

datatype framing = ByLength bytes | ByChunks "bytes list"

fun framing_header :: "framing \<Rightarrow> ustring \<times> ustring" where
  "framing_header (ByLength body) = (ustr ''Content-Length'', dec (length body))"
| "framing_header (ByChunks chunks) = (ustr ''Transfer-Encoding'', ustr ''chunked'')"

fun framed :: "framing \<Rightarrow> bytes" where
  "framed (ByLength body) = body"
| "framed (ByChunks chunks) = chunked_bytes chunks"

fun content :: "framing \<Rightarrow> bytes" where
  "content (ByLength body) = body"
| "content (ByChunks chunks) = concat chunks"

definition status_text :: "nat \<Rightarrow> ustring \<Rightarrow> ustring" where
  "status_text code reason = ustr ''HTTP/1.1 '' @ dec code @ [0x20] @ reason"

definition response_bytes :: "nat \<Rightarrow> ustring \<Rightarrow> headers \<Rightarrow> framing \<Rightarrow> bytes" where
  "response_bytes code reason hs fr =
    as_bytes (status_text code reason @ crlf @ concat (map header_line (hs @ [framing_header fr])) @ crlf) @ framed fr"

lemma dec_not_ws: "c \<in> set (dec n) \<Longrightarrow> \<not> char_ws c"
  using dec_digits [of n] by (auto simp: list_all_iff dec_digit_def char_ws_def)

lemma trim_dec: "trim (dec n) = dec n"
  unfolding trim_def by (rule trim_by_plain) (use dec_not_ws [OF hd_in_set] dec_not_ws [OF last_in_set] in simp)

lemma framing_header_plain: "plain_header (framing_header fr)"
proof (cases fr)
  case (ByLength body)
  have "valid_text (ustr ''Content-Length'')" "trim (ustr ''Content-Length'') = ustr ''Content-Length''"
    "one_line (ustr ''Content-Length'')" "ustr ''Content-Length'' \<noteq> []" "0x3A \<notin> set (ustr ''Content-Length'')"
    by code_simp+
  with ByLength show ?thesis by (simp add: plain_header_def trim_dec)
next
  case (ByChunks chunks)
  have "plain_header (ustr ''Transfer-Encoding'', ustr ''chunked'')"
    unfolding plain_header_def by code_simp
  with ByChunks show ?thesis by simp
qed

lemma framing_step:
  "\<lbrakk>hs_length st = None; \<not> hs_chunked st; length (content fr) < 2 ^ 64\<rbrakk> \<Longrightarrow>
    header_step (header_text (framing_header fr)) st =
      Ok (st\<lparr>hs_length := (case fr of ByLength b \<Rightarrow> Some (length b) | _ \<Rightarrow> None),
             hs_chunked := (case fr of ByChunks _ \<Rightarrow> True | _ \<Rightarrow> False),
             hs_headers := hs_headers st @ [framing_header fr]\<rparr>)"
proof -
  assume st: "hs_length st = None" "\<not> hs_chunked st" "length (content fr) < 2 ^ 64"
  have n: "is_name ''content-length'' (ustr ''Content-Length'')" "\<not> is_name ''transfer-encoding'' (ustr ''Content-Length'')"
    "is_name ''transfer-encoding'' (ustr ''Transfer-Encoding'')" "\<not> is_name ''content-length'' (ustr ''Transfer-Encoding'')"
    "is_name ''chunked'' (ustr ''chunked'')" by code_simp+
  have "st\<lparr>hs_length := None\<rparr> = st" "st\<lparr>hs_chunked := False\<rparr> = st" using st by simp_all
  then show ?thesis
    using st by (cases fr) (subst header_step_plain [OF framing_header_plain], simp add: n parse_unsigned_dec)+
qed

lemma status_word: "nth_word 1 (status_text code reason) = Some (dec code)"
proof -
  have a: "split_all char_ws (status_text code reason) =
      ustr ''HTTP/1.1'' # split_all char_ws (dec code @ 0x20 # reason)"
    using split_all_append [where a = "ustr ''HTTP/1.1''" and P = char_ws and c = "0x20" and b = "dec code @ 0x20 # reason"]
    by (simp add: status_text_def ustr_def char_ws_def)
  have b: "split_all char_ws (dec code @ 0x20 # reason) = dec code # split_all char_ws reason"
    using dec_not_ws by (intro split_all_append) (auto simp: char_ws_def)
  show ?thesis by (simp add: nth_word_def split_whitespace_def a b get_opt_def ustr_def)
qed

lemma parse_response_of:
  assumes "find_sub [0x0D, 0x0A, 0x0D, 0x0A] bs = Some n" and "n \<le> 65536" and "take n bs = as_bytes s" and "valid_text s"
    and "lines_of s = status_line # ls" and "nth_word 1 status_line = Some (dec code)" and "code \<le> 65535"
    and "header_steps ls \<lparr>hs_headers = [], hs_length = None, hs_chunked = False\<rparr> = Ok st"
    and "hs_chunked st \<longrightarrow> hs_length st = None \<and> decode_chunked (drop (n + 4) bs) = Ok body"
    and "\<not> hs_chunked st \<longrightarrow> hs_length st = Some (length (drop (n + 4) bs)) \<and> body = drop (n + 4) bs"
  shows "parse_http_response bs = Ok \<lparr>hr_status = code, hr_headers = hs_headers st, hr_body = body\<rparr>"
  using assms by (cases "hs_chunked st") (simp_all add: parse_http_response_def from_utf8_as_bytes parse_unsigned_dec Let_def)

text \<open>
  C40: Whatever a server answers with either framing is received as it was meant: for every status,
  reason, other headers and body, in one piece or in chunks of any sizes, and for every way the
  bytes of the response arrive, the agent obtains the status, the headers and exactly the body.
\<close>

theorem http_response_received:
  assumes "code \<le> 65535" and "list_all scalar_value reason" and "one_line reason"
    and "list_all (\<lambda>h. plain_header h \<and> \<not> framing_name (fst h)) hs"
    and "\<forall>chunks. fr = ByChunks chunks \<longrightarrow> [] \<notin> set chunks"
    and "concat pieces = response_bytes code reason hs fr" and "[] \<notin> set pieces"
    and "length (response_bytes code reason hs fr) \<le> max_response_bytes"
    and "length (response_bytes code reason hs fr) - length (framed fr) \<le> 65536"
  shows "and_then (read_response [] (map HttpData pieces)) parse_http_response =
    Ok \<lparr>hr_status = code, hr_headers = hs @ [framing_header fr], hr_body = content fr\<rparr>"
proof -
  let ?bs = "response_bytes code reason hs fr"
  have "read_response acc (map HttpData pieces) = Ok (acc @ concat pieces)"
    if "[] \<notin> set pieces" "length acc + length (concat pieces) \<le> max_response_bytes" for acc pieces
    using that by (induction pieces arbitrary: acc) auto
  from this [OF assms(7), of "[]"] have read: "read_response [] (map HttpData pieces) = Ok ?bs"
    using assms(6,8) by simp
  let ?ls = "status_text code reason # map header_text (hs @ [framing_header fr])"
  have hd_text: "concat (map header_line gs) = joined (map header_text gs)" for gs
    by (induction gs) (simp_all add: header_line_def)
  have bs: "?bs = as_bytes (joined ?ls) @ crlf_bytes @ framed fr"
    by (simp add: response_bytes_def hd_text joined_header)
  have st: "valid_text (status_text code reason)" "one_line (status_text code reason)" "status_text code reason \<noteq> []"
    using assms(2,3) valid_text_dec [of code]
    by (simp_all add: status_text_def valid_text_def scalar_value_def) (simp_all add: ustr_def scalar_value_def)
  have hdr: "valid_text (header_text h) \<and> one_line (header_text h) \<and> header_text h \<noteq> []" if "plain_header h" for h
    using that by (simp add: plain_header_def) (simp add: ustr_def)
  have all: "list_all (\<lambda>l. valid_text l \<and> one_line l \<and> l \<noteq> []) ?ls"
    using st hdr framing_header_plain [of fr] assms(4) by (auto simp: list_all_iff)
  let ?n = "length (as_bytes (joined ?ls)) - 2"
  note sep = find_separator [OF list.distinct(2) all, where body = "framed fr", folded bs]
  have two: "2 \<le> length (as_bytes (joined ?ls))" by simp
  have "?ls = butlast ?ls @ [last ?ls]" by (rule append_butlast_last_id [symmetric]) simp
  then obtain last_ls front where snoc: "?ls = front @ [last_ls]" by (rule that)
  let ?text = "joined front @ last_ls"
  have j: "as_bytes (joined ?ls) = as_bytes ?text @ crlf_bytes" unfolding snoc by simp
  have take: "take ?n ?bs = as_bytes ?text" and dropped: "drop (?n + 4) ?bs = framed fr"
    unfolding bs j by simp_all
  have valid: "valid_text ?text"
  proof -
    have v: "list_all valid_text (front @ [last_ls])" using all unfolding snoc by (auto simp: list_all_iff)
    then have "valid_text (joined front)" by (induction front) (simp_all add: scalar_value_def)
    with v show ?thesis by simp
  qed
  have ls: "lines_of ?text = ?ls"
  proof -
    have "list_all one_line front" "one_line last_ls" "last_ls \<noteq> []"
      using all unfolding snoc by (auto simp: list_all_iff)
    then show ?thesis unfolding snoc by (simp add: lines_of_joined one_line_last)
  qed
  let ?st = "\<lparr>hs_headers = [], hs_length = None, hs_chunked = False\<rparr>"
  have body_len: "length (content fr) \<le> length (framed fr)"
  proof (cases fr)
    case (ByChunks chunks)
    have "length (concat cs) \<le> length (concat (map chunk_bytes cs))" for cs :: "bytes list"
      by (induction cs) (auto simp: chunk_bytes_def)
    with ByChunks show ?thesis by (simp add: chunked_bytes_def add_increasing2)
  qed simp
  have small: "length (content fr) \<le> max_response_bytes" "?n \<le> 65536"
    using assms(8,9) body_len by (simp_all add: bs)
  have hs: "header_steps (map header_text (hs @ [framing_header fr])) ?st =
      Ok (?st\<lparr>hs_length := (case fr of ByLength b \<Rightarrow> Some (length b) | _ \<Rightarrow> None),
           hs_chunked := (case fr of ByChunks _ \<Rightarrow> True | _ \<Rightarrow> False), hs_headers := hs @ [framing_header fr]\<rparr>)"
    using header_steps_plain [OF assms(4), of "[header_text (framing_header fr)]" ?st]
      framing_step [of "?st\<lparr>hs_headers := hs\<rparr>" fr] small(1)
    by (simp add: max_response_bytes_def)
  let ?st' = "?st\<lparr>hs_length := (case fr of ByLength b \<Rightarrow> Some (length b) | _ \<Rightarrow> None),
           hs_chunked := (case fr of ByChunks _ \<Rightarrow> True | _ \<Rightarrow> False), hs_headers := hs @ [framing_header fr]\<rparr>"
  have chunks: "decode_chunked (framed fr) = Ok (content fr)" if "fr = ByChunks chunks" for chunks
  proof -
    have "list_all (\<lambda>c. c \<noteq> []) chunks" using assms(5) that by (auto simp: list_all_iff)
    from decode_chunks_chunked [OF this, of "[]"] small(1) that show ?thesis by (simp add: decode_chunked_def)
  qed
  have "hs_chunked ?st' \<longrightarrow> hs_length ?st' = None \<and> decode_chunked (drop (?n + 4) ?bs) = Ok (content fr)"
    unfolding dropped using chunks by (cases fr) simp_all
  moreover have "\<not> hs_chunked ?st' \<longrightarrow>
      hs_length ?st' = Some (length (drop (?n + 4) ?bs)) \<and> content fr = drop (?n + 4) ?bs"
    unfolding dropped by (cases fr) simp_all
  ultimately have "parse_http_response ?bs = Ok \<lparr>hr_status = code, hr_headers = hs_headers ?st', hr_body = content fr\<rparr>"
    by (rule parse_response_of [OF sep small(2) take valid ls status_word assms(1) hs])
  with read show ?thesis by simp
qed

lemma http_response_received_witness:
  "and_then (read_response [] (map HttpData
      [lit ''HTTP/1.1 200 OK'' @ [0x0D], [0x0A] @ lit ''X-A: b'' @ [0x0D, 0x0A] @ lit ''Transfer-Encoding: chunked'' @
        [0x0D, 0x0A, 0x0D, 0x0A] @ lit ''1'' @ [0x0D, 0x0A] @ lit ''{'', [0x0D, 0x0A] @ lit ''1'' @ [0x0D, 0x0A] @ lit ''}'' @
        [0x0D, 0x0A] @ lit ''0'' @ [0x0D, 0x0A, 0x0D, 0x0A]])) parse_http_response =
    Ok \<lparr>hr_status = 200, hr_headers = [(ustr ''X-A'', ustr ''b''), (ustr ''Transfer-Encoding'', ustr ''chunked'')],
        hr_body = lit ''{}''\<rparr>"
proof -
  let ?fr = "ByChunks [lit ''{'', lit ''}'']" and ?hs = "[(ustr ''X-A'', ustr ''b'')]"
  let ?pieces = "[lit ''HTTP/1.1 200 OK'' @ [0x0D], [0x0A] @ lit ''X-A: b'' @ [0x0D, 0x0A] @ lit ''Transfer-Encoding: chunked'' @
        [0x0D, 0x0A, 0x0D, 0x0A] @ lit ''1'' @ [0x0D, 0x0A] @ lit ''{'', [0x0D, 0x0A] @ lit ''1'' @ [0x0D, 0x0A] @ lit ''}'' @
        [0x0D, 0x0A] @ lit ''0'' @ [0x0D, 0x0A, 0x0D, 0x0A]]"
  have a: "(200::nat) \<le> 65535" "list_all scalar_value (ustr ''OK'')" "one_line (ustr ''OK'')"
    "list_all (\<lambda>h. plain_header h \<and> \<not> framing_name (fst h)) ?hs"
    unfolding one_line_def plain_header_def by code_simp+
  have b: "\<forall>chunks. ?fr = ByChunks chunks \<longrightarrow> [] \<notin> set chunks" by (simp add: lit_def)
  have c: "concat ?pieces = response_bytes 200 (ustr ''OK'') ?hs ?fr" "[] \<notin> set ?pieces"
    "length (response_bytes 200 (ustr ''OK'') ?hs ?fr) \<le> max_response_bytes"
    "length (response_bytes 200 (ustr ''OK'') ?hs ?fr) - length (framed ?fr) \<le> 65536" by code_simp+
  have "content ?fr = lit ''{}''" by (simp add: lit_def)
  with http_response_received [OF a b c] show ?thesis by simp
qed

end
