(* ===== verification/Crypto.thy ===== *)
theory Crypto
  imports Http
begin

text \<open>
  \<open>crypto.rs\<close>: SHA-1 and Base64 for the WebSocket handshake.  Random bytes come from the operating
  system and are a parameter.
\<close>

section \<open>Base64\<close>

definition base64_table :: bytes where
  "base64_table = lit ''ABCDEFGHIJKLMNOPQRSTUVWXYZabcdefghijklmnopqrstuvwxyz0123456789+/''"

definition base64_digit :: "u32 \<Rightarrow> nat \<Rightarrow> u8" where
  "base64_digit bits s = base64_table ! unat (drop_bit s bits AND 0x3F)"

text \<open>Groups of three bytes, then one or two with padding.\<close>

fun base64_chars :: "bytes \<Rightarrow> bytes" where
  "base64_chars (x # y # z # rest) =
    (let triple = push_bit 16 (ucast x) OR push_bit 8 (ucast y) OR ucast z
     in [base64_digit triple 18, base64_digit triple 12, base64_digit triple 6, base64_digit triple 0] @ base64_chars rest)"
| "base64_chars [x, y] =
    (let d = push_bit 16 (ucast x) OR push_bit 8 (ucast y)
     in [base64_digit d 18, base64_digit d 12, base64_digit d 6, 0x3D])"
| "base64_chars [x] =
    (let d = push_bit 16 (ucast x) in [base64_digit d 18, base64_digit d 12, 0x3D, 0x3D])"
| "base64_chars [] = []"

text \<open>The output array has \<open>out\<close> bytes; writing past it panics.\<close>

definition base64_encode_fixed :: "nat \<Rightarrow> bytes \<Rightarrow> (bytes, 'e) outcome" where
  "base64_encode_fixed out input =
    (let cs = base64_chars input
     in if length cs \<le> out then Ok (cs @ replicate (out - length cs) 0) else Panic)"

definition base64_encode :: "bytes \<Rightarrow> (bytes, 'e) outcome" where
  "base64_encode input = base64_encode_fixed 28 input"

section \<open>SHA-1\<close>

record sha_state =
  sh_a :: u32
  sh_b :: u32
  sh_c :: u32
  sh_d :: u32
  sh_e :: u32

definition sha1_init :: sha_state where
  "sha1_init = \<lparr>sh_a = 0x67452301, sh_b = 0xEFCDAB89, sh_c = 0x98BADCFE, sh_d = 0x10325476, sh_e = 0xC3D2E1F0\<rparr>"

definition left_rotate :: "u32 \<Rightarrow> nat \<Rightarrow> u32" where
  "left_rotate x n = word_rotl n x"

definition read_u32_be :: "bytes \<Rightarrow> u32" where
  "read_u32_be bs =
    push_bit 24 (ucast (bs ! 0)) OR push_bit 16 (ucast (bs ! 1)) OR push_bit 8 (ucast (bs ! 2)) OR ucast (bs ! 3)"

text \<open>The schedule: sixteen words of the block, then sixty-four more from earlier ones.\<close>

definition first_words :: "bytes \<Rightarrow> u32 list" where
  "first_words block = map (\<lambda>i. read_u32_be (slice_of (i * 4) ((i + 1) * 4) block)) [0..<16]"

definition extend_words :: "u32 list \<Rightarrow> nat \<Rightarrow> u32 list" where
  "extend_words w t =
    w @ [left_rotate (w ! (t - 3) XOR w ! (t - 8) XOR w ! (t - 14) XOR w ! (t - 16)) 1]"

definition schedule :: "bytes \<Rightarrow> u32 list" where
  "schedule block = foldl extend_words (first_words block) [16..<80]"

definition round_function :: "nat \<Rightarrow> u32 \<Rightarrow> u32 \<Rightarrow> u32 \<Rightarrow> u32 \<times> u32" where
  "round_function t b c d =
    (if t \<le> 19 then ((b AND c) OR (NOT b AND d), 0x5A827999)
     else if t \<le> 39 then (b XOR c XOR d, 0x6ED9EBA1)
     else if t \<le> 59 then ((b AND c) OR (b AND d) OR (c AND d), 0x8F1BBCDC)
     else (b XOR c XOR d, 0xCA62C1D6))"

definition sha1_round :: "sha_state \<Rightarrow> nat \<times> u32 \<Rightarrow> sha_state" where
  "sha1_round s tw =
    (case tw of (t, w_t) \<Rightarrow>
      let (f, k) = round_function t (sh_b s) (sh_c s) (sh_d s);
          temp = left_rotate (sh_a s) 5 + f + sh_e s + k + w_t
      in \<lparr>sh_a = temp, sh_b = sh_a s, sh_c = left_rotate (sh_b s) 30, sh_d = sh_c s, sh_e = sh_d s\<rparr>)"

definition process_block :: "sha_state \<Rightarrow> bytes \<Rightarrow> sha_state" where
  "process_block h block =
    (let s = foldl sha1_round h (List.enumerate 0 (schedule block))
     in \<lparr>sh_a = sh_a h + sh_a s, sh_b = sh_b h + sh_b s, sh_c = sh_c h + sh_c s,
         sh_d = sh_d h + sh_d s, sh_e = sh_e h + sh_e s\<rparr>)"

definition u64_be :: "nat \<Rightarrow> bytes" where
  "u64_be n = map (\<lambda>i. of_nat (n div 256 ^ (7 - i))) [0..<8]"

definition u32_be :: "u32 \<Rightarrow> bytes" where
  "u32_be x = [ucast (drop_bit 24 x), ucast (drop_bit 16 x), ucast (drop_bit 8 x), ucast x]"

text \<open>A buffer of \<open>n\<close> bytes: the rest of the message, 0x80, zeros, and the length in its last eight.\<close>

definition pad_buffer :: "nat \<Rightarrow> bytes \<Rightarrow> nat \<Rightarrow> bytes" where
  "pad_buffer n rest bit_len =
    rest @ [0x80] @ replicate (n - 8 - (length rest + 1)) 0 @ u64_be bit_len"

definition sha1 :: "bytes \<Rightarrow> bytes" where
  "sha1 bs =
    (let full_blocks = length bs div 64;
         h = foldl (\<lambda>h i. process_block h (slice_of (i * 64) ((i + 1) * 64) bs)) sha1_init [0..<full_blocks];
         remaining = length bs mod 64;
         bit_len = (length bs * 8) mod 2 ^ 64;
         rest = drop (full_blocks * 64) bs;
         h' = (if remaining > 55
               then let pad = pad_buffer 128 rest bit_len in process_block (process_block h (take 64 pad)) (drop 64 pad)
               else process_block h (pad_buffer 64 rest bit_len))
     in concat (map u32_be [sh_a h', sh_b h', sh_c h', sh_d h', sh_e h']))"

section \<open>The handshake key\<close>

definition ws_guid :: bytes where "ws_guid = lit ''258EAFA5-E914-47DA-95CA-C5AB0DC85B11''"

definition ws_accept_key :: "ustring \<Rightarrow> (bytes, 'e) outcome" where
  "ws_accept_key client_key =
    (let key_bytes = as_bytes client_key
     in if length key_bytes + length ws_guid > 64 then Panic else base64_encode (sha1 (key_bytes @ ws_guid)))"

definition ws_generate_key :: "bytes option \<Rightarrow> (bytes, ustring) outcome" where
  "ws_generate_key random =
    and_then (ok_or (ustr ''entropy source unavailable'') random) (\<lambda>r. base64_encode_fixed 24 (take 16 r))"

text \<open>No early exit: the differences are collected with OR.\<close>

definition ws_verify_accept :: "bytes \<Rightarrow> bytes \<Rightarrow> bool" where
  "ws_verify_accept response_key expected \<longleftrightarrow>
    length response_key = 28 \<and>
    foldl (\<lambda>acc i. acc OR (response_key ! i XOR expected ! i)) 0 [0..<28] = (0 :: u8)"

section \<open>Facts\<close>

text \<open>The reference: the padded message of RFC 3174, all of its blocks processed alike.\<close>

definition padded :: "bytes \<Rightarrow> bytes" where
  "padded bs = bs @ [0x80] @ replicate ((119 - length bs mod 64) mod 64) 0 @ u64_be ((length bs * 8) mod 2 ^ 64)"

definition blocks_of :: "bytes \<Rightarrow> bytes list" where
  "blocks_of bs = map (\<lambda>i. slice_of (i * 64) ((i + 1) * 64) bs) [0..<length bs div 64]"

text \<open>\<open>W(t)\<close> and the state after \<open>t\<close> rounds, as the RFC states them.\<close>

function rfc_word :: "bytes \<Rightarrow> nat \<Rightarrow> u32" where
  "rfc_word block t =
    (if t < 16 then read_u32_be (slice_of (4 * t) (4 * t + 4) block)
     else word_rotl 1 (rfc_word block (t - 3) XOR rfc_word block (t - 8) XOR rfc_word block (t - 14) XOR rfc_word block (t - 16)))"
  by auto
termination rfc_word by (relation "measure snd") auto

declare rfc_word.simps [simp del]

fun rfc_rounds :: "bytes \<Rightarrow> nat \<Rightarrow> sha_state \<Rightarrow> sha_state" where
  "rfc_rounds block 0 s = s"
| "rfc_rounds block (Suc t) s = sha1_round (rfc_rounds block t s) (t, rfc_word block t)"

definition rfc_block :: "sha_state \<Rightarrow> bytes \<Rightarrow> sha_state" where
  "rfc_block h block =
    (let s = rfc_rounds block 80 h
     in \<lparr>sh_a = sh_a h + sh_a s, sh_b = sh_b h + sh_b s, sh_c = sh_c h + sh_c s,
         sh_d = sh_d h + sh_d s, sh_e = sh_e h + sh_e s\<rparr>)"

definition rfc_sha1 :: "bytes \<Rightarrow> bytes" where
  "rfc_sha1 bs =
    (let h = foldl rfc_block sha1_init (blocks_of (padded bs))
     in concat (map u32_be [sh_a h, sh_b h, sh_c h, sh_d h, sh_e h]))"

lemma u64_be_length [simp]: "length (u64_be n) = 8"
  by (simp add: u64_be_def)

lemma foldl_or_zero: "foldl (\<lambda>acc i. acc OR f i) a is = (0 :: u8) \<longleftrightarrow> a = 0 \<and> (\<forall>i\<in>set is. f i = 0)"
  by (induction "is" arbitrary: a) (auto simp: or_eq_0_iff)

lemma ws_verify_accept_eq: "length expected = 28 \<Longrightarrow> ws_verify_accept r expected \<longleftrightarrow> r = expected"
proof -
  assume e: "length expected = 28"
  have x: "a XOR b = 0 \<longleftrightarrow> a = b" for a b :: u8
    by (auto simp: bit_eq_iff bit_xor_iff)
  have s: "set [0..<28] = {..<28 :: nat}" by (simp only: set_upt atLeast0LessThan)
  have "r = expected \<longleftrightarrow> length r = 28 \<and> (\<forall>i\<in>{..<28}. r ! i = expected ! i)"
    using nth_equalityI [of r expected] e by (metis lessThan_iff)
  then show ?thesis unfolding ws_verify_accept_def foldl_or_zero x s by (simp only: simp_thms)
qed

lemma schedule_rfc: "schedule block = map (rfc_word block) [0..<80]"
proof -
  have *: "foldl extend_words (first_words block) [16..<n] = map (rfc_word block) [0..<n]" if "16 \<le> n" for n
    using that
  proof (induction n rule: dec_induct)
    case base
    have "read_u32_be (slice_of (i * 4) ((i + 1) * 4) block) = rfc_word block i" if "i < 16" for i
      using that by (simp add: rfc_word.simps [of block i] mult.commute add.commute)
    then have "first_words block = map (rfc_word block) [0..<16]"
      unfolding first_words_def by (intro map_cong refl) (simp del: upt_rec_numeral)
    then show ?case by simp
  next
    case (step n)
    then show ?case
      by (simp add: extend_words_def left_rotate_def rfc_word.simps [of block n])
  qed
  show ?thesis unfolding schedule_def by (rule *) simp
qed

lemma process_block_rfc: "process_block h block = rfc_block h block"
proof -
  have "foldl sha1_round h (List.enumerate 0 (map (rfc_word block) [0..<n])) = rfc_rounds block n h" for n
    by (induction n) (simp_all add: enumerate_append_eq)
  then show ?thesis by (simp only: process_block_def rfc_block_def schedule_rfc)
qed

lemma blocks_of_append:
  assumes "length xs = 64 * n"
  shows "blocks_of (xs @ ys) = blocks_of xs @ blocks_of ys"
proof -
  have d: "length (xs @ ys) div 64 = n + length ys div 64" using assms by simp
  have "map (\<lambda>i. slice_of (i * 64) ((i + 1) * 64) (xs @ ys)) [0..<n] = blocks_of xs"
    using assms by (auto simp: blocks_of_def slice_of_def intro!: map_cong)
  moreover have "map (\<lambda>i. slice_of (i * 64) ((i + 1) * 64) (xs @ ys)) [n..<n + length ys div 64] = blocks_of ys"
  proof -
    have "[n..<n + length ys div 64] = map (\<lambda>i. i + n) [0..<length ys div 64]" by (simp add: map_add_upt add.commute)
    then show ?thesis using assms by (auto simp: blocks_of_def slice_of_def algebra_simps intro!: map_cong)
  qed
  moreover have "[0..<n + length ys div 64] = [0..<n] @ [n..<n + length ys div 64]"
    by (rule upt_add_eq_append) simp
  ultimately show ?thesis
    unfolding blocks_of_def [of "xs @ ys"] d by (simp only: map_append)
qed

lemma blocks_of_one: "length xs = 64 \<Longrightarrow> blocks_of xs = [xs]"
  by (simp add: blocks_of_def slice_of_def)

lemma final_blocks:
  fixes bs :: bytes
  defines "r \<equiv> length bs mod 64" and "n \<equiv> length bs div 64"
  shows "blocks_of (padded bs) = blocks_of (take (n * 64) bs) @
    (let rest = drop (n * 64) bs; bit_len = (length bs * 8) mod 2 ^ 64
     in if r > 55 then [take 64 (pad_buffer 128 rest bit_len), drop 64 (pad_buffer 128 rest bit_len)]
        else [pad_buffer 64 rest bit_len])"
proof -
  let ?rest = "drop (n * 64) bs" and ?len = "(length bs * 8) mod 2 ^ 64"
  have n: "n * 64 \<le> length bs" "length ?rest = r" "r < 64"
    by (simp_all add: n_def r_def minus_div_mult_eq_mod)
  have tk: "length (take (n * 64) bs) = 64 * n" using n by simp
  have p: "padded bs = take (n * 64) bs @ ?rest @ [0x80] @ replicate ((119 - r) mod 64) 0 @ u64_be ?len"
    unfolding padded_def r_def [symmetric] by (metis append.assoc append_take_drop_id)
  show ?thesis
  proof (cases "r > 55")
    case True
    then have "(119 - r) mod 64 = 119 - r" using n(3) by simp
    then have pb: "?rest @ [0x80] @ replicate ((119 - r) mod 64) 0 @ u64_be ?len = pad_buffer 128 ?rest ?len"
      using n True by (simp add: pad_buffer_def)
    let ?pad = "pad_buffer 128 ?rest ?len"
    have l: "length ?pad = 128" unfolding pb [symmetric] using n True \<open>(119 - r) mod 64 = 119 - r\<close> by simp
    have "blocks_of (take 64 ?pad @ drop 64 ?pad) = [take 64 ?pad, drop 64 ?pad]"
      using l by (subst blocks_of_append [of _ 1]) (simp_all add: blocks_of_one)
    then have "blocks_of ?pad = [take 64 ?pad, drop 64 ?pad]" by simp
    with True show ?thesis unfolding p pb blocks_of_append [OF tk] by (simp add: Let_def)
  next
    case False
    have "(119 - r) mod 64 = 55 - r"
    proof -
      have e: "119 - r = (55 - r) + 64" using False by simp
      have "(55 - r) mod 64 = 55 - r" by (rule mod_less) simp
      then show ?thesis unfolding e mod_add_self2 .
    qed
    then have pb: "?rest @ [0x80] @ replicate ((119 - r) mod 64) 0 @ u64_be ?len = pad_buffer 64 ?rest ?len"
      and l: "length (pad_buffer 64 ?rest ?len) = 64"
      using n False by (simp_all add: pad_buffer_def)
    with False show ?thesis unfolding p pb blocks_of_append [OF tk] by (simp add: Let_def blocks_of_one)
  qed
qed


section \<open>Decoding Base64\<close>

text \<open>RFC 4648: four characters to three bytes; the padding tells how many bytes the last group has.\<close>

definition base64_index :: "u8 \<Rightarrow> nat option" where
  "base64_index c =
    (let n = unat c
     in if 65 \<le> n \<and> n \<le> 90 then Some (n - 65)
        else if 97 \<le> n \<and> n \<le> 122 then Some (n - 71)
        else if 48 \<le> n \<and> n \<le> 57 then Some (n + 4)
        else if n = 43 then Some 62 else if n = 47 then Some 63 else None)"

fun base64_decode :: "bytes \<Rightarrow> nat list option" where
  "base64_decode [] = Some []"
| "base64_decode (p # q # r # s # rest) =
    (case (base64_index p, base64_index q) of
       (Some i, Some j) \<Rightarrow>
         if s = 0x3D \<and> rest = []
         then if r = 0x3D then Some [4 * i + j div 16]
              else (case base64_index r of None \<Rightarrow> None | Some k \<Rightarrow> Some [4 * i + j div 16, 16 * (j mod 16) + k div 4])
         else (case (base64_index r, base64_index s, base64_decode rest) of
                 (Some k, Some l, Some bs) \<Rightarrow> Some ([4 * i + j div 16, 16 * (j mod 16) + k div 4, 64 * (k mod 4) + l] @ bs)
               | _ \<Rightarrow> None)
     | _ \<Rightarrow> None)"
| "base64_decode _ = None"

lemma base64_index_table:
  assumes "i < 64"
  shows "base64_index (base64_table ! i) = Some i" and "base64_table ! i \<noteq> 0x3D"
proof -
  have t: "map unat base64_table = [65..<91] @ [97..<123] @ [48..<58] @ [43, 47]" by code_simp
  from arg_cong [OF this, of length] have "length base64_table = 64" by simp
  then have m: "unat (base64_table ! i) = map unat base64_table ! i" using assms by simp
  have n: "unat (base64_table ! i) = (if i < 26 then 65 + i else if i < 52 then 71 + i else if i < 62 then i - 4
      else if i = 62 then 43 else 47)"
  proof -
    have "list_all (\<lambda>i. ([65..<91] @ [97..<123] @ [48..<58] @ [43, 47]) ! i =
        (if i < 26 then 65 + i else if i < 52 then 71 + i else if i < 62 then i - 4 else if i = 62 then 43 else 47)) [0..<64]"
      by code_simp
    then show ?thesis unfolding m t using assms by (simp add: list_all_iff del: upt_rec_numeral)
  qed
  consider "i < 26" | "26 \<le> i" "i < 52" | "52 \<le> i" "i < 62" | "i = 62" | "i = 63" using assms by linarith
  then have "base64_index (base64_table ! i) = Some i \<and> base64_table ! i \<noteq> 0x3D"
    by cases (use n in \<open>auto simp: base64_index_def Let_def\<close>)
  then show "base64_index (base64_table ! i) = Some i" "base64_table ! i \<noteq> 0x3D" by simp_all
qed

text \<open>The digit at shift \<open>s\<close> of a group that holds the number \<open>n\<close>.\<close>

lemma base64_digit_eq: "base64_digit g s = base64_table ! (unat g div 2 ^ s mod 64)"
proof -
  have "drop_bit s g AND 0x3F = take_bit 6 (drop_bit s g)" by (simp add: take_bit_eq_mask mask_eq_exp_minus_1)
  then show ?thesis
    by (simp add: base64_digit_def unsigned_take_bit_eq unat_drop_bit_eq) (simp add: take_bit_eq_mod drop_bit_eq_div)
qed

text \<open>The bytes of a group, from its four digits.\<close>

lemma regroup:
  fixes n :: nat
  shows "4 * (n div 262144) + n div 4096 mod 64 div 16 = n div 65536"
    and "16 * (n div 4096 mod 64 mod 16) + n div 64 mod 64 div 4 = n div 256 mod 256"
    and "64 * (n div 64 mod 64 mod 4) + n mod 64 = n mod 256"
proof -
  have s: "m mod 64 div 4 = m div 4 mod 16" "m mod 64 div 16 = m div 16 mod 4"
    "m mod 64 mod 16 = m mod 16" "m mod 64 mod 4 = m mod 4" for m :: nat
  proof -
    have "m mod 64 = 4 * (m div 4 mod 16) + m mod 4" using mod_mult2_eq [of m 4 16] by simp
    then show "m mod 64 div 4 = m div 4 mod 16" by simp
    have "m mod 64 = 16 * (m div 16 mod 4) + m mod 16" using mod_mult2_eq [of m 16 4] by simp
    then show "m mod 64 div 16 = m div 16 mod 4" by simp
  qed (simp_all add: mod_mod_cancel)
  show "4 * (n div 262144) + n div 4096 mod 64 div 16 = n div 65536"
    using div_mult_mod_eq [of "n div 65536" 4] unfolding s by (simp add: div_mult2_eq [symmetric])
  show "16 * (n div 4096 mod 64 mod 16) + n div 64 mod 64 div 4 = n div 256 mod 256"
    using mod_mult2_eq [of "n div 256" 16 16] unfolding s by (simp add: div_mult2_eq [symmetric])
  show "64 * (n div 64 mod 64 mod 4) + n mod 64 = n mod 256"
    using mod_mult2_eq [of n 64 4] unfolding s by simp
qed

lemma group_bytes:
  fixes x y z :: nat
  assumes "y < 256" and "z < 256"
  shows "(x * 65536 + y * 256 + z) div 65536 = x" and "x < 256 \<Longrightarrow> (x * 65536 + y * 256 + z) div 256 mod 256 = y"
    and "(x * 65536 + y * 256 + z) mod 256 = z"
proof -
  have a: "(x * 65536 + y * 256 + z) div 256 = x * 256 + y" using assms by simp
  have "(x * 65536 + y * 256 + z) div 65536 = (x * 65536 + y * 256 + z) div 256 div 256"
    by (simp add: div_mult2_eq [symmetric])
  also have "\<dots> = x" unfolding a using assms by simp
  finally show "(x * 65536 + y * 256 + z) div 65536 = x" .
  show "(x * 65536 + y * 256 + z) div 256 mod 256 = y" unfolding a using assms by simp
  have "x * 65536 + y * 256 + z = z + 256 * (x * 256 + y)" by simp
  then show "(x * 65536 + y * 256 + z) mod 256 = z" using assms(2) by (simp only: mod_mult_self2) simp
qed

lemma digits_bytes:
  fixes x y z :: nat
  assumes "x < 256" and "y < 256" and "z < 256"
  defines "n \<equiv> x * 65536 + y * 256 + z"
  shows "4 * (n div 262144 mod 64) + n div 4096 mod 64 div 16 = x"
    and "16 * (n div 4096 mod 64 mod 16) + n div 64 mod 64 div 4 = y"
    and "64 * (n div 64 mod 64 mod 4) + n mod 64 = z"
proof -
  show x: "16 * (n div 4096 mod 64 mod 16) + n div 64 mod 64 div 4 = y" "64 * (n div 64 mod 64 mod 4) + n mod 64 = z"
    unfolding regroup n_def using group_bytes [OF assms(2,3)] assms(1) by simp_all
  have "4 * (n div 262144) + n div 4096 mod 64 div 16 = x"
    unfolding regroup n_def using group_bytes [OF assms(2,3)] assms(1) by simp
  moreover have "n < 262144 * 64" using assms by simp
  then have "n div 262144 mod 64 = n div 262144" by (intro mod_less) (simp add: div_less_iff_less_mult)
  ultimately show "4 * (n div 262144 mod 64) + n div 4096 mod 64 div 16 = x" by simp
qed

lemma unat_group:
  fixes x y z :: u8
  shows "unat (push_bit 16 (ucast x) OR push_bit 8 (ucast y) OR ucast z :: u32) = unat x * 65536 + unat y * 256 + unat z"
    and "unat (push_bit 16 (ucast x) OR push_bit 8 (ucast y) :: u32) = unat x * 65536 + unat y * 256"
    and "unat (push_bit 16 (ucast x) :: u32) = unat x * 65536"
proof -
  have small: "unat v < 256" for v :: u8 using unsigned_less [of v] by simp
  have or_plus: "a OR b = a + b" if ab: "b < 2 ^ k" "2 ^ k dvd a" for a b k :: nat
  proof -
    obtain c where c: "a = push_bit k c" using ab(2) by (auto simp: push_bit_eq_mult mult.commute)
    have b: "b = take_bit k b" using ab(1) by (simp add: take_bit_nat_eq_self)
    have "\<not> (bit a n \<and> bit b n)" for n
      by (subst b, subst c) (auto simp: bit_push_bit_iff bit_take_bit_iff)
    then have "a AND b = 0" by (intro bit_eqI) (auto simp: bit_and_iff)
    then show ?thesis by (rule disjunctive_add_eq_or [symmetric])
  qed
  have p: "unat (push_bit 16 (ucast x) :: u32) = unat x * 65536" for x :: u8
    using small [of x] by (simp add: push_bit_eq_mult unat_word_ariths unsigned_ucast_eq take_bit_nat_eq_self)
  have q: "unat (push_bit 8 (ucast y) :: u32) = unat y * 256" for y :: u8
    using small [of y] by (simp add: push_bit_eq_mult unat_word_ariths unsigned_ucast_eq take_bit_nat_eq_self)
  have r: "unat (ucast z :: u32) = unat z" for z :: u8
    using small [of z] by (simp add: unsigned_ucast_eq take_bit_nat_eq_self)
  show "unat (push_bit 16 (ucast x) :: u32) = unat x * 65536" by (rule p)
  have a: "unat x * 65536 OR unat y * 256 = unat x * 65536 + unat y * 256"
    using small [of y] by (intro or_plus [of _ 16]) simp_all
  then show "unat (push_bit 16 (ucast x) OR push_bit 8 (ucast y) :: u32) = unat x * 65536 + unat y * 256"
    by (simp add: unsigned_or_eq p q)
  have "(unat x * 65536 + unat y * 256) OR unat z = unat x * 65536 + unat y * 256 + unat z"
    using small [of z] by (intro or_plus [of _ 8]) (simp_all add: dvd_add)
  then show "unat (push_bit 16 (ucast x) OR push_bit 8 (ucast y) OR ucast z :: u32) = unat x * 65536 + unat y * 256 + unat z"
    by (simp add: unsigned_or_eq p q r a flip: or.assoc)
qed

text \<open>
  The Base64 text is standard: for every input \<open>base64_encode_fixed\<close> with the right output size
  does not panic, has four characters for every three bytes begun, and RFC 4648 decoding gives
  back the input.
\<close>

theorem base64_roundtrip:
  "\<exists>text. base64_encode_fixed (4 * ((length bs + 2) div 3)) bs = Ok text \<and>
    length text = 4 * ((length bs + 2) div 3) \<and> base64_decode text = Some (map unat bs)"
proof -
  have small: "unat v < 256" for v :: u8 using unsigned_less [of v] by simp
  have "length (base64_chars bs) = 4 * ((length bs + 2) div 3)"
  proof (induction bs rule: base64_chars.induct)
    case (1 x y z rest)
    have "(length (x # y # z # rest) + 2) div 3 = Suc ((length rest + 2) div 3)"
      using div_add_self2 [of 3 "length rest + 2"] by (simp add: add.commute)
    with 1 show ?case by (simp add: Let_def)
  qed (simp_all add: Let_def)
  moreover have "base64_decode (base64_chars bs) = Some (map unat bs)"
  proof (induction bs rule: base64_chars.induct)
    case (1 x y z rest)
    then show ?case using digits_bytes [OF small [of x] small [of y] small [of z]]
      by (simp add: Let_def base64_digit_eq base64_index_table unat_group)
  next
    case (2 x y)
    then show ?case using digits_bytes [OF small [of x] small [of y], of 0]
      by (simp add: Let_def base64_digit_eq base64_index_table unat_group)
  next
    case (3 x)
    have "unat x div 4 < 64" using small [of x] by simp
    with digits_bytes [OF small [of x], of 0 0] show ?case
      by (simp add: Let_def base64_digit_eq base64_index_table unat_group)
  qed simp
  ultimately show ?thesis by (simp add: base64_encode_fixed_def Let_def)
qed

end
