(* ===== verification/WsHandshake.thy ===== *)
theory WsHandshake
  imports WsConn Crypto HttpSpec
begin

text \<open>
  The opening handshake of \<open>ws.rs\<close>: endpoint, upgrade request, response, and the checks that make a
  connection usable.  Dialling, TLS and random bytes are outside.
\<close>

section \<open>Errors\<close>

text \<open>\<open>WsErr\<close> with texts that may quote what a server sent.\<close>

datatype werr = WIo ustring | WTls ustring | WDns ustring | WHandshake ustring | WProtocol ustring | WBufferFull

fun werr_of :: "ws_err \<Rightarrow> werr" where
  "werr_of (Io s) = WIo (ustr s)" | "werr_of (Tls s) = WTls (ustr s)" | "werr_of (Dns s) = WDns (ustr s)"
| "werr_of (Handshake s) = WHandshake (ustr s)" | "werr_of (Protocol s) = WProtocol (ustr s)"
| "werr_of BufferFull = WBufferFull"

fun werr_text :: "werr \<Rightarrow> ustring" where
  "werr_text (WIo e) = ustr ''I/O error: '' @ e"
| "werr_text (WTls e) = ustr ''TLS error: '' @ e"
| "werr_text (WDns e) = ustr ''DNS error: '' @ e"
| "werr_text (WHandshake e) = ustr ''handshake error: '' @ e"
| "werr_text (WProtocol e) = ustr ''protocol error: '' @ e"
| "werr_text WBufferFull = ustr ''buffer full''"

section \<open>Endpoint\<close>

definition parse_endpoint :: "ustring \<Rightarrow> (ustring \<times> nat \<times> ustring, werr) outcome" where
  "parse_endpoint endpoint =
    and_then
      (case strip_prefix_opt (ustr ''wss://'') endpoint of
         Some rest \<Rightarrow> Ok (ustr ''https://'' @ rest)
       | None \<Rightarrow> if strip_prefix_opt (ustr ''https://'') endpoint \<noteq> None then Ok endpoint
                 else Err (WProtocol (ustr ''TLS WebSocket requires https:// or wss://''))) (\<lambda>url.
    case parse_url url of
      Ok (host, port, path, query) \<Rightarrow>
        (let path' = (if path = ustr ''/'' then ustr ''/api/clients/v2/rpc'' else path)
         in Ok (host, port, if query = [] then path' else path' @ [0x3F] @ query))
    | Err _ \<Rightarrow> Err (WProtocol (ustr ''invalid WebSocket endpoint''))
    | Panic \<Rightarrow> Panic)"

text \<open>\<open>connect_timeout\<close> of each address in turn: the first that succeeds, or the last error.\<close>

fun connect_with_timeout :: "('addr \<Rightarrow> ('sock, ustring) outcome) \<Rightarrow> ustring option \<Rightarrow> 'addr list \<Rightarrow> ('sock, werr) outcome" where
  "connect_with_timeout dial last_err [] =
    Err (WIo (ustr ''failed to connect to any address: '' @
      (case last_err of None \<Rightarrow> ustr ''None'' | Some e \<Rightarrow> ustr ''Some('' @ e @ ustr '')'')))"
| "connect_with_timeout dial last_err (a # as) =
    (case dial a of
       Ok s \<Rightarrow> Ok s
     | Err e \<Rightarrow> connect_with_timeout dial (Some e) as
     | Panic \<Rightarrow> Panic)"

section \<open>Request\<close>

definition hex_digit_upper :: "u8 \<Rightarrow> u8" where
  "hex_digit_upper n = (if n < 10 then 0x30 + n else 0x41 + n - 10)"

definition is_unreserved :: "u8 \<Rightarrow> bool" where
  "is_unreserved b \<longleftrightarrow> 0x41 \<le> b \<and> b \<le> 0x5A \<or> 0x61 \<le> b \<and> b \<le> 0x7A \<or> 0x30 \<le> b \<and> b \<le> 0x39 \<or>
    b \<in> {0x2D, 0x2E, 0x5F, 0x7E}"

definition url_encode_byte :: "u8 \<Rightarrow> ustring" where
  "url_encode_byte b =
    (if is_unreserved b then [unat b]
     else [0x25, unat (hex_digit_upper (drop_bit 4 b)), unat (hex_digit_upper (b AND 0x0F))])"

definition url_encode :: "ustring \<Rightarrow> ustring" where
  "url_encode s = concat (map url_encode_byte (as_bytes s))"

definition build_upgrade_request ::
  "ustring \<Rightarrow> ustring \<Rightarrow> ustring \<Rightarrow> ustring \<Rightarrow> ustring \<Rightarrow> headers \<Rightarrow> bool \<Rightarrow> ustring" where
  "build_upgrade_request version host path token ws_key extra_headers enable_compression =
    ustr ''GET '' @ path @ (if 0x3F \<in> set path then [0x26] else [0x3F]) @ ustr ''token='' @ url_encode token @
    ustr '' HTTP/1.1'' @ crlf @
    ustr ''Host: '' @ host @ crlf @
    ustr ''Upgrade: websocket'' @ crlf @
    ustr ''Connection: Upgrade'' @ crlf @
    ustr ''Sec-WebSocket-Key: '' @ ws_key @ crlf @
    ustr ''Sec-WebSocket-Version: 13'' @ crlf @
    (if enable_compression then ustr ''Sec-WebSocket-Extensions: permessage-deflate'' @ crlf else []) @
    ustr ''User-Agent: komari-agent-rs/'' @ version @ crlf @
    ustr ''Accept: */*'' @ crlf @
    concat (map header_line extra_headers) @ crlf"

section \<open>Response\<close>

definition max_http_response_size :: nat where "max_http_response_size = 65536"

text \<open>One byte at a time until the empty line.  What is left belongs to the frame reader.\<close>

type_synonym ws_source = "bytes \<times> werr option"

fun read_http_response_headers :: "bytes \<Rightarrow> bytes \<Rightarrow> werr option \<Rightarrow> (bytes \<times> ws_source, werr) outcome" where
  "read_http_response_headers buf [] (Some e) = Err e"
| "read_http_response_headers buf [] None = Err (WHandshake (ustr ''connection closed before HTTP response completed''))"
| "read_http_response_headers buf (b # bs) e =
    (let buf1 = buf @ [b]
     in if strip_suffix_opt [0x0D, 0x0A, 0x0D, 0x0A] buf1 \<noteq> None then Ok (buf1, bs, e)
        else if length buf1 > max_http_response_size
        then Err (WHandshake (ustr ''HTTP response headers too large''))
        else read_http_response_headers buf1 bs e)"

fun upgrade_headers :: "ustring list \<Rightarrow> ustring option \<Rightarrow> bool \<Rightarrow> ustring option \<times> bool" where
  "upgrade_headers [] accept permessage = (accept, permessage)"
| "upgrade_headers (l # ls) accept permessage =
    (let line = trim l
     in if line = [] then (accept, permessage)
        else case split_first (\<lambda>c. c = 0x3A) line of
          None \<Rightarrow> upgrade_headers ls accept permessage
        | Some (n, v) \<Rightarrow>
            (let name = trim n; val = trim v
             in if is_name ''sec-websocket-accept'' name then upgrade_headers ls (Some val) permessage
                else if is_name ''sec-websocket-extensions'' name \<and>
                        find_sub (ustr ''permessage-deflate'') (ascii_lower val) \<noteq> None
                then upgrade_headers ls accept True
                else upgrade_headers ls accept permessage))"

definition parse_upgrade_response :: "ustring \<Rightarrow> (nat \<times> ustring option \<times> bool, werr) outcome" where
  "parse_upgrade_response response =
    (case lines_of response of
       [] \<Rightarrow> Err (WHandshake (ustr ''empty HTTP response''))
     | status_line # ls \<Rightarrow>
         (case split_first (\<lambda>c. c = 0x20) status_line of
            None \<Rightarrow> Err (WHandshake (ustr ''invalid status line: '' @ [0x27] @ status_line @ [0x27]))
          | Some (_, rest) \<Rightarrow>
              (let word = (case split_first (\<lambda>c. c = 0x20) rest of Some (w, _) \<Rightarrow> w | None \<Rightarrow> rest)
               in and_then (ok_or (WHandshake (ustr ''invalid status code: '' @ [0x27] @ word @ [0x27])) (parse_unsigned 65535 word))
                    (\<lambda>code. Ok (code, upgrade_headers ls None False)))))"

section \<open>Connecting\<close>

record ws_connection =
  wc_compression :: bool
  wc_stream :: ws_source
  wc_reader :: frame_reader

text \<open>Dialling and TLS, then writing the request; what can be read after it.\<close>

type_synonym ws_network = "ustring \<Rightarrow> nat \<Rightarrow> (ustring \<Rightarrow> (ws_source, werr) outcome, werr) outcome"

definition verify_upgrade :: "ustring \<Rightarrow> bool \<Rightarrow> bytes \<Rightarrow> (bool, werr) outcome" where
  "verify_upgrade ws_key enable_compression response_bytes =
    and_then (ok_or (WHandshake (ustr ''HTTP response is not valid UTF-8'')) (from_utf8 response_bytes)) (\<lambda>response.
    and_then (parse_upgrade_response response) (\<lambda>(status_code, accept_header, permessage).
    if status_code \<noteq> 101
    then Err (WHandshake (ustr ''expected HTTP 101 Switching Protocols, got '' @ dec status_code))
    else and_then (ok_or (WHandshake (ustr ''missing Sec-WebSocket-Accept header'')) accept_header) (\<lambda>accept_value.
    and_then (ws_accept_key ws_key) (\<lambda>expected.
    if ws_verify_accept (as_bytes accept_value) expected then Ok (enable_compression \<and> permessage)
    else Err (WHandshake (ustr ''Sec-WebSocket-Accept mismatch: expected '' @ map unat expected))))))"

definition ws_connect ::
  "ws_network \<Rightarrow> bytes option \<Rightarrow> ustring \<Rightarrow> ustring \<Rightarrow> ustring \<Rightarrow> ustring \<Rightarrow> headers \<Rightarrow> bool \<Rightarrow>
    (ws_connection, werr) outcome" where
  "ws_connect net random version endpoint ws_path token extra_headers enable_compression =
    and_then (parse_endpoint endpoint) (\<lambda>(host, port, _).
    if take 1 ws_path \<noteq> [0x2F] \<or> list_ex is_url_control ws_path
    then Err (WProtocol (ustr ''invalid WebSocket request path''))
    else and_then (net host port) (\<lambda>send.
    and_then (case ws_generate_key random of
                Ok k \<Rightarrow> Ok (map unat k)
              | Err e \<Rightarrow> Err (WIo (ustr ''generate WS key: '' @ e))
              | Panic \<Rightarrow> Panic) (\<lambda>ws_key.
    and_then (send (build_upgrade_request version (host_header host port True) ws_path token ws_key extra_headers
                enable_compression)) (\<lambda>(bs, e).
    and_then (read_http_response_headers [] bs e) (\<lambda>(response_bytes, rest).
    and_then (verify_upgrade ws_key enable_compression response_bytes) (\<lambda>c.
    Ok \<lparr>wc_compression = c, wc_stream = rest, wc_reader = frame_reader_default\<rparr>))))))"

section \<open>The token in the request\<close>

text \<open>Percent-decoding, as RFC 3986 defines it.\<close>

fun url_decode :: "ustring \<Rightarrow> nat list" where
  "url_decode [] = []"
| "url_decode (c # s) =
    (case s of
       h # l # rest \<Rightarrow> if c = 0x25 then (16 * hex_char_value h + hex_char_value l) # url_decode rest else c # url_decode s
     | _ \<Rightarrow> c # url_decode s)"

lemma url_decode_plain: "c \<noteq> 0x25 \<Longrightarrow> url_decode (c # s) = c # url_decode s"
  and url_decode_escape: "url_decode (0x25 # h # l # rest) = (16 * hex_char_value h + hex_char_value l) # url_decode rest"
  by (auto split: list.split)

declare url_decode.simps(2) [simp del]

lemma hex_digit_upper_char:
  assumes "unat n < 16"
  shows "hex_char_value (unat (hex_digit_upper n)) = unat n"
    and "unat (hex_digit_upper n) \<in> {0x30..0x39} \<union> {0x41..0x46}"
proof -
  have "unat (hex_digit_upper n) = (if unat n < 10 then 0x30 + unat n else 0x37 + unat n)"
    using assms by (auto simp: hex_digit_upper_def word_less_nat_alt unat_word_ariths)
  then show "hex_char_value (unat (hex_digit_upper n)) = unat n" "unat (hex_digit_upper n) \<in> {0x30..0x39} \<union> {0x41..0x46}"
    using assms by (auto simp: hex_char_value_def dec_digit_def)
qed

lemma byte_halves: "unat (drop_bit 4 b) = unat b div 16" "unat (b AND 0x0F) = unat b mod 16" for b :: u8
proof -
  show "unat (drop_bit 4 b) = unat b div 16" by (simp only: unat_drop_bit_eq) (simp add: drop_bit_eq_div)
  have "b AND 0x0F = take_bit 4 b" by (simp add: take_bit_eq_mask mask_eq_exp_minus_1)
  then show "unat (b AND 0x0F) = unat b mod 16" by (simp add: unsigned_take_bit_eq) (simp add: take_bit_eq_mod)
qed

lemma url_encode_byte_decode: "url_decode (url_encode_byte b @ s) = unat b # url_decode s"
  and url_encode_byte_plain: "c \<in> set (url_encode_byte b) \<Longrightarrow> c = 0x25 \<or> is_unreserved (of_nat c) \<and> c < 0x80"
proof -
  have small: "unat b < 256" using unsigned_less [of b] by simp
  then have h: "unat (drop_bit 4 b) < 16" "unat (b AND 0x0F) < 16" by (simp_all add: byte_halves)
  note hs = hex_digit_upper_char [OF h(1)] hex_digit_upper_char [OF h(2)]
  have u: "unat b < 0x80 \<and> unat b \<noteq> 0x25" if "is_unreserved b"
    using that by (auto simp: is_unreserved_def word_le_nat_alt)
  show "url_decode (url_encode_byte b @ s) = unat b # url_decode s"
    using u hs by (auto simp: url_encode_byte_def url_decode_plain url_decode_escape byte_halves)
  have hex: "is_unreserved (of_nat c) \<and> c < 0x80" if "c \<in> {0x30..0x39} \<union> {0x41..0x46}" for c :: nat
  proof -
    have "unat (of_nat c :: u8) = c" using that by (intro unat_of_nat_byte) auto
    with that show ?thesis by (auto simp: is_unreserved_def word_le_nat_alt)
  qed
  show "c \<in> set (url_encode_byte b) \<Longrightarrow> c = 0x25 \<or> is_unreserved (of_nat c) \<and> c < 0x80"
    using u hex hs by (auto simp: url_encode_byte_def split: if_splits)
qed

lemma url_decode_encode: "url_decode (url_encode s) = map unat (as_bytes s)"
proof -
  have "url_decode (concat (map url_encode_byte bs)) = map unat bs" for bs
    by (induction bs) (simp_all add: url_encode_byte_decode)
  then show ?thesis by (simp add: url_encode_def)
qed

lemma url_encode_plain: "list_all (\<lambda>c. c = 0x25 \<or> is_unreserved (of_nat c) \<and> c < 0x80) (url_encode s)"
  using url_encode_byte_plain by (auto simp: url_encode_def list_all_iff)

lemma one_line_url_encode: "one_line (url_encode s)"
proof -
  have "c \<noteq> 0x0D \<and> c \<noteq> 0x0A" if "c \<in> set (url_encode s)" for c
    using that url_encode_plain [of s] by (auto simp: list_all_iff is_unreserved_def)
  then show ?thesis by (auto simp: one_line_def)
qed

text \<open>
  A token cannot break the upgrade request: for every token, line breaks, spaces, \<open>&\<close>, \<open>#\<close> and any
  Unicode text included, the server reads exactly the request line and headers that were meant,
  the query value is made of unreserved characters and escapes only, and percent-decoding it gives
  back the bytes of the token.
\<close>

theorem upgrade_request_carries_token:
  assumes "\<not> list_ex is_url_control path" and "one_line host" and "one_line ws_key" and "one_line version"
    and "list_all (\<lambda>h. one_line (fst h) \<and> one_line (snd h)) extra"
  shows "lines_of (build_upgrade_request version host path token ws_key extra compression) =
    [ustr ''GET '' @ path @ (if 0x3F \<in> set path then [0x26] else [0x3F]) @ ustr ''token='' @ url_encode token @ ustr '' HTTP/1.1'',
     ustr ''Host: '' @ host, ustr ''Upgrade: websocket'', ustr ''Connection: Upgrade'',
     ustr ''Sec-WebSocket-Key: '' @ ws_key, ustr ''Sec-WebSocket-Version: 13''] @
    (if compression then [ustr ''Sec-WebSocket-Extensions: permessage-deflate''] else []) @
    [ustr ''User-Agent: komari-agent-rs/'' @ version, ustr ''Accept: */*''] @
    map (\<lambda>(name, v). name @ ustr '': '' @ v) extra @ [[]] \<and>
    list_all (\<lambda>c. c = 0x25 \<or> is_unreserved (of_nat c) \<and> c < 0x80) (url_encode token) \<and>
    url_decode (url_encode token) = map unat (as_bytes token)"
proof -
  have path: "one_line path"
    using assms(1) by (intro plain_one_line) (auto simp: list_all_iff list_ex_iff)
  have lits: "one_line (ustr ''GET '')" "one_line (ustr ''token='')" "one_line (ustr '' HTTP/1.1'')" "one_line (ustr ''Host: '')"
    "one_line (ustr ''Upgrade: websocket'')" "one_line (ustr ''Connection: Upgrade'')" "one_line (ustr ''Sec-WebSocket-Key: '')"
    "one_line (ustr ''Sec-WebSocket-Version: 13'')" "one_line (ustr ''Sec-WebSocket-Extensions: permessage-deflate'')"
    "one_line (ustr ''User-Agent: komari-agent-rs/'')" "one_line (ustr ''Accept: */*'')" "one_line (ustr '': '')"
    by (simp_all add: ustr_def)
  let ?ls = "[ustr ''GET '' @ path @ (if 0x3F \<in> set path then [0x26] else [0x3F]) @ ustr ''token='' @ url_encode token @ ustr '' HTTP/1.1'',
     ustr ''Host: '' @ host, ustr ''Upgrade: websocket'', ustr ''Connection: Upgrade'',
     ustr ''Sec-WebSocket-Key: '' @ ws_key, ustr ''Sec-WebSocket-Version: 13''] @
    (if compression then [ustr ''Sec-WebSocket-Extensions: permessage-deflate''] else []) @
    [ustr ''User-Agent: komari-agent-rs/'' @ version, ustr ''Accept: */*''] @
    map (\<lambda>(name, v). name @ ustr '': '' @ v) extra @ [[]]"
  have ex: "concat (map header_line extra) = joined (map (\<lambda>(name, v). name @ ustr '': '' @ v) extra)"
    by (induction extra) (auto simp: header_line_def)
  have "build_upgrade_request version host path token ws_key extra compression = joined ?ls"
    unfolding build_upgrade_request_def ex by simp
  moreover have "list_all one_line ?ls"
    using assms(2-5) path lits one_line_url_encode [of token] by (auto simp: list_all_iff)
  ultimately have "lines_of (build_upgrade_request version host path token ws_key extra compression) = ?ls"
    using lines_of_joined [of ?ls "[]"] by (simp add: lines_of_simps(1))
  then show ?thesis using url_encode_plain url_decode_encode by (simp only: simp_thms)
qed

lemma upgrade_request_carries_token_witness:
  "lines_of (build_upgrade_request (ustr ''1.0'') (ustr ''h'') (ustr ''/rpc'') [0x0D, 0x0A, 0x41] (ustr ''k'') [] False) ! 0 =
    ustr ''GET /rpc?token=%0D%0AA HTTP/1.1''"
proof -
  have a: "\<not> list_ex is_url_control (ustr ''/rpc'')" "one_line (ustr ''h'')" "one_line (ustr ''k'')" "one_line (ustr ''1.0'')"
    by (simp_all add: ustr_def is_url_control_def)
  have "url_encode [0x0D, 0x0A, 0x41] = ustr ''%0D%0AA''" by code_simp
  with upgrade_request_carries_token [OF a, of "[]" "[0x0D, 0x0A, 0x41]" False] show ?thesis
    by (simp add: ustr_def)
qed

end
