(* ===== verification/Events.thy ===== *)
theory Events
  imports WsHandshake Tasks ConfigSnapshot Fsm
begin

text \<open>
  Events from the server: \<open>server/reconnection.rs\<close>.  The event bus that is shared by the report loop and
  the pull thread, the batches of events in responses, and what the agent does for each event.
\<close>

section \<open>Event bus\<close>

record event_bus =
  pending_acks :: "ustring list"
  seen_ids :: "ustring list"

definition bus_default :: event_bus where "bus_default = \<lparr>pending_acks = [], seen_ids = []\<rparr>"

definition seen_cap :: nat where "seen_cap = 256"

text \<open>Whether the event was dispatched already.\<close>

definition mark_seen :: "ustring \<Rightarrow> event_bus \<Rightarrow> bool \<times> event_bus" where
  "mark_seen eid b =
    (if eid = [] then (False, b)
     else if eid \<in> set (seen_ids b) then (True, b)
     else (let kept = (if length (seen_ids b) \<ge> seen_cap then tl (seen_ids b) else seen_ids b)
           in (False, b\<lparr>seen_ids := kept @ [eid]\<rparr>)))"

definition drain_acks :: "event_bus \<Rightarrow> ustring list \<times> event_bus" where
  "drain_acks b = (pending_acks b, b\<lparr>pending_acks := []\<rparr>)"

section \<open>Parameters\<close>

definition string_array :: "bytes \<Rightarrow> ustring list \<Rightarrow> bytes" where
  "string_array v ss =
    fst (foldl (\<lambda>(acc, i) s. (write_json_string (if i > 0 then acc @ [0x2C] else acc) s, i + 1 :: nat)) (v, 0) ss)"

definition wrap_report_params :: "bytes \<Rightarrow> ustring list \<Rightarrow> bytes" where
  "wrap_report_params report ack_ids =
    (let v = lit ''{\"report\":'' @ report;
         w = (if ack_ids \<noteq> [] then string_array (v @ lit '',\"ack_event_ids\":['') ack_ids @ [0x5D] else v)
     in w @ [0x7D])"

definition build_pull_params :: "ustring list \<Rightarrow> ustring list \<Rightarrow> bytes" where
  "build_pull_params caps ack_ids =
    (let v = string_array (lit ''{\"capabilities\":['') caps @ [0x5D];
         w = (if ack_ids \<noteq> [] then string_array (v @ lit '',\"ack_event_ids\":['') ack_ids @ [0x5D] else v)
     in w @ [0x7D])"

section \<open>Batches\<close>

definition trim_ascii :: "bytes \<Rightarrow> bytes" where
  "trim_ascii bs = trim_by ascii_ws bs"

lemma trim_ascii_length: "length (trim_ascii bs) \<le> length bs"
  using length_dropWhile_le [of ascii_ws bs] length_dropWhile_le [of ascii_ws "rev (dropWhile ascii_ws bs)"]
  by (simp add: trim_ascii_def trim_by_def trim_start_by_def trim_end_by_def)

lemma skip_value_bounds: "b \<noteq> [] \<Longrightarrow> 0 < skip_value b 0 \<and> skip_value b 0 \<le> length b"
  using value_end_bounds [of b 0 0] by (auto simp: skip_value_def split: option.splits)

function event_members :: "bytes \<Rightarrow> (ustring list, string) outcome" where
  "event_members members =
    (if members = [] then Ok []
     else let e = skip_value members 0; event = take e members
          in if take 1 event \<noteq> [0x7B] \<or> strip_suffix_opt [0x7D] event = None
             then Err ''result.events contains a non-object member''
             else case from_utf8 event of
               None \<Rightarrow> Err ''result.events contains invalid UTF-8''
             | Some text1 \<Rightarrow>
                 (let rest = trim_ascii (drop e members)
                  in if rest = [] then Ok [text1]
                     else case strip_prefix_opt [0x2C] rest of
                       None \<Rightarrow> Err ''invalid event array separator''
                     | Some tail \<Rightarrow> and_then (event_members (trim_ascii tail)) (\<lambda>es. Ok (text1 # es))))"
  by auto
termination event_members
proof (relation "measure length")
  fix members :: bytes and e event text1 rest tail
  assume a: "members \<noteq> []" "e = skip_value members 0" "rest = trim_ascii (drop e members)" "strip_prefix_opt [0x2C] rest = Some tail"
  have "length rest \<le> length members - e" using trim_ascii_length [of "drop e members"] a(3) by simp
  moreover have "0 < e" using skip_value_bounds [OF a(1)] a(2) by simp
  moreover have "length tail < length rest" using a(4) by (auto simp: strip_prefix_eq_Some)
  moreover have "length (trim_ascii tail) \<le> length tail" by (rule trim_ascii_length)
  ultimately show "(trim_ascii tail, members) \<in> measure length" by simp
qed simp

declare event_members.simps [simp del]

definition extract_event_objects :: "ustring \<Rightarrow> (ustring list, string) outcome" where
  "extract_event_objects body =
    (case object_field (as_bytes body) (ustr ''result'') of
       None \<Rightarrow> Err ''invalid event response envelope''
     | Some result \<Rightarrow>
         (case object_field result (ustr ''events'') of
            None \<Rightarrow> Ok []
          | Some events \<Rightarrow>
              (case (case strip_prefix_opt [0x5B] events of None \<Rightarrow> None | Some v \<Rightarrow> strip_suffix_opt [0x5D] v) of
                 None \<Rightarrow> Err ''result.events is not an array''
               | Some members \<Rightarrow> event_members (trim_ascii members))))"

text \<open>The events of a response that are new, with the bus after it.\<close>

fun intake :: "ustring list \<Rightarrow> event_bus \<Rightarrow> ustring list \<times> event_bus" where
  "intake [] b = ([], b)"
| "intake (ev # evs) b =
    (let eid = (case extract_json_string (as_bytes ev) (ustr ''id'') of Some i \<Rightarrow> i | None \<Rightarrow> []);
         b1 = (if eid \<noteq> [] then b\<lparr>pending_acks := pending_acks b @ [eid]\<rparr> else b);
         (dup, b2) = mark_seen eid b1;
         (fresh, b3) = intake evs b2
     in (if dup then fresh else ev # fresh, b3))"

definition process_v2_response_events :: "bytes \<Rightarrow> event_bus \<Rightarrow> ustring list \<times> event_bus" where
  "process_v2_response_events body b =
    (case from_utf8 body of
       None \<Rightarrow> ([], b)
     | Some s \<Rightarrow> (case extract_event_objects s of Ok evs \<Rightarrow> intake evs b | _ \<Rightarrow> ([], b)))"

section \<open>Dispatch\<close>

text \<open>What the handlers read of the outside, and what they do.\<close>

record world =
  w_now :: nat
  w_run :: "bytes \<Rightarrow> ustring + run_output"
  w_output_limit :: nat
  w_probes :: probes
  w_stamps :: build_stamps
  w_float :: float_text

datatype effect =
    Post ustring bytes "ustring option"
  | SendText bytes
  | RunCommand bytes
  | OpenTerminal ustring bool
  | FileControl bytes
  | SwitchVersion ustring

definition rpc_path :: ustring where "rpc_path = ustr ''/api/clients/v2/rpc''"

definition build_http_url :: "config \<Rightarrow> ustring" where
  "build_http_url c =
    trim_end_by (\<lambda>ch. ch = 0x2F) (cf_endpoint c) @ rpc_path @ ustr ''?token='' @ url_encode (cf_token c)"

definition gzip_if_enabled :: "bytes \<Rightarrow> config \<Rightarrow> (bytes \<times> ustring option, unit) outcome" where
  "gzip_if_enabled body c =
    (if cf_disable_compression c \<or> length body < 64 then Ok (body, None)
     else case gzip_compress body of
            Ok compressed \<Rightarrow> Ok (compressed, Some (ustr ''gzip''))
          | Err _ \<Rightarrow> Ok (body, None)
          | Panic \<Rightarrow> Panic)"

definition agent_capabilities :: "build_stamps \<Rightarrow> config \<Rightarrow> ustring list" where
  "agent_capabilities st c =
    map ustr ([''message'', ''event'', ''startup_config''] @
      (if bs_ping st then [''ping''] else []) @
      (if \<not> cf_disable_exec c then [''exec''] else []) @
      (if bs_terminal st \<and> \<not> cf_disable_web_ssh c \<and> \<not> cf_http_only c then [''terminal''] else []) @
      (if \<not> cf_disable_web_ssh c then [''file''] else []) @
      (if bs_self_update st \<and> \<not> cf_disable_web_ssh c \<and> \<not> cf_disable_auto_update c then [''switch_version''] else []))"

definition handle_exec_task :: "world \<Rightarrow> config \<Rightarrow> ustring \<Rightarrow> ustring \<Rightarrow> effect list" where
  "handle_exec_task w c task_id command =
    (if task_id = [] then []
     else let (result, ran) = execute_exec (w_output_limit w) (w_run w) command (cf_disable_exec c);
              body = build_task_result_v2 (w_now w) task_id (ex_output result) (ex_code result)
          in (case ran of Some cmd \<Rightarrow> [RunCommand cmd] | None \<Rightarrow> []) @ [Post (build_http_url c) body None])"

definition ping_payload :: "world \<Rightarrow> int \<Rightarrow> ustring \<Rightarrow> bytes" where
  "ping_payload w task_id ping_type =
    new_notification method_agent_ping_result
      (build_payload (w_now w) (handle_ping ping_type (w_probes w)) (if task_id < 0 then 0 else nat task_id) 2)"

definition extract_ping_fields :: "bytes \<Rightarrow> (int \<times> ustring \<times> ustring) option" where
  "extract_ping_fields bs =
    (let number = \<lambda>k. extract_json_number bs (ustr k); str = \<lambda>k. extract_json_string bs (ustr k);
         or_else = \<lambda>a b. (case a of None \<Rightarrow> b | Some x \<Rightarrow> Some x)
     in case (case number ''taskId'' of Some n \<Rightarrow> Some n
              | None \<Rightarrow> (case number ''task_id'' of Some n \<Rightarrow> Some n | None \<Rightarrow> number ''ping_task_id'')) of
          None \<Rightarrow> None
        | Some tid \<Rightarrow>
            (case or_else (str ''pingType'') (str ''ping_type'') of
               None \<Rightarrow> None
             | Some ping_type \<Rightarrow>
                 (case or_else (str ''target'') (str ''ping_target'') of
                    None \<Rightarrow> None
                  | Some target \<Rightarrow> Some (tid, ping_type, target))))"

definition max_terminal_sessions :: nat where "max_terminal_sessions = 2"

text \<open>\<open>prev\<close> is the number of sessions that the request's \<open>fetch_add\<close> found.\<close>

definition handle_terminal_request :: "world \<Rightarrow> config \<Rightarrow> nat \<Rightarrow> ustring \<Rightarrow> effect list" where
  "handle_terminal_request w c prev request_id =
    (if cf_http_only c \<or> request_id = [] then []
     else if \<not> bs_terminal (w_stamps w) then []
     else if prev \<ge> max_terminal_sessions then []
     else [OpenTerminal (ustr ''/api/clients/terminal?id='' @ url_encode request_id) (cf_disable_web_ssh c)])"

definition handle_startup_config_request :: "world \<Rightarrow> config \<Rightarrow> ustring \<Rightarrow> (effect list, unit) outcome" where
  "handle_startup_config_request w c request_id =
    (if request_id = [] then Ok []
     else let params = build_startup_config_params request_id (startup_config_json (w_float w) (w_stamps w) c);
              payload = new_request request_id method_agent_startup_config_result params
          in and_then (gzip_if_enabled payload c) (\<lambda>(body, encoding). Ok [Post (build_http_url c) body encoding]))"

definition handle_switch_version :: "world \<Rightarrow> config \<Rightarrow> ustring \<Rightarrow> effect list" where
  "handle_switch_version w c version =
    (if cf_disable_web_ssh c \<or> cf_disable_auto_update c then []
     else if bs_self_update (w_stamps w) then [SwitchVersion version] else [])"

text \<open>\<open>ws\<close>: the message came on the WebSocket, which a ping answers on.\<close>

definition dispatch_server_message :: "world \<Rightarrow> config \<Rightarrow> nat \<Rightarrow> bool \<Rightarrow> bytes \<Rightarrow> (effect list, unit) outcome" where
  "dispatch_server_message w c prev ws bs =
    (if from_utf8 bs = None then Ok []
     else let str = \<lambda>k. (case extract_json_string bs (ustr k) of Some s \<Rightarrow> s | None \<Rightarrow> []);
              method = (case extract_json_method bs of Some m \<Rightarrow> m | None \<Rightarrow> [])
          in if method = method_agent_exec then Ok (handle_exec_task w c (str ''task_id'') (str ''command''))
             else if method = method_agent_ping
             then Ok (case extract_ping_fields bs of
                    None \<Rightarrow> []
                  | Some (tid, ping_type, target) \<Rightarrow>
                      if ws then [SendText (ping_payload w tid ping_type)]
                      else [Post (build_http_url c) (ping_payload w tid ping_type) None])
             else if method = method_agent_terminal then Ok (handle_terminal_request w c prev (str ''request_id''))
             else if method = method_agent_startup_config then handle_startup_config_request w c (str ''request_id'')
             else if method = method_agent_file then Ok [FileControl bs]
             else if method = method_agent_switch_version then Ok (handle_switch_version w c (str ''version''))
             else Ok [])"

text \<open>The thread of a terminal session, once dialled: refuse, or hand the socket to the shell.\<close>

datatype session_end = DialFailed | Refused bytes | Shell ws_connection

definition web_ssh_disabled_text :: bytes where
  "web_ssh_disabled_text =
    [0x0A, 0x0A] @ lit ''Web SSH is disabled. Enable it by running without --disable-web-ssh '' @
    lit ''(and build with --features terminal). Remote exec uses the independent --disable-exec setting.'' @ [0x0A]"

definition establish_terminal_session :: "(ws_connection, werr) outcome \<Rightarrow> bool \<Rightarrow> session_end" where
  "establish_terminal_session dialled disable_web_ssh =
    (case dialled of
       Ok ws \<Rightarrow> if disable_web_ssh then Refused web_ssh_disabled_text else Shell ws
     | _ \<Rightarrow> DialFailed)"

section \<open>Failures\<close>

datatype tick_err = TickWs werr | TickHttp http_err | TickOther ustring

definition contains :: "ustring \<Rightarrow> string \<Rightarrow> bool" where
  "contains s p \<longleftrightarrow> find_sub (ustr p) s \<noteq> None"

fun classify_ws_failure :: "werr \<Rightarrow> failure_kind" where
  "classify_ws_failure (WHandshake s) =
    (if contains s ''401'' \<or> contains s ''403'' then HttpStatus 401
     else if contains s ''404'' \<or> contains s ''405'' then HttpStatus 404
     else WsConnect)"
| "classify_ws_failure _ = WsConnect"

fun classify_tick_failure :: "tick_err \<Rightarrow> failure_kind" where
  "classify_tick_failure (TickWs e) = classify_ws_failure e"
| "classify_tick_failure _ = HttpPost"

fun is_deflate_failure :: "tick_err \<Rightarrow> bool" where
  "is_deflate_failure (TickWs (WProtocol s)) =
    (contains (ascii_lower s) ''permessage-deflate'' \<or> contains (ascii_lower s) ''inflate'')"
| "is_deflate_failure _ = False"

text \<open>
  \<open>to_lowercase\<close>, as far as the phrases looked for can tell: outside ASCII only the Kelvin sign has
  a single ASCII letter as its lower case.
\<close>

definition to_lowercase :: "ustring \<Rightarrow> ustring" where
  "to_lowercase s = map (\<lambda>c. if c = 0x212A then 0x6B else lower_char c) s"

fun is_timeout :: "werr \<Rightarrow> bool" where
  "is_timeout (WIo s) =
    (let l = to_lowercase s in contains l ''timed out'' \<or> contains l ''would block'' \<or> contains l ''temporarily unavailable'')"
| "is_timeout _ = False"

end
