(* ===== verification/EventSpec.thy ===== *)
theory EventSpec
  imports Events
begin

text \<open>
  Events are dispatched once within the window of the bus and acknowledged at every sighting; a locked
  agent does nothing that the server could use to control the machine.
\<close>

section \<open>The window of the bus\<close>

definition event_id :: "ustring \<Rightarrow> ustring" where
  "event_id ev = (case extract_json_string (as_bytes ev) (ustr ''id'') of Some i \<Rightarrow> i | None \<Rightarrow> [])"

text \<open>What an identifier does to the list of those seen, and whether its event is new.\<close>

definition see :: "ustring \<Rightarrow> ustring list \<Rightarrow> bool \<times> ustring list" where
  "see x s =
    (if x = [] then (True, s) else if x \<in> set s then (False, s)
     else (True, (if length s \<ge> 256 then tl s else s) @ [x]))"

fun see_all :: "ustring list \<Rightarrow> ustring list \<Rightarrow> bool list \<times> ustring list" where
  "see_all [] s = ([], s)"
| "see_all (x # xs) s = (let (d, s1) = see x s; (ds, s2) = see_all xs s1 in (d # ds, s2))"

lemma see_all_append:
  "see_all (xs @ ys) s = (fst (see_all xs s) @ fst (see_all ys (snd (see_all xs s))), snd (see_all ys (snd (see_all xs s))))"
  by (induction xs arbitrary: s) (simp_all add: case_prod_beta Let_def)

lemma see_all_length [simp]: "length (fst (see_all xs s)) = length xs"
  by (induction xs arbitrary: s) (simp_all add: case_prod_beta Let_def)

lemma mark_seen_see: "mark_seen x b = (\<not> fst (see x (seen_ids b)), b\<lparr>seen_ids := snd (see x (seen_ids b))\<rparr>)"
  by (simp add: mark_seen_def see_def seen_cap_def Let_def)

definition seen_ok :: "ustring list \<Rightarrow> bool" where
  "seen_ok s \<longleftrightarrow> distinct s \<and> length s \<le> 256"

lemma see_ok: "seen_ok s \<Longrightarrow> seen_ok (snd (see x s))"
  by (cases s) (auto simp: seen_ok_def see_def)

lemma see_all_ok: "seen_ok s \<Longrightarrow> seen_ok (snd (see_all xs s))"
  by (induction xs arbitrary: s) (simp_all add: case_prod_beta Let_def see_ok)

text \<open>
  \<open>x\<close> was seen, and \<open>later\<close> are the other identifiers since: as long as they are few, \<open>x\<close> is still
  in the list and only later ones stand behind it.
\<close>

definition remembered :: "ustring \<Rightarrow> ustring set \<Rightarrow> ustring list \<Rightarrow> bool" where
  "remembered x later s \<longleftrightarrow> finite later \<and> (256 \<le> card later \<or> (\<exists>a b. s = a @ x # b \<and> set b \<subseteq> later))"

lemma remembered_more: "\<lbrakk>remembered x later s; finite others\<rbrakk> \<Longrightarrow> 256 \<le> card later \<Longrightarrow> remembered x (later \<union> others) t"
  using card_mono [of "later \<union> others" later] by (auto simp: remembered_def)

lemma remembered_see:
  assumes "remembered x later s" and "seen_ok s" and "x \<noteq> []" and "x \<notin> later"
  shows "remembered x (later \<union> ({y} - {x, []})) (snd (see y s))"
proof (cases "256 \<le> card later")
  case True
  then show ?thesis using assms(1) by (intro remembered_more) simp_all
next
  case False
  with assms(1) obtain a b where s: "s = a @ x # b" "set b \<subseteq> later" and f: "finite later"
    by (auto simp: remembered_def)
  show ?thesis
  proof (cases "y = [] \<or> y \<in> set s")
    case True
    then show ?thesis using s f by (auto simp: remembered_def see_def)
  next
    case new: False
    then have y: "y \<noteq> []" "y \<noteq> x" "y \<notin> set b" "y \<notin> set a" using s by auto
    show ?thesis
    proof (cases "length s \<ge> 256 \<and> a = []")
      case True
      then have len: "length b = 255" and d: "distinct (b @ [y])"
        using assms(2) s y by (auto simp: seen_ok_def)
      have "set (b @ [y]) \<subseteq> later \<union> ({y} - {x, []})" using s y by auto
      then have "card (set (b @ [y])) \<le> card (later \<union> ({y} - {x, []}))" using f by (intro card_mono) auto
      moreover have "card (set (b @ [y])) = 256" using distinct_card [OF d] len by simp
      ultimately show ?thesis using f by (simp add: remembered_def)
    next
      case False
      let ?a = "if length s \<ge> 256 then tl a else a"
      have "snd (see y s) = ?a @ x # (b @ [y])" using new False s by (auto simp: see_def)
      moreover have "set (b @ [y]) \<subseteq> later \<union> ({y} - {x, []})" using s y by auto
      ultimately show ?thesis using f unfolding remembered_def by blast
    qed
  qed
qed

lemma remembered_see_all:
  "\<lbrakk>remembered x later s; seen_ok s; x \<noteq> []; x \<notin> later\<rbrakk> \<Longrightarrow>
    remembered x (later \<union> (set ys - {x, []})) (snd (see_all ys s))"
proof (induction ys arbitrary: later s)
  case (Cons y ys)
  let ?l = "later \<union> ({y} - {x, []})"
  have "remembered x (?l \<union> (set ys - {x, []})) (snd (see_all ys (snd (see y s))))"
    using Cons.prems by (intro Cons.IH remembered_see see_ok) auto
  moreover have "?l \<union> (set ys - {x, []}) = later \<union> (set (y # ys) - {x, []})" by auto
  ultimately show ?case by (simp add: case_prod_beta Let_def)
qed simp

lemma see_then_remembered: "\<lbrakk>x \<noteq> []; seen_ok s\<rbrakk> \<Longrightarrow> fst (see x s) \<Longrightarrow> remembered x {} (snd (see x s))"
  by (auto simp: see_def remembered_def split: if_splits intro!: exI)

text \<open>Between two dispatches of one identifier there are at least 256 others.\<close>

lemma dispatched_twice:
  assumes "seen_ok s" and "ids = us @ x # vs @ x # ws" and "x \<noteq> []"
    and "fst (see_all ids s) ! length us" and "fst (see_all ids s) ! (length us + 1 + length vs)"
  shows "256 \<le> card (set vs - {x, []})"
proof -
  let ?s0 = "snd (see_all us s)"
  let ?s1 = "snd (see x ?s0)"
  let ?s2 = "snd (see_all vs ?s1)"
  have ok: "seen_ok ?s0" by (rule see_all_ok [OF assms(1)])
  have d: "fst (see_all ids s) = fst (see_all us s) @ fst (see x ?s0) # fst (see_all vs ?s1) @ fst (see x ?s2) #
      fst (see_all ws (snd (see x ?s2)))"
    unfolding assms(2) by (simp add: see_all_append case_prod_beta Let_def)
  have "fst (see x ?s0)" and x2: "fst (see x ?s2)"
    using assms(4,5) unfolding d by (simp_all add: nth_append)
  then have "remembered x {} ?s1" by (intro see_then_remembered assms(3) ok)
  then have "remembered x ({} \<union> (set vs - {x, []})) ?s2"
    by (rule remembered_see_all) (simp_all add: assms(3) see_ok ok)
  moreover have "x \<notin> set ?s2" using x2 assms(3) by (auto simp: see_def split: if_splits)
  ultimately show ?thesis by (auto simp: remembered_def)
qed

lemma see_all_first: "\<lbrakk>i < length ids; ids ! i = [] \<or> ids ! i \<notin> set s \<union> set (take i ids)\<rbrakk> \<Longrightarrow> fst (see_all ids s) ! i"
proof (induction ids arbitrary: i s)
  case (Cons y ys)
  show ?case
  proof (cases i)
    case 0
    with Cons.prems show ?thesis by (auto simp: case_prod_beta Let_def see_def)
  next
    case (Suc k)
    have "set (snd (see y s)) \<subseteq> insert y (set s)" by (cases s) (auto simp: see_def)
    with Cons.prems Suc have "fst (see_all ys (snd (see y s))) ! k" by (intro Cons.IH) auto
    with Suc show ?thesis by (simp add: case_prod_beta Let_def)
  qed
qed simp

section \<open>Batches of events\<close>

text \<open>Exchanges with the server: acknowledgements go out, then a batch comes in.\<close>

fun exchanges :: "ustring list list \<Rightarrow> event_bus \<Rightarrow> ustring list \<times> ustring list \<times> event_bus" where
  "exchanges [] b = ([], [], b)"
| "exchanges (batch # batches) b =
    (let (acks, b1) = drain_acks b; (fresh, b2) = intake batch b1; (fs, as, b3) = exchanges batches b2
     in (fresh @ fs, acks @ as, b3))"

definition chosen :: "bool list \<Rightarrow> 'a list \<Rightarrow> 'a list" where
  "chosen ds xs = map fst (filter snd (zip xs ds))"

lemma chosen_append: "length ds = length xs \<Longrightarrow> chosen (ds @ es) (xs @ ys) = chosen ds xs @ chosen es ys"
  by (simp add: chosen_def)

lemma intake_eq:
  "intake evs b =
    (chosen (fst (see_all (map event_id evs) (seen_ids b))) evs,
     b\<lparr>pending_acks := pending_acks b @ filter (\<lambda>i. i \<noteq> []) (map event_id evs),
       seen_ids := snd (see_all (map event_id evs) (seen_ids b))\<rparr>)"
proof (induction evs arbitrary: b)
  case (Cons ev evs)
  then show ?case
    by (auto simp: Let_def case_prod_beta mark_seen_see chosen_def simp flip: event_id_def)
qed (simp add: chosen_def)

lemma exchanges_eq:
  "exchanges batches b = (fresh, acks, b') \<Longrightarrow>
    fresh = chosen (fst (see_all (map event_id (concat batches)) (seen_ids b))) (concat batches) \<and>
    acks @ pending_acks b' = pending_acks b @ filter (\<lambda>i. i \<noteq> []) (map event_id (concat batches))"
proof (induction batches arbitrary: b fresh acks b')
  case (Cons batch batches)
  let ?ids = "map event_id batch"
  let ?b2 = "b\<lparr>pending_acks := filter (\<lambda>i. i \<noteq> []) ?ids, seen_ids := snd (see_all ?ids (seen_ids b))\<rparr>"
  obtain fs as b3 where r: "exchanges batches ?b2 = (fs, as, b3)" by (metis prod_cases3)
  have i: "intake batch (b\<lparr>pending_acks := []\<rparr>) = (chosen (fst (see_all ?ids (seen_ids b))) batch, ?b2)"
    unfolding intake_eq by simp
  have e: "fresh = chosen (fst (see_all ?ids (seen_ids b))) batch @ fs" "acks = pending_acks b @ as" "b' = b3"
    using Cons.prems i r by (simp_all add: drain_acks_def)
  from Cons.IH [OF r] show ?case by (simp add: e see_all_append chosen_append)
qed (simp add: chosen_def)

text \<open>
  C16: No event is lost, and none is executed again soon: over any sequence of exchanges, every event
  without an identifier and every first sighting of an identifier is dispatched; an identifier
  that is dispatched twice had at least 256 other identifiers in between; and every sighting is
  acknowledged exactly once, in order, with the next exchange or still pending.
\<close>

theorem events_dispatched_once_per_window:
  assumes "exchanges batches bus_default = (dispatched, acked, b)"
  shows "\<exists>flags. let evs = concat batches; ids = map event_id evs in
    length flags = length evs \<and> dispatched = map fst (filter snd (zip evs flags)) \<and>
    (\<forall>i<length evs. ids ! i = [] \<or> ids ! i \<notin> set (take i ids) \<longrightarrow> flags ! i) \<and>
    (\<forall>i j. i < j \<and> j < length evs \<and> ids ! i = ids ! j \<and> ids ! i \<noteq> [] \<and> flags ! i \<and> flags ! j \<longrightarrow>
      256 \<le> card (set (take (j - i - 1) (drop (i + 1) ids)) - {ids ! i, []})) \<and>
    acked @ pending_acks b = filter (\<lambda>i. i \<noteq> []) ids"
proof -
  let ?evs = "concat batches"
  let ?ids = "map event_id ?evs"
  let ?flags = "fst (see_all ?ids [])"
  note e = exchanges_eq [OF assms]
  have twice: "256 \<le> card (set (take (j - i - 1) (drop (i + 1) ?ids)) - {?ids ! i, []})"
    if a: "i < j" "j < length ?evs" "?ids ! i = ?ids ! j" "?ids ! i \<noteq> []" "?flags ! i" "?flags ! j" for i j
  proof -
    let ?us = "take i ?ids" and ?vs = "take (j - i - 1) (drop (i + 1) ?ids)" and ?ws = "drop (j + 1) ?ids"
    have l: "length ?us = i" "length ?us + 1 + length ?vs = j" using a(1,2) by auto
    have li: "i < length ?ids" using a(1,2) by simp
    have "?ids = ?us @ ?ids ! i # drop (i + 1) ?ids" by (rule id_take_nth_drop [OF li, unfolded Suc_eq_plus1])
    also have "drop (i + 1) ?ids = ?vs @ drop (j - i - 1) (drop (i + 1) ?ids)" by (rule append_take_drop_id [symmetric])
    also have "drop (j - i - 1) (drop (i + 1) ?ids) = drop j ?ids" using a(1) by simp
    also have "drop j ?ids = ?ids ! i # ?ws"
      unfolding a(3) Suc_eq_plus1 [symmetric] using a(2) by (intro Cons_nth_drop_Suc [symmetric]) simp
    finally have split: "?ids = ?us @ ?ids ! i # ?vs @ ?ids ! i # ?ws" .
    have ok: "seen_ok []" by (simp add: seen_ok_def)
    show ?thesis by (rule dispatched_twice [OF ok split a(4)]) (use a(5,6) l in simp_all)
  qed
  show ?thesis
    unfolding Let_def
  proof (intro exI [of _ ?flags] conjI allI impI)
    show "length ?flags = length ?evs" by simp
    show "dispatched = map fst (filter snd (zip ?evs ?flags))" using e by (simp add: chosen_def bus_default_def)
    show "acked @ pending_acks b = filter (\<lambda>i. i \<noteq> []) ?ids" using e by (simp add: bus_default_def)
    show "?flags ! i" if "i < length ?evs" "?ids ! i = [] \<or> ?ids ! i \<notin> set (take i ?ids)" for i
      by (rule see_all_first) (use that in simp_all)
    show "256 \<le> card (set (take (j - i - 1) (drop (i + 1) ?ids)) - {?ids ! i, []})"
      if "i < j \<and> j < length ?evs \<and> ?ids ! i = ?ids ! j \<and> ?ids ! i \<noteq> [] \<and> ?flags ! i \<and> ?flags ! j" for i j
      using that twice by blast
  qed
qed

lemma events_dispatched_once_per_window_witness:
  "exchanges [[ustr ''{\"id\":\"a\"}''], [ustr ''{\"id\":\"a\"}'']] bus_default =
      ([ustr ''{\"id\":\"a\"}''], [ustr ''a''], \<lparr>pending_acks = [ustr ''a''], seen_ids = [ustr ''a'']\<rparr>) \<and>
    [ustr ''a''] @ [ustr ''a''] = filter (\<lambda>i. i \<noteq> []) (map event_id (concat [[ustr ''{\"id\":\"a\"}''], [ustr ''{\"id\":\"a\"}'']]))"
proof -
  have x: "exchanges [[ustr ''{\"id\":\"a\"}''], [ustr ''{\"id\":\"a\"}'']] bus_default =
      ([ustr ''{\"id\":\"a\"}''], [ustr ''a''], \<lparr>pending_acks = [ustr ''a''], seen_ids = [ustr ''a'']\<rparr>)"
    by code_simp
  have "[ustr ''a''] @ pending_acks \<lparr>pending_acks = [ustr ''a''], seen_ids = [ustr ''a'']\<rparr> =
      filter (\<lambda>i. i \<noteq> []) (map event_id (concat [[ustr ''{\"id\":\"a\"}''], [ustr ''{\"id\":\"a\"}'']]))"
    using events_dispatched_once_per_window [OF x] unfolding Let_def by blast
  with x show ?thesis by (simp only: event_bus.select_convs simp_thms)
qed

end
