(* ===== verification/EventFields.thy ===== *)
theory EventFields
  imports EventSpec
begin

text \<open>
  The batches of events that a server sends are taken apart exactly, and what the agent does about an
  event is licensed by its configuration.
\<close>

section \<open>Taking a batch apart\<close>

lemma ascii_ws_simps [simp]: "\<not> ascii_ws 0x7B" "\<not> ascii_ws 0x7D" "\<not> ascii_ws 0x2C"
  by (simp_all add: ascii_ws_def)

lemma object_text_ends: "hd (object_text kvs) = 0x7B" "last (object_text kvs) = 0x7D" "object_text kvs \<noteq> []"
  by (simp_all add: object_text_def)

lemma items_text_ends:
  assumes "evs \<noteq> []"
  shows "items_text (map object_text evs) \<noteq> []" "hd (items_text (map object_text evs)) = 0x7B"
    "last (items_text (map object_text evs)) = 0x7D"
proof -
  have "items_text (map object_text evs) \<noteq> [] \<and> hd (items_text (map object_text evs)) = 0x7B \<and>
      last (items_text (map object_text evs)) = 0x7D"
    using assms
  proof (induction evs rule: induct_list012)
    case (2 e)
    then show ?case by (simp add: object_text_ends)
  next
    case (3 e e' evs)
    then show ?case by (simp add: object_text_ends)
  qed simp
  then show "items_text (map object_text evs) \<noteq> []" "hd (items_text (map object_text evs)) = 0x7B"
    "last (items_text (map object_text evs)) = 0x7D" by simp_all
qed

lemma trim_ascii_plain: "\<lbrakk>\<not> ascii_ws (hd s); \<not> ascii_ws (last s)\<rbrakk> \<Longrightarrow> trim_ascii s = s"
  unfolding trim_ascii_def by (rule trim_by_plain) simp

lemma skip_object:
  assumes "members_ok 0 kvs"
  shows "skip_value (object_text kvs @ rest) 0 = length (object_text kvs)"
  using json_value_in_context [OF object_end [OF assms], of rest 0 "[]"]
  by (simp add: skip_value_def bracketed_def object_text_ends)

lemma append_same_split: "take (length a) (a @ b) = a" "drop (length a) (a @ b) = b"
  by simp_all

lemma event_members_step:
  assumes "valid_text s" and "as_bytes s = object_text kvs" and "members_ok 0 kvs"
  shows "event_members (object_text kvs @ rest) =
    (if trim_ascii rest = [] then Ok [s]
     else case strip_prefix_opt [0x2C] (trim_ascii rest) of
            None \<Rightarrow> Err ''invalid event array separator''
          | Some tail \<Rightarrow> and_then (event_members (trim_ascii tail)) (\<lambda>es. Ok (s # es)))"
proof -
  let ?o = "object_text kvs"
  have "from_utf8 ?o = Some s" using from_utf8_as_bytes [OF assms(1)] assms(2) by simp
  moreover have "take 1 ?o = [0x7B]" by (simp add: object_text_def)
  moreover have "strip_suffix_opt [0x7D] ?o \<noteq> None" by (simp add: object_text_def strip_suffix_eq_Some)
  moreover have "?o @ rest \<noteq> []" by (simp add: object_text_ends)
  ultimately show ?thesis
    by (subst event_members.simps)
      (simp only: Let_def skip_object [OF assms(3)] append_same_split if_False simp_thms option.case)
qed

lemma event_members_objects:
  "list_all2 (\<lambda>s kvs. valid_text s \<and> as_bytes s = object_text kvs \<and> members_ok 0 kvs) texts evs \<Longrightarrow>
    event_members (items_text (map object_text evs)) = Ok texts"
proof (induction evs arbitrary: texts rule: induct_list012)
  case 1
  then show ?case by (simp add: event_members.simps)
next
  case (2 kvs)
  then obtain s where s: "texts = [s]" "valid_text s" "as_bytes s = object_text kvs" "members_ok 0 kvs"
    by (cases texts) auto
  have "trim_ascii [] = []" by (simp add: trim_ascii_def trim_by_def trim_start_by_def trim_end_by_def)
  then show ?case using event_members_step [OF s(2-4), of "[]"] by (simp add: s(1))
next
  case (3 kvs kvs' evs)
  then obtain s texts' where s: "texts = s # texts'" "valid_text s" "as_bytes s = object_text kvs" "members_ok 0 kvs"
    and rest: "list_all2 (\<lambda>s kvs. valid_text s \<and> as_bytes s = object_text kvs \<and> members_ok 0 kvs) texts' (kvs' # evs)"
    by (cases texts) auto
  let ?more = "items_text (map object_text (kvs' # evs))"
  have m: "items_text (map object_text (kvs # kvs' # evs)) = object_text kvs @ 0x2C # ?more" by simp
  note ends = items_text_ends [of "kvs' # evs", OF list.distinct(2)]
  have t1: "trim_ascii (0x2C # ?more) = 0x2C # ?more"
    by (rule trim_ascii_plain) (use ends in simp_all)
  have t2: "trim_ascii ?more = ?more" by (rule trim_ascii_plain) (use ends in simp_all)
  have t3: "strip_prefix_opt [0x2C] (0x2C # ?more) = Some ?more" by (simp add: strip_prefix_eq_Some)
  have "event_members ?more = Ok texts'" using "3.IH"(2) [OF rest] by simp
  then show ?case
    unfolding m s(1) event_members_step [OF s(2-4)] t1 t3 using t2 by (simp del: items_text.simps list.map)
qed

text \<open>
  C15: A batch is taken apart exactly: when a response is an object with a \<open>result\<close> that holds an array
  \<open>events\<close> of objects, the agent obtains the texts of exactly these objects in order, whatever
  brackets, commas and braces their strings contain, and hands them to the bus.
\<close>

theorem event_batch_extracted:
  assumes "as_bytes body = object_text kvs" and "members_ok 0 kvs"
    and "lookup_member kvs (ustr ''result'') = Some (object_text rs)" and "members_ok 0 rs"
    and "lookup_member rs (ustr ''events'') = Some (array_text (map object_text evs))"
    and "list_all2 (\<lambda>s e. list_all scalar_value s \<and> as_bytes s = object_text e \<and> members_ok 0 e) texts evs"
    and "list_all scalar_value body"
  shows "extract_event_objects body = Ok texts \<and>
    process_v2_response_events (as_bytes body) b = intake texts b"
proof -
  have evs: "list_all2 (\<lambda>s e. valid_text s \<and> as_bytes s = object_text e \<and> members_ok 0 e) texts evs"
    using assms(6) by (simp add: valid_text_def [abs_def])
  have "trim_ascii (items_text (map object_text evs)) = items_text (map object_text evs)"
  proof (cases evs)
    case Nil
    then show ?thesis by (simp add: trim_ascii_def trim_by_def trim_start_by_def trim_end_by_def)
  next
    case (Cons e es)
    then have "evs \<noteq> []" by simp
    from items_text_ends [OF this] show ?thesis by (intro trim_ascii_plain) simp_all
  qed
  moreover have "strip_prefix_opt [0x5B] (array_text vs) = Some (items_text vs @ [0x5D])"
    "strip_suffix_opt [0x5D] (items_text vs @ [0x5D]) = Some (items_text vs)" for vs
    by (simp_all add: array_text_def strip_prefix_eq_Some strip_suffix_eq_Some)
  moreover have "object_field (as_bytes body) (ustr ''result'') = Some (object_text rs)"
    unfolding assms(1) object_field_text(2) [OF assms(2)] by (rule assms(3))
  moreover have "object_field (object_text rs) (ustr ''events'') = Some (array_text (map object_text evs))"
    unfolding object_field_text(2) [OF assms(4)] by (rule assms(5))
  ultimately have e: "extract_event_objects body = Ok texts"
    using event_members_objects [OF evs] by (simp add: extract_event_objects_def)
  then show ?thesis
    using assms(7) by (simp add: process_v2_response_events_def from_utf8_as_bytes valid_text_def)
qed

lemma event_batch_extracted_witness:
  "extract_event_objects (ustr ''{\"result\":{\"events\":[{\"id\":\"] } ,\"}]}}'') = Ok [ustr ''{\"id\":\"] } ,\"}'']"
proof -
  let ?e = "[(quoted ''id'', json_string (ustr ''] } ,''))]"
  let ?rs = "[(quoted ''events'', array_text (map object_text [?e]))]"
  let ?kvs = "[(quoted ''result'', object_text ?rs)]"
  have q: "decode_json_string (quoted ''id'') = Some (ustr ''id'')" "decode_json_string (quoted ''events'') = Some (ustr ''events'')"
    "decode_json_string (quoted ''result'') = Some (ustr ''result'')" by (rule decode_quoted, code_simp)+
  have e: "members_ok d ?e" if "d < 32" for d
    using that q by (simp add: members_ok_def json_value_string)
  have rs: "members_ok d ?rs" if "d < 30" for d
  proof -
    have "json_value (Suc (Suc d)) (object_text ?e)" using that by (intro object_end e) simp
    then have "json_value (Suc d) (array_text (map object_text [?e]))" using that by (intro json_value_array) simp_all
    then show ?thesis using that q by (simp add: members_ok_def)
  qed
  have kvs: "members_ok 0 ?kvs" using object_end [OF rs [of 1]] q by (simp add: members_ok_def)
  have l: "lookup_member ?kvs (ustr ''result'') = Some (object_text ?rs)"
    "lookup_member ?rs (ustr ''events'') = Some (array_text (map object_text [?e]))"
    using q by (simp_all add: key_of_def)
  have b: "as_bytes (ustr ''{\"result\":{\"events\":[{\"id\":\"] } ,\"}]}}'') = object_text ?kvs"
    "as_bytes (ustr ''{\"id\":\"] } ,\"}'') = object_text ?e" by code_simp+
  have s: "list_all scalar_value (ustr ''{\"result\":{\"events\":[{\"id\":\"] } ,\"}]}}'')"
    "list_all scalar_value (ustr ''{\"id\":\"] } ,\"}'')" by code_simp+
  have all: "list_all2 (\<lambda>s e. list_all scalar_value s \<and> as_bytes s = object_text e \<and> members_ok 0 e)
      [ustr ''{\"id\":\"] } ,\"}''] [?e]"
    using b(2) s(2) e [of 0] by simp
  from event_batch_extracted [OF b(1) kvs l(1) rs [of 0] l(2) all s(1)] show ?thesis by simp
qed

section \<open>Licence\<close>

lemma valid_of_field: "object_field b k = Some v \<Longrightarrow> is_valid_object b"
  by (auto simp: object_field_def is_valid_object_def Let_def split: if_splits option.splits)

lemma valid_of_method: "extract_json_method b = Some m \<Longrightarrow> is_valid_object b"
  by (auto simp: extract_json_method_def extract_json_string_def lookup_field_def split: option.splits dest: valid_of_field)

lemma methods_distinct:
  "method_agent_exec \<noteq> []" "method_agent_ping \<noteq> method_agent_exec" "method_agent_terminal \<noteq> method_agent_exec"
  "method_agent_startup_config \<noteq> method_agent_exec"
  by (simp_all add: method_agent_exec_def method_agent_ping_def method_agent_terminal_def
      method_agent_startup_config_def) (simp add: ustr_def)

definition example_world :: world where
  "example_world =
    \<lparr>w_now = 0, w_run = (\<lambda>_. Inl (ustr ''none'')), w_output_limit = 100,
     w_probes = \<lparr>icmp_probe = (\<lambda>_. 1), tcp_probe = (\<lambda>_. 1), http_probe = (\<lambda>_. 1)\<rparr>,
     w_stamps = \<lparr>bs_version = ustr ''1.0'', bs_ping = True, bs_gpu_detection = False, bs_terminal = True,
       bs_self_update = True\<rparr>,
     w_float = \<lparr>read_f64 = (\<lambda>_. None), show_f64 = (\<lambda>_. ustr ''3'')\<rparr>\<rparr>"

text \<open>
  C14: Whatever the server sends, the agent does only what its configuration licenses: a command runs
  only without \<open>disable_exec\<close>, and it is the command of a valid \<open>agent.exec\<close> message with a task id;
  a terminal is dialled only on an agent that is not HTTP-only while a slot is free, and with
  \<open>disable_web_ssh\<close> it never reaches a shell; the version is switched only when neither remote
  control nor automatic updates are disabled; and everything posted goes to the configured
  endpoint.
\<close>

theorem effects_licensed:
  assumes "dispatch_server_message w c prev ws bs = Ok effs"
  shows "(\<forall>cmd. RunCommand cmd \<in> set effs \<longrightarrow> \<not> cf_disable_exec c \<and> is_valid_object bs \<and>
      extract_json_method bs = Some (ustr ''agent.exec'') \<and> extract_json_string bs (ustr ''task_id'') \<notin> {None, Some []} \<and>
      (\<exists>s. extract_json_string bs (ustr ''command'') = Some s \<and> cmd = as_bytes s \<and> trim s \<noteq> [])) \<and>
    (\<forall>path refuse. OpenTerminal path refuse \<in> set effs \<longrightarrow> \<not> cf_http_only c \<and> prev < 2 \<and>
      (cf_disable_web_ssh c \<longrightarrow> (\<forall>dialled. case establish_terminal_session dialled refuse of Shell _ \<Rightarrow> False | _ \<Rightarrow> True))) \<and>
    (\<forall>v. SwitchVersion v \<in> set effs \<longrightarrow> \<not> cf_disable_web_ssh c \<and> \<not> cf_disable_auto_update c) \<and>
    (\<forall>url body enc. Post url body enc \<in> set effs \<longrightarrow> url = build_http_url c)"
proof -
  let ?str = "\<lambda>k. case extract_json_string bs (ustr k) of Some s \<Rightarrow> s | None \<Rightarrow> []"
  let ?meth = "case extract_json_method bs of Some m \<Rightarrow> m | None \<Rightarrow> []"
  have trim_Nil: "trim [] = []" by (simp add: trim_def trim_by_def trim_start_by_def trim_end_by_def)
  consider (none) "effs = []"
    | (exec) "?meth = method_agent_exec" "effs = handle_exec_task w c (?str ''task_id'') (?str ''command'')"
    | (answer) payload where "effs = [SendText payload] \<or> effs = [Post (build_http_url c) payload None]"
    | (terminal) "effs = handle_terminal_request w c prev (?str ''request_id'')"
    | (startup) "handle_startup_config_request w c (?str ''request_id'') = Ok effs"
    | (control) "effs = [FileControl bs]"
    | (switching) "effs = handle_switch_version w c (?str ''version'')"
    using assms unfolding dispatch_server_message_def
    by (fastforce simp: Let_def split: if_splits option.splits prod.splits)
  then show ?thesis
  proof cases
    case exec
    have m: "extract_json_method bs = Some (ustr ''agent.exec'')"
      using exec(1) methods_distinct(1) by (auto simp: method_agent_exec_def split: option.splits)
    show ?thesis
      using exec(2) m valid_of_method [OF m] trim_Nil
      by (auto simp: handle_exec_task_def execute_exec_def Let_def split: if_splits option.splits)
  next
    case terminal
    then show ?thesis
      by (auto simp: handle_terminal_request_def establish_terminal_session_def max_terminal_sessions_def
          split: if_splits outcome.splits)
  next
    case startup
    then show ?thesis
      by (auto simp: handle_startup_config_request_def Let_def outcome_simps split: if_splits)
  next
    case switching
    then show ?thesis by (auto simp: handle_switch_version_def split: if_splits)
  qed auto
qed

lemma effects_licensed_witness:
  "dispatch_server_message example_world config_default 1 True
      (object_text [(quoted ''method'', json_string method_agent_terminal), (quoted ''request_id'', json_string (ustr ''7''))]) =
     Ok [OpenTerminal (ustr ''/api/clients/terminal?id=7'') True] \<and>
   (\<forall>ws. establish_terminal_session (Ok ws) True \<noteq> Shell ws)"
proof -
  let ?kvs = "[(quoted ''method'', json_string method_agent_terminal), (quoted ''request_id'', json_string (ustr ''7''))]"
  let ?m = "object_text ?kvs"
  have x: "dispatch_server_message example_world config_default 1 True ?m =
      Ok [OpenTerminal (ustr ''/api/clients/terminal?id=7'') True]"
  proof -
    have q: "decode_json_string (quoted ''method'') = Some (ustr ''method'')"
      "decode_json_string (quoted ''request_id'') = Some (ustr ''request_id'')" by (rule decode_quoted, code_simp)+
    have n: "ustr ''method'' \<noteq> ustr ''request_id''" by code_simp
    have v: "valid_text method_agent_terminal" "valid_text (ustr ''7'')" by code_simp+
    have kvs: "members_ok 0 ?kvs" using q n v by (simp add: members_ok_def json_value_string key_of_def)
    have "from_utf8 ?m \<noteq> None" by code_simp
    moreover have "extract_json_method ?m = Some method_agent_terminal"
      unfolding extract_json_method_def extract_json_string_def lookup_field_def object_field_text(2) [OF kvs]
      using q decode_written [OF v(1)] by (simp add: key_of_def)
    moreover have "extract_json_string ?m (ustr ''request_id'') = Some (ustr ''7'')"
      unfolding extract_json_string_def lookup_field_def object_field_text(2) [OF kvs]
      using q n decode_written [OF v(2)] by (simp add: key_of_def)
    moreover have "method_agent_terminal \<noteq> method_agent_exec" "method_agent_terminal \<noteq> method_agent_ping" by code_simp+
    moreover have "url_encode (ustr ''7'') = ustr ''7''" by code_simp
    moreover have "ustr ''/api/clients/terminal?id='' @ ustr ''7'' = ustr ''/api/clients/terminal?id=7''" by (simp add: ustr_def)
    ultimately show ?thesis
      by (simp add: dispatch_server_message_def handle_terminal_request_def example_world_def config_default_def
          max_terminal_sessions_def Let_def ustr_def [of "''7''"])
  qed
  have "cf_disable_web_ssh config_default" by (simp add: config_default_def)
  then have "establish_terminal_session (Ok ws) True \<noteq> Shell ws" for ws
    using effects_licensed [OF x] by (auto split: session_end.splits)
  with x show ?thesis by blast
qed

end
