(* ===== verification/Session.thy ===== *)
theory Session
  imports EventFields Backoff
begin

text \<open>
  The reconnection loop of \<open>server/reconnection.rs\<close>: sessions over WebSocket or HTTP, their ticks,
  and the outer loop that connects, counts failures and waits.  A clock reading is a number of
  nanoseconds.  What the outside does in a tick (clock readings, the report, what the socket
  delivers, whether writes succeed, the server's answer) is the input of the tick.
\<close>

section \<open>Ticks\<close>

definition seconds :: "nat \<Rightarrow> duration" where "seconds n = n * 10 ^ 9"

definition min_healthy_session :: duration where "min_healthy_session = seconds 30"
definition reprobe_interval :: duration where "reprobe_interval = seconds 600"
definition heartbeat_interval :: duration where "heartbeat_interval = seconds 30"
definition control_poll_interval :: duration where "control_poll_interval = seconds 1"

text \<open>A WebSocket with what its socket delivers and is not read yet.\<close>

datatype connection = ConnWs ws_connection "read_event list" | ConnHttp

record tick_in =
  ti_reprobe :: nat
  ti_report_check :: nat
  ti_report :: bytes
  ti_report_sent :: "werr option"
  ti_before :: "event_bus \<Rightarrow> event_bus"
  ti_post :: "(http_response, http_err) outcome"
  ti_between :: "event_bus \<Rightarrow> event_bus"
  ti_report_done :: nat
  ti_arrives :: "read_event list"
  ti_terminals :: nat
  ti_pong_sent :: "werr option"
  ti_beat_check :: nat
  ti_ping_sent :: "werr option"
  ti_beat_done :: nat
  ti_info_check :: nat
  ti_info_done :: nat
  ti_sleep :: nat
  ti_world :: world

text \<open>\<open>ti_before\<close> and \<open>ti_between\<close> are what the pull thread does to the shared bus meanwhile.\<close>

record tick_state =
  ts_conn :: connection
  ts_heartbeat :: nat
  ts_next_report :: nat
  ts_info :: nat
  ts_pull :: bool
  ts_bus :: event_bus

datatype session_effect =
    Dialled bool
  | ReportSent bytes
  | ReportPosted ustring bytes "ustring option"
  | PullStarted
  | Handled effect
  | PongSent bytes
  | PingSent
  | BasicInfo
  | Slept duration

type_synonym tick_step = "tick_state \<Rightarrow> session_effect list \<times> tick_state \<times> (unit, tick_err) outcome"

definition then_step :: "tick_step \<Rightarrow> tick_step \<Rightarrow> tick_step" where
  "then_step f g ts =
    (case f ts of
       (es, ts1, Ok _) \<Rightarrow> (case g ts1 of (es', ts2, r) \<Rightarrow> (es @ es', ts2, r))
     | r \<Rightarrow> r)"

definition sent :: "werr option \<Rightarrow> (unit, tick_err) outcome" where
  "sent e = (case e of None \<Rightarrow> Ok () | Some e \<Rightarrow> Err (TickWs e))"

definition reprobe_due :: "protocol_fsm \<Rightarrow> duration \<Rightarrow> bool" where
  "reprobe_due f elapsed \<longleftrightarrow> fsm_mode f \<noteq> fsm_initial_mode f \<and> elapsed \<ge> reprobe_interval"

text \<open>Dispatching a batch.\<close>

fun dispatch_events :: "world \<Rightarrow> config \<Rightarrow> nat \<Rightarrow> ustring list \<Rightarrow> (session_effect list, unit) outcome" where
  "dispatch_events w c prev [] = Ok []"
| "dispatch_events w c prev (ev # evs) =
    and_then (dispatch_server_message w c prev False (as_bytes ev)) (\<lambda>effs.
    and_then (dispatch_events w c prev evs) (\<lambda>more_effs. Ok (map Handled effs @ more_effs)))"

definition post_report :: "config \<Rightarrow> tick_in \<Rightarrow> tick_step" where
  "post_report c ti ts =
    (let (acks, b) = drain_acks (ti_before ti (ts_bus ts));
         req = new_request (ustr ''report'') method_agent_report (wrap_report_params (ti_report ti) acks);
         ts1 = ts\<lparr>ts_bus := b\<rparr>
     in case gzip_if_enabled req c of
          Ok (body, encoding) \<Rightarrow>
            (let posted = ReportPosted (build_http_url c) body encoding
             in case ti_post ti of
                  Err e \<Rightarrow> ([posted], ts1, Err (TickHttp e))
                | Panic \<Rightarrow> ([posted], ts1, Panic)
                | Ok resp \<Rightarrow>
                    if hr_status resp \<noteq> 200
                    then ([posted], ts1, Err (TickOther (ustr ''v2 report HTTP '' @ dec (hr_status resp))))
                    else (case validate_response (hr_body resp) of
                        Err e \<Rightarrow> ([posted], ts1, Err (TickOther (ustr e)))
                      | Panic \<Rightarrow> ([posted], ts1, Panic)
                      | Ok _ \<Rightarrow>
                          (let started = (if ts_pull ts then [] else [PullStarted]);
                               (fresh, b') = process_v2_response_events (hr_body resp) (ti_between ti b);
                               ts2 = ts1\<lparr>ts_pull := True, ts_bus := b'\<rparr>
                           in case dispatch_events (ti_world ti) c (ti_terminals ti) fresh of
                                Ok effs \<Rightarrow> (posted # started @ effs, ts2, Ok ())
                              | _ \<Rightarrow> (posted # started, ts2, Panic))))
        | _ \<Rightarrow> ([], ts1, Panic))"

definition report_step :: "config \<Rightarrow> duration \<Rightarrow> tick_in \<Rightarrow> tick_step" where
  "report_step c report_interval ti ts =
    (if ts_next_report ts > ti_report_check ti then ([], ts, Ok ())
     else then_step
       (\<lambda>ts. case ts_conn ts of
          ConnWs _ _ \<Rightarrow>
            ([ReportSent (new_notification method_agent_report (wrap_report_params (ti_report ti) []))], ts,
             sent (ti_report_sent ti))
        | ConnHttp \<Rightarrow> post_report c ti ts)
       (\<lambda>ts. ([], ts\<lparr>ts_next_report := ti_report_done ti + report_interval\<rparr>, Ok ())) ts)"

definition on_message :: "config \<Rightarrow> tick_in \<Rightarrow> (ws_message option, ws_err) outcome \<Rightarrow> tick_step" where
  "on_message c ti received ts =
    (case received of
       Ok (Some (TextMsg payload)) \<Rightarrow>
         if response_has_error payload then ([], ts, Err (TickOther (ustr ''server returned a JSON-RPC error'')))
         else (case dispatch_server_message (ti_world ti) c (ti_terminals ti) True payload of
                 Ok effs \<Rightarrow> (map Handled effs, ts, Ok ())
               | _ \<Rightarrow> ([], ts, Panic))
     | Ok (Some (PingMsg payload)) \<Rightarrow> ([PongSent payload], ts, sent (ti_pong_sent ti))
     | Ok (Some CloseMsg) \<Rightarrow> ([], ts, Err (TickOther (ustr ''connection closed by server'')))
     | Ok None \<Rightarrow> ([], ts, Err (TickOther (ustr ''connection closed by server'')))
     | Ok (Some _) \<Rightarrow> ([], ts, Ok ())
     | Err e \<Rightarrow> ([], ts, if is_timeout (werr_of e) then Ok () else Err (TickWs (werr_of e)))
     | Panic \<Rightarrow> ([], ts, Panic))"

definition read_step :: "config \<Rightarrow> tick_in \<Rightarrow> tick_step" where
  "read_step c ti ts =
    (case ts_conn ts of
       ConnHttp \<Rightarrow> ([], ts, Ok ())
     | ConnWs ws es \<Rightarrow>
         (let (received, rd, es') = read_message (wc_compression ws) (wc_reader ws) (es @ ti_arrives ti)
          in on_message c ti received (ts\<lparr>ts_conn := ConnWs (ws\<lparr>wc_reader := rd\<rparr>) es'\<rparr>)))"

definition heartbeat_step :: "tick_in \<Rightarrow> tick_step" where
  "heartbeat_step ti ts =
    (if ti_beat_check ti - ts_heartbeat ts < heartbeat_interval then ([], ts, Ok ())
     else then_step
       (\<lambda>ts. case ts_conn ts of ConnWs _ _ \<Rightarrow> ([PingSent], ts, sent (ti_ping_sent ti)) | ConnHttp \<Rightarrow> ([], ts, Ok ()))
       (\<lambda>ts. ([], ts\<lparr>ts_heartbeat := ti_beat_done ti\<rparr>, Ok ())) ts)"

definition info_interval :: "config \<Rightarrow> duration" where
  "info_interval c = seconds (min (unat (cf_info_report_interval c) * 60) (2 ^ 64 - 1))"

definition info_step :: "config \<Rightarrow> tick_in \<Rightarrow> tick_step" where
  "info_step c ti ts =
    (if ti_info_check ti - ts_info ts < info_interval c then ([], ts, Ok ())
     else ([BasicInfo], ts\<lparr>ts_info := ti_info_done ti\<rparr>, Ok ()))"

definition control_poll_delay :: "duration \<Rightarrow> duration \<Rightarrow> duration" where
  "control_poll_delay until_report until_heartbeat = min (min control_poll_interval until_report) until_heartbeat"

definition sleep_step :: "tick_in \<Rightarrow> tick_step" where
  "sleep_step ti ts =
    ([Slept (control_poll_delay (ts_next_report ts - ti_sleep ti) (heartbeat_interval - (ti_sleep ti - ts_heartbeat ts)))],
     ts, Ok ())"

definition tick :: "config \<Rightarrow> duration \<Rightarrow> tick_in \<Rightarrow> tick_step" where
  "tick c report_interval ti =
    then_step (report_step c report_interval ti) (then_step (read_step c ti)
      (then_step (heartbeat_step ti) (then_step (info_step c ti) (sleep_step ti))))"

text \<open>\<open>None\<close>: the session is still running when the inputs end.\<close>

fun run_ticks ::
  "config \<Rightarrow> protocol_fsm \<Rightarrow> nat \<Rightarrow> duration \<Rightarrow> tick_in list \<Rightarrow> tick_state \<Rightarrow>
    session_effect list \<times> event_bus \<times> (unit, tick_err) outcome option" where
  "run_ticks c f last_reprobe report_interval [] ts = ([], ts_bus ts, None)"
| "run_ticks c f last_reprobe report_interval (ti # tis) ts =
    (if reprobe_due f (ti_reprobe ti - last_reprobe) then ([], ts_bus ts, Some (Ok ()))
     else case tick c report_interval ti ts of
            (es, ts1, Ok _) \<Rightarrow>
              (let (es', b, r) = run_ticks c f last_reprobe report_interval tis ts1 in (es @ es', b, r))
          | (es, ts1, r) \<Rightarrow> (es, ts_bus ts1, Some r))"

section \<open>The outer loop\<close>

record agent =
  ag_cfg :: config
  ag_fsm :: protocol_fsm
  ag_backoff :: backoff
  ag_reprobe :: nat
  ag_bus :: event_bus

definition agent_init :: "config \<Rightarrow> nat \<Rightarrow> agent" where
  "agent_init c now =
    \<lparr>ag_cfg = c, ag_fsm = fsm_new (cf_http_only c), ag_backoff = backoff_new (cf_max_retries c) (cf_reconnect_interval c),
     ag_reprobe = now, ag_bus = bus_default\<rparr>"

record session_in =
  si_check :: nat
  si_reprobed :: nat
  si_net :: ws_network
  si_random :: "bytes option"
  si_version :: ustring
  si_start :: nat
  si_tick_start :: nat
  si_interval :: duration
  si_ticks :: "tick_in list"
  si_end :: nat

text \<open>\<open>si_interval\<close> is \<open>Duration::from_secs_f64\<close> of the configured interval.\<close>

definition connect_with_fsm :: "session_in \<Rightarrow> agent \<Rightarrow> session_effect list \<times> (connection, werr) outcome" where
  "connect_with_fsm si a =
    (case fsm_mode (ag_fsm a) of
       WsV2 \<Rightarrow>
         (let c = ag_cfg a; compress = (\<not> cf_disable_compression c)
          in ([Dialled compress],
              and_then (ws_connect (si_net si) (si_random si) (si_version si) (cf_endpoint c) rpc_path (cf_token c) [] compress)
                (\<lambda>ws. Ok (ConnWs ws [Arrived (fst (wc_stream ws))]))))
     | HttpV2 \<Rightarrow> ([], Ok ConnHttp))"

definition tick_state_init :: "session_in \<Rightarrow> agent \<Rightarrow> connection \<Rightarrow> tick_state" where
  "tick_state_init si a conn =
    \<lparr>ts_conn = conn, ts_heartbeat = si_tick_start si, ts_next_report = si_tick_start si, ts_info = si_tick_start si,
     ts_pull = False, ts_bus = ag_bus a\<rparr>"

datatype iteration_end = Waited duration | AtOnce | StillRunning | Crashed

text \<open>Waiting after a failure.\<close>

definition wait_step :: "agent \<Rightarrow> agent \<times> iteration_end" where
  "wait_step a =
    (case next_delay (ag_backoff a) :: (duration \<times> backoff, unit) outcome of
       Ok (d, b) \<Rightarrow> (a\<lparr>ag_backoff := b\<rparr>, Waited d)
     | _ \<Rightarrow> (a, Crashed))"

definition reprobe_step :: "session_in \<Rightarrow> agent \<Rightarrow> agent" where
  "reprobe_step si a =
    (if reprobe_due (ag_fsm a) (si_check si - ag_reprobe a)
     then a\<lparr>ag_fsm := on_reconnect (ag_fsm a), ag_reprobe := si_reprobed si\<rparr> else a)"

definition after_session :: "session_in \<Rightarrow> agent \<Rightarrow> (unit, tick_err) outcome \<Rightarrow> agent \<times> iteration_end" where
  "after_session si a result =
    (let a1 = (if si_end si - si_start si \<ge> min_healthy_session
               then a\<lparr>ag_fsm := on_success (ag_fsm a), ag_backoff := backoff_reset (ag_backoff a)\<rparr> else a)
     in case result of
          Ok _ \<Rightarrow> (a1, AtOnce)
        | Panic \<Rightarrow> (a1, Crashed)
        | Err e \<Rightarrow>
            (let a2 = (if is_deflate_failure e \<and> \<not> cf_disable_compression (ag_cfg a1)
                       then a1\<lparr>ag_cfg := (ag_cfg a1)\<lparr>cf_disable_compression := True\<rparr>\<rparr> else a1)
             in wait_step (a2\<lparr>ag_fsm := snd (on_failure (classify_tick_failure e) (ag_fsm a2))\<rparr>)))"

definition session_step :: "session_in \<Rightarrow> agent \<Rightarrow> session_effect list \<times> agent \<times> iteration_end" where
  "session_step si a0 =
    (let a = reprobe_step si a0
     in case connect_with_fsm si a of
          (es, Err e) \<Rightarrow>
            (es, wait_step (a\<lparr>ag_fsm := snd (on_failure (classify_ws_failure e) (ag_fsm a))\<rparr>))
        | (es, Panic) \<Rightarrow> (es, a, Crashed)
        | (es, Ok conn) \<Rightarrow>
            (let (es', b, result) = run_ticks (ag_cfg a) (ag_fsm a) (ag_reprobe a) (si_interval si) (si_ticks si)
                   (tick_state_init si a conn);
                 a1 = a\<lparr>ag_bus := b\<rparr>
             in (es @ BasicInfo # es',
                 case result of None \<Rightarrow> (a1, StillRunning) | Some r \<Rightarrow> after_session si a1 r)))"

text \<open>Any number of iterations, each after the one before has ended.\<close>

fun agent_loop :: "session_in list \<Rightarrow> agent \<Rightarrow> (session_effect list \<times> iteration_end) list \<times> agent" where
  "agent_loop [] a = ([], a)"
| "agent_loop (si # sis) a =
    (case session_step si a of
       (es, a1, stop) \<Rightarrow>
         if stop = StillRunning \<or> stop = Crashed then ([(es, stop)], a1)
         else (case agent_loop sis a1 of (log, a2) \<Rightarrow> ((es, stop) # log, a2)))"

end
