(* ===== verification/SessionSpec.thy ===== *)
theory SessionSpec
  imports Session
begin

text \<open>
  What the reconnection loop guarantees: its policies over any sequence of sessions, the return to
  WebSocket from the HTTP fallback, and the cadence inside a session.
\<close>

section \<open>Effects of a session\<close>

definition quiet :: "tick_step \<Rightarrow> bool" where
  "quiet f \<longleftrightarrow> (\<forall>ts z. Dialled z \<notin> set (fst (f ts)))"

lemma quietD: "quiet f \<Longrightarrow> Dialled z \<notin> set (fst (f ts))"
  by (simp add: quiet_def)

lemma quiet_then:
  assumes "quiet f" and "quiet g"
  shows "quiet (then_step f g)"
proof -
  have "Dialled z \<notin> set (fst (then_step f g ts))" for ts z
  proof -
    obtain es ts1 r where f: "f ts = (es, ts1, r)" by (metis prod_cases3)
    obtain es' ts2 r' where g: "g ts1 = (es', ts2, r')" by (metis prod_cases3)
    have "Dialled z \<notin> set es" "Dialled z \<notin> set es'"
      using quietD [OF assms(1), of z ts] quietD [OF assms(2), of z ts1] f g by simp_all
    then show ?thesis by (simp add: then_step_def f g split: outcome.split)
  qed
  then show ?thesis by (simp add: quiet_def)
qed

lemma dispatch_events_handled: "dispatch_events w c prev evs = Ok effs \<Longrightarrow> set effs \<subseteq> range Handled"
proof (induction evs arbitrary: effs)
  case (Cons ev evs)
  from Cons.prems obtain es1 es2 where "dispatch_events w c prev evs = Ok es2" "effs = map Handled es1 @ es2"
    by (auto simp: and_then_eq_Ok)
  with Cons.IH show ?case by auto
qed simp

lemma quiet_post: "quiet (post_report c ti)"
  unfolding quiet_def
proof (intro allI notI)
  fix ts z
  assume "Dialled z \<in> set (fst (post_report c ti ts))"
  then show False
    by (auto simp: post_report_def Let_def split: outcome.splits prod.splits if_splits dest!: dispatch_events_handled)
qed

lemma quiet_steps:
  "quiet (report_step c n ti)" "quiet (read_step c ti)" "quiet (heartbeat_step ti)" "quiet (info_step c ti)"
  "quiet (sleep_step ti)"
proof -
  have p: "Dialled z \<notin> set (fst (post_report c ti ts))" for z ts using quiet_post by (simp add: quiet_def)
  have c: "quiet (\<lambda>ts. case ts_conn ts of
          ConnWs _ _ \<Rightarrow> ([ReportSent s], ts, r) | ConnHttp \<Rightarrow> post_report c ti ts)" for s r
    using p by (auto simp: quiet_def split: connection.split)
  have u: "quiet (\<lambda>ts. ([], h ts, r))" for h r by (simp add: quiet_def)
  have "Dialled z \<notin> set (fst (report_step c n ti ts))" for z ts
    unfolding report_step_def using quiet_then [OF c u] by (simp add: quiet_def)
  then show "quiet (report_step c n ti)" by (simp add: quiet_def)
  have k: "quiet (\<lambda>ts. case ts_conn ts of ConnWs _ _ \<Rightarrow> ([PingSent], ts, r) | ConnHttp \<Rightarrow> ([], ts, Ok ()))" for r
    by (auto simp: quiet_def split: connection.split)
  have "Dialled z \<notin> set (fst (heartbeat_step ti ts))" for z ts
    unfolding heartbeat_step_def using quiet_then [OF k u] by (simp add: quiet_def)
  then show "quiet (heartbeat_step ti)" by (simp add: quiet_def)
  show "quiet (read_step c ti)"
    by (auto simp: quiet_def read_step_def on_message_def split: connection.split outcome.split option.split ws_message.split prod.split)
  show "quiet (info_step c ti)" "quiet (sleep_step ti)" by (simp_all add: quiet_def info_step_def sleep_step_def)
qed

lemma quiet_tick: "quiet (tick c n ti)"
  unfolding tick_def by (intro quiet_then quiet_steps)

lemma run_ticks_quiet: "Dialled z \<notin> set (fst (run_ticks c f l n tis ts))"
proof (induction tis arbitrary: ts)
  case (Cons ti tis)
  obtain es ts1 r where t: "tick c n ti ts = (es, ts1, r)" by (metis prod_cases3)
  have "Dialled z \<notin> set es" using quietD [OF quiet_tick, of z c n ti ts] t by simp
  then show ?case using Cons.IH [of ts1] t by (simp add: case_prod_beta Let_def split: outcome.split)
qed simp

section \<open>Policies over all sessions\<close>

text \<open>The configuration that the agent started with, up to compression, which it may only turn off.\<close>

definition cfg_kept :: "config \<Rightarrow> config \<Rightarrow> bool" where
  "cfg_kept c d \<longleftrightarrow> d = c \<or> d = c\<lparr>cf_disable_compression := True\<rparr>"

definition agent_ok :: "config \<Rightarrow> agent \<Rightarrow> bool" where
  "agent_ok c a \<longleftrightarrow>
    cfg_kept c (ag_cfg a) \<and> fsm_step\<^sup>*\<^sup>* (fsm_new (cf_http_only c)) (ag_fsm a) \<and>
    backoff_ok (ag_backoff a) \<and> backoff_cap (ag_backoff a) = from_secs (cf_reconnect_interval c)"

lemma agent_ok_init: "agent_ok c (agent_init c now)"
  by (simp add: agent_ok_def cfg_kept_def agent_init_def backoff_ok_new) (simp add: backoff_new_def)

lemma agent_ok_fsm: "\<lbrakk>agent_ok c a; fsm_step (ag_fsm a) f\<rbrakk> \<Longrightarrow> agent_ok c (a\<lparr>ag_fsm := f\<rparr>)"
  by (auto simp: agent_ok_def intro: rtranclp.rtrancl_into_rtrancl)

lemma agent_ok_other [simp]:
  "agent_ok c (a\<lparr>ag_reprobe := t\<rparr>) = agent_ok c a" "agent_ok c (a\<lparr>ag_bus := b\<rparr>) = agent_ok c a"
  by (simp_all add: agent_ok_def)

lemma agent_ok_reset: "agent_ok c a \<Longrightarrow> agent_ok c (a\<lparr>ag_backoff := backoff_reset (ag_backoff a)\<rparr>)"
  by (auto simp: agent_ok_def backoff_ok_reset) (simp add: backoff_reset_def)

lemma agent_ok_no_compression:
  "agent_ok c a \<Longrightarrow> agent_ok c (a\<lparr>ag_cfg := (ag_cfg a)\<lparr>cf_disable_compression := True\<rparr>\<rparr>)"
  by (auto simp: agent_ok_def cfg_kept_def)

lemma reprobe_step_ok: "agent_ok c a \<Longrightarrow> agent_ok c (reprobe_step si a)"
  by (auto simp: reprobe_step_def intro: agent_ok_fsm [OF _ fsm_step.reconnect])

lemma wait_step_ok:
  assumes "agent_ok c a" and "wait_step a = (a', stop)"
  shows "agent_ok c a' \<and> ag_cfg a' = ag_cfg a \<and> ag_fsm a' = ag_fsm a \<and> ag_reprobe a' = ag_reprobe a \<and>
    (\<exists>d. stop = Waited d \<and> d \<le> from_secs (cf_reconnect_interval c) \<and> min (seconds 1) (from_secs (cf_reconnect_interval c)) \<le> d)"
proof -
  have b: "backoff_ok (ag_backoff a)" "backoff_cap (ag_backoff a) = from_secs (cf_reconnect_interval c)"
    using assms(1) by (auto simp: agent_ok_def)
  let ?k = "min (unat (failures (ag_backoff a) + 1)) 31"
  have "(1::nat) \<le> 2 ^ ?k" by simp
  then have "seconds 1 \<le> 10 ^ 9 * 2 ^ ?k" unfolding seconds_def by (simp del: one_le_power)
  moreover note assms(2) [unfolded wait_step_def next_delay_eq [OF b(1)]]
  ultimately show ?thesis using assms(1) b by (auto simp: agent_ok_def backoff_ok_def)
qed

definition wait_bounded :: "config \<Rightarrow> iteration_end \<Rightarrow> bool" where
  "wait_bounded c stop \<longleftrightarrow>
    (\<forall>d. stop = Waited d \<longrightarrow>
      min (seconds 1) (from_secs (cf_reconnect_interval c)) \<le> d \<and> d \<le> from_secs (cf_reconnect_interval c))"

lemma after_session_ok:
  assumes "agent_ok c a" and "after_session si a r = (a', stop)"
  shows "agent_ok c a' \<and> ag_reprobe a' = ag_reprobe a \<and> wait_bounded c stop \<and> stop \<noteq> StillRunning \<and>
    (cf_disable_compression (ag_cfg a) \<longrightarrow> cf_disable_compression (ag_cfg a'))"
proof -
  define a1 where "a1 = (if si_end si - si_start si \<ge> min_healthy_session
               then a\<lparr>ag_fsm := on_success (ag_fsm a), ag_backoff := backoff_reset (ag_backoff a)\<rparr> else a)"
  have ok1: "agent_ok c a1"
    using agent_ok_reset [OF agent_ok_fsm [OF assms(1) fsm_step.success]] assms(1) by (simp add: a1_def)
  have same: "ag_reprobe a1 = ag_reprobe a" "ag_cfg a1 = ag_cfg a" by (simp_all add: a1_def)
  show ?thesis
  proof (cases r)
    case (Err e)
    define a2 where "a2 = (if is_deflate_failure e \<and> \<not> cf_disable_compression (ag_cfg a1)
                       then a1\<lparr>ag_cfg := (ag_cfg a1)\<lparr>cf_disable_compression := True\<rparr>\<rparr> else a1)"
    let ?a3 = "a2\<lparr>ag_fsm := snd (on_failure (classify_tick_failure e) (ag_fsm a2))\<rparr>"
    have "agent_ok c a2" using ok1 agent_ok_no_compression [OF ok1] by (simp add: a2_def)
    then have ok3: "agent_ok c ?a3" by (rule agent_ok_fsm [OF _ fsm_step.failure])
    have "wait_step ?a3 = (a', stop)"
      using assms(2) Err unfolding after_session_def a1_def a2_def by (simp add: Let_def)
    from wait_step_ok [OF ok3 this] same show ?thesis by (auto simp: wait_bounded_def a2_def)
  qed (use assms(2) ok1 same in \<open>auto simp: after_session_def a1_def Let_def wait_bounded_def\<close>)
qed

lemma fsm_http_only: "\<lbrakk>agent_ok c a; cf_http_only c\<rbrakk> \<Longrightarrow> fsm_mode (ag_fsm a) = HttpV2"
  using fsm_reachable_inv [of "cf_http_only c" "ag_fsm a"] by (auto simp: agent_ok_def fsm_inv_def)

lemma fsm_initial: "agent_ok c a \<Longrightarrow> fsm_initial_mode (ag_fsm a) = (if cf_http_only c then HttpV2 else WsV2)"
  using fsm_reachable_inv [of "cf_http_only c" "ag_fsm a"] by (auto simp: agent_ok_def)

lemma connect_dials:
  assumes "connect_with_fsm si a = (es, r)"
  shows "(if fsm_mode (ag_fsm a) = WsV2 then es = [Dialled (\<not> cf_disable_compression (ag_cfg a))] else es = [] \<and> r = Ok ConnHttp)"
  using assms by (auto simp: connect_with_fsm_def Let_def split: protocol_mode.splits)

lemma reprobe_step_cfg [simp]: "ag_cfg (reprobe_step si a) = ag_cfg a"
  by (simp add: reprobe_step_def)

text \<open>A session dials exactly when the machine, after the check of the re-probe, is on WebSocket.\<close>

lemma session_step_dials:
  "set (fst (session_step si a)) \<inter> range Dialled =
    (if fsm_mode (ag_fsm (reprobe_step si a)) = WsV2 then {Dialled (\<not> cf_disable_compression (ag_cfg a))} else {})"
proof -
  let ?a = "reprobe_step si a"
  obtain es r where r: "connect_with_fsm si ?a = (es, r)" by fastforce
  have "Dialled z \<notin> set (fst (run_ticks (ag_cfg ?a) (ag_fsm ?a) (ag_reprobe ?a) (si_interval si) (si_ticks si) ts))"
    for z ts by (rule run_ticks_quiet)
  then have "set (fst (session_step si a)) \<inter> range Dialled = set es \<inter> range Dialled"
    unfolding session_step_def Let_def r by (auto simp: case_prod_beta split: outcome.split option.split)
  with connect_dials [OF r] show ?thesis by (auto split: if_splits)
qed

lemma session_step_ok:
  assumes "agent_ok c a" and "session_step si a = (es, a', stop)"
  shows "agent_ok c a' \<and> wait_bounded c stop \<and> ag_reprobe a' = ag_reprobe (reprobe_step si a) \<and>
    (cf_disable_compression (ag_cfg a) \<longrightarrow> cf_disable_compression (ag_cfg a'))"
proof -
  let ?a = "reprobe_step si a"
  have ok: "agent_ok c ?a" by (rule reprobe_step_ok [OF assms(1)])
  obtain es1 r where r: "connect_with_fsm si ?a = (es1, r)" by fastforce
  show ?thesis
  proof (cases r)
    case (Ok conn)
    obtain es2 b res where t: "run_ticks (ag_cfg ?a) (ag_fsm ?a) (ag_reprobe ?a) (si_interval si) (si_ticks si)
        (tick_state_init si ?a conn) = (es2, b, res)" by (metis prod_cases3)
    have ok1: "agent_ok c (?a\<lparr>ag_bus := b\<rparr>)" using ok by simp
    show ?thesis
    proof (cases res)
      case None
      with assms(2) r Ok t ok1 show ?thesis by (auto simp: session_step_def Let_def wait_bounded_def)
    next
      case (Some x)
      then have "after_session si (?a\<lparr>ag_bus := b\<rparr>) x = (a', stop)"
        using assms(2) r Ok t by (simp add: session_step_def Let_def)
      from after_session_ok [OF ok1 this] show ?thesis by simp
    qed
  next
    case (Err e)
    let ?b = "?a\<lparr>ag_fsm := snd (on_failure (classify_ws_failure e) (ag_fsm ?a))\<rparr>"
    have "wait_step ?b = (a', stop)" using assms(2) r Err by (simp add: session_step_def Let_def)
    from wait_step_ok [OF agent_ok_fsm [OF ok fsm_step.failure] this] show ?thesis by (auto simp: wait_bounded_def)
  next
    case Panic
    with assms(2) r ok show ?thesis by (auto simp: session_step_def Let_def wait_bounded_def)
  qed
qed

lemma session_dials:
  assumes "agent_ok c a" and "session_step si a = (es, a', stop)" and "Dialled z \<in> set es"
  shows "\<not> cf_http_only c \<and> z = (\<not> cf_disable_compression (ag_cfg a))"
proof -
  have "Dialled z \<in> set (fst (session_step si a)) \<inter> range Dialled" using assms(2,3) by simp
  then have m: "fsm_mode (ag_fsm (reprobe_step si a)) = WsV2" "z = (\<not> cf_disable_compression (ag_cfg a))"
    unfolding session_step_dials by (auto split: if_splits)
  with fsm_http_only [OF reprobe_step_ok [OF assms(1)], of si] show ?thesis by auto
qed

lemma agent_loop_Cons:
  assumes "agent_loop (si # sis) a = (log, a')"
  obtains es a1 stop log1 where "session_step si a = (es, a1, stop)" "log = (es, stop) # log1"
    "log1 = [] \<and> a' = a1 \<or> agent_loop sis a1 = (log1, a')"
  using assms by (auto split: prod.splits if_splits)

lemma agent_loop_ok:
  "\<lbrakk>agent_ok c a; agent_loop sis a = (log, a')\<rbrakk> \<Longrightarrow>
    agent_ok c a' \<and>
    (\<forall>(es, stop)\<in>set log. wait_bounded c stop \<and> (\<forall>z. Dialled z \<in> set es \<longrightarrow> \<not> cf_http_only c) \<and>
      (cf_disable_compression (ag_cfg a) \<longrightarrow> Dialled True \<notin> set es)) \<and>
    (\<forall>j<length log. \<forall>i<j. Dialled False \<in> set (fst (log ! i)) \<longrightarrow> Dialled True \<notin> set (fst (log ! j)))"
proof (induction sis arbitrary: a log)
  case (Cons si sis)
  from Cons.prems(2) obtain es a1 stop log1 where s: "session_step si a = (es, a1, stop)" and log: "log = (es, stop) # log1"
    and rest: "log1 = [] \<and> a' = a1 \<or> agent_loop sis a1 = (log1, a')" by (rule agent_loop_Cons)
  note ok = session_step_ok [OF Cons.prems(1) s]
  note d = session_dials [OF Cons.prems(1) s]
  from rest show ?case
  proof
    assume "log1 = [] \<and> a' = a1"
    with ok d log show ?thesis by auto
  next
    assume r: "agent_loop sis a1 = (log1, a')"
    note ih = Cons.IH [OF conjunct1 [OF ok] r]
    have later: "Dialled True \<notin> set (fst (log1 ! j))" if "Dialled False \<in> set es" "j < length log1" for j
    proof -
      have "cf_disable_compression (ag_cfg a1)" using d [OF that(1)] ok by simp
      with ih nth_mem [OF that(2)] show ?thesis by (fastforce simp: case_prod_beta)
    qed
    have "\<forall>j<length log. \<forall>i<j. Dialled False \<in> set (fst (log ! i)) \<longrightarrow> Dialled True \<notin> set (fst (log ! j))"
    proof (intro allI impI)
      fix j i assume a: "j < length log" "i < j" "Dialled False \<in> set (fst (log ! i))"
      then obtain j' where j: "j = Suc j'" by (cases j) auto
      show "Dialled True \<notin> set (fst (log ! j))"
      proof (cases i)
        case 0
        with a j log later show ?thesis by simp
      next
        case (Suc i')
        with a j log ih show ?thesis by simp
      qed
    qed
    moreover have "\<forall>(es, stop)\<in>set log. wait_bounded c stop \<and> (\<forall>z. Dialled z \<in> set es \<longrightarrow> \<not> cf_http_only c) \<and>
      (cf_disable_compression (ag_cfg a) \<longrightarrow> Dialled True \<notin> set es)"
      using ih ok d log by (auto simp: case_prod_beta)
    ultimately show ?thesis using ih by blast
  qed
qed simp

section \<open>Examples\<close>

text \<open>A session that cannot connect, at a given time, and one whose only tick comes at a given time.\<close>

definition dead_session :: "nat \<Rightarrow> session_in" where
  "dead_session t =
    \<lparr>si_check = t, si_reprobed = t, si_net = (\<lambda>_ _. Err (WIo (ustr ''refused''))), si_random = None, si_version = ustr ''1.0'',
     si_start = t, si_tick_start = t, si_interval = 10 ^ 9, si_ticks = [], si_end = t\<rparr>"

definition one_tick :: "nat \<Rightarrow> tick_in" where
  "one_tick t =
    \<lparr>ti_reprobe = t, ti_report_check = t, ti_report = lit ''{}'', ti_report_sent = None, ti_before = id,
     ti_post = Err HttpTimeout, ti_between = id, ti_report_done = t, ti_arrives = [], ti_terminals = 0, ti_pong_sent = None,
     ti_beat_check = t, ti_ping_sent = None, ti_beat_done = t, ti_info_check = t, ti_info_done = t, ti_sleep = t,
     ti_world = example_world\<rparr>"

section \<open>The policies\<close>

text \<open>
  C18: Over any sequence of sessions, whatever the network and the server do: an HTTP-only agent never
  dials a WebSocket; once a dial went out without compression none offers it again, and an agent
  configured without it never does; every wait lies between one second and the configured
  interval, or is that interval when it is shorter; and the configuration does not change
  otherwise.
\<close>

theorem session_policies:
  assumes "agent_loop sis (agent_init c now) = (log, a)"
  shows "(cf_http_only c \<longrightarrow> (\<forall>(es, stop)\<in>set log. \<forall>z. Dialled z \<notin> set es)) \<and>
    (\<forall>j<length log. \<forall>i<j. Dialled False \<in> set (fst (log ! i)) \<longrightarrow> Dialled True \<notin> set (fst (log ! j))) \<and>
    (cf_disable_compression c \<longrightarrow> (\<forall>(es, stop)\<in>set log. Dialled True \<notin> set es)) \<and>
    (\<forall>(es, stop)\<in>set log. \<forall>d. stop = Waited d \<longrightarrow>
      min (10 ^ 9) (unat (cf_reconnect_interval c) * 10 ^ 9) \<le> d \<and> d \<le> unat (cf_reconnect_interval c) * 10 ^ 9) \<and>
    ag_cfg a \<in> {c, c\<lparr>cf_disable_compression := True\<rparr>}"
proof -
  have c: "ag_cfg (agent_init c now) = c" by (simp add: agent_init_def)
  note ok = agent_loop_ok [OF agent_ok_init assms, unfolded c]
  have "ag_cfg a \<in> {c, c\<lparr>cf_disable_compression := True\<rparr>}" using ok by (auto simp: agent_ok_def cfg_kept_def)
  with ok show ?thesis by (fastforce simp: wait_bounded_def seconds_def from_secs_def)
qed

lemma session_policies_witness:
  "agent_loop [dead_session 0] (agent_init (config_default\<lparr>cf_http_only := True\<rparr>) 0) =
     ([([BasicInfo], StillRunning)], agent_init (config_default\<lparr>cf_http_only := True\<rparr>) 0) \<and>
   Dialled True \<notin> set [BasicInfo]"
proof -
  let ?c = "config_default\<lparr>cf_http_only := True\<rparr>"
  have x: "agent_loop [dead_session 0] (agent_init ?c 0) = ([([BasicInfo], StillRunning)], agent_init ?c 0)"
    by (simp add: session_step_def dead_session_def agent_init_def reprobe_step_def reprobe_due_def fsm_new_def
        connect_with_fsm_def tick_state_init_def Let_def)
  with session_policies [OF x] show ?thesis by simp
qed

section \<open>Back to WebSocket\<close>

lemma run_ticks_due:
  "\<lbrakk>ti \<in> set tis; reprobe_due f (ti_reprobe ti - l)\<rbrakk> \<Longrightarrow> snd (snd (run_ticks c f l n tis ts)) \<noteq> None"
proof (induction tis arbitrary: ts)
  case (Cons ti' tis)
  obtain es ts1 r where t: "tick c n ti' ts = (es, ts1, r)" by (metis prod_cases3)
  from Cons t show ?case by (auto simp: case_prod_beta Let_def split: outcome.split)
qed simp

lemma on_failure_http_mode: "fsm_mode f = HttpV2 \<Longrightarrow> fsm_mode (snd (on_failure k f)) = HttpV2"
  by (simp add: on_failure_http)

lemma after_session_http:
  assumes "fsm_mode (ag_fsm a) = HttpV2" and "after_session si a r = (a', stop)"
  shows "fsm_mode (ag_fsm a') = HttpV2"
  using assms
  by (auto simp: after_session_def wait_step_def Let_def on_failure_http on_success_def split: outcome.splits if_splits)

lemma reprobe_dials:
  assumes "agent_ok c a" and "\<not> cf_http_only c" and "ag_reprobe a + seconds 600 \<le> si_check si"
  shows "fsm_mode (ag_fsm (reprobe_step si a)) = WsV2"
  using assms fsm_initial [OF assms(1)]
  by (auto simp: reprobe_step_def reprobe_due_def on_reconnect_def reprobe_interval_def)

lemma agent_loop_reach: "agent_loop sis (agent_init c now) = (log, a) \<Longrightarrow> agent_ok c a"
  using agent_loop_ok [OF agent_ok_init] by blast

lemma http_session:
  assumes "agent_ok c a" and "\<not> cf_http_only c" and "fsm_mode (ag_fsm (reprobe_step si a)) = HttpV2"
    and "ti \<in> set (si_ticks si)" and "ag_reprobe a + seconds 600 \<le> ti_reprobe ti"
    and "session_step si a = (es, a', stop)"
  shows "stop \<noteq> StillRunning \<and> ag_reprobe a' = ag_reprobe a \<and> fsm_mode (ag_fsm a') = HttpV2"
proof -
  let ?a = "reprobe_step si a"
  have r: "ag_reprobe ?a = ag_reprobe a"
    using assms(3) fsm_initial [OF assms(1)] assms(2) by (auto simp: reprobe_step_def on_reconnect_def)
  have due: "reprobe_due (ag_fsm ?a) (ti_reprobe ti - ag_reprobe ?a)"
    using assms(2,3,5) fsm_initial [OF reprobe_step_ok [OF assms(1)]] r by (simp add: reprobe_due_def reprobe_interval_def)
  obtain es1 b res where t: "run_ticks (ag_cfg ?a) (ag_fsm ?a) (ag_reprobe ?a) (si_interval si) (si_ticks si)
      (tick_state_init si ?a ConnHttp) = (es1, b, res)" by (metis prod_cases3)
  from run_ticks_due [OF assms(4) due] t obtain x where x: "res = Some x" by (metis not_Some_eq snd_conv)
  have s: "after_session si (?a\<lparr>ag_bus := b\<rparr>) x = (a', stop)"
    using assms(3,6) t x by (simp add: session_step_def Let_def connect_with_fsm_def)
  have "agent_ok c (?a\<lparr>ag_bus := b\<rparr>)" using reprobe_step_ok [OF assms(1)] by simp
  from after_session_ok [OF this s] after_session_http [OF _ s] assms(3) r show ?thesis by simp
qed

text \<open>
  C17: The HTTP fallback is never final: on an agent that is not HTTP-only, a session over HTTP does
  not outlive the tick that finds 600 seconds since the last re-probe, however healthy it is, and
  unless the agent crashed the next session dials a WebSocket.
\<close>

theorem reprobe_liveness:
  assumes "agent_loop sis (agent_init c now) = (log, a)" and "\<not> cf_http_only c"
    and "fsm_mode (ag_fsm (reprobe_step si a)) = HttpV2"
    and "\<exists>ti\<in>set (si_ticks si). ag_reprobe a + 600 * 10 ^ 9 \<le> ti_reprobe ti"
    and "session_step si a = (es, a', stop)" and "ag_reprobe a + 600 * 10 ^ 9 \<le> si_check next_session"
  shows "stop \<noteq> StillRunning \<and> (\<exists>z. Dialled z \<in> set (fst (session_step next_session a')))"
proof -
  note ok = agent_loop_reach [OF assms(1)]
  from assms(4) obtain ti where ti: "ti \<in> set (si_ticks si)" "ag_reprobe a + seconds 600 \<le> ti_reprobe ti"
    by (auto simp: seconds_def)
  note h = http_session [OF ok assms(2,3) ti assms(5)]
  have ok': "agent_ok c a'" using session_step_ok [OF ok assms(5)] by simp
  have "fsm_mode (ag_fsm (reprobe_step next_session a')) = WsV2"
    by (rule reprobe_dials [OF ok' assms(2)]) (use h assms(6) in \<open>simp add: seconds_def\<close>)
  with session_step_dials [of next_session a'] h show ?thesis by auto
qed

lemma reprobe_liveness_witness:
  "\<exists>z. Dialled z \<in> set (fst (session_step (dead_session (600 * 10 ^ 9))
    (fst (snd (session_step (dead_session 1\<lparr>si_ticks := [one_tick (600 * 10 ^ 9)]\<rparr>)
      (snd (agent_loop [dead_session 0, dead_session 0, dead_session 0] (agent_init config_default 0))))))))"
proof -
  let ?l = "agent_loop [dead_session 0, dead_session 0, dead_session 0] (agent_init config_default 0)"
  let ?s = "dead_session 1\<lparr>si_ticks := [one_tick (600 * 10 ^ 9)]\<rparr>"
  have l: "agent_loop [dead_session 0, dead_session 0, dead_session 0] (agent_init config_default 0) = (fst ?l, snd ?l)"
    by (rule prod.collapse [symmetric])
  have s: "session_step ?s (snd ?l) = (fst (session_step ?s (snd ?l)), fst (snd (session_step ?s (snd ?l))), snd (snd (session_step ?s (snd ?l))))"
    by simp
  have m: "fsm_mode (ag_fsm (reprobe_step ?s (snd ?l))) = HttpV2" by code_simp
  have t: "ag_reprobe (snd ?l) = 0" by code_simp
  have c: "\<not> cf_http_only config_default" by (simp add: config_default_def)
  have d: "ag_reprobe (snd ?l) + 600 * 10 ^ 9 \<le> si_check (dead_session (600 * 10 ^ 9))"
    unfolding t by (simp add: dead_session_def)
  have e: "\<exists>ti\<in>set (si_ticks ?s). ag_reprobe (snd ?l) + 600 * 10 ^ 9 \<le> ti_reprobe ti"
    unfolding t by (simp add: one_tick_def)
  from reprobe_liveness [OF l c m e s d] show ?thesis by blast
qed

section \<open>Three short sessions\<close>

lemma wait_step_simps:
  "wait_step a = (a', Waited d) \<Longrightarrow> ag_fsm a' = ag_fsm a \<and> ag_reprobe a' = ag_reprobe a"
  by (auto simp: wait_step_def split: outcome.splits)

lemma short_session_strike:
  assumes "session_step si a = (es, a', Waited d)" and "si_end si < si_start si + seconds 30"
    and "\<not> reprobe_due (ag_fsm a) (si_check si - ag_reprobe a)"
  shows "ag_reprobe a' = ag_reprobe a \<and> (\<exists>k. ag_fsm a' = snd (on_failure k (ag_fsm a)))"
proof -
  have a: "reprobe_step si a = a" using assms(3) by (simp add: reprobe_step_def)
  obtain es1 r where r: "connect_with_fsm si a = (es1, r)" by fastforce
  show ?thesis
  proof (cases r)
    case (Err e)
    then have "wait_step (a\<lparr>ag_fsm := snd (on_failure (classify_ws_failure e) (ag_fsm a))\<rparr>) = (a', Waited d)"
      using assms(1) r a by (simp add: session_step_def Let_def)
    from wait_step_simps [OF this] show ?thesis by auto
  next
    case (Ok conn)
    obtain es2 b res where t: "run_ticks (ag_cfg a) (ag_fsm a) (ag_reprobe a) (si_interval si) (si_ticks si)
        (tick_state_init si a conn) = (es2, b, res)" by (metis prod_cases3)
    then obtain x where "after_session si (a\<lparr>ag_bus := b\<rparr>) x = (a', Waited d)"
      using assms(1) r Ok a by (cases res) (auto simp: session_step_def Let_def)
    moreover have "\<not> min_healthy_session \<le> si_end si - si_start si"
      using assms(2) by (simp add: min_healthy_session_def seconds_def)
    ultimately show ?thesis
      by (cases x) (auto simp: after_session_def Let_def split: if_splits dest!: wait_step_simps)
  next
    case Panic
    with assms(1) r a show ?thesis by (simp add: session_step_def Let_def)
  qed
qed

lemma not_due_ws: "\<lbrakk>agent_ok c a; fsm_mode (ag_fsm a) = WsV2\<rbrakk> \<Longrightarrow> \<not> reprobe_due (ag_fsm a) t"
  using fsm_reachable_inv [of "cf_http_only c" "ag_fsm a"] by (auto simp: agent_ok_def fsm_inv_def reprobe_due_def)

lemma strikes:
  assumes "agent_ok c a" and "fsm_mode (ag_fsm a) = WsV2" and "unat (consecutive_failures (ag_fsm a)) = n" and "n < 3"
    and "session_step si a = (es, a', Waited d)" and "si_end si < si_start si + seconds 30"
  shows "agent_ok c a' \<and> ag_reprobe a' = ag_reprobe a \<and> fsm_mode (ag_fsm a') = (if n = 2 then HttpV2 else WsV2) \<and>
    unat (consecutive_failures (ag_fsm a')) = (if n = 2 then 0 else n + 1) \<and> (\<exists>z. Dialled z \<in> set es)"
proof -
  have nd: "\<not> reprobe_due (ag_fsm a) (si_check si - ag_reprobe a)" by (rule not_due_ws [OF assms(1,2)])
  then have "fsm_mode (ag_fsm (reprobe_step si a)) = WsV2" using assms(2) by (simp add: reprobe_step_def)
  then have "\<exists>z. Dialled z \<in> set es" using session_step_dials [of si a] assms(5) by auto
  with short_session_strike [OF assms(5,6) nd] on_failure_ws [OF assms(2,3,4)] session_step_ok [OF assms(1,5)]
  show ?thesis by auto
qed

text \<open>
  C19: Three sessions in a row that end in failure within 30 seconds, on an agent that prefers WebSocket
  and has no strikes, dial a WebSocket each; after them the agent uses HTTP, but only while the
  last re-probe (or the start of the agent) is less than 600 seconds ago: later than that, the
  session after the fallback dials a WebSocket again at once.
\<close>

theorem short_sessions_force_http:
  assumes "agent_loop sis (agent_init c now) = (log, a)"
    and "fsm_mode (ag_fsm a) = WsV2" and "consecutive_failures (ag_fsm a) = 0"
    and "agent_loop [s1, s2, s3] a = ([(es1, Waited d1), (es2, Waited d2), (es3, Waited d3)], a')"
    and "list_all (\<lambda>s. si_end s < si_start s + 30 * 10 ^ 9) [s1, s2, s3]"
  shows "list_all (\<lambda>es. \<exists>z. Dialled z \<in> set es) [es1, es2, es3] \<and> fsm_mode (ag_fsm a') = HttpV2 \<and>
    ((\<exists>z. Dialled z \<in> set (fst (session_step s4 a'))) \<longleftrightarrow> ag_reprobe a + 600 * 10 ^ 9 \<le> si_check s4)"
proof -
  note ok = agent_loop_reach [OF assms(1)]
  have short: "si_end s1 < si_start s1 + seconds 30" "si_end s2 < si_start s2 + seconds 30" "si_end s3 < si_start s3 + seconds 30"
    using assms(5) by (simp_all add: seconds_def)
  from assms(4) obtain a1 a2 where s: "session_step s1 a = (es1, a1, Waited d1)" "session_step s2 a1 = (es2, a2, Waited d2)"
      "session_step s3 a2 = (es3, a', Waited d3)"
    by (auto split: prod.splits if_splits)
  have z: "unat (consecutive_failures (ag_fsm a)) = 0" using assms(3) by simp
  have one: "(0::nat) < 3" "Suc 0 < 3" "(2::nat) < 3" by simp_all
  note t1 = strikes [OF ok assms(2) z one(1) s(1) short(1), simplified]
  have t2: "agent_ok c a2 \<and> ag_reprobe a2 = ag_reprobe a \<and> fsm_mode (ag_fsm a2) = WsV2 \<and>
      unat (consecutive_failures (ag_fsm a2)) = 2 \<and> (\<exists>z. Dialled z \<in> set es2)"
    using strikes [OF _ _ _ one(2) s(2) short(2), of c] t1 by simp
  then have t3: "agent_ok c a' \<and> ag_reprobe a' = ag_reprobe a \<and> fsm_mode (ag_fsm a') = HttpV2 \<and> (\<exists>z. Dialled z \<in> set es3)"
    using strikes [OF _ _ _ one(3) s(3) short(3), of c] by simp
  have "\<not> cf_http_only c" using fsm_http_only [OF ok] assms(2) by auto
  then have i: "fsm_initial_mode (ag_fsm a') = WsV2" using fsm_initial [of c a'] t3 by simp
  have "fsm_mode (ag_fsm (reprobe_step s4 a')) = WsV2 \<longleftrightarrow> ag_reprobe a + 600 * 10 ^ 9 \<le> si_check s4"
    using t3 i by (auto simp: reprobe_step_def reprobe_due_def on_reconnect_def reprobe_interval_def seconds_def)
  with session_step_dials [of s4 a'] have "(\<exists>z. Dialled z \<in> set (fst (session_step s4 a'))) \<longleftrightarrow>
      ag_reprobe a + 600 * 10 ^ 9 \<le> si_check s4"
    by (auto split: if_splits)
  with t1 t2 t3 show ?thesis by simp
qed

lemma short_sessions_force_http_witness:
  "let l = agent_loop [dead_session 5, dead_session 7, dead_session 9] (agent_init config_default 0)
   in fsm_mode (ag_fsm (snd l)) = HttpV2 \<and> (\<exists>z. Dialled z \<in> set (fst (session_step (dead_session (600 * 10 ^ 9)) (snd l))))"
proof -
  let ?l = "agent_loop [dead_session 5, dead_session 7, dead_session 9] (agent_init config_default 0)"
  have start: "agent_loop [] (agent_init config_default 0) = ([], agent_init config_default 0)" by simp
  have m: "fsm_mode (ag_fsm (agent_init config_default 0)) = WsV2" "consecutive_failures (ag_fsm (agent_init config_default 0)) = 0"
    by (simp_all add: agent_init_def fsm_new_def config_default_def)
  have f: "map fst (fst ?l) = [[Dialled True], [Dialled True], [Dialled True]]" by code_simp
  have g: "map snd (fst ?l) = [Waited (2 * 10 ^ 9), Waited (4 * 10 ^ 9), Waited (5 * 10 ^ 9)]" by code_simp
  have "fst ?l = zip (map fst (fst ?l)) (map snd (fst ?l))" by (simp only: zip_map_fst_snd)
  then have "fst ?l = [([Dialled True], Waited (2 * 10 ^ 9)), ([Dialled True], Waited (4 * 10 ^ 9)), ([Dialled True], Waited (5 * 10 ^ 9))]"
    by (simp only: f g zip_Cons_Cons zip_Nil)
  then have l: "?l = ([([Dialled True], Waited (2 * 10 ^ 9)), ([Dialled True], Waited (4 * 10 ^ 9)), ([Dialled True], Waited (5 * 10 ^ 9))], snd ?l)"
    by (metis prod.collapse)
  have q: "list_all (\<lambda>s. si_end s < si_start s + 30 * 10 ^ 9) [dead_session 5, dead_session 7, dead_session 9]"
    by (simp add: dead_session_def)
  have r: "ag_reprobe (agent_init config_default 0) = 0" "si_check (dead_session (600 * 10 ^ 9)) = 600 * 10 ^ 9"
    by (simp_all add: agent_init_def dead_session_def)
  from short_sessions_force_http [OF start m l q, of "dead_session (600 * 10 ^ 9)"] show ?thesis
    by (simp only: r Let_def) simp
qed

end
