(* ===== verification/Workers.thy ===== *)
theory Workers
  imports Session
begin

text \<open>
  The threads of \<open>server/reconnection.rs\<close>: pull workers that are owned by a session through a
  generation counter, and terminal workers that are admitted by a counter of sessions.  Every
  atomic operation and every lock is a step of its own, and the threads interleave freely.
\<close>

section \<open>Pull workers\<close>

datatype pull_pc =
    AtCheck
  | AtDrain
  | Waiting "ustring list"
  | AtRecheck "(http_response, http_err) outcome"
  | AtProcess bytes
  | Stopped

record pull_thread =
  pt_gen :: u64
  pt_pc :: pull_pc

text \<open>The main thread: between sessions, or in one, over HTTP or not, with its worker started or not.\<close>

datatype main_pc = Between | InSession bool bool

record pull_state =
  ps_gen :: u64
  ps_bus :: event_bus
  ps_main :: main_pc
  ps_threads :: "pull_thread list"

definition pull_init :: "event_bus \<Rightarrow> pull_state" where
  "pull_init b = \<lparr>ps_gen = 0, ps_bus = b, ps_main = Between, ps_threads = []\<rparr>"

text \<open>One step of a worker: what it does to the bus, and where it goes.\<close>

definition pull_accepts :: "(http_response, http_err) outcome \<Rightarrow> bytes option" where
  "pull_accepts response =
    (case response of
       Ok resp \<Rightarrow> if hr_status resp = 200 \<and> validate_response (hr_body resp) = Ok () then Some (hr_body resp) else None
     | _ \<Rightarrow> None)"

inductive worker_step :: "u64 \<Rightarrow> u64 \<Rightarrow> event_bus \<times> pull_pc \<Rightarrow> event_bus \<times> pull_pc \<Rightarrow> bool" for gen own where
  obsolete: "gen \<noteq> own \<Longrightarrow> worker_step gen own (b, AtCheck) (b, Stopped)"
| current: "gen = own \<Longrightarrow> worker_step gen own (b, AtCheck) (b, AtDrain)"
| drain: "drain_acks b = (acks, b') \<Longrightarrow> worker_step gen own (b, AtDrain) (b', Waiting acks)"
| answered: "worker_step gen own (b, Waiting acks) (b, AtRecheck response)"
| discarded: "gen \<noteq> own \<Longrightarrow> worker_step gen own (b, AtRecheck response) (b, Stopped)"
| retried: "\<lbrakk>gen = own; pull_accepts response = None\<rbrakk> \<Longrightarrow> worker_step gen own (b, AtRecheck response) (b, AtCheck)"
| accepted: "\<lbrakk>gen = own; pull_accepts response = Some body\<rbrakk> \<Longrightarrow>
    worker_step gen own (b, AtRecheck response) (b, AtProcess body)"
| processed: "process_v2_response_events body b = (fresh, b') \<Longrightarrow> worker_step gen own (b, AtProcess body) (b', AtCheck)"

inductive pull_step :: "pull_state \<Rightarrow> pull_state \<Rightarrow> bool" where
  session_start: "ps_main s = Between \<Longrightarrow>
    pull_step s (s\<lparr>ps_gen := ps_gen s + 1, ps_main := InSession http False\<rparr>)"
| spawn: "ps_main s = InSession True False \<Longrightarrow>
    pull_step s (s\<lparr>ps_gen := ps_gen s + 1, ps_main := InSession True True,
      ps_threads := ps_threads s @ [\<lparr>pt_gen = ps_gen s + 1, pt_pc = AtCheck\<rparr>]\<rparr>)"
| spawn_failed: "ps_main s = InSession True False \<Longrightarrow>
    pull_step s (s\<lparr>ps_gen := ps_gen s + 1, ps_main := InSession True True\<rparr>)"
| session_stop: "ps_main s = InSession http started \<Longrightarrow>
    pull_step s (s\<lparr>ps_gen := ps_gen s + 1, ps_main := Between\<rparr>)"
| main_bus: "pull_step s (s\<lparr>ps_bus := b\<rparr>)"
| worker: "\<lbrakk>i < length (ps_threads s); ps_threads s ! i = t;
     worker_step (ps_gen s) (pt_gen t) (ps_bus s, pt_pc t) (b, pc)\<rbrakk> \<Longrightarrow>
    pull_step s (s\<lparr>ps_bus := b, ps_threads := (ps_threads s)[i := t\<lparr>pt_pc := pc\<rparr>]\<rparr>)"

inductive_cases pull_stepE: "pull_step s s'"

text \<open>The generations are used once each, and only the worker of the session has the current one.\<close>

definition pull_inv :: "nat \<Rightarrow> pull_state \<Rightarrow> bool" where
  "pull_inv n s \<longleftrightarrow>
    unat (ps_gen s) \<le> n \<and> distinct (map pt_gen (ps_threads s)) \<and>
    (\<forall>g\<in>set (map pt_gen (ps_threads s)). g \<le> ps_gen s \<and> (g = ps_gen s \<longrightarrow> ps_main s = InSession True True))"

lemma gen_next:
  fixes g :: u64
  assumes "unat g \<le> n" and "n + 1 < 2 ^ 64"
  shows "unat (g + 1) = unat g + 1" and "h \<le> g \<Longrightarrow> h < g + 1"
proof -
  show "unat (g + 1) = unat g + 1" using assms by (simp add: unat_word_ariths)
  then show "h \<le> g \<Longrightarrow> h < g + 1" by (simp add: word_less_nat_alt word_le_nat_alt)
qed

lemma pull_inv_step:
  assumes "pull_step s s'" and "pull_inv n s" and "n + 1 < 2 ^ 64"
  shows "pull_inv (n + 1) s'"
proof -
  have u: "unat (ps_gen s) \<le> n" using assms(2) by (simp add: pull_inv_def)
  note gen = gen_next [OF u assms(3)]
  have old: "g < ps_gen s + 1" if "g \<in> set (map pt_gen (ps_threads s))" for g
    using assms(2) that gen(2) by (auto simp: pull_inv_def)
  have next_gen: "pull_inv (n + 1) (s\<lparr>ps_gen := ps_gen s + 1, ps_main := m\<rparr>)" for m
    using assms(2) u gen(1) old by (force simp: pull_inv_def)
  show ?thesis
    using assms(1)
  proof cases
    case spawn
    then show ?thesis using assms(2) u gen(1) old by (force simp: pull_inv_def)
  next
    case (main_bus b)
    then show ?thesis using assms(2) by (auto simp: pull_inv_def)
  next
    case (worker i t b pc)
    have "map pt_gen ((ps_threads s)[i := t\<lparr>pt_pc := pc\<rparr>]) = map pt_gen (ps_threads s)"
      using worker(3) by (simp add: map_update) (metis list_update_id nth_map worker(2))
    then show ?thesis using assms(2) worker(1) by (simp add: pull_inv_def)
  qed (use next_gen in simp_all)
qed

lemma pull_inv_reach: "\<lbrakk>(pull_step ^^ n) (pull_init b) s; n < 2 ^ 64\<rbrakk> \<Longrightarrow> pull_inv n s"
proof (induction n arbitrary: s)
  case 0
  then show ?case by (auto simp: pull_inv_def pull_init_def)
next
  case (Suc n)
  then obtain t where t: "(pull_step ^^ n) (pull_init b) t" "pull_step t s" by (auto elim: relpowp_Suc_E)
  with Suc have "pull_inv n t" by simp
  with pull_inv_step [OF t(2)] Suc.prems(2) show ?case by simp
qed

text \<open>A worker goes to a place where it uses the session: it drains the bus, or it executes a batch.\<close>

fun uses_session :: "pull_pc \<Rightarrow> bool" where
  "uses_session AtDrain = True"
| "uses_session (AtProcess _) = True"
| "uses_session _ = False"

text \<open>
  C20: An obsolete worker never acts for a session again: below $2^{64}$ steps, whenever a worker starts a
  poll or accepts a batch of tasks, the agent is inside an HTTP session that started a worker,
  this worker is the one, and no other worker has its generation; in particular, after a session
  has ended or recovered WebSocket nothing but a batch accepted before is executed.
\<close>

theorem pull_workers_owned:
  assumes "(pull_step ^^ n) (pull_init b) s" and "pull_step s s'" and "n < 2 ^ 64"
    and "i < length (ps_threads s)" and "uses_session (pt_pc (ps_threads s' ! i))"
    and "pt_pc (ps_threads s' ! i) \<noteq> pt_pc (ps_threads s ! i)"
  shows "ps_main s = InSession True True \<and> pt_gen (ps_threads s ! i) = ps_gen s \<and>
    (\<forall>j<length (ps_threads s). j \<noteq> i \<longrightarrow> pt_gen (ps_threads s ! j) \<noteq> ps_gen s)"
proof -
  note inv = pull_inv_reach [OF assms(1,3)]
  have g: "pt_gen (ps_threads s ! i) = ps_gen s"
    using assms(2)
  proof cases
    case (worker k t b pc)
    then have k: "k = i" using assms(4,6) by (cases "k = i") simp_all
    with worker assms(4,5) have "uses_session pc" "worker_step (ps_gen s) (pt_gen t) (ps_bus s, pt_pc t) (b, pc)" "t = ps_threads s ! i"
      by simp_all
    then show ?thesis by (auto elim: worker_step.cases)
  qed (use assms(4,6) in \<open>simp_all add: nth_append\<close>)
  have m: "ps_main s = InSession True True"
    using inv g nth_mem [OF assms(4)] unfolding pull_inv_def by (metis (no_types, lifting) image_eqI list.set_map)
  have "pt_gen (ps_threads s ! j) \<noteq> ps_gen s" if "j < length (ps_threads s)" "j \<noteq> i" for j
  proof -
    have "map pt_gen (ps_threads s) ! j \<noteq> map pt_gen (ps_threads s) ! i"
      using inv that assms(4) by (subst nth_eq_iff_index_eq) (simp_all add: pull_inv_def)
    with g that assms(4) show ?thesis by simp
  qed
  with m g show ?thesis by blast
qed

lemma pull_workers_owned_witness:
  "let t = \<lparr>pt_gen = 2, pt_pc = AtCheck\<rparr>;
       s = \<lparr>ps_gen = 2, ps_bus = bus_default, ps_main = InSession True True, ps_threads = [t]\<rparr>;
       s' = s\<lparr>ps_threads := [t\<lparr>pt_pc := AtDrain\<rparr>]\<rparr>
   in (pull_step ^^ 2) (pull_init bus_default) s \<and> pull_step s s' \<and> ps_main s = InSession True True"
proof -
  let ?t = "\<lparr>pt_gen = 2, pt_pc = AtCheck\<rparr>"
  let ?s1 = "pull_init bus_default\<lparr>ps_gen := 1, ps_main := InSession True False\<rparr>"
  let ?s = "\<lparr>ps_gen = 2, ps_bus = bus_default, ps_main = InSession True True, ps_threads = [?t]\<rparr>"
  let ?s' = "?s\<lparr>ps_threads := [?t\<lparr>pt_pc := AtDrain\<rparr>]\<rparr>"
  have "pull_step (pull_init bus_default) ?s1"
    using session_start [of "pull_init bus_default" True] by (simp add: pull_init_def)
  moreover have "pull_step ?s1 ?s" using spawn [of ?s1] by (simp add: pull_init_def)
  ultimately have r: "(pull_step ^^ 2) (pull_init bus_default) ?s"
    by (auto simp: numeral_2_eq_2)
  have "worker_step 2 2 (bus_default, AtCheck) (bus_default, AtDrain)" by (rule current) simp
  then have st: "pull_step ?s ?s'" using worker [of 0 ?s ?t bus_default AtDrain] by simp
  have "ps_main ?s = InSession True True"
    using pull_workers_owned [OF r st, of 0] by simp
  with r st show ?thesis by (simp only: Let_def simp_thms)
qed

section \<open>Terminal workers\<close>

text \<open>A request that has taken its number from the counter, and a running session.\<close>

datatype terminal_worker = Admitting u64 | Running

record terminal_state =
  tm_sessions :: u64
  tm_workers :: "terminal_worker list"

definition terminal_init :: terminal_state where
  "terminal_init = \<lparr>tm_sessions = 0, tm_workers = []\<rparr>"

inductive terminal_step :: "terminal_state \<Rightarrow> terminal_state \<Rightarrow> bool" where
  request: "terminal_step s \<lparr>tm_sessions = tm_sessions s + 1, tm_workers = Admitting (tm_sessions s) # tm_workers s\<rparr>"
| refuse: "\<lbrakk>tm_workers s = us @ Admitting prev # vs; prev \<ge> of_nat max_terminal_sessions\<rbrakk> \<Longrightarrow>
    terminal_step s \<lparr>tm_sessions = tm_sessions s - 1, tm_workers = us @ vs\<rparr>"
| start: "\<lbrakk>tm_workers s = us @ Admitting prev # vs; prev < of_nat max_terminal_sessions\<rbrakk> \<Longrightarrow>
    terminal_step s (s\<lparr>tm_workers := us @ Running # vs\<rparr>)"
| start_failed: "\<lbrakk>tm_workers s = us @ Admitting prev # vs; prev < of_nat max_terminal_sessions\<rbrakk> \<Longrightarrow>
    terminal_step s \<lparr>tm_sessions = tm_sessions s - 1, tm_workers = us @ vs\<rparr>"
| finish: "tm_workers s = us @ Running # vs \<Longrightarrow>
    terminal_step s \<lparr>tm_sessions = tm_sessions s - 1, tm_workers = us @ vs\<rparr>"

text \<open>Workers that are in or will get in.\<close>

fun admitted :: "terminal_worker \<Rightarrow> bool" where
  "admitted Running = True"
| "admitted (Admitting prev) = (prev < 2)"

definition terminal_inv :: "nat \<Rightarrow> terminal_state \<Rightarrow> bool" where
  "terminal_inv n s \<longleftrightarrow>
    length (tm_workers s) \<le> n \<and> unat (tm_sessions s) = length (tm_workers s) \<and>
    length (filter admitted (tm_workers s)) \<le> 2"

lemma terminal_inv_step:
  assumes "terminal_step s s'" and "terminal_inv n s" and "n + 1 < 2 ^ 64"
  shows "terminal_inv (n + 1) s'"
proof -
  have len: "unat (tm_sessions s) = length (tm_workers s)" "length (tm_workers s) \<le> n"
    using assms(2) by (auto simp: terminal_inv_def)
  have up: "unat (tm_sessions s + 1) = unat (tm_sessions s) + 1" using len assms(3) by (simp add: unat_word_ariths)
  have down: "unat (tm_sessions s - 1) = unat (tm_sessions s) - 1" if "tm_workers s \<noteq> []"
  proof -
    have "1 \<le> unat (tm_sessions s)" using len that by (cases "tm_workers s") simp_all
    then show ?thesis by (simp add: unat_sub word_le_nat_alt)
  qed
  have max: "of_nat max_terminal_sessions = (2 :: u64)" by (simp add: max_terminal_sessions_def)
  show ?thesis
    using assms(1)
  proof cases
    case request
    have "length (tm_workers s) < 2 \<Longrightarrow> length (filter admitted (tm_workers s)) \<le> 1"
      using length_filter_le [of admitted "tm_workers s"] by linarith
    then have "length (filter admitted (Admitting (tm_sessions s) # tm_workers s)) \<le> 2"
      using assms(2) len by (simp add: terminal_inv_def word_less_nat_alt)
    with request up len show ?thesis by (simp add: terminal_inv_def)
  next
    case (start us prev vs)
    with assms(2) max show ?thesis by (simp add: terminal_inv_def)
  qed (use assms(2) down in \<open>auto simp: terminal_inv_def split: if_splits\<close>)
qed

lemma terminal_inv_reach: "\<lbrakk>(terminal_step ^^ n) terminal_init s; n < 2 ^ 64\<rbrakk> \<Longrightarrow> terminal_inv n s"
proof (induction n arbitrary: s)
  case 0
  then show ?case by (auto simp: terminal_inv_def terminal_init_def)
next
  case (Suc n)
  then obtain t where t: "(terminal_step ^^ n) terminal_init t" "terminal_step t s" by (auto elim: relpowp_Suc_E)
  with Suc have "terminal_inv n t" by simp
  with terminal_inv_step [OF t(2)] Suc.prems(2) show ?case by simp
qed

text \<open>
  C21: At most two terminal sessions run at a time, however requests from the report loop and from pull
  workers interleave, and no slot is lost: below $2^{64}$ steps the counter is the number of
  requests and sessions in flight, so it is zero again when all of them have ended.
\<close>

theorem terminal_sessions_bounded:
  assumes "(terminal_step ^^ n) terminal_init s" and "n < 2 ^ 64"
  shows "length (filter (\<lambda>w. w = Running) (tm_workers s)) \<le> 2 \<and>
    unat (tm_sessions s) = length (tm_workers s)"
proof -
  note inv = terminal_inv_reach [OF assms]
  have "length (filter (\<lambda>w. w = Running) ws) \<le> length (filter admitted ws)" for ws
    by (induction ws) auto
  with inv show ?thesis by (metis terminal_inv_def order_trans)
qed

lemma terminal_sessions_bounded_witness:
  "(terminal_step ^^ 2) terminal_init \<lparr>tm_sessions = 1, tm_workers = [Running]\<rparr> \<and>
    unat (tm_sessions \<lparr>tm_sessions = 1, tm_workers = [Running]\<rparr>) = length [Running]"
proof -
  have "terminal_step terminal_init \<lparr>tm_sessions = 1, tm_workers = [Admitting 0]\<rparr>"
    using request [of terminal_init] by (simp add: terminal_init_def)
  moreover have "terminal_step \<lparr>tm_sessions = 1, tm_workers = [Admitting 0]\<rparr> \<lparr>tm_sessions = 1, tm_workers = [Running]\<rparr>"
    using start [of "\<lparr>tm_sessions = 1, tm_workers = [Admitting 0]\<rparr>" "[]" 0 "[]"] by (simp add: max_terminal_sessions_def)
  ultimately have r: "(terminal_step ^^ 2) terminal_init \<lparr>tm_sessions = 1, tm_workers = [Running]\<rparr>"
    by (auto simp: numeral_2_eq_2)
  have "unat (tm_sessions \<lparr>tm_sessions = 1, tm_workers = [Running]\<rparr>) = length (tm_workers \<lparr>tm_sessions = 1, tm_workers = [Running]\<rparr>)"
    using terminal_sessions_bounded [OF r] by simp
  with r show ?thesis by simp
qed

end
