(* ===== verification/Discovery.thy ===== *)
theory Discovery
  imports Workers
begin

text \<open>
  \<open>autodiscovery.rs\<close>: the exchange of the discovery key for a token, and the file that keeps the
  credentials.  A disk maps paths to contents; what can go wrong on it is an input.
\<close>

datatype discovery_err = DiscoveryIo ustring | DiscoveryProtocol string | DiscoveryHttp ustring

type_synonym disk = "ustring \<Rightarrow> bytes option"

section \<open>Credentials\<close>

text \<open>A field with a text that is not empty.\<close>

definition text_field :: "bytes \<Rightarrow> string \<Rightarrow> ustring option" where
  "text_field obj key =
    (case (case object_field obj (ustr key) of None \<Rightarrow> None | Some v \<Rightarrow> decode_json_string v) of
       Some s \<Rightarrow> if s \<noteq> [] then Some s else None
     | None \<Rightarrow> None)"

definition max_credentials :: nat where "max_credentials = 1024 * 1024"

definition load_credentials :: "(bytes option, ustring) outcome \<Rightarrow> ((ustring \<times> ustring) option, discovery_err) outcome" where
  "load_credentials contents =
    (case contents of
       Panic \<Rightarrow> Panic
     | Err e \<Rightarrow> Err (DiscoveryIo e)
     | Ok None \<Rightarrow> Ok None
     | Ok (Some bs) \<Rightarrow>
         if length bs > max_credentials then Err (DiscoveryProtocol ''auto-discovery file is too large'')
         else and_then (ok_or (DiscoveryProtocol ''auto-discovery file has no uuid'') (text_field bs ''uuid'')) (\<lambda>uuid.
              and_then (ok_or (DiscoveryProtocol ''auto-discovery file has no token'') (text_field bs ''token'')) (\<lambda>token.
              Ok (Some (uuid, token)))))"

definition credentials_text :: "ustring \<Rightarrow> ustring \<Rightarrow> bytes" where
  "credentials_text uuid token =
    write_json_string (write_json_string (lit ''{\"uuid\":'') uuid @ lit '',\"token\":'') token @ [0x7D]"

text \<open>
  Writing the file: the results of the system calls, and the disk after each of them and at every
  moment of the write.  The last disk is the one left behind.
\<close>

record save_host =
  sv_open :: "ustring option"
  sv_write :: "(nat \<times> ustring) option"
  sv_sync :: "ustring option"
  sv_rename :: "ustring option"
  sv_remove :: bool

definition stage_path :: "ustring \<Rightarrow> nat \<Rightarrow> ustring" where
  "stage_path dir pid = dir @ ustr ''/.auto-discovery-'' @ dec pid @ ustr ''.tmp''"

definition credential_path :: "ustring \<Rightarrow> ustring" where
  "credential_path dir = dir @ ustr ''/auto-discovery.json''"

definition save_credentials ::
  "save_host \<Rightarrow> ustring \<Rightarrow> ustring \<Rightarrow> ustring \<Rightarrow> ustring \<Rightarrow> disk \<Rightarrow> (unit, discovery_err) outcome \<times> disk list" where
  "save_credentials h stage path uuid token d =
    (if d stage \<noteq> None then (Err (DiscoveryIo (ustr ''File exists'')), [d])
     else case sv_open h of
       Some e \<Rightarrow> (Err (DiscoveryIo e), [d])
     | None \<Rightarrow>
         (let contents = credentials_text uuid token;
              written = (\<lambda>n. map (\<lambda>k. d(stage \<mapsto> take k contents)) [0..<Suc n]);
              give_up = (\<lambda>e ds. (Err (DiscoveryIo e), ds @ [if sv_remove h then (last ds)(stage := None) else last ds]));
              complete = written (length contents)
          in case sv_write h of
               Some (k, e) \<Rightarrow> give_up e (d # written (min k (length contents)))
             | None \<Rightarrow>
                 (case sv_sync h of
                    Some e \<Rightarrow> give_up e (d # complete)
                  | None \<Rightarrow>
                      (case sv_rename h of
                         Some e \<Rightarrow> give_up e (d # complete)
                       | None \<Rightarrow> (Ok (), (d # complete) @ [d(stage := None, path \<mapsto> contents)])))))"

section \<open>Registration\<close>

record discovery_host =
  dh_dir :: "(ustring, ustring) outcome"
  dh_pid :: nat
  dh_disk :: disk
  dh_read_err :: "ustring option"
  dh_save :: save_host
  dh_env :: environment
  dh_tls :: bool
  dh_net :: network

definition host_name :: "environment \<Rightarrow> ustring" where
  "host_name env =
    (case env ''COMPUTERNAME'' of
       Some n \<Rightarrow> n
     | None \<Rightarrow> (case env ''HOSTNAME'' of Some n \<Rightarrow> n | None \<Rightarrow> ustr ''komari-agent''))"

definition register_url :: "config \<Rightarrow> ustring \<Rightarrow> ustring" where
  "register_url c name =
    trim_end_by (\<lambda>ch. ch = 0x2F) (cf_endpoint c) @ ustr ''/api/clients/register?name='' @ url_encode name"

definition register_body :: "config \<Rightarrow> bytes" where
  "register_body c = write_json_string (lit ''{\"key\":'') (cf_auto_discovery_key c) @ [0x7D]"

definition protocol_check :: "string \<Rightarrow> 'a option \<Rightarrow> ('a, discovery_err) outcome" where
  "protocol_check message x = ok_or (DiscoveryProtocol message) x"

definition registration_reply :: "http_response \<Rightarrow> (ustring \<times> ustring, discovery_err) outcome" where
  "registration_reply response =
    (if hr_status response \<noteq> 200
     then Err (DiscoveryHttp (ustr ''registration returned status '' @ dec (hr_status response)))
     else let root = hr_body response
          in and_then (protocol_check ''registration response has no status''
                 (case object_field root (ustr ''status'') of None \<Rightarrow> None | Some v \<Rightarrow> decode_json_string v)) (\<lambda>status.
             if status \<noteq> ustr ''success'' then Err (DiscoveryProtocol ''registration was rejected'')
             else and_then (protocol_check ''registration response has no data'' (object_field root (ustr ''data''))) (\<lambda>reply.
             and_then (protocol_check ''registration response has no uuid'' (text_field reply ''uuid'')) (\<lambda>uuid.
             and_then (protocol_check ''registration response has no token'' (text_field reply ''token'')) (\<lambda>token.
             Ok (uuid, token))))))"

definition resolve_token :: "discovery_host \<Rightarrow> config \<Rightarrow> (config, discovery_err) outcome \<times> disk" where
  "resolve_token h c =
    (case dh_dir h of
       Panic \<Rightarrow> (Panic, dh_disk h)
     | Err e \<Rightarrow> (Err (DiscoveryIo e), dh_disk h)
     | Ok dir \<Rightarrow>
         (let path = credential_path dir
          in case load_credentials (case dh_read_err h of Some e \<Rightarrow> Err e | None \<Rightarrow> Ok (dh_disk h path)) of
               Panic \<Rightarrow> (Panic, dh_disk h)
             | Err e \<Rightarrow> (Err e, dh_disk h)
             | Ok (Some (uuid, token)) \<Rightarrow> (Ok (c\<lparr>cf_token := token\<rparr>), dh_disk h)
             | Ok None \<Rightarrow>
                 if \<not> dh_tls h then (Err (DiscoveryProtocol ''TLS setup failed''), dh_disk h)
                 else (case http_post (dh_net h) (register_url c (host_name (dh_env h))) (register_body c) (ustr ''application/json'')
                         None [(ustr ''Authorization'', ustr ''Bearer '' @ cf_auto_discovery_key c)] of
                     Panic \<Rightarrow> (Panic, dh_disk h)
                   | Err e \<Rightarrow> (Err (DiscoveryHttp (http_err_text e)), dh_disk h)
                   | Ok response \<Rightarrow>
                       (case registration_reply response of
                          Panic \<Rightarrow> (Panic, dh_disk h)
                        | Err e \<Rightarrow> (Err e, dh_disk h)
                        | Ok (uuid, token) \<Rightarrow>
                            (case save_credentials (dh_save h) (stage_path dir (dh_pid h)) path uuid token (dh_disk h) of
                               (Ok _, ds) \<Rightarrow> (Ok (c\<lparr>cf_token := token\<rparr>), last ds)
                             | (Err e, ds) \<Rightarrow> (Err e, last ds)
                             | (Panic, ds) \<Rightarrow> (Panic, last ds))))))"

section \<open>The file is never torn\<close>

definition credential_members :: "ustring \<Rightarrow> ustring \<Rightarrow> (bytes \<times> bytes) list" where
  "credential_members uuid token = [(quoted ''uuid'', json_string uuid), (quoted ''token'', json_string token)]"

lemma credentials_text_members: "credentials_text uuid token = object_text (credential_members uuid token)"
  by (simp add: credentials_text_def credential_members_def object_text_def member_text_def write_json_string_def
      quoted_def lit_def)

lemma credentials_reload:
  assumes "list_all scalar_value uuid" and "list_all scalar_value token" and "uuid \<noteq> []" and "token \<noteq> []"
    and "length (credentials_text uuid token) \<le> max_credentials"
  shows "load_credentials (Ok (Some (credentials_text uuid token))) = Ok (Some (uuid, token))"
proof -
  let ?kvs = "credential_members uuid token"
  have q: "decode_json_string (quoted ''uuid'') = Some (ustr ''uuid'')"
      "decode_json_string (quoted ''token'') = Some (ustr ''token'')" by (rule decode_quoted, code_simp)+
  have n: "ustr ''uuid'' \<noteq> ustr ''token''" by code_simp
  have v: "valid_text uuid" "valid_text token" using assms(1,2) by (simp_all add: valid_text_def)
  have m: "members_ok 0 ?kvs"
    using q n v by (simp add: credential_members_def members_ok_def json_value_string key_of_def)
  have "object_field (object_text ?kvs) (ustr ''uuid'') = Some (json_string uuid)"
      "object_field (object_text ?kvs) (ustr ''token'') = Some (json_string token)"
    unfolding object_field_text(2) [OF m] using q n by (simp_all add: credential_members_def key_of_def)
  then have "text_field (object_text ?kvs) ''uuid'' = Some uuid" "text_field (object_text ?kvs) ''token'' = Some token"
    using decode_written [OF v(1)] decode_written [OF v(2)] assms(3,4) by (simp_all add: text_field_def)
  then show ?thesis using assms(5) by (simp add: load_credentials_def credentials_text_members)
qed

lemma last_map_upt: "last (map f [0..<Suc n]) = f n"
  by simp

text \<open>
  C24: The credentials file is never torn: whichever call fails and at whatever moment the process
  dies, the file at the credentials path is untouched or complete; after a reported success it is
  complete, nothing is left at the staging path, and a later start reads exactly the credentials
  that were saved; after a reported failure it is untouched.
\<close>

theorem credentials_never_torn:
  assumes "save_credentials h stage path uuid token d = (r, ds)" and "stage \<noteq> path"
    and "list_all scalar_value uuid" and "list_all scalar_value token" and "uuid \<noteq> []" and "token \<noteq> []"
    and "length (credentials_text uuid token) \<le> 2 ^ 20"
  shows "(\<forall>d'\<in>set ds. d' path = d path \<or> load_credentials (Ok (d' path)) = Ok (Some (uuid, token))) \<and>
    (case r of
       Ok _ \<Rightarrow> load_credentials (Ok (last ds path)) = Ok (Some (uuid, token)) \<and> last ds stage = None
     | Err _ \<Rightarrow> \<forall>d'\<in>set ds. d' path = d path
     | Panic \<Rightarrow> False)"
proof -
  have reload: "load_credentials (Ok (Some (credentials_text uuid token))) = Ok (Some (uuid, token))"
    using assms(3-7) by (intro credentials_reload) (simp_all add: max_credentials_def)
  have p: "path \<noteq> stage" using assms(2) by simp
  show ?thesis
    using assms(1) p reload
    by (auto simp: save_credentials_def Let_def split: if_splits option.splits)
qed

lemma credentials_never_torn_witness:
  "let h = \<lparr>sv_open = None, sv_write = None, sv_sync = None, sv_rename = None, sv_remove = True\<rparr>;
       r = save_credentials h (stage_path (ustr ''d'') 7) (credential_path (ustr ''d'')) [0x75] [0x74, 0x22] (\<lambda>_. None)
   in load_credentials (Ok (last (snd r) (credential_path (ustr ''d'')))) = Ok (Some ([0x75], [0x74, 0x22]))"
proof -
  let ?h = "\<lparr>sv_open = None, sv_write = None, sv_sync = None, sv_rename = None, sv_remove = True\<rparr>"
  let ?r = "save_credentials ?h (stage_path (ustr ''d'') 7) (credential_path (ustr ''d'')) [0x75] [0x74, 0x22] (\<lambda>_. None)"
  have r: "?r = (Ok (), snd ?r)" by (simp add: save_credentials_def Let_def)
  have p: "stage_path (ustr ''d'') 7 \<noteq> credential_path (ustr ''d'')" by code_simp
  have t: "list_all scalar_value [0x75]" "list_all scalar_value [0x74, 0x22]" "length (credentials_text [0x75] [0x74, 0x22]) \<le> 2 ^ 20"
    by code_simp+
  from credentials_never_torn [OF r p t(1,2) _ _ t(3)] show ?thesis by (simp add: Let_def)
qed

end
