(* ===== verification/Startup.thy ===== *)
theory Startup
  imports Discovery
begin

text \<open>
  \<open>main.rs\<close> up to \<open>server::run\<close>: the sources of the configuration in their order, validation, the
  exchange of the discovery key, and what must hold before the agent runs.
\<close>

section \<open>Start of the agent\<close>

record host =
  hs_args :: "ustring list"
  hs_env :: environment
  hs_read :: file_reader
  hs_supported :: "f64 \<Rightarrow> bool"
  hs_discovery :: discovery_host

text \<open>\<open>hs_supported\<close>: whether the platform takes the number of seconds as a duration.\<close>

datatype exit_reason = ExitArgs args_stop | ExitFile config_err | ExitConfig config_err | ExitDiscovery discovery_err

definition exit_on :: "('e \<Rightarrow> exit_reason) \<Rightarrow> ('a, 'e) outcome \<Rightarrow> ('a, exit_reason) outcome" where
  "exit_on f m = (case m of Ok x \<Rightarrow> Ok x | Err e \<Rightarrow> Err (f e) | Panic \<Rightarrow> Panic)"

definition load_layers :: "float_text \<Rightarrow> host \<Rightarrow> (config, exit_reason) outcome" where
  "load_layers ft h =
    and_then (exit_on ExitArgs (parse_args ft config_default (hs_args h))) (\<lambda>c.
      let c1 = load_env ft (hs_env h) c
      in if cf_config_file c1 = [] then Ok c1
         else exit_on ExitFile (load_json_config ft (hs_read h) c1 (cf_config_file c1)))"

definition discover :: "host \<Rightarrow> config \<Rightarrow> (config, exit_reason) outcome" where
  "discover h c =
    (if cf_auto_discovery_key c = [] then Ok c
     else and_then (exit_on ExitDiscovery (fst (resolve_token (hs_discovery h) c))) (\<lambda>c1.
          and_then (exit_on ExitConfig (validate (hs_supported h) c1)) (\<lambda>_. Ok c1)))"

definition plain_http :: "config \<Rightarrow> config" where
  "plain_http c =
    (if strip_prefix_opt (ustr ''http://'') (cf_endpoint c) \<noteq> None \<and> \<not> cf_http_only c
     then c\<lparr>cf_http_only := True\<rparr> else c)"

definition startup :: "float_text \<Rightarrow> host \<Rightarrow> (config, exit_reason) outcome" where
  "startup ft h =
    and_then (load_layers ft h) (\<lambda>c.
    and_then (exit_on ExitConfig (validate (hs_supported h) c)) (\<lambda>_.
    and_then (discover h c) (\<lambda>c1. Ok (plain_http c1))))"

section \<open>Gates\<close>

text \<open>A gate: the field, the option that sets it, the variable and the key in the file.\<close>

type_synonym gate = "(config \<Rightarrow> bool) \<times> string \<times> string \<times> string"

definition gates :: "gate list" where
  "gates =
    [(cf_disable_exec, ''disable-exec'', ''AGENT_DISABLE_EXEC'', ''disable_exec''),
     (cf_disable_web_ssh, ''disable-web-ssh'', ''AGENT_DISABLE_WEB_SSH'', ''disable_web_ssh''),
     (cf_disable_auto_update, ''disable-auto-update'', ''AGENT_DISABLE_AUTO_UPDATE'', ''disable_auto_update'')]"

definition off_word :: "ustring \<Rightarrow> bool" where
  "off_word v \<longleftrightarrow> ascii_lower v \<in> set (map ustr [''false'', ''0'', ''no'', ''off''])"

lemma parse_bool_off: "parse_bool flag v = Ok False \<longleftrightarrow> off_word v"
proof -
  have d: "distinct (map ustr (map fst bool_words))" by code_simp
  have m: "map_of (map (\<lambda>(w, b). (ustr w, b)) bool_words) x = Some False \<longleftrightarrow> x \<in> set (map ustr [''false'', ''0'', ''no'', ''off''])"
    for x
  proof -
    have "distinct (map fst (map (\<lambda>(w, b). (ustr w, b)) bool_words))" using d by (simp add: comp_def case_prod_beta)
    from map_of_eq_Some_iff [OF this] show ?thesis by (simp add: bool_words_def)
  qed
  show ?thesis
    by (simp only: parse_bool_def off_word_def ok_or_eq_Ok m)
qed

text \<open>The options: only the one that belongs to a gate changes it.\<close>

definition option_gate :: "(config \<Rightarrow> bool) \<Rightarrow> string \<Rightarrow> bool" where
  "option_gate get flag \<longleftrightarrow>
    (\<forall>ft c name val c1. apply_long_flag ft c name val = Ok c1 \<longrightarrow> \<not> get c1 \<longrightarrow>
      \<not> get c \<or> name = ustr flag \<and> (\<exists>v. val = Some v \<and> off_word v)) \<and>
    (\<forall>ft c short val c1. apply_short_flag ft c short val = Ok c1 \<longrightarrow> get c1 = get c) \<and>
    is_bool_flag (ustr flag)"

lemma set_value_Ok: "set_value flag val f = Ok c \<Longrightarrow> \<exists>v. c = f v"
  by (auto simp: set_value_def and_then_eq_Ok)

lemma set_parsed_Ok: "set_parsed flag p val f = Ok c \<Longrightarrow> \<exists>v. c = f v"
  by (auto simp: set_parsed_def and_then_eq_Ok)

lemma set_switch_Ok: "set_switch flag val f = Ok c \<Longrightarrow> \<exists>b. c = f b \<and> (\<not> b \<longrightarrow> (\<exists>v. val = Some v \<and> off_word v))"
  by (auto simp: set_switch_def and_then_eq_Ok parse_bool_opt_def parse_bool_off split: option.splits)

lemma short_flags_keep:
  assumes "apply_short_flag ft c short val = Ok c1"
  shows "cf_disable_exec c1 = cf_disable_exec c \<and> cf_disable_web_ssh c1 = cf_disable_web_ssh c \<and>
    cf_disable_auto_update c1 = cf_disable_auto_update c"
  using assms by (auto simp: apply_short_flag_def and_then_eq_Ok split: if_splits)

text \<open>What one option does to the gates.\<close>

definition gate_change :: "ustring \<Rightarrow> ustring option \<Rightarrow> config \<Rightarrow> config \<Rightarrow> bool" where
  "gate_change name val c c1 \<longleftrightarrow>
    (cf_disable_exec c1 \<noteq> cf_disable_exec c \<longrightarrow> name = ustr ''disable-exec'') \<and>
    (cf_disable_web_ssh c1 \<noteq> cf_disable_web_ssh c \<longrightarrow> name = ustr ''disable-web-ssh'') \<and>
    (cf_disable_auto_update c1 \<noteq> cf_disable_auto_update c \<longrightarrow> name = ustr ''disable-auto-update'') \<and>
    ((cf_disable_exec c \<and> \<not> cf_disable_exec c1 \<or> cf_disable_web_ssh c \<and> \<not> cf_disable_web_ssh c1 \<or>
      cf_disable_auto_update c \<and> \<not> cf_disable_auto_update c1) \<longrightarrow> (\<exists>v. val = Some v \<and> off_word v))"

lemma gate_change_value: "\<lbrakk>set_value flag val f = Ok c1; \<And>v. gate_change name val c (f v)\<rbrakk> \<Longrightarrow> gate_change name val c c1"
  by (auto dest: set_value_Ok)

lemma gate_change_parsed: "\<lbrakk>set_parsed flag p val f = Ok c1; \<And>v. gate_change name val c (f v)\<rbrakk> \<Longrightarrow> gate_change name val c c1"
  by (auto dest: set_parsed_Ok)

lemma gate_change_switch:
  "\<lbrakk>set_switch flag val f = Ok c1; \<And>b. \<not> b \<longrightarrow> (\<exists>v. val = Some v \<and> off_word v) \<Longrightarrow> gate_change name val c (f b)\<rbrakk> \<Longrightarrow>
    gate_change name val c c1"
  by (auto dest!: set_switch_Ok)

lemma gate_change_items:
  "\<lbrakk>and_then (require_val n val) (\<lambda>v. Ok (f v)) = Ok c1; \<And>v. gate_change name val c (f v)\<rbrakk> \<Longrightarrow> gate_change name val c c1"
  by (auto simp: and_then_eq_Ok)

lemma gate_change_if:
  "\<lbrakk>(if b then x else y) = Ok c1; \<lbrakk>b; x = Ok c1\<rbrakk> \<Longrightarrow> thesis; y = Ok c1 \<Longrightarrow> thesis\<rbrakk> \<Longrightarrow> thesis"
  by (simp split: if_splits)

lemma long_flags_effect:
  assumes "apply_long_flag ft c name val = Ok c1"
  shows "gate_change name val c c1"
  using assms unfolding apply_long_flag_def
  by (elim gate_change_if; (elim gate_change_value gate_change_parsed gate_change_switch gate_change_items)?)
    (simp_all add: gate_change_def)

lemma short_flags_effect:
  assumes "apply_short_flag ft c short val = Ok c1"
  shows "gate_change name v c c1"
  using assms by (auto simp: apply_short_flag_def and_then_eq_Ok gate_change_def split: if_splits)

definition gate_flag :: "gate \<Rightarrow> string" where "gate_flag g = fst (snd g)"

lemma gate_change_cases:
  assumes "gate_change name val c c1" and "g \<in> set gates" and "\<not> fst g c1"
  shows "\<not> fst g c \<or> name = ustr (gate_flag g) \<and> (\<exists>v. val = Some v \<and> off_word v)"
proof -
  consider "g = (cf_disable_exec, ''disable-exec'', ''AGENT_DISABLE_EXEC'', ''disable_exec'')"
    | "g = (cf_disable_web_ssh, ''disable-web-ssh'', ''AGENT_DISABLE_WEB_SSH'', ''disable_web_ssh'')"
    | "g = (cf_disable_auto_update, ''disable-auto-update'', ''AGENT_DISABLE_AUTO_UPDATE'', ''disable_auto_update'')"
    using assms(2) by (auto simp: gates_def)
  then show ?thesis
    by cases (use assms(1,3) in \<open>simp_all only: gate_change_def gate_flag_def fst_conv snd_conv, blast+\<close>)
qed

lemma gate_flags: "g \<in> set gates \<Longrightarrow> is_bool_flag (ustr (gate_flag g)) \<and> 0x3D \<notin> set (ustr (gate_flag g))"
proof -
  have "list_all (\<lambda>f. is_bool_flag (ustr f) \<and> 0x3D \<notin> set (ustr f)) [''disable-exec'', ''disable-web-ssh'', ''disable-auto-update'']"
    by code_simp
  then show "g \<in> set gates \<Longrightarrow> is_bool_flag (ustr (gate_flag g)) \<and> 0x3D \<notin> set (ustr (gate_flag g))"
    by (auto simp: gates_def gate_flag_def)
qed

text \<open>The argument \<open>--flag=word\<close> with a word that means no.\<close>

definition off_argument :: "string \<Rightarrow> ustring \<Rightarrow> bool" where
  "off_argument flag arg \<longleftrightarrow> (\<exists>v. arg = ustr ''--'' @ ustr flag @ ustr ''='' @ v \<and> off_word v)"

lemma stop_on_error_Ok: "stop_on_error m = Ok x \<longleftrightarrow> m = Ok x"
  by (cases m) simp_all

lemma off_argument_split:
  assumes "strip_prefix_opt (ustr ''--'') arg = Some rest" and "split_first (\<lambda>x. x = 0x3D) arg = Some (flag, val)"
    and "drop 2 flag = ustr name" and "off_word val"
  shows "off_argument name arg"
proof -
  have arg: "arg = ustr ''--'' @ rest" using assms(1) by (simp add: strip_prefix_eq_Some)
  obtain x where x: "arg = flag @ x # val" "x = 0x3D" using assms(2) by (auto simp: split_first_eq_Some)
  have d: "ustr ''--'' = [0x2D, 0x2D]" "ustr ''='' = [0x3D]" by code_simp+
  have "take 2 flag = [0x2D, 0x2D]"
    using arg x d by (cases flag; cases "tl flag") auto
  then have "flag = [0x2D, 0x2D] @ ustr name" using assms(3) by (metis append_take_drop_id)
  with x d assms(4) show ?thesis by (simp add: off_argument_def)
qed

text \<open>The ways in which one argument acts, when \<open>later\<close> tells about the arguments after it.\<close>

definition arg_effect :: "float_text \<Rightarrow> gate \<Rightarrow> config \<Rightarrow> config \<Rightarrow> ustring \<Rightarrow> bool \<Rightarrow> bool" where
  "arg_effect ft g c c' arg later \<longleftrightarrow>
    c' = c \<or> \<not> fst g c \<or> later \<or>
    (\<exists>rest flag val c1. strip_prefix_opt (ustr ''--'') arg = Some rest \<and> split_first (\<lambda>x. x = 0x3D) arg = Some (flag, val) \<and>
       apply_long_flag ft c (drop 2 flag) (Some val) = Ok c1 \<and> (\<not> fst g c1 \<or> later)) \<or>
    (\<exists>flag c1. apply_long_flag ft c flag None = Ok c1 \<and> (\<not> fst g c1 \<or> later)) \<or>
    (\<exists>flag val c1. \<not> is_bool_flag flag \<and> apply_long_flag ft c flag (Some val) = Ok c1 \<and> (\<not> fst g c1 \<or> later)) \<or>
    (\<exists>val c1. apply_short_flag ft c (drop 1 arg) val = Ok c1 \<and> (\<not> fst g c1 \<or> later))"

lemma arg_effect_gate:
  assumes "arg_effect ft g c c' arg later" and "g \<in> set gates" and "\<not> fst g c'"
  shows "\<not> fst g c \<or> off_argument (gate_flag g) arg \<or> later"
proof -
  note flags = gate_flags [OF assms(2)]
  note change = gate_change_cases [OF _ assms(2)]
  from assms(1) consider "c' = c" | "\<not> fst g c \<or> later"
    | (eq) rest flag val c1 where "strip_prefix_opt (ustr ''--'') arg = Some rest" "split_first (\<lambda>x. x = 0x3D) arg = Some (flag, val)"
        "apply_long_flag ft c (drop 2 flag) (Some val) = Ok c1" "\<not> fst g c1 \<or> later"
    | (switch) flag c1 where "apply_long_flag ft c flag None = Ok c1" "\<not> fst g c1 \<or> later"
    | (long) flag val c1 where "\<not> is_bool_flag flag" "apply_long_flag ft c flag (Some val) = Ok c1" "\<not> fst g c1 \<or> later"
    | (short) val c1 where "apply_short_flag ft c (drop 1 arg) val = Ok c1" "\<not> fst g c1 \<or> later"
    unfolding arg_effect_def by blast
  then show ?thesis
  proof cases
    case eq
    from eq(4) show ?thesis using change [OF long_flags_effect [OF eq(3)]] off_argument_split [OF eq(1,2)] by auto
  next
    case switch
    from switch(2) show ?thesis using change [OF long_flags_effect [OF switch(1)]] by auto
  next
    case long
    from long(3) show ?thesis using change [OF long_flags_effect [OF long(2)]] flags long(1) by auto
  next
    case short
    from short(2) show ?thesis using change [OF short_flags_effect [OF short(1), of "[]" None]] by auto
  qed (use assms(3) in auto)
qed

lemma parse_arg_effect:
  assumes "parse_arg_loop ft c (arg # rest) = Ok c'"
    and "\<And>c1 r. \<lbrakk>parse_arg_loop ft c1 r = Ok c'; r = rest \<or> r = tl rest \<and> rest \<noteq> []\<rbrakk> \<Longrightarrow> \<not> fst g c1 \<or> later"
  shows "arg_effect ft g c c' arg later"
proof (cases "strip_prefix_opt (ustr ''--'') arg")
  case None
  then show ?thesis
    using assms(1) [unfolded parse_arg_loop.simps(2)] assms(2) [of _ rest] assms(2) [of _ "tl rest"] unfolding arg_effect_def
    by (auto simp: and_then_eq_Ok stop_on_error_Ok simp del: parse_arg_loop.simps split: if_splits list.splits) blast+
next
  case (Some flag)
  show ?thesis
  proof (cases "split_first (\<lambda>x. x = 0x3D) arg")
    case None
    show ?thesis
      using assms(1) [unfolded parse_arg_loop.simps(2)] assms(2) [of _ rest] assms(2) [of _ "tl rest"] Some None unfolding arg_effect_def
      by (auto simp: and_then_eq_Ok stop_on_error_Ok simp del: parse_arg_loop.simps split: if_splits list.splits) blast+
  next
    case split: (Some fv)
    then show ?thesis
      using assms(1) [unfolded parse_arg_loop.simps(2)] assms(2) [of _ rest] Some unfolding arg_effect_def
      by (cases fv) (auto simp: and_then_eq_Ok stop_on_error_Ok simp del: parse_arg_loop.simps split: if_splits)
  qed
qed

lemma parse_arg_loop_gate:
  "\<lbrakk>parse_arg_loop ft c args = Ok c'; g \<in> set gates; \<not> fst g c'\<rbrakk> \<Longrightarrow>
    \<not> fst g c \<or> (\<exists>arg\<in>set args. off_argument (gate_flag g) arg)"
proof (induction "length args" arbitrary: c args rule: less_induct)
  case less
  show ?case
  proof (cases args)
    case Nil
    with less.prems show ?thesis by simp
  next
    case (Cons arg rest)
    have ih: "\<not> fst g c1 \<or> (\<exists>arg\<in>set rest. off_argument (gate_flag g) arg)"
      if "parse_arg_loop ft c1 r = Ok c'" "r = rest \<or> r = tl rest \<and> rest \<noteq> []" for c1 r
    proof -
      have "length r < length args" "set r \<subseteq> set rest" using that(2) Cons by (auto simp: list.set_sel(2))
      with less.hyps [OF _ that(1) less.prems(2,3)] show ?thesis by blast
    qed
    have "arg_effect ft g c c' arg (\<exists>arg\<in>set rest. off_argument (gate_flag g) arg)"
      using less.prems(1) ih unfolding Cons by (rule parse_arg_effect)
    from arg_effect_gate [OF this less.prems(2,3)] show ?thesis unfolding Cons by auto
  qed
qed

section \<open>Environment and file\<close>

lemma env_str_keep: "(\<And>v c. get (f v c) = get c) \<Longrightarrow> get (env_str env key f c) = get c"
  by (simp add: env_str_def split: option.split)

lemma env_unsigned_keep: "(\<And>v c. get (f v c) = get c) \<Longrightarrow> get (env_unsigned hi env key f c) = get c"
  by (simp add: env_unsigned_def split: option.split)

lemma env_bool_keep: "(\<And>v c. get (f v c) = get c) \<Longrightarrow> get (env_bool env key f c) = get c"
  by (simp add: env_bool_def split: option.split outcome.split)

lemma set_if_keep: "(\<And>v c. get (f v c) = get c) \<Longrightarrow> get (set_if x f c) = get c"
  by (simp add: set_if_def split: option.split)

definition env_switch :: "environment \<Rightarrow> string \<Rightarrow> bool \<Rightarrow> bool" where
  "env_switch env key b = (case env key of Some v \<Rightarrow> (case parse_bool key v of Ok x \<Rightarrow> x | _ \<Rightarrow> b) | None \<Rightarrow> b)"

lemma env_switch_off: "\<not> env_switch env key b \<Longrightarrow> \<not> b \<or> (\<exists>v. env key = Some v \<and> off_word v)"
  by (auto simp: env_switch_def parse_bool_off split: option.splits outcome.splits)

lemma env_bool_own:
  "cf_disable_exec (env_bool env key (\<lambda>b c. c\<lparr>cf_disable_exec := b\<rparr>) c) = env_switch env key (cf_disable_exec c)"
  "cf_disable_web_ssh (env_bool env key (\<lambda>b c. c\<lparr>cf_disable_web_ssh := b\<rparr>) c) = env_switch env key (cf_disable_web_ssh c)"
  "cf_disable_auto_update (env_bool env key (\<lambda>b c. c\<lparr>cf_disable_auto_update := b\<rparr>) c) = env_switch env key (cf_disable_auto_update c)"
  by (simp_all add: env_bool_def env_switch_def split: option.split outcome.split)

definition file_switch :: "bool option \<Rightarrow> bool \<Rightarrow> bool" where
  "file_switch x b = (case x of Some y \<Rightarrow> y | None \<Rightarrow> b)"

lemma set_if_own:
  "cf_disable_exec (set_if x (\<lambda>b c. c\<lparr>cf_disable_exec := b\<rparr>) c) = file_switch x (cf_disable_exec c)"
  "cf_disable_web_ssh (set_if x (\<lambda>b c. c\<lparr>cf_disable_web_ssh := b\<rparr>) c) = file_switch x (cf_disable_web_ssh c)"
  "cf_disable_auto_update (set_if x (\<lambda>b c. c\<lparr>cf_disable_auto_update := b\<rparr>) c) = file_switch x (cf_disable_auto_update c)"
  by (simp_all add: set_if_def file_switch_def split: option.split)

lemma option_step_keep: "(\<And>v. get (f v) = get c) \<Longrightarrow> get (case x of Some v \<Rightarrow> f v | None \<Rightarrow> c) = get c"
  by (simp split: option.split)

lemma load_env_exec: "cf_disable_exec (load_env ft env c) = env_switch env ''AGENT_DISABLE_EXEC'' (cf_disable_exec c)"
  by (simp add: load_env_def env_bool_own env_str_keep [of cf_disable_exec] env_unsigned_keep [of cf_disable_exec]
      env_bool_keep [of cf_disable_exec] option_step_keep [of cf_disable_exec])

lemma load_env_web_ssh: "cf_disable_web_ssh (load_env ft env c) = env_switch env ''AGENT_DISABLE_WEB_SSH'' (cf_disable_web_ssh c)"
  by (simp add: load_env_def env_bool_own env_str_keep [of cf_disable_web_ssh] env_unsigned_keep [of cf_disable_web_ssh]
      env_bool_keep [of cf_disable_web_ssh] option_step_keep [of cf_disable_web_ssh])

lemma load_env_auto_update: "cf_disable_auto_update (load_env ft env c) = env_switch env ''AGENT_DISABLE_AUTO_UPDATE'' (cf_disable_auto_update c)"
  by (simp add: load_env_def env_bool_own env_str_keep [of cf_disable_auto_update] env_unsigned_keep [of cf_disable_auto_update]
      env_bool_keep [of cf_disable_auto_update] option_step_keep [of cf_disable_auto_update])

lemma apply_json_exec:
  "cf_disable_exec (apply_json_map c m) = file_switch (map_bool m ''disable_exec'') (cf_disable_exec c)"
  by (simp add: apply_json_map_def set_if_own set_if_keep [of cf_disable_exec])

lemma apply_json_web_ssh:
  "cf_disable_web_ssh (apply_json_map c m) = file_switch (map_bool m ''disable_web_ssh'') (cf_disable_web_ssh c)"
  by (simp add: apply_json_map_def set_if_own set_if_keep [of cf_disable_web_ssh])

lemma apply_json_auto_update:
  "cf_disable_auto_update (apply_json_map c m) = file_switch (map_bool m ''disable_auto_update'') (cf_disable_auto_update c)"
  by (simp add: apply_json_map_def set_if_own set_if_keep [of cf_disable_auto_update])

section \<open>What holds when the agent runs\<close>

text \<open>The configuration file that was read says no.\<close>

definition off_in_file :: "float_text \<Rightarrow> host \<Rightarrow> string \<Rightarrow> bool" where
  "off_in_file ft h key \<longleftrightarrow>
    (\<exists>path bs tokens m rest. path \<noteq> [] \<and> hs_read h path = Ok bs \<and> tokenize ft (take (max_config_bytes + 1) bs) = Ok tokens \<and>
      parse_object tokens = Ok (m, rest) \<and> m (ustr key) = Some (CBool False))"

lemma apply_json_gate:
  "g \<in> set gates \<Longrightarrow> fst g (apply_json_map c m) = file_switch (map_bool m (snd (snd (snd g)))) (fst g c)"
  by (auto simp: gates_def apply_json_exec apply_json_web_ssh apply_json_auto_update)

lemma file_switch_off: "\<not> file_switch (map_bool m key) b \<Longrightarrow> \<not> b \<or> m (ustr key) = Some (CBool False)"
  by (auto simp: file_switch_def map_bool_def split: option.splits cfg_value.splits)

lemma load_layers_gate:
  assumes "load_layers ft h = Ok c" and "g \<in> set gates" and "\<not> fst g c"
  shows "(\<exists>arg\<in>set (drop 1 (hs_args h)). off_argument (gate_flag g) arg) \<or>
    (\<exists>v. hs_env h (fst (snd (snd g))) = Some v \<and> off_word v) \<or> off_in_file ft h (snd (snd (snd g)))"
proof -
  obtain c0 where c0: "parse_arg_loop ft config_default (drop 1 (hs_args h)) = Ok c0"
    using assms(1) by (auto simp: load_layers_def and_then_eq_Ok exit_on_def parse_args_def split: outcome.splits)
  let ?c1 = "load_env ft (hs_env h) c0"
  have a: "\<not> fst g c0 \<Longrightarrow> \<exists>arg\<in>set (drop 1 (hs_args h)). off_argument (gate_flag g) arg"
    using parse_arg_loop_gate [OF c0 assms(2)] assms(2) by (auto simp: gates_def config_default_def)
  have e: "\<not> fst g ?c1 \<Longrightarrow> \<not> fst g c0 \<or> (\<exists>v. hs_env h (fst (snd (snd g))) = Some v \<and> off_word v)"
    using assms(2) by (auto simp: gates_def load_env_exec load_env_web_ssh load_env_auto_update dest: env_switch_off)
  have f: "\<not> fst g c \<Longrightarrow> \<not> fst g ?c1 \<or> off_in_file ft h (snd (snd (snd g)))"
  proof -
    assume off: "\<not> fst g c"
    from assms(1) c0 consider "c = ?c1" | "cf_config_file ?c1 \<noteq> []" "load_json_config ft (hs_read h) ?c1 (cf_config_file ?c1) = Ok c"
      by (auto simp: load_layers_def and_then_eq_Ok exit_on_def parse_args_def Let_def split: outcome.splits if_splits)
    then show ?thesis
    proof cases
      case 1
      with off show ?thesis by simp
    next
      case 2
      from 2(2) obtain bs tokens m rest where r: "hs_read h (cf_config_file ?c1) = Ok bs"
          "tokenize ft (take (max_config_bytes + 1) bs) = Ok tokens" "parse_object tokens = Ok (m, rest)" "c = apply_json_map ?c1 m"
        by (auto simp: load_json_config_def apply_json_bytes_def and_then_eq_Ok split: outcome.splits if_splits)
      have "\<not> fst g ?c1 \<or> m (ustr (snd (snd (snd g)))) = Some (CBool False)"
        using off unfolding r(4) apply_json_gate [OF assms(2)] by (rule file_switch_off)
      with r(1-3) 2(1) show ?thesis unfolding off_in_file_def by blast
    qed
  qed
  show ?thesis using a e f assms(3) by blast
qed

lemma exit_on_Ok: "exit_on f m = Ok x \<longleftrightarrow> m = Ok x"
  by (simp add: exit_on_def split: outcome.split)

lemma text_field_not_empty: "text_field obj key = Some s \<Longrightarrow> s \<noteq> []"
  by (auto simp: text_field_def split: option.splits if_splits)

lemma resolve_token_sets_token:
  assumes "fst (resolve_token h c) = Ok c'"
  shows "\<exists>token. token \<noteq> [] \<and> c' = c\<lparr>cf_token := token\<rparr>"
proof -
  have l: "load_credentials x = Ok (Some (uuid, token)) \<Longrightarrow> token \<noteq> []" for x uuid token
    by (auto simp: load_credentials_def and_then_eq_Ok ok_or_eq_Ok split: outcome.splits option.splits if_splits
        dest: text_field_not_empty)
  have r: "registration_reply x = Ok (uuid, token) \<Longrightarrow> token \<noteq> []" for x uuid token
    by (auto simp: registration_reply_def protocol_check_def and_then_eq_Ok ok_or_eq_Ok Let_def split: if_splits
        dest: text_field_not_empty)
  show ?thesis
    using assms
    by (auto simp: resolve_token_def Let_def split: outcome.splits option.splits if_splits prod.splits dest: l r)
qed

lemma plain_http_keeps: "g \<in> set gates \<Longrightarrow> fst g (plain_http c) = fst g c"
  by (auto simp: gates_def plain_http_def)


definition example_host :: host where
  "example_host =
    \<lparr>hs_args = map ustr [''agent'', ''-e'', ''http://h'', ''--token=t'', ''--disable-exec=off''], hs_env = (\<lambda>_. None),
     hs_read = (\<lambda>_. Err []), hs_supported = (\<lambda>_. True),
     hs_discovery = \<lparr>dh_dir = Ok [], dh_pid = 1, dh_disk = (\<lambda>_. None), dh_read_err = None,
       dh_save = \<lparr>sv_open = None, sv_write = None, sv_sync = None, sv_rename = None, sv_remove = True\<rparr>,
       dh_env = (\<lambda>_. None), dh_tls = True, dh_net = (\<lambda>_ _ _ _. Err HttpTimeout)\<rparr>\<rparr>"


section \<open>Totality of the file parser\<close>

lemma digits_from_no_panic: "digits_from what b i \<noteq> Panic"
  by (simp add: digits_from_def)

lemma next_token_no_panic: "next_token ft input pos \<noteq> Panic"
proof -
  have s: "tokenize_string input pos \<noteq> Panic"
    by (auto simp: tokenize_string_def Let_def and_then_eq_Panic ok_or_not_Panic)
  have n: "tokenize_number ft input pos \<noteq> Panic"
    by (auto simp: tokenize_number_def Let_def and_then_eq_Panic digits_from_no_panic ok_or_not_Panic split: option.splits if_splits)
  have k: "keyword_at w input pos tok \<noteq> Panic" for w tok by (simp add: keyword_at_def)
  show ?thesis
    using s n k unfolding next_token_def Let_def by (auto simp: and_then_eq_Panic)
qed

lemma tokenize_from_no_panic: "tokenize_from ft input pos \<noteq> Panic"
proof (induction ft input pos rule: tokenize_from.induct)
  case (1 ft input pos)
  then show ?case
    by (subst tokenize_from.simps) (auto simp: and_then_eq_Panic next_token_no_panic)
qed

text \<open>
  C23: Reading a configuration file always returns: for every sequence of bytes, however deeply nested,
  truncated or malformed, tokenizing and parsing end within the fuel of the parser, with a
  configuration or an error, and an unreadable file is an error too.
\<close>

theorem config_file_total:
  "apply_json_bytes ft c bs \<noteq> Panic \<and>
   load_json_config ft (\<lambda>_. Ok bs) c path \<noteq> Panic \<and> load_json_config ft (\<lambda>_. Err e) c path = Err (FileReadError path e)"
proof -
  have a: "apply_json_bytes ft c bs \<noteq> Panic" for bs
    by (auto simp: apply_json_bytes_def tokenize_def and_then_eq_Panic tokenize_from_no_panic parse_total split: prod.splits)
  then show ?thesis by (simp add: load_json_config_def)
qed

end
