(* ===== verification/UpdateHttp.thy ===== *)
theory UpdateHttp
  imports Startup
begin

text \<open>
  The downloads of \<open>update.rs\<close>: HTTPS URLs, redirects with the credentials they may carry, the request,
  and the parser of responses with its limits.
\<close>

datatype update_err = UHttp ustring | UIo ustring | UOther ustring

definition max_headers :: nat where "max_headers = 16 * 1024"
definition max_redirects :: nat where "max_redirects = 5"

section \<open>URLs\<close>

record https_url =
  hu_host :: ustring
  hu_port :: nat
  hu_target :: ustring

definition is_ascii_alnum :: "nat \<Rightarrow> bool" where
  "is_ascii_alnum c \<longleftrightarrow> 0x30 \<le> c \<and> c \<le> 0x39 \<or> 0x41 \<le> c \<and> c \<le> 0x5A \<or> 0x61 \<le> c \<and> c \<le> 0x7A"

definition http_error :: "string \<Rightarrow> ('a, update_err) outcome" where
  "http_error message = Err (UHttp (ustr message))"

definition https_authority :: "ustring \<Rightarrow> (ustring \<times> nat, update_err) outcome" where
  "https_authority authority =
    (case split_first (\<lambda>c. c = 0x3A) authority of
       None \<Rightarrow> Ok (authority, 443)
     | Some (h, p) \<Rightarrow>
         (case parse_unsigned 65535 p of
            Some n \<Rightarrow> if n \<noteq> 0 then Ok (h, n) else http_error ''invalid HTTPS port''
          | None \<Rightarrow> http_error ''invalid HTTPS port''))"

definition url_end :: "nat \<Rightarrow> bool" where "url_end c \<longleftrightarrow> c = 0x2F \<or> c = 0x3F \<or> c = 0x23"

definition before_fragment :: "ustring \<Rightarrow> ustring" where
  "before_fragment s = takeWhile (\<lambda>c. c \<noteq> 0x23) s"

definition bad_url_char :: "nat \<Rightarrow> bool" where
  "bad_url_char c \<longleftrightarrow> c \<le> 0x20 \<or> c = 0x7F \<or> c = 0x5C"

definition parse_https :: "ustring \<Rightarrow> (https_url, update_err) outcome" where
  "parse_https url =
    (if list_ex bad_url_char url then http_error ''invalid URL characters''
     else case strip_prefix_opt (ustr ''https://'') url of
       None \<Rightarrow> http_error ''only HTTPS URLs are allowed''
     | Some rest \<Rightarrow>
         and_then (https_authority (takeWhile (\<lambda>c. \<not> url_end c) rest)) (\<lambda>(host, port).
         if host = [] \<or> \<not> list_all (\<lambda>c. is_ascii_alnum c \<or> c = 0x2E \<or> c = 0x2D) host then http_error ''invalid HTTPS host''
         else let suffix = before_fragment (dropWhile (\<lambda>c. \<not> url_end c) rest)
              in Ok \<lparr>hu_host = ascii_lower host, hu_port = port,
                     hu_target = (if take 1 suffix = [0x2F] then suffix else 0x2F # suffix)\<rparr>))"

definition same_origin :: "https_url \<Rightarrow> https_url \<Rightarrow> bool" where
  "same_origin u v \<longleftrightarrow> hu_host u = hu_host v \<and> hu_port u = hu_port v"

definition github_auth :: "https_url \<Rightarrow> bool" where
  "github_auth u \<longleftrightarrow> hu_port u = 443 \<and> (hu_host u = ustr ''api.github.com'' \<or> hu_host u = ustr ''github.com'')"

text \<open>The segments of a path after resolving dots; \<open>out\<close> is in reverse.\<close>

fun dot_segments :: "ustring list \<Rightarrow> ustring list \<Rightarrow> ustring list" where
  "dot_segments out [] = rev out"
| "dot_segments out (part # parts) =
    (if part = ustr ''.'' then dot_segments out parts
     else if part = ustr ''..'' then dot_segments (drop 1 out) parts
     else dot_segments (part # out) parts)"

fun join_segments :: "ustring list \<Rightarrow> ustring" where
  "join_segments [] = []"
| "join_segments [s] = s"
| "join_segments (s # ss) = s @ [0x2F] @ join_segments ss"

definition ends_with :: "ustring \<Rightarrow> ustring \<Rightarrow> bool" where
  "ends_with s p \<longleftrightarrow> strip_suffix_opt p s \<noteq> None"

definition before_query :: "ustring \<Rightarrow> ustring" where
  "before_query s = takeWhile (\<lambda>c. c \<noteq> 0x3F) s"

definition resolve_target :: "ustring \<Rightarrow> ustring \<Rightarrow> ustring" where
  "resolve_target base_target location =
    (let path = before_query base_target
     in if location = [] then base_target
        else if take 1 location = [0x3F] then path @ location
        else if take 1 location = [0x2F] then location
        else (case split_last (\<lambda>c. c = 0x2F) path of Some (p, _) \<Rightarrow> p | None \<Rightarrow> []) @ [0x2F] @ location)"

definition normalize_target :: "ustring \<Rightarrow> ustring" where
  "normalize_target target =
    (let path = before_query target;
         path1 = 0x2F # join_segments (dot_segments [] (drop 1 (split_all (\<lambda>c. c = 0x2F) path)));
         path2 = (if (ends_with path (ustr ''/.'') \<or> ends_with path (ustr ''/..'')) \<and> \<not> ends_with path1 [0x2F]
                  then path1 @ [0x2F] else path1)
     in path2 @ dropWhile (\<lambda>c. c \<noteq> 0x3F) target)"

definition redirect :: "https_url \<Rightarrow> ustring \<Rightarrow> (https_url, update_err) outcome" where
  "redirect u location =
    (if strip_prefix_opt (ustr ''https://'') location \<noteq> None then parse_https location
     else if strip_prefix_opt (ustr ''//'') location \<noteq> None then parse_https (ustr ''https:'' @ location)
     else if 0x3A \<in> set (takeWhile (\<lambda>c. \<not> url_end c) location) then http_error ''redirect must use HTTPS''
     else parse_https (ustr ''https://'' @ hu_host u @ [0x3A] @ dec (hu_port u) @
            normalize_target (resolve_target (hu_target u) (before_fragment location))))"

section \<open>Redirects\<close>

datatype fetched = Redirect ustring | Body bytes

type_synonym fetcher = "https_url \<Rightarrow> ustring option \<Rightarrow> (fetched, update_err) outcome"

text \<open>\<open>hops\<close> is the number of redirects still allowed; the log has the fetches in order.\<close>

fun follow_from ::
  "nat \<Rightarrow> fetcher \<Rightarrow> https_url \<Rightarrow> ustring option \<Rightarrow> https_url list \<Rightarrow>
    (https_url \<times> ustring option) list \<times> (bytes, update_err) outcome" where
  "follow_from hops fetch u auth visited =
    (case fetch u auth of
       Panic \<Rightarrow> ([(u, auth)], Panic)
     | Err e \<Rightarrow> ([(u, auth)], Err e)
     | Ok (Body body) \<Rightarrow> ([(u, auth)], Ok body)
     | Ok (Redirect location) \<Rightarrow>
         (case hops of
            0 \<Rightarrow> ([(u, auth)], http_error ''redirect limit exceeded'')
          | Suc left \<Rightarrow>
              (case redirect u location of
                 Panic \<Rightarrow> ([(u, auth)], Panic)
               | Err e \<Rightarrow> ([(u, auth)], Err e)
               | Ok v \<Rightarrow>
                   if v \<in> set visited then ([(u, auth)], http_error ''redirect loop'')
                   else (case follow_from left fetch v (if same_origin u v then auth else None) (visited @ [v]) of
                           (log, r) \<Rightarrow> ((u, auth) # log, r)))))"

declare follow_from.simps [simp del]

definition follow_redirects ::
  "fetcher \<Rightarrow> ustring \<Rightarrow> ustring option \<Rightarrow> (https_url \<times> ustring option) list \<times> (bytes, update_err) outcome" where
  "follow_redirects fetch url token =
    (case parse_https url of
       Panic \<Rightarrow> ([], Panic)
     | Err e \<Rightarrow> ([], Err e)
     | Ok u \<Rightarrow>
         (let auth = (if github_auth u then token else None)
          in if (case auth of Some t \<Rightarrow> list_ex (\<lambda>b. b \<le> 0x20 \<or> 0x7F \<le> b) (as_bytes t) | None \<Rightarrow> False)
             then ([], http_error ''invalid authentication token'')
             else follow_from max_redirects fetch u auth [u]))"

section \<open>One exchange\<close>

definition update_request :: "ustring \<Rightarrow> https_url \<Rightarrow> ustring option \<Rightarrow> bytes" where
  "update_request version u token =
    as_bytes (ustr ''GET '' @ hu_target u @ ustr '' HTTP/1.1'' @ [0x0D, 0x0A] @
      ustr ''Host: '' @ (if hu_port u = 443 then hu_host u else hu_host u @ [0x3A] @ dec (hu_port u)) @ [0x0D, 0x0A] @
      ustr ''User-Agent: komari-agent-rs/'' @ version @ [0x0D, 0x0A] @
      ustr ''Accept: */*'' @ [0x0D, 0x0A] @ ustr ''Accept-Encoding: identity'' @ [0x0D, 0x0A] @
      ustr ''Connection: close'' @ [0x0D, 0x0A] @
      (case token of Some t \<Rightarrow> ustr ''Authorization: Bearer '' @ t @ [0x0D, 0x0A] | None \<Rightarrow> []) @ [0x0D, 0x0A])"

text \<open>What can be read: bytes, then the end or an error.\<close>

type_synonym update_source = "bytes \<times> ustring option"

definition limited_line :: "nat \<Rightarrow> update_source \<Rightarrow> (ustring \<times> nat \<times> update_source, update_err) outcome" where
  "limited_line remaining src =
    (let (bs, e) = src;
         window = take (remaining + 1) bs;
         line = (case split_first (\<lambda>b. b = 0x0A) window of Some (a, _) \<Rightarrow> a @ [0x0A] | None \<Rightarrow> window)
     in if 0x0A \<notin> set window \<and> length bs \<le> remaining \<and> e \<noteq> None then Err (UIo (the e))
        else if length line > remaining \<or> strip_suffix_opt [0x0D, 0x0A] line = None
        then http_error ''invalid or oversized HTTP headers''
        else case from_utf8 (take (length line - 2) line) of
               None \<Rightarrow> http_error ''invalid HTTP header encoding''
             | Some s \<Rightarrow> Ok (s, remaining - length line, (drop (length line) bs, e)))"

definition read_exact :: "nat \<Rightarrow> update_source \<Rightarrow> (bytes \<times> update_source, update_err) outcome" where
  "read_exact n src =
    (let (bs, e) = src
     in if n \<le> length bs then Ok (take n bs, (drop n bs, e))
        else Err (UIo (case e of Some m \<Rightarrow> m | None \<Rightarrow> ustr ''failed to fill whole buffer'')))"

record update_headers =
  uh_length :: "nat option"
  uh_location :: "ustring option"
  uh_chunked :: bool

definition update_header :: "nat \<Rightarrow> ustring \<Rightarrow> update_headers \<Rightarrow> (update_headers, update_err) outcome" where
  "update_header limit line h =
    (case split_first (\<lambda>c. c = 0x3A) line of
       None \<Rightarrow> http_error ''malformed HTTP header''
     | Some (key, raw) \<Rightarrow>
         (let v = trim raw
          in if eq_ignore_case key (ustr ''location'')
             then (if uh_location h \<noteq> None then http_error ''duplicate redirect location'' else Ok (h\<lparr>uh_location := Some v\<rparr>))
             else if eq_ignore_case key (ustr ''content-length'')
             then (case parse_unsigned (2 ^ 64 - 1) v of
                     None \<Rightarrow> http_error ''invalid content length''
                   | Some n \<Rightarrow>
                       if uh_length h \<noteq> None \<or> n > limit then http_error ''duplicate or oversized content length''
                       else Ok (h\<lparr>uh_length := Some n\<rparr>))
             else if eq_ignore_case key (ustr ''transfer-encoding'')
             then (if uh_chunked h \<or> \<not> eq_ignore_case v (ustr ''chunked'') then http_error ''unsupported transfer encoding''
                   else Ok (h\<lparr>uh_chunked := True\<rparr>))
             else if eq_ignore_case key (ustr ''content-encoding'') \<and> \<not> eq_ignore_case v (ustr ''identity'')
             then http_error ''unsupported content encoding''
             else Ok h))"

lemma limited_line_shrinks:
  assumes "limited_line remaining src = Ok (s, left, src')"
  shows "length (fst src') < length (fst src) \<and> left < remaining \<and>
    remaining - left = length (fst src) - length (fst src') \<and> snd src' = snd src"
proof -
  obtain bs e where src: "src = (bs, e)" by fastforce
  let ?w = "take (remaining + 1) bs"
  define line where "line = (case split_first (\<lambda>b. b = 0x0A) ?w of Some (a, _) \<Rightarrow> a @ [0x0A] | None \<Rightarrow> ?w)"
  have "length line \<le> length ?w"
  proof (cases "split_first (\<lambda>b. b = 0x0A) ?w")
    case None
    then show ?thesis by (simp add: line_def)
  next
    case (Some p)
    obtain a c where p: "p = (a, c)" by fastforce
    have "\<exists>x. ?w = a @ x # c \<and> x = 0x0A \<and> (\<forall>y\<in>set a. y \<noteq> 0x0A)"
      by (rule iffD1 [OF split_first_eq_Some Some [unfolded p]])
    then obtain x where "?w = a @ x # c" by blast
    moreover have "line = a @ [0x0A]" unfolding line_def Some p by simp
    ultimately have "length ?w = length line + length c" by (simp only: length_append list.size)
    then show ?thesis by simp
  qed
  then have l: "length line \<le> length bs" by simp
  have r: "length line \<le> remaining" "strip_suffix_opt [0x0D, 0x0A] line \<noteq> None" "left = remaining - length line" "src' = (drop (length line) bs, e)"
    using assms unfolding limited_line_def src line_def [symmetric] Let_def prod.case
    by (auto simp: http_error_def split: if_splits option.splits)
  have "2 \<le> length line" using r(2) by (auto simp: strip_suffix_eq_Some)
  with l r src show ?thesis by auto
qed

text \<open>Chunks: framing lines are counted against the headers' budget, the contents against the limit.\<close>

definition parse_hex :: "nat \<Rightarrow> ustring \<Rightarrow> nat option" where
  "parse_hex hi s =
    (let ds = (case s of [] \<Rightarrow> [] | c # cs \<Rightarrow> if c = 0x2B then cs else s)
     in if ds = [] \<or> \<not> list_all is_hex_char ds \<or> hex_number ds > hi then None else Some (hex_number ds))"

function trailer_lines :: "nat \<Rightarrow> update_source \<Rightarrow> (unit, update_err) outcome" where
  "trailer_lines remaining src =
    (case limited_line remaining src of
       Ok (line, left, src1) \<Rightarrow> if line = [] then Ok () else trailer_lines left src1
     | Err e \<Rightarrow> Err e
     | Panic \<Rightarrow> Panic)"
  by auto
termination trailer_lines
  by (relation "measure (\<lambda>(remaining, src). length (fst src))") (use limited_line_shrinks in auto)

declare trailer_lines.simps [simp del]

lemma read_exact_shrinks: "read_exact n src = Ok (x, src') \<Longrightarrow> length x = n \<and> length (fst src') + n = length (fst src)"
  by (auto simp: read_exact_def split: prod.splits if_splits)

function update_chunks :: "nat \<Rightarrow> nat \<Rightarrow> bytes \<Rightarrow> update_source \<Rightarrow> (bytes, update_err) outcome" where
  "update_chunks limit remaining body src =
    (case limited_line remaining src of
       Err e \<Rightarrow> Err e
     | Panic \<Rightarrow> Panic
     | Ok (line, left, src1) \<Rightarrow>
         (case parse_hex (2 ^ 64 - 1) (trim (takeWhile (\<lambda>c. c \<noteq> 0x3B) line)) of
            None \<Rightarrow> http_error ''invalid chunk size''
          | Some n \<Rightarrow>
              if n = 0 then and_then (trailer_lines left src1) (\<lambda>_. Ok body)
              else if n > limit - length body then http_error ''body limit exceeded''
              else (case read_exact n src1 of
                      Err e \<Rightarrow> Err e
                    | Panic \<Rightarrow> Panic
                    | Ok (chunk, src2) \<Rightarrow>
                        (case read_exact 2 src2 of
                           Err e \<Rightarrow> Err e
                         | Panic \<Rightarrow> Panic
                         | Ok (ending, src3) \<Rightarrow>
                             if ending \<noteq> [0x0D, 0x0A] then http_error ''invalid chunk ending''
                             else if left < 2 then http_error ''chunk framing limit exceeded''
                             else update_chunks limit (left - 2) (body @ chunk) src3))))"
  by auto
termination update_chunks
  by (relation "measure (\<lambda>(limit, remaining, body, src). length (fst src))")
    (auto dest!: limited_line_shrinks read_exact_shrinks)

declare update_chunks.simps [simp del]

function update_headers_loop ::
  "nat \<Rightarrow> nat \<Rightarrow> update_headers \<Rightarrow> update_source \<Rightarrow> (update_headers \<times> nat \<times> update_source, update_err) outcome" where
  "update_headers_loop limit remaining h src =
    (case limited_line remaining src of
       Err e \<Rightarrow> Err e
     | Panic \<Rightarrow> Panic
     | Ok (line, left, src1) \<Rightarrow>
         if line = [] then Ok (h, left, src1)
         else (case update_header limit line h of
                 Err e \<Rightarrow> Err e | Panic \<Rightarrow> Panic | Ok h1 \<Rightarrow> update_headers_loop limit left h1 src1))"
  by auto
termination update_headers_loop
  by (relation "measure (\<lambda>(limit, remaining, h, src). length (fst src))") (use limited_line_shrinks in auto)

declare update_headers_loop.simps [simp del]

definition update_status :: "ustring \<Rightarrow> (nat, update_err) outcome" where
  "update_status line =
    (case split_whitespace line of
       v # parts \<Rightarrow>
         if v \<noteq> ustr ''HTTP/1.0'' \<and> v \<noteq> ustr ''HTTP/1.1'' then http_error ''invalid HTTP version''
         else (case parts of
                 p # _ \<Rightarrow> (case parse_unsigned 65535 p of Some n \<Rightarrow> Ok n | None \<Rightarrow> http_error ''invalid HTTP status'')
               | [] \<Rightarrow> http_error ''invalid HTTP status'')
     | [] \<Rightarrow> http_error ''invalid HTTP version'')"

definition update_body :: "nat \<Rightarrow> nat \<Rightarrow> update_headers \<Rightarrow> update_source \<Rightarrow> (bytes, update_err) outcome" where
  "update_body limit remaining h src =
    (if uh_chunked h then update_chunks limit remaining [] src
     else case uh_length h of
       Some n \<Rightarrow> and_then (read_exact n src) (\<lambda>(body, _). Ok body)
     | None \<Rightarrow>
         (let (bs, e) = src
          in if length bs > limit then http_error ''body limit exceeded''
             else case e of Some m \<Rightarrow> Err (UIo m) | None \<Rightarrow> Ok bs))"

definition read_update_response :: "update_source \<Rightarrow> nat \<Rightarrow> (fetched, update_err) outcome" where
  "read_update_response src limit =
    and_then (limited_line max_headers src) (\<lambda>(line, left, src1).
    and_then (update_status line) (\<lambda>status.
    and_then (update_headers_loop limit left \<lparr>uh_length = None, uh_location = None, uh_chunked = False\<rparr> src1) (\<lambda>(h, left2, src2).
    if status \<in> {301, 302, 303, 307, 308}
    then (case uh_location h of Some l \<Rightarrow> Ok (Redirect l) | None \<Rightarrow> http_error ''redirect without location'')
    else if status \<noteq> 200 then Err (UHttp (ustr ''status '' @ dec status))
    else if uh_chunked h \<and> uh_length h \<noteq> None then http_error ''ambiguous HTTP body framing''
    else and_then (update_body limit left2 h src2) (\<lambda>body. Ok (Body body)))))"

text \<open>Name resolution, the TCP and TLS connection, and writing the request, then what can be read.\<close>

type_synonym update_network = "https_url \<Rightarrow> bytes \<Rightarrow> (update_source, update_err) outcome"

definition https_fetch :: "update_network \<Rightarrow> ustring \<Rightarrow> nat \<Rightarrow> fetcher" where
  "https_fetch net version limit u token =
    and_then (net u (update_request version u token)) (\<lambda>src. read_update_response src limit)"

definition https_download ::
  "update_network \<Rightarrow> ustring \<Rightarrow> ustring \<Rightarrow> ustring option \<Rightarrow> nat \<Rightarrow> (bytes, update_err) outcome" where
  "https_download net version url token limit = snd (follow_redirects (https_fetch net version limit) url token)"

end
