(* ===== verification/Update.thy ===== *)
theory Update
  imports UpdateHttp
begin

text \<open>
  \<open>update.rs\<close>: which release to install, its checksum, the installation of a verified binary next to
  the running one, and the update at start and on request.
\<close>

section \<open>Releases\<close>

definition json_str :: "bytes \<Rightarrow> string \<Rightarrow> ustring option" where
  "json_str json key = (case object_field json (ustr key) of None \<Rightarrow> None | Some v \<Rightarrow> decode_json_string v)"

definition skip_while :: "(u8 \<Rightarrow> bool) \<Rightarrow> bytes \<Rightarrow> nat \<Rightarrow> nat" where
  "skip_while P b i = i + length (takeWhile P (drop i b))"

lemma skip_while_ge: "i \<le> skip_while P b i"
  by (simp add: skip_while_def)

text \<open>
  Positions are in \<open>assets\<close>; \<open>found\<close> is the link of the asset met so far.  \<open>None\<close> in the inner result
  ends the search without an answer.
\<close>

definition asset_link :: "bytes \<Rightarrow> ustring \<Rightarrow> ustring option \<Rightarrow> ustring option option" where
  "asset_link asset name found =
    (if take 1 asset \<noteq> [0x7B] \<or> strip_suffix_opt [0x7D] asset = None then None
     else case json_str asset ''name'' of
       None \<Rightarrow> None
     | Some n \<Rightarrow>
         if n = name
         then (if found \<noteq> None then None else map_option Some (json_str asset ''browser_download_url''))
         else Some found)"

function asset_loop :: "bytes \<Rightarrow> ustring \<Rightarrow> nat \<Rightarrow> ustring option \<Rightarrow> ustring option" where
  "asset_loop assets name pos found =
    (let p = skip_while ascii_ws assets pos
     in if p \<ge> length assets then found
        else let e = skip_value assets p
          in if e \<le> p then None
             else case asset_link (slice_of p e assets) name found of
                    None \<Rightarrow> None
                  | Some found1 \<Rightarrow>
                      (let q = skip_while ascii_ws assets e
                       in if q \<ge> length assets then found1
                          else if assets ! q \<noteq> 0x2C \<or> list_all ascii_ws (drop (q + 1) assets) then None
                          else asset_loop assets name (q + 1) found1))"
  by auto
termination asset_loop
proof (relation "measure (\<lambda>(assets, name, pos, found). length assets - pos)")
  fix assets :: bytes and name :: ustring and pos p e q :: nat and found found1 :: "ustring option"
  assume "p = skip_while ascii_ws assets pos" "\<not> length assets \<le> p" "\<not> e \<le> p" "q = skip_while ascii_ws assets e" "\<not> length assets \<le> q"
  moreover have "pos \<le> skip_while ascii_ws assets pos" "e \<le> skip_while ascii_ws assets e" by (rule skip_while_ge)+
  ultimately show "((assets, name, q + 1, found1), assets, name, pos, found) \<in> measure (\<lambda>(assets, name, pos, found). length assets - pos)"
    by simp
qed simp

declare asset_loop.simps [simp del]

definition array_members :: "bytes \<Rightarrow> bytes option" where
  "array_members v = (case strip_prefix_opt [0x5B] v of None \<Rightarrow> None | Some w \<Rightarrow> strip_suffix_opt [0x5D] w)"

definition json_asset_url :: "bytes \<Rightarrow> ustring \<Rightarrow> ustring option" where
  "json_asset_url json name =
    (case object_field json (ustr ''assets'') of
       None \<Rightarrow> None
     | Some v \<Rightarrow> (case array_members v of None \<Rightarrow> None | Some assets \<Rightarrow> asset_loop assets name 0 None))"

section \<open>Versions\<close>

type_synonym version = "nat \<times> nat \<times> nat"

definition semver_part :: "ustring \<Rightarrow> nat option" where
  "semver_part s =
    (if s = [] \<or> \<not> list_all dec_digit s \<or> length s > 1 \<and> hd s = 0x30 then None else parse_unsigned (2 ^ 64 - 1) s)"

definition parse_semver :: "ustring \<Rightarrow> version option" where
  "parse_semver s =
    (case split_all (\<lambda>c. c = 0x2E) s of
       [a, b, c] \<Rightarrow>
         (case (semver_part a, semver_part b, semver_part c) of
            (Some x, Some y, Some z) \<Rightarrow> Some (x, y, z)
          | _ \<Rightarrow> None)
     | _ \<Rightarrow> None)"

fun version_less :: "version \<Rightarrow> version \<Rightarrow> bool" where
  "version_less (a, b, c) (x, y, z) \<longleftrightarrow> a < x \<or> a = x \<and> (b < y \<or> b = y \<and> c < z)"

definition semver_gt :: "ustring \<Rightarrow> ustring \<Rightarrow> bool" where
  "semver_gt a b = (case (parse_semver a, parse_semver b) of (Some x, Some y) \<Rightarrow> version_less y x | _ \<Rightarrow> False)"

definition number_is :: "ustring \<Rightarrow> nat \<Rightarrow> bool" where
  "number_is s n \<longleftrightarrow> parse_unsigned (2 ^ 64 - 1) s = Some n"

definition version_matches_target :: "ustring \<Rightarrow> version \<Rightarrow> ustring \<Rightarrow> bool" where
  "version_matches_target version parsed target =
    (if eq_ignore_case target (ustr ''latest'') then True
     else let prefix = (case strip_suffix_opt (ustr ''.*'') target of Some p \<Rightarrow> p | None \<Rightarrow> target)
          in case split_all (\<lambda>c. c = 0x2E) prefix of
               [major] \<Rightarrow> number_is major (fst parsed)
             | [major, minor] \<Rightarrow> number_is major (fst parsed) \<and> number_is minor (fst (snd parsed))
             | [_, _, _] \<Rightarrow> version = target
             | _ \<Rightarrow> False)"

definition strip_v :: "ustring \<Rightarrow> ustring" where
  "strip_v s = (case s of c # cs \<Rightarrow> if c = 0x76 \<or> c = 0x56 then cs else s | [] \<Rightarrow> s)"

type_synonym selection = "version \<times> ustring \<times> ustring \<times> ustring"

definition checksums_asset :: ustring where "checksums_asset = ustr ''checksums.txt''"

text \<open>What one release does to the selection; \<open>None\<close> gives up.\<close>

definition consider_release :: "ustring \<Rightarrow> ustring \<Rightarrow> bytes \<Rightarrow> selection option \<Rightarrow> selection option option" where
  "consider_release asset_name target release selected =
    (if object_field release (ustr ''prerelease'') = Some (lit ''true'') \<or> object_field release (ustr ''draft'') = Some (lit ''true'')
     then Some selected
     else case json_str release ''tag_name'' of
       None \<Rightarrow> None
     | Some tag \<Rightarrow>
         (let version = strip_v tag
          in case parse_semver version of
               None \<Rightarrow> Some selected
             | Some key \<Rightarrow>
                 if \<not> version_matches_target version key target then Some selected
                 else (case (json_asset_url release asset_name, json_asset_url release checksums_asset) of
                         (Some asset, Some sums) \<Rightarrow>
                           if (case selected of None \<Rightarrow> True | Some (current, _) \<Rightarrow> version_less current key)
                           then Some (Some (key, version, asset, sums)) else Some selected
                       | _ \<Rightarrow> Some selected)))"

function release_loop :: "ustring \<Rightarrow> ustring \<Rightarrow> bytes \<Rightarrow> nat \<Rightarrow> selection option \<Rightarrow> selection option" where
  "release_loop asset_name target members pos selected =
    (let p = skip_while (\<lambda>b. ascii_ws b \<or> b = 0x2C) members pos
     in if p \<ge> length members then selected
        else let e = skip_value members p; release = slice_of p e members
          in if e \<le> p \<or> from_utf8 release = None then None
             else case consider_release asset_name target release selected of
                    None \<Rightarrow> None
                  | Some selected1 \<Rightarrow> release_loop asset_name target members e selected1)"
  by auto
termination release_loop
proof (relation "measure (\<lambda>(asset_name, target, members, pos, selected). length members - pos)")
  fix asset_name target :: ustring and members release :: bytes and pos p e :: nat and selected selected1 :: "selection option"
  assume "p = skip_while (\<lambda>b. ascii_ws b \<or> b = 0x2C) members pos" "\<not> length members \<le> p" "\<not> (e \<le> p \<or> from_utf8 release = None)"
  moreover have "pos \<le> skip_while (\<lambda>b. ascii_ws b \<or> b = 0x2C) members pos" by (rule skip_while_ge)
  ultimately show "((asset_name, target, members, e, selected1), asset_name, target, members, pos, selected)
      \<in> measure (\<lambda>(asset_name, target, members, pos, selected). length members - pos)"
    by auto
qed simp

declare release_loop.simps [simp del]

definition select_release :: "ustring \<Rightarrow> bytes \<Rightarrow> ustring \<Rightarrow> (ustring \<times> ustring \<times> ustring) option" where
  "select_release asset_name json target =
    (case array_members (trim_ascii json) of
       None \<Rightarrow> None
     | Some members \<Rightarrow> map_option snd (release_loop asset_name target members 0 None))"

definition platform_asset_for :: "string \<Rightarrow> string \<Rightarrow> ustring" where
  "platform_asset_for os arch =
    (if (os, arch) = (''linux'', ''x86_64'') then ustr ''komari-agent-rs-linux-x86_64-full''
     else if (os, arch) = (''linux'', ''aarch64'') then ustr ''komari-agent-rs-linux-arm64-full''
     else if (os, arch) = (''windows'', ''x86_64'') then ustr ''komari-agent-rs-windows-x86_64.exe''
     else if (os, arch) = (''macos'', ''x86_64'') then ustr ''komari-agent-rs-macos-x86_64''
     else if (os, arch) = (''macos'', ''aarch64'') then ustr ''komari-agent-rs-macos-arm64''
     else if (os, arch) = (''freebsd'', ''x86_64'') then ustr ''komari-agent-rs-freebsd-x86_64''
     else ustr ''komari-agent-rs-unknown'')"

section \<open>Checksums\<close>

fun checksum_lines :: "ustring \<Rightarrow> ustring option \<Rightarrow> ustring list \<Rightarrow> ustring option" where
  "checksum_lines name found [] = found"
| "checksum_lines name found (line # lines) =
    (case split_whitespace line of
       hash # file # others \<Rightarrow>
         if (case strip_prefix_opt [0x2A] file of Some f \<Rightarrow> f | None \<Rightarrow> file) \<noteq> name then checksum_lines name found lines
         else if found \<noteq> None \<or> others \<noteq> [] \<or> length (as_bytes hash) \<noteq> 64 \<or> \<not> list_all is_hex_char hash then None
         else checksum_lines name (Some hash) lines
     | _ \<Rightarrow> checksum_lines name found lines)"

definition find_checksum :: "ustring \<Rightarrow> ustring \<Rightarrow> ustring option" where
  "find_checksum sums name = checksum_lines name None (lines_of sums)"

definition hex_byte :: "u8 \<Rightarrow> ustring" where
  "hex_byte b = map (\<lambda>n. if n < 10 then 0x30 + n else 0x57 + n) [unat b div 16, unat b mod 16]"

text \<open>The digest is the library's; its hexadecimal form is the agent's.\<close>

definition sha256_hex :: "(bytes \<Rightarrow> bytes) \<Rightarrow> bytes \<Rightarrow> ustring" where
  "sha256_hex sha256 contents = concat (map hex_byte (sha256 contents))"

section \<open>Installation\<close>

text \<open>
  The results of the system calls in the order they are made, and the disk after each of them and at
  every moment of the write; the last disk is the one left behind.  A hard link is a copy here:
  neither name is written through afterwards.
\<close>

record install_host =
  ih_create :: "ustring option"
  ih_write :: "(nat \<times> ustring) option"
  ih_mode :: "ustring option"
  ih_sync :: "ustring option"
  ih_remove_old :: "ustring option"
  ih_link :: "ustring option"
  ih_rename :: "ustring option"
  ih_cleanup :: bool

type_synonym 'a disk_run = "('a, update_err) outcome \<times> disk list"

definition sidecar :: "ustring \<Rightarrow> string \<Rightarrow> ustring" where
  "sidecar exe ext = exe @ ustr ext"

text \<open>After the binary is staged and closed: drop the backup, keep the running one as backup, replace it.\<close>

definition swap_in :: "install_host \<Rightarrow> ustring \<Rightarrow> ustring \<Rightarrow> ustring \<Rightarrow> disk \<Rightarrow> unit disk_run" where
  "swap_in h exe new old d =
    (case ih_remove_old h of
       Some e \<Rightarrow> (Err (UIo e), [])
     | None \<Rightarrow>
         (let d1 = d(old := None)
          in case ih_link h of
               Some e \<Rightarrow> (Err (UIo e), [d1])
             | None \<Rightarrow>
                 if d1 exe = None then (Err (UIo (ustr ''No such file or directory'')), [d1])
                 else let d2 = d1(old := d1 exe)
                   in case ih_rename h of
                        Some e \<Rightarrow> (Err (UIo e), [d1, d2])
                      | None \<Rightarrow> (Ok (), [d1, d2, d2(exe := d2 new, new := None)])))"

definition stage_and_swap :: "install_host \<Rightarrow> ustring \<Rightarrow> ustring \<Rightarrow> ustring \<Rightarrow> bytes \<Rightarrow> disk \<Rightarrow> unit disk_run" where
  "stage_and_swap h exe new old bin d =
    (let written = (\<lambda>n. map (\<lambda>k. d(new \<mapsto> take k bin)) [0..<Suc n]);
         staged = d(new \<mapsto> bin)
     in case ih_write h of
          Some (k, e) \<Rightarrow> (Err (UIo e), written (min k (length bin)))
        | None \<Rightarrow>
            (case ih_mode h of
               Some e \<Rightarrow> (Err (UIo e), written (length bin))
             | None \<Rightarrow>
                 (case ih_sync h of
                    Some e \<Rightarrow> (Err (UIo e), written (length bin))
                  | None \<Rightarrow> (case swap_in h exe new old staged of (r, ds) \<Rightarrow> (r, written (length bin) @ ds)))))"

definition install_verified_binary ::
  "install_host \<Rightarrow> (bytes \<Rightarrow> bytes) \<Rightarrow> ustring \<Rightarrow> bytes \<Rightarrow> ustring \<Rightarrow> disk \<Rightarrow> ustring disk_run" where
  "install_verified_binary h sha256 exe bin expected d =
    (let new = sidecar exe ''.new''; old = sidecar exe ''.old''
     in if bin = [] \<or> \<not> eq_ignore_case (sha256_hex sha256 bin) expected
        then (Err (UOther (ustr ''empty binary or SHA256 mismatch'')), [d])
        else if d new \<noteq> None then (Err (UIo (ustr ''File exists'')), [d])
        else case ih_create h of
               Some e \<Rightarrow> (Err (UIo e), [d])
             | None \<Rightarrow>
                 (case stage_and_swap h exe new old bin d of
                    (Ok _, ds) \<Rightarrow> (Ok old, d # ds)
                  | (Err e, ds) \<Rightarrow> (Err e, d # ds @ [if ih_cleanup h then (last ds)(new := None) else last ds])
                  | (Panic, ds) \<Rightarrow> (Panic, d # ds)))"

text \<open>Without atomic replacement: move the running binary away, the new one in, and back when that fails.\<close>

definition move_file :: "ustring \<Rightarrow> ustring \<Rightarrow> disk \<Rightarrow> disk" where
  "move_file a b d = d(b := d a, a := None)"

definition replace_with_rollback ::
  "ustring \<Rightarrow> ustring \<Rightarrow> ustring \<Rightarrow> ustring option \<times> ustring option \<times> ustring option \<Rightarrow> disk \<Rightarrow> unit disk_run" where
  "replace_with_rollback exe new old results d =
    (case results of (first, second, third) \<Rightarrow>
       (case first of
          Some e \<Rightarrow> (Err (UIo e), [d])
        | None \<Rightarrow>
            (let d1 = move_file exe old d
             in case second of
                  None \<Rightarrow> (Ok (), [d, d1, move_file new exe d1])
                | Some e \<Rightarrow>
                    (case third of
                       Some _ \<Rightarrow> (Err (UOther (ustr ''install and rollback failed; previous executable retained in .old'')), [d, d1])
                     | None \<Rightarrow> (Err (UIo e), [d, d1, move_file old exe d1])))))"

definition restore_after_failed_exec :: "ustring \<Rightarrow> ustring \<Rightarrow> bool \<Rightarrow> ustring \<Rightarrow> disk \<Rightarrow> update_err \<times> disk" where
  "restore_after_failed_exec exe old renamed e d =
    (if renamed then (UOther (ustr ''re-exec failed; rolled back: '' @ e), move_file old exe d)
     else (UOther (ustr ''re-exec and rollback failed; previous executable retained in .old''), d))"

section \<open>Updating\<close>

record update_host =
  up_tls :: "ustring option"
  up_net :: update_network
  up_token :: "ustring option"
  up_exe :: "(ustring, ustring) outcome"
  up_disk :: disk
  up_install :: install_host
  up_sha256 :: "bytes \<Rightarrow> bytes"
  up_platform :: "string \<times> string"
  up_exec :: "ustring option"
  up_restored :: bool

text \<open>\<open>up_exec\<close>: the error of a failed \<open>exec\<close>; a successful one does not return.\<close>

datatype update_end = Unchanged | Replaced | UpdateFailed update_err | UpdateCrash

definition download :: "update_host \<Rightarrow> ustring \<Rightarrow> ustring \<Rightarrow> nat \<Rightarrow> (bytes, update_err) outcome" where
  "download h version url limit = https_download (up_net h) version url (up_token h) limit"

definition max_json :: nat where "max_json = 1024 * 1024"
definition max_manifest :: nat where "max_manifest = 64 * 1024"
definition max_binary :: nat where "max_binary = 8 * 1024 * 1024"

definition fetch_text :: "update_host \<Rightarrow> ustring \<Rightarrow> ustring \<Rightarrow> nat \<Rightarrow> update_err \<Rightarrow> (ustring, update_err) outcome" where
  "fetch_text h version url limit not_text =
    and_then (download h version url limit) (\<lambda>bs. ok_or not_text (from_utf8 bs))"

text \<open>The binary that the manifest vouches for.\<close>

definition fetch_binary :: "update_host \<Rightarrow> ustring \<Rightarrow> ustring \<Rightarrow> ustring \<Rightarrow> (bytes \<times> ustring, update_err) outcome" where
  "fetch_binary h version asset_url sums_url =
    (let name = platform_asset_for (fst (up_platform h)) (snd (up_platform h))
     in and_then (fetch_text h version sums_url max_manifest (UOther (ustr ''checksums.txt is not UTF-8''))) (\<lambda>sums.
        and_then (ok_or (UOther (ustr ''missing or invalid checksum for '' @ name)) (find_checksum sums name)) (\<lambda>expected.
        and_then (download h version asset_url max_binary) (\<lambda>bin. Ok (bin, expected)))))"

definition install_release :: "update_host \<Rightarrow> ustring \<Rightarrow> ustring \<Rightarrow> ustring \<Rightarrow> update_end \<times> disk list" where
  "install_release h version asset_url sums_url =
    (case and_then (fetch_binary h version asset_url sums_url) (\<lambda>x.
        and_then (case up_exe h of Ok p \<Rightarrow> Ok p | Err e \<Rightarrow> Err (UIo e) | Panic \<Rightarrow> Panic) (\<lambda>exe. Ok (x, exe))) of
       Err e \<Rightarrow> (UpdateFailed e, [up_disk h])
     | Panic \<Rightarrow> (UpdateCrash, [up_disk h])
     | Ok ((bin, expected), exe) \<Rightarrow>
         (case install_verified_binary (up_install h) (up_sha256 h) exe bin expected (up_disk h) of
            (Err e, ds) \<Rightarrow> (UpdateFailed e, ds)
          | (Panic, ds) \<Rightarrow> (UpdateCrash, ds)
          | (Ok old, ds) \<Rightarrow>
              (case up_exec h of
                 None \<Rightarrow> (Replaced, ds)
               | Some e \<Rightarrow>
                   (case restore_after_failed_exec exe old (up_restored h) e (last ds) of
                      (err, d) \<Rightarrow> (UpdateFailed err, ds @ [d])))))"

definition latest_url :: ustring where
  "latest_url = ustr ''https://api.github.com/repos/DeliciousBuding/komari-agent-rs/releases/latest''"

definition releases_url :: ustring where
  "releases_url = ustr ''https://api.github.com/repos/DeliciousBuding/komari-agent-rs/releases?per_page=100''"

definition release_json :: "update_host \<Rightarrow> ustring \<Rightarrow> ustring \<Rightarrow> (bytes, update_err) outcome" where
  "release_json h version url =
    (case up_tls h of
       Some e \<Rightarrow> Err (UOther e)
     | None \<Rightarrow> and_then (fetch_text h version url max_json (UHttp (ustr ''release JSON is not UTF-8''))) (\<lambda>s. Ok (as_bytes s)))"

definition check_and_update :: "update_host \<Rightarrow> ustring \<Rightarrow> config \<Rightarrow> update_end \<times> disk list" where
  "check_and_update h current c =
    (if cf_disable_auto_update c then (Unchanged, [up_disk h])
     else let name = platform_asset_for (fst (up_platform h)) (snd (up_platform h));
              plan = and_then (release_json h current latest_url) (\<lambda>json.
                and_then (ok_or (UOther (ustr ''missing tag_name in release JSON'')) (json_str json ''tag_name'')) (\<lambda>tag.
                if \<not> semver_gt (case strip_prefix_opt (ustr ''v'') tag of Some t \<Rightarrow> t | None \<Rightarrow> tag) current then Ok None
                else and_then (ok_or (UOther (ustr ''no asset: '' @ name)) (json_asset_url json name)) (\<lambda>dl_url.
                     and_then (ok_or (UOther (ustr ''no checksums.txt asset'')) (json_asset_url json checksums_asset)) (\<lambda>sums_url.
                     Ok (Some (dl_url, sums_url))))))
          in case plan of
               Err e \<Rightarrow> (UpdateFailed e, [up_disk h])
             | Panic \<Rightarrow> (UpdateCrash, [up_disk h])
             | Ok None \<Rightarrow> (Unchanged, [up_disk h])
             | Ok (Some (dl_url, sums_url)) \<Rightarrow> install_release h current dl_url sums_url)"

definition trim_vs :: "ustring \<Rightarrow> ustring" where
  "trim_vs s = trim_start_by (\<lambda>c. c = 0x76 \<or> c = 0x56) (trim s)"

definition check_and_update_target :: "update_host \<Rightarrow> ustring \<Rightarrow> ustring \<Rightarrow> update_end \<times> disk list" where
  "check_and_update_target h current0 target0 =
    (let target = trim_vs target0; current = trim_vs current0;
         name = platform_asset_for (fst (up_platform h)) (snd (up_platform h))
     in if target = [] then (UpdateFailed (UOther (ustr ''empty requested version'')), [up_disk h])
        else if parse_semver target \<noteq> None \<and> target = current then (Unchanged, [up_disk h])
        else case release_json h current0 releases_url of
               Err e \<Rightarrow> (UpdateFailed e, [up_disk h])
             | Panic \<Rightarrow> (UpdateCrash, [up_disk h])
             | Ok json \<Rightarrow>
                 (case select_release name json target of
                    None \<Rightarrow> (UpdateFailed (UOther (ustr ''no matching stable release'')), [up_disk h])
                  | Some (version, asset_url, sums_url) \<Rightarrow>
                      if version = current then (Unchanged, [up_disk h])
                      else install_release h current0 asset_url sums_url))"

end
