(* ===== verification/UpdateSpec.thy ===== *)
theory UpdateSpec
  imports Update
begin

text \<open>
  What an update may do: the disk only ever holds the old executable or a binary the manifest vouches
  for, credentials stay with their origin, versions are compared as numbers.
\<close>

section \<open>Bounds\<close>

lemma update_chunks_bounded:
  "\<lbrakk>length body \<le> limit; update_chunks limit remaining body src = Ok b\<rbrakk> \<Longrightarrow> length b \<le> limit"
proof (induction limit remaining body src rule: update_chunks.induct)
  case (1 limit remaining body src)
  have IH: "\<lbrakk>limited_line remaining src = Ok (line, left, src1);
      parse_hex (2 ^ 64 - 1) (trim (takeWhile (\<lambda>c. c \<noteq> 0x3B) line)) = Some n; n \<noteq> 0; \<not> n > limit - length body;
      read_exact n src1 = Ok (chunk, src2); read_exact 2 src2 = Ok (ending, src3); ending = [0x0D, 0x0A]; \<not> left < 2;
      length (body @ chunk) \<le> limit; update_chunks limit (left - 2) (body @ chunk) src3 = Ok b\<rbrakk> \<Longrightarrow> length b \<le> limit"
    for line left src1 n chunk src2 ending src3
    by (rule "1.IH" [of "(line, left, src1)" line "(left, src1)" left src1 n "(chunk, src2)" chunk src2 "(ending, src3)" ending src3]) simp_all
  show ?case
  proof (cases "limited_line remaining src")
    case (Ok x)
    obtain line left src1 where line: "limited_line remaining src = Ok (line, left, src1)" using Ok by (cases x) auto
    let ?n = "parse_hex (2 ^ 64 - 1) (trim (takeWhile (\<lambda>c. c \<noteq> 0x3B) line))"
    have run: "(case ?n of None \<Rightarrow> http_error ''invalid chunk size''
          | Some n \<Rightarrow>
              if n = 0 then and_then (trailer_lines left src1) (\<lambda>_. Ok body)
              else if n > limit - length body then http_error ''body limit exceeded''
              else (case read_exact n src1 of
                      Err e \<Rightarrow> Err e
                    | Panic \<Rightarrow> Panic
                    | Ok (chunk, src2) \<Rightarrow>
                        (case read_exact 2 src2 of
                           Err e \<Rightarrow> Err e
                         | Panic \<Rightarrow> Panic
                         | Ok (ending, src3) \<Rightarrow>
                             if ending \<noteq> [0x0D, 0x0A] then http_error ''invalid chunk ending''
                             else if left < 2 then http_error ''chunk framing limit exceeded''
                             else update_chunks limit (left - 2) (body @ chunk) src3))) = Ok b"
      using "1.prems"(2) unfolding update_chunks.simps [of limit remaining] line outcome.case prod.case .
    show ?thesis
    proof (cases ?n)
      case None
      then show ?thesis using run by (simp add: http_error_def)
    next
      case (Some n)
      show ?thesis
      proof (cases "n = 0 \<or> n > limit - length body")
        case True
        then show ?thesis using run "1.prems"(1) unfolding Some by (auto simp: and_then_eq_Ok http_error_def split: if_splits)
      next
        case False
        with run obtain chunk src2 where r1: "read_exact n src1 = Ok (chunk, src2)"
          unfolding Some by (auto split: outcome.splits)
        with run False obtain ending src3 where r2: "read_exact 2 src2 = Ok (ending, src3)"
          unfolding Some by (auto split: outcome.splits)
        have "ending = [0x0D, 0x0A]" "\<not> left < 2" "update_chunks limit (left - 2) (body @ chunk) src3 = Ok b"
          using run False unfolding Some r1 r2 option.case outcome.case prod.case by (auto simp: http_error_def split: if_splits)
        moreover have "length (body @ chunk) \<le> limit"
          using read_exact_shrinks [OF r1] False "1.prems"(1) by (auto simp: not_less)
        ultimately show ?thesis using IH [OF line Some _ _ r1 r2] False by simp
      qed
    qed
  qed (use "1.prems"(2) in \<open>subst (asm) update_chunks.simps, simp\<close>)+
qed

lemma update_header_length:
  "\<lbrakk>update_header limit line h = Ok h'; \<forall>n. uh_length h = Some n \<longrightarrow> n \<le> limit\<rbrakk> \<Longrightarrow> \<forall>n. uh_length h' = Some n \<longrightarrow> n \<le> limit"
  unfolding update_header_def Let_def http_error_def by (auto split: option.splits prod.splits if_splits)

lemma update_headers_length:
  "\<lbrakk>update_headers_loop limit remaining h src = Ok (h', left, src'); \<forall>n. uh_length h = Some n \<longrightarrow> n \<le> limit\<rbrakk> \<Longrightarrow>
    \<forall>n. uh_length h' = Some n \<longrightarrow> n \<le> limit"
proof (induction limit remaining h src rule: update_headers_loop.induct)
  case (1 limit remaining h src)
  show ?case
  proof (cases "limited_line remaining src")
    case (Ok x)
    obtain line l src1 where x: "x = (line, l, src1)" by (metis surj_pair)
    show ?thesis
    proof (cases "line = []")
      case True
      then show ?thesis using "1.prems" Ok x by (subst (asm) update_headers_loop.simps) simp
    next
      case False
      then obtain h1 where h1: "update_header limit line h = Ok h1" "update_headers_loop limit l h1 src1 = Ok (h', left, src')"
        using "1.prems"(1) Ok x by (subst (asm) update_headers_loop.simps) (auto split: outcome.splits)
      show ?thesis
        by (rule "1.IH" [OF Ok x [symmetric] refl False h1(1) h1(2) update_header_length [OF h1(1) "1.prems"(2)]])
    qed
  qed (use "1.prems"(1) in \<open>subst (asm) update_headers_loop.simps, simp\<close>)+
qed

lemma read_update_response_bounded:
  assumes "read_update_response src limit = Ok (Body b)"
  shows "length b \<le> limit"
proof -
  obtain left src1 h left2 src2 where
    h: "update_headers_loop limit left \<lparr>uh_length = None, uh_location = None, uh_chunked = False\<rparr> src1 = Ok (h, left2, src2)"
    and b: "update_body limit left2 h src2 = Ok b"
    using assms unfolding read_update_response_def
    by (auto simp: and_then_eq_Ok http_error_def split: if_splits option.splits)
  show ?thesis
  proof (cases "uh_chunked h")
    case True
    then have "update_chunks limit left2 [] src2 = Ok b" using b by (simp add: update_body_def)
    then show ?thesis using update_chunks_bounded [of "[]"] by simp
  next
    case False
    then show ?thesis using b update_headers_length [OF h]
      by (auto simp: update_body_def http_error_def and_then_eq_Ok split: if_splits prod.splits option.splits dest!: read_exact_shrinks)
  qed
qed

lemma follow_from_body:
  "follow_from hops fetch u auth visited = (log, Ok b) \<Longrightarrow> \<exists>v a. fetch v a = Ok (Body b)"
proof (induction hops arbitrary: u auth visited log)
  case 0
  then show ?case by (auto simp: follow_from.simps [of 0] http_error_def split: outcome.splits fetched.splits)
next
  case (Suc hops)
  show ?case
  proof (cases "fetch u auth = Ok (Body b)")
    case False
    then obtain v a vis log' where "follow_from hops fetch v a vis = (log', Ok b)"
      using Suc.prems by (auto simp: follow_from.simps [of "Suc hops"] http_error_def
          split: outcome.splits fetched.splits if_splits prod.splits)
    then show ?thesis by (rule Suc.IH)
  qed blast
qed

lemma download_bounded:
  assumes "download h version url limit = Ok b"
  shows "length b \<le> limit"
proof -
  obtain u auth vs log where "follow_from max_redirects (https_fetch (up_net h) version limit) u auth vs = (log, Ok b)"
    using assms unfolding download_def https_download_def follow_redirects_def http_error_def Let_def
    by (cases "parse_https url") (auto split: if_splits option.splits, (metis prod.collapse)+)
  from follow_from_body [OF this] obtain v a where "https_fetch (up_net h) version limit v a = Ok (Body b)" by blast
  then show ?thesis by (auto simp: https_fetch_def and_then_eq_Ok dest: read_update_response_bounded)
qed

section \<open>Installation\<close>

lemma sidecar_neq [simp]:
  "sidecar exe ''.new'' \<noteq> exe" "exe \<noteq> sidecar exe ''.new''"
  "sidecar exe ''.old'' \<noteq> exe" "exe \<noteq> sidecar exe ''.old''"
  "sidecar exe ''.new'' \<noteq> sidecar exe ''.old''" "sidecar exe ''.old'' \<noteq> sidecar exe ''.new''"
  by (simp_all add: sidecar_def ustr_def)

text \<open>Only the executable and its two companions change, and the executable only to \<open>bin\<close>.\<close>

definition may_become :: "ustring \<Rightarrow> bytes \<Rightarrow> disk \<Rightarrow> disk \<Rightarrow> bool" where
  "may_become exe bin d d' \<longleftrightarrow> (d' exe = d exe \<or> d' exe = Some bin) \<and>
    (\<forall>p. p \<notin> {exe, sidecar exe ''.new'', sidecar exe ''.old''} \<longrightarrow> d' p = d p)"

lemma swap_in_trace:
  assumes run: "swap_in h exe (sidecar exe ''.new'') (sidecar exe ''.old'') d = (r, ds)"
    and staged: "d (sidecar exe ''.new'') = Some bin"
  shows "(\<forall>d'\<in>set ds. may_become exe bin d d') \<and> r \<noteq> Panic \<and>
    (r = Ok () \<longrightarrow> ds \<noteq> [] \<and> last ds exe = Some bin \<and> last ds (sidecar exe ''.old'') = d exe) \<and>
    (r \<noteq> Ok () \<longrightarrow> (\<forall>d'\<in>set ds. d' exe = d exe))"
  using run staged unfolding swap_in_def Let_def
  by (auto simp: may_become_def split: option.splits if_splits)

lemma may_become_trans: "may_become exe bin d d1 \<Longrightarrow> may_become exe bin d1 d2 \<Longrightarrow> may_become exe bin d d2"
  unfolding may_become_def by metis

lemma may_become_refl [simp]: "may_become exe bin d d"
  by (simp add: may_become_def)

lemma may_become_new: "may_become exe bin d (d(sidecar exe ''.new'' := x))"
  by (auto simp: may_become_def)

lemma stage_and_swap_trace:
  assumes run: "stage_and_swap h exe (sidecar exe ''.new'') (sidecar exe ''.old'') bin d = (r, ds)"
  shows "(\<forall>d'\<in>set ds. may_become exe bin d d') \<and> ds \<noteq> [] \<and> r \<noteq> Panic \<and>
    (r = Ok () \<longrightarrow> last ds exe = Some bin \<and> last ds (sidecar exe ''.old'') = d exe) \<and>
    (r \<noteq> Ok () \<longrightarrow> (\<forall>d'\<in>set ds. d' exe = d exe))"
proof -
  let ?new = "sidecar exe ''.new''"
  let ?w = "\<lambda>n. map (\<lambda>k. d(?new \<mapsto> take k bin)) [0..<Suc n]"
  have w: "\<forall>d'\<in>set (?w n). may_become exe bin d d' \<and> d' exe = d exe" "?w n \<noteq> []" for n
    by (auto simp: may_become_new)
  show ?thesis
  proof (cases "ih_write h = None \<and> ih_mode h = None \<and> ih_sync h = None")
    case False
    then have "\<exists>n e. ds = ?w n \<and> r = Err e"
      using run unfolding stage_and_swap_def Let_def by (auto split: option.splits)
    then obtain n e where ds: "ds = ?w n" "r = Err e" by blast
    show ?thesis unfolding ds using w [of n] by (intro conjI impI ballI) blast+
  next
    case True
    obtain r' es where s: "swap_in h exe ?new (sidecar exe ''.old'') (d(?new \<mapsto> bin)) = (r', es)" by fastforce
    have run': "r = r'" "ds = ?w (length bin) @ es"
      using run True s unfolding stage_and_swap_def Let_def by auto
    note t = swap_in_trace [OF s, of bin, simplified]
    have "\<forall>d'\<in>set es. may_become exe bin d d'"
      using t may_become_trans [OF may_become_new] by blast
    moreover have "r \<noteq> Ok () \<longrightarrow> (\<forall>d'\<in>set ds. d' exe = d exe)"
      using t w(1) unfolding run' by (auto simp del: upt_Suc)
    moreover have "r = Ok () \<longrightarrow> last ds exe = Some bin \<and> last ds (sidecar exe ''.old'') = d exe"
      using t unfolding run' by (auto simp del: upt_Suc)
    moreover have "r \<noteq> Panic" using t unfolding run' by blast
    moreover have "ds \<noteq> []" using w(2) unfolding run' by blast
    moreover have "\<forall>d'\<in>set (?w (length bin)). may_become exe bin d d'" using w(1) by blast
    ultimately show ?thesis unfolding run' by (simp add: ball_Un del: upt_Suc)
  qed
qed

definition digest_matches :: "(bytes \<Rightarrow> bytes) \<Rightarrow> bytes \<Rightarrow> ustring \<Rightarrow> bool" where
  "digest_matches sha256 bin expected \<longleftrightarrow> bin \<noteq> [] \<and> eq_ignore_case (sha256_hex sha256 bin) expected"

lemma install_verified_trace:
  assumes run: "install_verified_binary h sha256 exe bin expected d = (r, ds)"
  shows "ds \<noteq> [] \<and> r \<noteq> Panic \<and>
    (\<not> digest_matches sha256 bin expected \<longrightarrow> ds = [d] \<and> (\<exists>e. r = Err e)) \<and>
    (\<forall>d'\<in>set ds. may_become exe bin d d') \<and>
    (\<forall>old. r = Ok old \<longrightarrow> old = sidecar exe ''.old'' \<and> last ds exe = Some bin \<and> last ds old = d exe) \<and>
    (\<forall>e. r = Err e \<longrightarrow> last ds exe = d exe)"
proof (cases "digest_matches sha256 bin expected \<and> d (sidecar exe ''.new'') = None \<and> ih_create h = None")
  case False
  then show ?thesis
    using run unfolding install_verified_binary_def Let_def digest_matches_def
    by (auto split: if_splits option.splits)
next
  case True
  obtain r' es where s: "stage_and_swap h exe (sidecar exe ''.new'') (sidecar exe ''.old'') bin d = (r', es)" by fastforce
  note t = stage_and_swap_trace [OF s]
  have run': "(r, ds) = (case r' of Ok _ \<Rightarrow> (Ok (sidecar exe ''.old''), d # es)
      | Err e \<Rightarrow> (Err e, d # es @ [if ih_cleanup h then (last es)(sidecar exe ''.new'' := None) else last es])
      | Panic \<Rightarrow> (Panic, d # es))"
    using run True s unfolding install_verified_binary_def Let_def digest_matches_def by (simp split: outcome.splits)
  show ?thesis
  proof (cases r')
    case (Ok u)
    then show ?thesis using run' t True by (cases u) auto
  next
    case (Err e)
    let ?l = "if ih_cleanup h then (last es)(sidecar exe ''.new'' := None) else last es"
    have "last es \<in> set es" using t by simp
    then have m: "may_become exe bin d (last es)" "last es exe = d exe" using t Err by auto
    then have "may_become exe bin d ?l" "?l exe = d exe"
      using may_become_trans [OF m(1) may_become_new] by auto
    moreover have "r = Err e" "ds = d # es @ [?l]" using run' Err by auto
    ultimately show ?thesis using t True by auto
  next
    case Panic
    then show ?thesis using t by blast
  qed
qed

text \<open>A binary whose digest is the one of the platform's asset in a manifest the agent downloaded.\<close>

definition vouched_binary :: "update_host \<Rightarrow> ustring \<Rightarrow> bytes \<Rightarrow> bool" where
  "vouched_binary h version bin \<longleftrightarrow>
    (\<exists>asset_url sums_url manifest sums hash.
      download h version asset_url max_binary = Ok bin \<and>
      download h version sums_url max_manifest = Ok manifest \<and> from_utf8 manifest = Some sums \<and>
      find_checksum sums (platform_asset_for (fst (up_platform h)) (snd (up_platform h))) = Some hash \<and>
      digest_matches (up_sha256 h) bin hash)"

definition update_sound :: "update_host \<Rightarrow> ustring \<Rightarrow> update_end \<Rightarrow> disk list \<Rightarrow> bool" where
  "update_sound h version r ds \<longleftrightarrow>
    ds = [up_disk h] \<and> r \<noteq> Replaced \<or>
    (\<exists>exe bin. up_exe h = Ok exe \<and> ds \<noteq> [] \<and> vouched_binary h version bin \<and> length bin \<le> max_binary \<and>
       (\<forall>d\<in>set ds. may_become exe bin (up_disk h) d) \<and>
       (r = Replaced \<longrightarrow> last ds exe = Some bin \<and> last ds (sidecar exe ''.old'') = up_disk h exe) \<and>
       (r \<noteq> Replaced \<and> up_restored h \<longrightarrow> last ds exe = up_disk h exe))"

lemma update_sound_untouched [simp]: "r \<noteq> Replaced \<Longrightarrow> update_sound h version r [up_disk h]"
  by (simp add: update_sound_def)

lemma install_release_sound:
  assumes "install_release h version asset_url sums_url = (r, ds)"
  shows "update_sound h version r ds"
proof -
  let ?fetch = "and_then (fetch_binary h version asset_url sums_url) (\<lambda>x.
        and_then (case up_exe h of Ok p \<Rightarrow> Ok p | Err e \<Rightarrow> Err (UIo e) | Panic \<Rightarrow> Panic) (\<lambda>exe. Ok (x, exe)))"
  show ?thesis
  proof (cases ?fetch)
    case (Ok z)
    obtain bin expected exe where z: "z = ((bin, expected), exe)" by (metis surj_pair)
    have f: "fetch_binary h version asset_url sums_url = Ok (bin, expected)" and exe: "up_exe h = Ok exe"
      using Ok unfolding z by (auto simp: and_then_eq_Ok split: outcome.splits)
    obtain r' es where i: "install_verified_binary (up_install h) (up_sha256 h) exe bin expected (up_disk h) = (r', es)"
      by fastforce
    note t = install_verified_trace [OF i]
    have run: "(r, ds) = (case r' of Err e \<Rightarrow> (UpdateFailed e, es) | Panic \<Rightarrow> (UpdateCrash, es)
        | Ok old \<Rightarrow> (case up_exec h of None \<Rightarrow> (Replaced, es)
             | Some e \<Rightarrow> (case restore_after_failed_exec exe old (up_restored h) e (last es) of (err, d) \<Rightarrow> (UpdateFailed err, es @ [d]))))"
      using assms unfolding install_release_def Ok z outcome.case prod.case i by (auto split: outcome.splits)
    show ?thesis
    proof (cases "digest_matches (up_sha256 h) bin expected")
      case False
      then obtain e where "es = [up_disk h]" "r' = Err e" using t by blast
      then show ?thesis using run by simp
    next
      case True
      have v: "vouched_binary h version bin"
        using f True unfolding fetch_binary_def fetch_text_def Let_def vouched_binary_def
        by (auto simp: and_then_eq_Ok ok_or_eq_Ok)
      have len: "length bin \<le> max_binary"
        using f unfolding fetch_binary_def Let_def by (auto simp: and_then_eq_Ok dest: download_bounded)
      have frame: "\<forall>d\<in>set es. may_become exe bin (up_disk h) d" and ne: "es \<noteq> []" using t by blast+
      show ?thesis
      proof (cases r')
        case (Ok old)
        have l: "old = sidecar exe ''.old''" "last es exe = Some bin" "last es old = up_disk h exe" using t Ok by blast+
        show ?thesis
        proof (cases "up_exec h")
          case None
          then have "r = Replaced" "ds = es" using run Ok by auto
          then show ?thesis unfolding update_sound_def using exe ne v len frame l by blast
        next
          case (Some e)
          let ?d = "if up_restored h then move_file old exe (last es) else last es"
          have ds: "ds = es @ [?d]" "r \<noteq> Replaced"
            using run Ok Some by (auto simp: restore_after_failed_exec_def split: if_splits)
          have "may_become exe bin (up_disk h) (last es)" using frame ne by simp
          then have "may_become exe bin (up_disk h) ?d"
            using l by (auto simp: may_become_def move_file_def)
          moreover have "up_restored h \<longrightarrow> ?d exe = up_disk h exe" using l by (auto simp: move_file_def)
          ultimately show ?thesis unfolding update_sound_def using exe ne v len frame ds
            by (intro disjI2 exI [of _ exe] exI [of _ bin]) (simp add: ds)
        qed
      next
        case (Err e)
        then have "r = UpdateFailed e" "ds = es" "last es exe = up_disk h exe" using run t by auto
        then show ?thesis unfolding update_sound_def using exe ne v len frame by blast
      next
        case Panic
        then show ?thesis using t by blast
      qed
    qed
  qed (use assms in \<open>auto simp: install_release_def\<close>)
qed

lemma check_and_update_sound:
  assumes "check_and_update h current c = (r, ds)"
  shows "update_sound h current r ds"
  using assms install_release_sound unfolding check_and_update_def Let_def
  by (auto split: if_splits outcome.splits option.splits prod.splits)

lemma check_and_update_target_sound:
  assumes "check_and_update_target h current target = (r, ds)"
  shows "update_sound h current r ds"
  using assms install_release_sound unfolding check_and_update_target_def Let_def
  by (auto split: if_splits outcome.splits option.splits prod.splits)

text \<open>
  C26: An update never runs an unverified binary.  Whatever the network, the release server and the system
  calls do, at every moment of \<open>check_and_update\<close> and \<open>check_and_update_target\<close> the disk is the old one, or
  the executable is the old one or exactly a downloaded binary of at most 8 MiB whose SHA-256 is the one that the downloaded
  manifest gives, unambiguously, for this platform; apart from its two companions no other file changes.
  A completed update keeps the old executable as backup, and a failed one leaves the old executable in
  place when the rollback can rename it back.
\<close>

theorem update_installs_only_verified:
  "update_sound h current (fst (check_and_update h current c)) (snd (check_and_update h current c)) \<and>
   update_sound h current (fst (check_and_update_target h current target)) (snd (check_and_update_target h current target))"
  by (simp add: check_and_update_sound check_and_update_target_sound)

section \<open>Credentials\<close>

lemma follow_from_step:
  assumes "follow_from (Suc hops) fetch u auth visited = (log, r)"
  shows "log = [(u, auth)] \<or> (\<exists>v log'. v \<notin> set visited \<and> log = (u, auth) # log' \<and>
    follow_from hops fetch v (if same_origin u v then auth else None) (visited @ [v]) = (log', r))"
proof (cases "\<exists>location v. fetch u auth = Ok (Redirect location) \<and> redirect u location = Ok v \<and> v \<notin> set visited")
  case True
  then obtain location v where l: "fetch u auth = Ok (Redirect location)" and v: "redirect u location = Ok v" "v \<notin> set visited"
    by blast
  obtain log' r' where rest: "follow_from hops fetch v (if same_origin u v then auth else None) (visited @ [v]) = (log', r')"
    by fastforce
  have "log = (u, auth) # log'" "r = r'"
    using assms unfolding follow_from.simps [of "Suc hops"] l v outcome.case fetched.case nat.case rest using v(2) by simp_all
  then show ?thesis using v(2) rest by blast
qed (use assms in \<open>auto simp: follow_from.simps [of "Suc hops"] split: outcome.splits fetched.splits if_splits\<close>)

lemma follow_from_confined:
  assumes "follow_from hops fetch u auth visited = (log, r)" "u \<in> set visited"
  shows "log \<noteq> [] \<and> hd log = (u, auth) \<and> length log \<le> Suc hops \<and> distinct (map fst log) \<and>
    (\<forall>x\<in>set (tl log). fst x \<notin> set visited) \<and>
    (\<forall>i<length log. \<forall>t. snd (log ! i) = Some t \<longrightarrow> auth = Some t \<and> (\<forall>j\<le>i. same_origin u (fst (log ! j))))"
  using assms
proof (induction hops arbitrary: u auth visited log r)
  case 0
  then have "log = [(u, auth)]"
    by (simp add: follow_from.simps [of 0] split: outcome.splits fetched.splits)
  then show ?case by (simp add: same_origin_def)
next
  case (Suc hops)
  show ?case
  proof (cases "log = [(u, auth)]")
    case True
    then show ?thesis by (simp add: same_origin_def)
  next
    case False
    then obtain v log' where v: "v \<notin> set visited" and log: "log = (u, auth) # log'"
      and rest: "follow_from hops fetch v (if same_origin u v then auth else None) (visited @ [v]) = (log', r)"
      using follow_from_step [OF Suc.prems(1)] by blast
    note IH = Suc.IH [OF rest]
    have IH1: "log' \<noteq> []" "hd log' = (v, if same_origin u v then auth else None)" "length log' \<le> Suc hops"
      "distinct (map fst log')" "\<forall>x\<in>set (tl log'). fst x \<notin> set (visited @ [v])"
      and IH2: "\<And>i t. \<lbrakk>i < length log'; snd (log' ! i) = Some t\<rbrakk> \<Longrightarrow>
        (if same_origin u v then auth else None) = Some t \<and> (\<forall>j\<le>i. same_origin v (fst (log' ! j)))"
      using IH by auto
    have in_log: "\<forall>x\<in>set log'. fst x = v \<or> fst x \<notin> set visited"
      using IH1 by (cases log') auto
    have "auth = Some t \<and> (\<forall>j\<le>i. same_origin u (fst (log ! j)))" if i: "i < length log" "snd (log ! i) = Some t" for i t
    proof (cases i)
      case 0
      then show ?thesis using that log by (simp add: same_origin_def)
    next
      case (Suc k)
      then have "k < length log'" "snd (log' ! k) = Some t" using i log by auto
      note k = IH2 [OF this]
      then have o: "same_origin u v" "auth = Some t" by (auto split: if_splits)
      moreover have "same_origin u (fst (log ! j))" if "j \<le> i" for j
        using that k o Suc log by (cases j) (auto simp: same_origin_def)
      ultimately show ?thesis by blast
    qed
    moreover have "u \<notin> fst ` set log'" using in_log v Suc.prems(2) by auto
    ultimately show ?thesis using IH1 in_log v log by auto
  qed
qed

text \<open>
  C27: The token of the environment stays with GitHub.  Following redirects makes at most six fetches, of
  pairwise different URLs.  A fetch carries a token only if it is the given one, made of visible ASCII
  characters (so no header can be injected), the first URL is the API or the site of GitHub on port 443,
  and every fetch up to this one went to the same origin: once stripped, the token does not come back.
\<close>

theorem github_token_confined:
  assumes "follow_redirects fetch url token = (log, r)"
  shows "length log \<le> 6 \<and> distinct (map fst log) \<and>
    (\<forall>i<length log. \<forall>t. snd (log ! i) = Some t \<longrightarrow>
      token = Some t \<and> list_all (\<lambda>b. 0x20 < b \<and> b < 0x7F) (as_bytes t) \<and>
      github_auth (fst (log ! 0)) \<and> github_auth (fst (log ! i)) \<and>
      (\<forall>j\<le>i. same_origin (fst (log ! 0)) (fst (log ! j))))"
proof (cases "log = []")
  case False
  then obtain u where u: "parse_https url = Ok u"
    using assms by (auto simp: follow_redirects_def split: outcome.splits)
  define auth where "auth = (if github_auth u then token else None)"
  have ok: "list_all (\<lambda>b. 0x20 < b \<and> b < 0x7F) (as_bytes t)" if "auth = Some t" for t
  proof (rule ccontr)
    assume "\<not> ?thesis"
    then have "list_ex (\<lambda>b. b \<le> 0x20 \<or> 0x7F \<le> b) (as_bytes t)"
      by (auto simp: list_all_iff list_ex_iff not_less)
    then show False using assms False u that
      by (simp add: follow_redirects_def auth_def [symmetric])
  qed
  have "follow_from max_redirects fetch u auth [u] = (log, r)"
    using assms False u by (auto simp: follow_redirects_def auth_def [symmetric] split: if_splits)
  note f = follow_from_confined [OF this, simplified]
  have l0: "fst (log ! 0) = u" using f False by (simp add: hd_conv_nth)
  have "token = Some t \<and> list_all (\<lambda>b. 0x20 < b \<and> b < 0x7F) (as_bytes t) \<and> github_auth (fst (log ! 0)) \<and>
      github_auth (fst (log ! i)) \<and> (\<forall>j\<le>i. same_origin (fst (log ! 0)) (fst (log ! j)))"
    if "i < length log" "snd (log ! i) = Some t" for i t
  proof -
    have a: "auth = Some t" "\<forall>j\<le>i. same_origin u (fst (log ! j))" using f that by blast+
    then have g: "github_auth u" "token = Some t" by (auto simp: auth_def split: if_splits)
    moreover have "github_auth (fst (log ! i))" using a(2) g(1) by (auto simp: github_auth_def same_origin_def)
    ultimately show ?thesis using a ok l0 by simp
  qed
  then show ?thesis using f by (simp add: max_redirects_def)
qed simp

definition leaving_fetch :: fetcher where
  "leaving_fetch u auth =
    (if hu_host u = ustr ''api.github.com'' then Ok (Redirect (ustr ''https://cdn.example/f'')) else Ok (Body []))"

lemma github_token_confined_witness:
  "\<exists>u v. follow_redirects leaving_fetch (ustr ''https://api.github.com/a'') (Some (ustr ''tok'')) =
      ([(u, Some (ustr ''tok'')), (v, None)], Ok []) \<and> github_auth u"
proof -
  let ?u = "\<lparr>hu_host = ustr ''api.github.com'', hu_port = 443, hu_target = ustr ''/a''\<rparr>"
  let ?v = "\<lparr>hu_host = ustr ''cdn.example'', hu_port = 443, hu_target = ustr ''/f''\<rparr>"
  let ?log = "[(?u, Some (ustr ''tok'')), (?v, None)]"
  have run: "follow_redirects leaving_fetch (ustr ''https://api.github.com/a'') (Some (ustr ''tok'')) = (?log, Ok [])"
    by code_simp
  have "github_auth (fst (?log ! 0))"
    using github_token_confined [OF run, THEN conjunct2, THEN conjunct2, rule_format, of 0 "ustr ''tok''"] by simp
  then show ?thesis using run by (intro exI conjI) simp_all
qed

section \<open>Versions\<close>

fun join_with :: "nat \<Rightarrow> ustring list \<Rightarrow> ustring" where
  "join_with d [] = []"
| "join_with d [s] = s"
| "join_with d (s # ss) = s @ d # join_with d ss"

lemma split_all_join: "join_with d (split_all (\<lambda>c. c = d) s) = s"
proof (induction s)
  case (Cons x xs)
  then show ?case
    by (cases "split_all (\<lambda>c. c = d) xs"; cases "tl (split_all (\<lambda>c. c = d) xs)") auto
qed simp

lemma dec_small: "n < 10 \<Longrightarrow> dec n = [48 + n]"
  by (subst dec.simps) simp

lemma canonical_digits:
  assumes "s \<noteq> []" "list_all dec_digit s" "length s > 1 \<longrightarrow> hd s \<noteq> 0x30"
  shows "s = dec (dec_value s)"
  using assms
proof (induction s rule: rev_induct)
  case (snoc c s)
  show ?case
  proof (cases "s = []")
    case True
    then show ?thesis using snoc.prems by (auto simp: dec_value_def dec_digit_def dec_small)
  next
    case False
    have IH: "s = dec (dec_value s)" using snoc False by (auto simp: list_all_iff)
    have "dec_value s \<noteq> 0"
    proof
      assume z: "dec_value s = 0"
      have "s = [48]" using IH unfolding z by (simp add: dec_small)
      then show False using snoc.prems by simp
    qed
    moreover obtain k where "c = 48 + k" "k < 10"
      using snoc.prems le_Suc_ex [of 48 c] by (auto simp: dec_digit_def)
    ultimately have "dec (dec_value (s @ [c])) = dec (dec_value s) @ [c]"
      by (subst dec.simps) (auto simp: dec_value_snoc)
    then show ?thesis using IH by simp
  qed
qed simp

lemma dec_canonical: "length (dec n) > 1 \<Longrightarrow> hd (dec n) \<noteq> 0x30"
proof (induction n rule: dec.induct)
  case (1 n)
  show ?case
  proof (cases "n < 10")
    case True
    then show ?thesis using "1.prems" by (simp add: dec_small)
  next
    case False
    then have e: "hd (dec n) = hd (dec (n div 10))" by (subst dec.simps) simp
    show ?thesis
    proof (cases "n div 10 < 10")
      case True
      then have "dec (n div 10) = [48 + n div 10]" by (simp add: dec_small)
      then show ?thesis using e False by simp
    next
      case g: False
      then have "length (dec (n div 10)) > 1" by (subst dec.simps) (simp add: Suc_lessI)
      then show ?thesis using "1.IH" [OF False] e by simp
    qed
  qed
qed

lemma semver_part_exact: "semver_part s = Some n \<longleftrightarrow> s = dec n \<and> n < 2 ^ 64"
proof
  assume a: "semver_part s = Some n"
  then have g: "s \<noteq> []" "list_all dec_digit s" "length s > 1 \<longrightarrow> hd s \<noteq> 0x30" and p: "parse_unsigned (2 ^ 64 - 1) s = Some n"
    by (auto simp: semver_part_def split: if_splits)
  have c: "s = dec (dec_value s)" by (rule canonical_digits [OF g])
  have "\<not> dec_value s > 2 ^ 64 - 1" "n = dec_value s"
    using p g by (cases s; auto simp: parse_unsigned_def parse_digits_def dec_digit_def split: if_splits)+
  then show "s = dec n \<and> n < 2 ^ 64" using c by simp
next
  assume "s = dec n \<and> n < 2 ^ 64"
  then show "semver_part s = Some n"
    using dec_digits [of n] dec_canonical [of n] by (auto simp: semver_part_def simp del: dec.simps intro!: parse_unsigned_dec)
qed

lemma dec_no_dot: "\<forall>x\<in>set (dec n). \<not> x = 0x2E"
  using dec_digits [of n] by (auto simp: list_all_iff dec_digit_def)

text \<open>
  A version is accepted exactly when it is three canonical decimal numbers below 2 to the 64, separated
  by dots: no sign, no leading zero, no suffix; and an accepted version is read back as its three numbers,
  so that versions are compared as numbers and never as text.
\<close>

theorem parse_semver_exact:
  "parse_semver s = Some (a, b, c) \<longleftrightarrow>
    s = dec a @ 0x2E # dec b @ 0x2E # dec c \<and> a < 2 ^ 64 \<and> b < 2 ^ 64 \<and> c < 2 ^ 64"
proof
  assume "parse_semver s = Some (a, b, c)"
  then obtain x y z where sp: "split_all (\<lambda>c. c = 0x2E) s = [x, y, z]"
    and p: "semver_part x = Some a" "semver_part y = Some b" "semver_part z = Some c"
    by (auto simp: parse_semver_def split: list.splits option.splits)
  have "s = x @ 0x2E # y @ 0x2E # z" using split_all_join [of "0x2E" s] unfolding sp by simp
  then show "s = dec a @ 0x2E # dec b @ 0x2E # dec c \<and> a < 2 ^ 64 \<and> b < 2 ^ 64 \<and> c < 2 ^ 64"
    using p unfolding semver_part_exact by simp
next
  assume s: "s = dec a @ 0x2E # dec b @ 0x2E # dec c \<and> a < 2 ^ 64 \<and> b < 2 ^ 64 \<and> c < 2 ^ 64"
  have "split_all (\<lambda>c. c = 0x2E) s = [dec a, dec b, dec c]"
    using s by (simp add: split_all_append [OF dec_no_dot] split_all_none [OF dec_no_dot] del: dec.simps)
  moreover have "semver_part (dec n) = Some n" if "n < 2 ^ 64" for n
    using that unfolding semver_part_exact by blast
  ultimately show "parse_semver s = Some (a, b, c)" using s by (simp add: parse_semver_def del: dec.simps)
qed

end
