(* ===== verification/FilePaths.thy ===== *)
theory FilePaths
  imports Startup
begin

text \<open>
  Paths in \<open>file_control.rs\<close>, on Unix: the components of a text, resolution of \<open>~\<close>, \<open>.\<close> and \<open>..\<close>,
  the refusal of the root, containment, and the names of staging files.
\<close>

section \<open>Components\<close>

text \<open>A path is the list of its components, as \<open>Path::components\<close> gives them.\<close>

datatype path_part = RootDir | CurDir | ParentDir | Normal ustring

type_synonym path = "path_part list"

definition part_of :: "ustring \<Rightarrow> path_part" where
  "part_of s = (if s = ustr ''..'' then ParentDir else Normal s)"

definition path_parts :: "ustring \<Rightarrow> path" where
  "path_parts s =
    (let raw = split_all (\<lambda>c. c = 0x2F) s;
         body = map part_of (filter (\<lambda>p. p \<noteq> [] \<and> p \<noteq> ustr ''.'') raw)
     in if take 1 s = [0x2F] then RootDir # body
        else if hd raw = ustr ''.'' then CurDir # body
        else body)"

definition has_root :: "path \<Rightarrow> bool" where
  "has_root p \<longleftrightarrow> take 1 p = [RootDir]"

definition is_normal :: "path_part \<Rightarrow> bool" where
  "is_normal c \<longleftrightarrow> (case c of Normal _ \<Rightarrow> True | _ \<Rightarrow> False)"

definition normalize_step :: "path \<Rightarrow> path_part \<Rightarrow> path" where
  "normalize_step normalized c =
    (case c of
       RootDir \<Rightarrow> [RootDir]
     | CurDir \<Rightarrow> normalized
     | ParentDir \<Rightarrow>
         if normalized \<noteq> [] \<and> is_normal (last normalized) then butlast normalized
         else if \<not> has_root normalized then normalized @ [ParentDir]
         else normalized
     | Normal s \<Rightarrow> normalized @ [Normal s])"

definition normalize_path :: "path \<Rightarrow> path" where
  "normalize_path p = (let n = foldl normalize_step [] p in if n = [] then [CurDir] else n)"

text \<open>\<open>join\<close> of texts: an absolute right side replaces the left one.\<close>

definition join_path :: "ustring \<Rightarrow> ustring \<Rightarrow> ustring" where
  "join_path a b =
    (if take 1 b = [0x2F] then b
     else if a = [] \<or> last a = 0x2F then a @ b
     else a @ 0x2F # b)"

text \<open>\<open>home\<close> is the variable of the environment.\<close>

definition expand_home :: "ustring option \<Rightarrow> ustring \<Rightarrow> ustring option" where
  "expand_home home v =
    (if v \<noteq> ustr ''~'' \<and> take 2 v \<noteq> ustr ''~/'' \<and> take 2 v \<noteq> [0x7E, 0x5C] then None
     else case home of
       None \<Rightarrow> None
     | Some h \<Rightarrow> Some (if v = ustr ''~'' then h else join_path h (drop 2 v)))"

definition resolve_path :: "ustring option \<Rightarrow> ustring \<Rightarrow> path" where
  "resolve_path home text0 =
    (let v0 = trim text0;
         v = (case expand_home home v0 of Some e \<Rightarrow> e | None \<Rightarrow> v0)
     in if v = [] then [RootDir] else normalize_path (path_parts v))"

datatype file_err = FileIo ustring | FileInvalid string | FileMessage ustring

definition has_parent :: "path \<Rightarrow> bool" where
  "has_parent p \<longleftrightarrow> p \<noteq> [] \<and> last p \<noteq> RootDir"

definition ensure_not_root :: "path \<Rightarrow> (unit, file_err) outcome" where
  "ensure_not_root p =
    (if p = [CurDir] \<or> \<not> has_parent p \<or> p = [] then Err (FileInvalid ''refusing filesystem root operation'') else Ok ())"

fun path_contains :: "path \<Rightarrow> path \<Rightarrow> bool" where
  "path_contains [] child \<longleftrightarrow> child \<noteq> []"
| "path_contains (p # parent) (c # child) \<longleftrightarrow> p = c \<and> path_contains parent child"
| "path_contains (p # parent) [] \<longleftrightarrow> False"

section \<open>Names of staging files\<close>

definition file_name :: "path \<Rightarrow> ustring option" where
  "file_name p = (if p = [] then None else case last p of Normal s \<Rightarrow> Some s | _ \<Rightarrow> None)"

definition name_or_file :: "path \<Rightarrow> ustring" where
  "name_or_file p = (case file_name p of Some n \<Rightarrow> n | None \<Rightarrow> ustr ''file'')"

definition with_file_name :: "path \<Rightarrow> ustring \<Rightarrow> path" where
  "with_file_name p n = (if file_name p \<noteq> None then butlast p else p) @ [Normal n]"

definition file_stage_path :: "nat \<Rightarrow> path \<Rightarrow> ustring \<Rightarrow> path" where
  "file_stage_path pid p kind =
    with_file_name p ([0x2E] @ name_or_file p @ ustr ''.komari-'' @ kind @ [0x2D] @ dec pid)"

definition upload_part_path :: "path \<Rightarrow> ustring \<Rightarrow> path" where
  "upload_part_path p key =
    with_file_name p ([0x2E] @ name_or_file p @ ustr ''.komari-upload-'' @ key @ ustr ''.part'')"

section \<open>Resolution\<close>

text \<open>Normalised: a root and names, or climbs and then names; never a dot.\<close>

definition canonical :: "path \<Rightarrow> bool" where
  "canonical p \<longleftrightarrow> p = [CurDir] \<or> (\<exists>ns. p = RootDir # map Normal ns) \<or>
    (\<exists>k ns. p = replicate k ParentDir @ map Normal ns)"

definition climbing :: "path \<Rightarrow> bool" where
  "climbing p \<longleftrightarrow> (\<exists>ns. p = RootDir # map Normal ns) \<or> (\<exists>k ns. p = replicate k ParentDir @ map Normal ns)"

lemma has_root_iff: "has_root p \<longleftrightarrow> (\<exists>q. p = RootDir # q)"
  by (cases p) (simp_all add: has_root_def)

lemma climbing_Nil [simp]: "climbing []"
  by (auto simp: climbing_def)

lemma climbing_root [simp]: "climbing [RootDir]"
  by (auto simp: climbing_def)

lemma climbing_step: "climbing p \<Longrightarrow> climbing (normalize_step p c)"
proof (cases c)
  case (Normal s)
  assume "climbing p"
  then consider ns where "p = RootDir # map Normal ns" | k ns where "p = replicate k ParentDir @ map Normal ns"
    unfolding climbing_def by blast
  then show ?thesis
  proof cases
    case (1 ns)
    then have "normalize_step p c = RootDir # map Normal (ns @ [s])" by (simp add: normalize_step_def Normal)
    then show ?thesis unfolding climbing_def by blast
  next
    case (2 k ns)
    then have "normalize_step p c = replicate k ParentDir @ map Normal (ns @ [s])" by (simp add: normalize_step_def Normal)
    then show ?thesis unfolding climbing_def by blast
  qed
next
  case ParentDir
  assume "climbing p"
  then consider ns where "p = RootDir # map Normal ns" | k ns where "p = replicate k ParentDir @ map Normal ns"
    unfolding climbing_def by blast
  then show ?thesis
  proof cases
    case (1 ns)
    then show ?thesis
      by (cases ns rule: rev_cases) (auto simp: normalize_step_def ParentDir is_normal_def has_root_def climbing_def)
  next
    case (2 k ns)
    show ?thesis
    proof (cases ns rule: rev_cases)
      case Nil
      then have p: "p = replicate k ParentDir" using 2 by simp
      then have "\<not> (p \<noteq> [] \<and> is_normal (last p))" by (cases k) (simp_all add: is_normal_def)
      moreover have "\<not> has_root p" unfolding has_root_iff p by (cases k) simp_all
      moreover have "p @ [ParentDir] = replicate (Suc k) ParentDir @ map Normal []" using p by (simp add: replicate_append_same)
      ultimately have "normalize_step p c = replicate (Suc k) ParentDir @ map Normal []"
        unfolding normalize_step_def ParentDir by (simp only: path_part.case if_False if_True simp_thms)
      then show ?thesis unfolding climbing_def by blast
    next
      case (snoc ms m)
      then have "normalize_step p c = replicate k ParentDir @ map Normal ms"
        using 2 by (simp add: normalize_step_def ParentDir is_normal_def butlast_append)
      then show ?thesis unfolding climbing_def by blast
    qed
  qed
qed (simp_all add: normalize_step_def)

lemma climbing_foldl: "climbing p \<Longrightarrow> climbing (foldl normalize_step p cs)"
  by (induction cs arbitrary: p) (simp_all add: climbing_step)

lemma rooted_step: "has_root p \<Longrightarrow> has_root (normalize_step p c)"
proof -
  assume "has_root p"
  then obtain q where p: "p = RootDir # q" by (auto simp: has_root_iff)
  show ?thesis
    by (cases c; cases q rule: rev_cases) (simp_all add: p normalize_step_def has_root_def is_normal_def)
qed

lemma rooted_foldl: "has_root p \<Longrightarrow> has_root (foldl normalize_step p cs)"
  by (induction cs arbitrary: p) (simp_all add: rooted_step)

lemma normalize_canonical: "canonical (normalize_path p)"
  using climbing_foldl [OF climbing_Nil, of p] by (auto simp: normalize_path_def Let_def canonical_def climbing_def)

lemma foldl_names: "foldl normalize_step p (map Normal ns) = p @ map Normal ns"
  by (induction ns arbitrary: p) (simp_all add: normalize_step_def)

lemma foldl_parents: "\<not> has_root p \<Longrightarrow> (\<forall>c\<in>set p. \<not> is_normal c) \<Longrightarrow>
    foldl normalize_step p (replicate k ParentDir) = p @ replicate k ParentDir"
proof (induction k arbitrary: p)
  case (Suc k)
  have "normalize_step p ParentDir = p @ [ParentDir]"
    using Suc.prems by (auto simp: normalize_step_def)
  moreover have "\<not> has_root (p @ [ParentDir])" "\<forall>c\<in>set (p @ [ParentDir]). \<not> is_normal c"
    using Suc.prems by (cases p; auto simp: has_root_def is_normal_def)+
  ultimately show ?case using Suc.IH [of "p @ [ParentDir]"] by simp
qed simp

lemma normalize_idempotent: "canonical p \<Longrightarrow> p \<noteq> [] \<Longrightarrow> normalize_path p = p"
proof -
  assume "canonical p" "p \<noteq> []"
  then consider "p = [CurDir]" | ns where "p = RootDir # map Normal ns" | k ns where "p = replicate k ParentDir @ map Normal ns"
    unfolding canonical_def by blast
  then show ?thesis
  proof cases
    case (3 k ns)
    have "foldl normalize_step [] p = p"
      unfolding 3 foldl_append by (simp add: foldl_parents has_root_def foldl_names)
    then show ?thesis using \<open>p \<noteq> []\<close> by (simp add: normalize_path_def)
  qed (simp_all add: normalize_path_def normalize_step_def foldl_names)
qed

lemma path_contains_strict: "path_contains p c \<longleftrightarrow> (\<exists>q. q \<noteq> [] \<and> c = p @ q)"
  by (induction p c rule: path_contains.induct) auto

lemma part_of_normal: "part_of s = Normal n \<Longrightarrow> n = s \<and> s \<noteq> ustr ''..''"
  by (auto simp: part_of_def split: if_splits)

definition clean_name :: "ustring \<Rightarrow> bool" where
  "clean_name s \<longleftrightarrow> s \<noteq> [] \<and> s \<noteq> ustr ''.'' \<and> s \<noteq> ustr ''..'' \<and> 0x2F \<notin> set s"

lemma split_all_parts: "p \<in> set (split_all P s) \<Longrightarrow> \<forall>c\<in>set p. \<not> P c"
proof (induction s arbitrary: p)
  case (Cons x xs)
  then show ?case by (cases "split_all P xs") (fastforce split: if_splits)+
qed simp

lemma path_parts_clean: "Normal n \<in> set (path_parts s) \<Longrightarrow> clean_name n"
proof -
  assume "Normal n \<in> set (path_parts s)"
  then obtain p where p: "p \<in> set (split_all (\<lambda>c. c = 0x2F) s)" "p \<noteq> []" "p \<noteq> ustr ''.''" "part_of p = Normal n"
    unfolding path_parts_def Let_def by (auto split: if_splits)
  then have "n = p" "n \<noteq> ustr ''..''" using part_of_normal by blast+
  then show ?thesis using p split_all_parts [OF p(1)] by (auto simp: clean_name_def)
qed

lemma normal_step_subset: "Normal n \<in> set (normalize_step p c) \<Longrightarrow> Normal n \<in> set p \<or> c = Normal n"
  by (cases c) (auto simp: normalize_step_def split: if_splits dest: in_set_butlastD)

lemma normal_foldl_subset: "Normal n \<in> set (foldl normalize_step p cs) \<Longrightarrow> Normal n \<in> set p \<or> Normal n \<in> set cs"
  by (induction cs arbitrary: p) (auto dest: normal_step_subset)

lemma resolve_names: "Normal n \<in> set (resolve_path home s) \<Longrightarrow> clean_name n"
  unfolding resolve_path_def Let_def normalize_path_def
  by (auto split: if_splits dest!: normal_foldl_subset path_parts_clean)

lemma resolve_canonical: "canonical (resolve_path home s)"
proof -
  have "canonical [RootDir]" by (simp add: canonical_def)
  then show ?thesis by (simp add: resolve_path_def Let_def normalize_canonical)
qed

lemma absolute_rooted: "take 1 v = [0x2F] \<Longrightarrow> \<exists>ns. normalize_path (path_parts v) = RootDir # map Normal ns"
proof -
  assume a: "take 1 v = [0x2F]"
  then obtain body where "path_parts v = RootDir # body" by (auto simp: path_parts_def Let_def)
  then have "foldl normalize_step [] (path_parts v) = foldl normalize_step [RootDir] body"
    by (simp add: normalize_step_def)
  moreover have "has_root (foldl normalize_step [RootDir] body)"
    by (rule rooted_foldl) (simp add: has_root_def)
  ultimately obtain q where q: "foldl normalize_step [] (path_parts v) = RootDir # q" by (auto simp: has_root_iff)
  have "climbing (RootDir # q)" unfolding q [symmetric] by (rule climbing_foldl) simp
  then have "\<exists>ns. q = map Normal ns"
  proof (unfold climbing_def, elim disjE exE)
    fix k ns
    assume "RootDir # q = replicate k ParentDir @ map Normal ns"
    then show ?thesis by (cases k; cases ns) simp_all
  qed blast
  then show ?thesis using q by (auto simp: normalize_path_def)
qed

lemma absolute_resolved:
  assumes "take 1 (trim s) = [0x2F]"
  shows "\<exists>ns. resolve_path home s = RootDir # map Normal ns \<and> list_all clean_name ns"
proof -
  have "take 2 (trim s) \<noteq> ustr ''~/''" "trim s \<noteq> ustr ''~''" "take 2 (trim s) \<noteq> [0x7E, 0x5C]"
    using assms by (cases "trim s"; simp add: ustr_def)+
  then have e: "expand_home home (trim s) = None" by (simp add: expand_home_def)
  have "resolve_path home s = normalize_path (path_parts (trim s))"
    using assms unfolding resolve_path_def Let_def e option.case by auto
  then obtain ns where ns: "resolve_path home s = RootDir # map Normal ns" using absolute_rooted [OF assms] by auto
  moreover have "list_all clean_name ns"
    using resolve_names [of _ home s] ns by (auto simp: list_all_iff)
  ultimately show ?thesis by blast
qed

text \<open>
  C31: Every path of a file operation is canonical before it is used.  An absolute path resolves to the root
  followed by proper names: no empty name, no dot, no slash, and no way up is left, so what the text says
  is where the operation goes.  Any path resolves to a root and names, or to climbs and names, and
  normalising again changes nothing.  The guard of the operations that write refuses the root and the
  working directory and nothing else, and the containment test of move and copy is being a proper
  descendant.
\<close>

theorem file_paths_canonical:
  "(take 1 (trim s) = [0x2F] \<longrightarrow> (\<exists>ns. resolve_path home s = RootDir # map Normal ns \<and> list_all clean_name ns)) \<and>
   canonical (resolve_path home s) \<and> normalize_path (resolve_path home s) = resolve_path home s \<and>
   (ensure_not_root (resolve_path home s) = Ok () \<longleftrightarrow> resolve_path home s \<noteq> [RootDir] \<and> resolve_path home s \<noteq> [CurDir]) \<and>
   (path_contains p q \<longleftrightarrow> (\<exists>r. r \<noteq> [] \<and> q = p @ r))"
proof -
  let ?r = "resolve_path home s"
  have ne: "?r \<noteq> []" by (auto simp: resolve_path_def Let_def normalize_path_def)
  have c: "canonical ?r" by (rule resolve_canonical)
  have "last ?r = RootDir \<longleftrightarrow> ?r = [RootDir]"
  proof
    assume l: "last ?r = RootDir"
    from c consider "?r = [CurDir]" | ns where "?r = RootDir # map Normal ns" | k ns where "?r = replicate k ParentDir @ map Normal ns"
      unfolding canonical_def by blast
    then show "?r = [RootDir]"
    proof cases
      case (2 ns)
      then show ?thesis using l by (cases ns rule: rev_cases) auto
    next
      case (3 k ns)
      have "last (replicate k ParentDir) \<in> {ParentDir}" if "k \<noteq> 0" using that by (cases k) simp_all
      then show ?thesis using l ne 3 by (cases ns rule: rev_cases; cases k) (auto split: if_splits)
    qed (use l in simp)
  qed simp
  then have "ensure_not_root ?r = Ok () \<longleftrightarrow> ?r \<noteq> [RootDir] \<and> ?r \<noteq> [CurDir]"
    using ne by (auto simp: ensure_not_root_def has_parent_def)
  then show ?thesis
    using absolute_resolved c normalize_idempotent [OF c ne] path_contains_strict by blast
qed

lemma file_paths_canonical_witness:
  "resolve_path None (ustr '' /a/./b//../c/../../../etc/'') = [RootDir, Normal (ustr ''etc'')] \<and>
   (\<exists>ns. resolve_path None (ustr '' /a/./b//../c/../../../etc/'') = RootDir # map Normal ns \<and> list_all clean_name ns)"
proof -
  have "take 1 (trim (ustr '' /a/./b//../c/../../../etc/'')) = [0x2F]" by code_simp
  then have "\<exists>ns. resolve_path None (ustr '' /a/./b//../c/../../../etc/'') = RootDir # map Normal ns \<and> list_all clean_name ns"
    using file_paths_canonical [of "ustr '' /a/./b//../c/../../../etc/''" None] by blast
  moreover have "resolve_path None (ustr '' /a/./b//../c/../../../etc/'') = [RootDir, Normal (ustr ''etc'')]" by code_simp
  ultimately show ?thesis by blast
qed

end
