(* ===== verification/FileUploads.thy ===== *)
theory FileUploads
  imports FilePaths "HOL-Library.AList"
begin

text \<open>
  Uploads in \<open>file_control.rs\<close>: sessions that collect chunks in a staging file, the streams that
  deliver them concurrently, commit and cancellation.  What happens under one lock, or between two
  accesses to shared state, is one step; system calls are inputs.
\<close>

section \<open>Arguments\<close>

definition max_chunk :: nat where "max_chunk = 128 * 1024 * 1024"
definition upload_idle_timeout :: nat where "upload_idle_timeout = 30 * 60 * 1000"
definition upload_cancel_ttl :: nat where "upload_cancel_ttl = 15 * 60 * 1000"
definition max_upload_sessions :: nat where "max_upload_sessions = 16"
definition max_canceled_uploads :: nat where "max_canceled_uploads = 1024"
definition max_streams :: nat where "max_streams = 8"

definition direct_string :: "bytes \<Rightarrow> string \<Rightarrow> ustring option" where
  "direct_string data key = (case object_field data (ustr key) of None \<Rightarrow> None | Some v \<Rightarrow> decode_json_string v)"

definition direct_i64 :: "bytes \<Rightarrow> string \<Rightarrow> int option" where
  "direct_i64 data key =
    (case object_field data (ustr key) of
       None \<Rightarrow> None
     | Some raw \<Rightarrow> (case from_utf8 raw of None \<Rightarrow> None | Some s \<Rightarrow> parse_i64 (trim_by (\<lambda>c. c = 0x22) s)))"

definition path_arg :: "bytes \<Rightarrow> string \<Rightarrow> ustring" where
  "path_arg data key = (case direct_string data key of Some s \<Rightarrow> s | None \<Rightarrow> [])"

definition file_invalid :: "string \<Rightarrow> ('a, file_err) outcome" where
  "file_invalid message = Err (FileInvalid message)"

definition u64_arg :: "bytes \<Rightarrow> string \<Rightarrow> (nat, file_err) outcome" where
  "u64_arg args key =
    (case direct_i64 args key of
       Some v \<Rightarrow> if v \<ge> 0 then Ok (nat v) else file_invalid ''missing numeric field''
     | None \<Rightarrow> file_invalid ''missing numeric field'')"

definition div_ceil :: "nat \<Rightarrow> nat \<Rightarrow> nat" where
  "div_ceil a b = (if a mod b = 0 then a div b else a div b + 1)"

definition validated_chunk :: "nat \<Rightarrow> nat \<Rightarrow> nat \<Rightarrow> nat \<Rightarrow> (nat \<times> nat) option" where
  "validated_chunk index count tot chunk =
    (if tot = 0 \<or> count = 0 \<or> chunk = 0 \<or> chunk > max_chunk \<or> count \<noteq> div_ceil tot chunk then None
     else if index * chunk \<ge> 2 ^ 64 then None
     else if index \<ge> count \<or> index * chunk \<ge> tot then None
     else Some (index * chunk, min chunk (tot - index * chunk)))"

definition valid_upload_id :: "ustring \<Rightarrow> bool" where
  "valid_upload_id key \<longleftrightarrow> key \<noteq> [] \<and> length (as_bytes key) \<le> 128 \<and>
    list_all (\<lambda>c. 0x30 \<le> c \<and> c \<le> 0x39 \<or> 0x41 \<le> c \<and> c \<le> 0x5A \<or> 0x61 \<le> c \<and> c \<le> 0x7A \<or> c = 0x2D \<or> c = 0x5F) key"

record upload_args =
  ua_key :: ustring
  ua_target :: path
  ua_offset :: nat
  ua_index :: nat
  ua_count :: nat
  ua_total :: nat
  ua_chunk :: nat
  ua_expected :: nat

definition upload_stream_args :: "ustring option \<Rightarrow> bytes \<Rightarrow> (upload_args, file_err) outcome" where
  "upload_stream_args home args =
    (let key = path_arg args ''upload_id'';
         target = resolve_path home (path_arg args ''path'')
     in and_then (ensure_not_root target) (\<lambda>_.
        and_then (u64_arg args ''offset'') (\<lambda>offset.
        and_then (u64_arg args ''chunk_index'') (\<lambda>index.
        and_then (u64_arg args ''chunk_count'') (\<lambda>count.
        and_then (u64_arg args ''total_size'') (\<lambda>tot.
        let chunk = nat ((case direct_i64 args ''chunk_size'' of Some v \<Rightarrow> v | None \<Rightarrow> 25 * 1024 * 1024) mod 2 ^ 64)
        in case validated_chunk index count tot chunk of
             None \<Rightarrow> file_invalid ''invalid upload metadata''
           | Some (expected_offset, expected) \<Rightarrow>
               if \<not> valid_upload_id key \<or> offset \<noteq> expected_offset then file_invalid ''invalid upload metadata''
               else Ok \<lparr>ua_key = key, ua_target = target, ua_offset = offset, ua_index = index, ua_count = count,
                        ua_total = tot, ua_chunk = chunk, ua_expected = expected\<rparr>))))))"

section \<open>Shared state\<close>

text \<open>
  The cancellation flag of a session is shared with its streams: \<open>us_flag\<close> is its index in \<open>fs_flags\<close>.
  Times are in milliseconds.  \<open>fs_created\<close> and \<open>fs_delivered\<close> record the sessions created and the chunks
  the transfer endpoint delivered; no operation reads them.
\<close>

record upload =
  us_target :: path
  us_stage :: path
  us_total :: nat
  us_chunk :: nat
  us_count :: nat
  us_received :: "nat set"
  us_flag :: nat
  us_updated :: nat

type_synonym file_disk = "path \<Rightarrow> bytes option"

record file_state =
  fs_uploads :: "(ustring \<times> upload) list"
  fs_canceled :: "(ustring \<times> nat) list"
  fs_flags :: "bool list"
  fs_disk :: file_disk
  fs_created :: "ustring list"
  fs_delivered :: "(ustring \<times> nat \<times> bytes) list"

definition prune_canceled_uploads :: "nat \<Rightarrow> (ustring \<times> nat) list \<Rightarrow> (ustring \<times> nat) list" where
  "prune_canceled_uploads now m = filter (\<lambda>(_, t). now - t < upload_cancel_ttl) m"

definition upload_is_canceled :: "nat \<Rightarrow> ustring \<Rightarrow> file_state \<Rightarrow> bool \<times> file_state" where
  "upload_is_canceled now key st =
    (let c = prune_canceled_uploads now (fs_canceled st)
     in (map_of c key \<noteq> None, st\<lparr>fs_canceled := c\<rparr>))"

fun oldest :: "(ustring \<times> nat) list \<Rightarrow> (ustring \<times> nat) option" where
  "oldest [] = None"
| "oldest ((k, t) # m) = (case oldest m of Some (k', t') \<Rightarrow> if t' < t then Some (k', t') else Some (k, t) | None \<Rightarrow> Some (k, t))"

definition mark_upload_canceled :: "nat \<Rightarrow> ustring \<Rightarrow> file_state \<Rightarrow> file_state" where
  "mark_upload_canceled now key st =
    (let c = prune_canceled_uploads now (fs_canceled st);
         c1 = (if length c \<ge> max_canceled_uploads \<and> map_of c key = None
               then (case oldest c of Some (k, _) \<Rightarrow> AList.delete k c | None \<Rightarrow> c) else c)
     in st\<lparr>fs_canceled := AList.update key now c1\<rparr>)"

definition clear_upload_canceled :: "ustring \<Rightarrow> file_state \<Rightarrow> file_state" where
  "clear_upload_canceled key st = st\<lparr>fs_canceled := AList.delete key (fs_canceled st)\<rparr>"

text \<open>\<open>remove\<close> tells whether the removal of a file works.\<close>

definition remove_files :: "(path \<Rightarrow> bool) \<Rightarrow> path list \<Rightarrow> file_disk \<Rightarrow> file_disk" where
  "remove_files remove ps d = (\<lambda>p. if p \<in> set ps \<and> remove p then None else d p)"

definition raise_flags :: "nat list \<Rightarrow> bool list \<Rightarrow> bool list" where
  "raise_flags is flags = foldl (\<lambda>f i. f[i := True]) flags is"

definition upload_expired :: "nat \<Rightarrow> upload \<Rightarrow> bool" where
  "upload_expired now s \<longleftrightarrow> now - us_updated s \<ge> upload_idle_timeout"

definition prune_uploads :: "(path \<Rightarrow> bool) \<Rightarrow> nat \<Rightarrow> file_state \<Rightarrow> file_state" where
  "prune_uploads remove now st =
    (let expired = map snd (filter (\<lambda>(_, s). upload_expired now s) (fs_uploads st))
     in st\<lparr>fs_uploads := filter (\<lambda>(_, s). \<not> upload_expired now s) (fs_uploads st),
           fs_flags := raise_flags (map us_flag expired) (fs_flags st),
           fs_disk := remove_files remove (map us_stage expired) (fs_disk st)\<rparr>)"

definition metadata_matches :: "upload \<Rightarrow> path \<Rightarrow> nat \<Rightarrow> nat \<Rightarrow> nat \<Rightarrow> bool" where
  "metadata_matches s target tot chunk count \<longleftrightarrow>
    us_target s = target \<and> us_total s = tot \<and> us_chunk s = chunk \<and> us_count s = count"

section \<open>Delivering a chunk\<close>

record stream_host =
  sh_remove :: "path \<Rightarrow> bool"
  sh_dirs :: "ustring option"
  sh_clear :: "ustring option"
  sh_create :: "ustring option"
  sh_sync :: "ustring option"
  sh_chunk_file :: "ustring option"
  sh_transfer :: "(nat \<times> bytes, file_err) outcome"
  sh_write :: "(nat \<times> ustring) option"
  sh_flush :: "ustring option"

definition create_stage :: "stream_host \<Rightarrow> path \<Rightarrow> file_disk \<Rightarrow> (unit, file_err) outcome \<times> file_disk" where
  "create_stage h stage d =
    (case sh_dirs h of
       Some e \<Rightarrow> (Err (FileIo e), d)
     | None \<Rightarrow>
         (if d stage \<noteq> None \<and> sh_clear h \<noteq> None then (Err (FileIo (the (sh_clear h))), d)
          else let d1 = d(stage := None)
            in case sh_create h of
                 Some e \<Rightarrow> (Err (FileIo e), d1)
               | None \<Rightarrow>
                   (case sh_sync h of
                      Some e \<Rightarrow> (Err (FileIo e), d1(stage \<mapsto> []))
                    | None \<Rightarrow> (Ok (), d1(stage \<mapsto> [])))))"

definition upload_open ::
  "stream_host \<Rightarrow> nat \<Rightarrow> upload_args \<Rightarrow> file_state \<Rightarrow> (path \<times> nat, file_err) outcome \<times> file_state" where
  "upload_open h now a st0 =
    (let st = prune_uploads (sh_remove h) now st0; key = ua_key a
     in case map_of (fs_uploads st) key of
          Some s \<Rightarrow>
            if \<not> metadata_matches s (ua_target a) (ua_total a) (ua_chunk a) (ua_count a)
            then (file_invalid ''upload session metadata changed'', st)
            else (Ok (us_stage s, us_flag s), st\<lparr>fs_uploads := AList.update key (s\<lparr>us_updated := now\<rparr>) (fs_uploads st)\<rparr>)
        | None \<Rightarrow>
            if ua_index a \<noteq> 0 then (file_invalid ''unknown upload session'', st)
            else if length (fs_uploads st) \<ge> max_upload_sessions then (file_invalid ''too many active upload sessions'', st)
            else let stage = upload_part_path (ua_target a) key
              in case create_stage h stage (fs_disk st) of
                   (Ok _, d) \<Rightarrow>
                     (Ok (stage, length (fs_flags st)),
                      st\<lparr>fs_disk := d, fs_flags := fs_flags st @ [False], fs_created := key # fs_created st,
                         fs_uploads := AList.update key
                           \<lparr>us_target = ua_target a, us_stage = stage, us_total = ua_total a, us_chunk = ua_chunk a,
                            us_count = ua_count a, us_received = {}, us_flag = length (fs_flags st), us_updated = now\<rparr>
                           (fs_uploads st)\<rparr>)
                 | (Err e, d) \<Rightarrow> (Err e, st\<lparr>fs_disk := d\<rparr>)
                 | (Panic, d) \<Rightarrow> (Panic, st\<lparr>fs_disk := d\<rparr>))"

definition drop_session :: "(path \<Rightarrow> bool) \<Rightarrow> ustring \<Rightarrow> file_state \<Rightarrow> file_state" where
  "drop_session remove key st =
    (case map_of (fs_uploads st) key of
       None \<Rightarrow> st
     | Some s \<Rightarrow> st\<lparr>fs_uploads := AList.delete key (fs_uploads st), fs_disk := remove_files remove [us_stage s] (fs_disk st)\<rparr>)"

text \<open>Writing at an offset: a gap is filled with zeros.\<close>

definition splice :: "nat \<Rightarrow> bytes \<Rightarrow> bytes \<Rightarrow> bytes" where
  "splice offset new old = take offset (old @ replicate (offset - length old) 0) @ new @ drop (offset + length new) old"

definition write_stage ::
  "stream_host \<Rightarrow> upload_args \<Rightarrow> path \<Rightarrow> bytes \<Rightarrow> file_disk \<Rightarrow> (unit, file_err) outcome \<times> file_disk" where
  "write_stage h a stage body d =
    (case d stage of
       None \<Rightarrow> (Err (FileIo (ustr ''No such file or directory'')), d)
     | Some old \<Rightarrow>
         (case sh_write h of
            Some (k, e) \<Rightarrow> (Err (FileIo e), d(stage \<mapsto> splice (ua_offset a) (take k body) old))
          | None \<Rightarrow>
              let d1 = d(stage \<mapsto> splice (ua_offset a) body old)
              in case sh_flush h of Some e \<Rightarrow> (Err (FileIo e), d1) | None \<Rightarrow> (Ok (), d1)))"

definition upload_reply :: "nat \<Rightarrow> nat \<Rightarrow> bytes" where
  "upload_reply received offset =
    as_bytes (ustr ''{\"received\":'' @ dec received @ ustr '',\"offset\":'' @ dec offset @ ustr ''}'')"

definition upload_mark ::
  "stream_host \<Rightarrow> nat \<Rightarrow> upload_args \<Rightarrow> path \<Rightarrow> file_state \<Rightarrow> (bytes, file_err) outcome \<times> file_state" where
  "upload_mark h now a stage st =
    (case map_of (fs_uploads st) (ua_key a) of
       None \<Rightarrow> (file_invalid ''upload session was cancelled'', st\<lparr>fs_disk := remove_files (sh_remove h) [stage] (fs_disk st)\<rparr>)
     | Some s \<Rightarrow>
         (Ok (upload_reply (ua_expected a) (ua_offset a + ua_expected a)),
          st\<lparr>fs_uploads := AList.update (ua_key a) (s\<lparr>us_received := insert (ua_index a) (us_received s), us_updated := now\<rparr>)
               (fs_uploads st)\<rparr>))"

text \<open>
  The steps of one stream.  The chunk's own temporary file is the value \<open>body\<close> of the phase.
\<close>

datatype stream_phase =
    Starting
  | Opening
  | Rechecking path nat
  | Receiving path
  | Verifying path bytes
  | Writing path bytes
  | Marking path
  | Finished "(bytes, file_err) outcome"

definition refused :: "('a, file_err) outcome \<Rightarrow> stream_phase" where
  "refused r = Finished (case r of Err e \<Rightarrow> Err e | _ \<Rightarrow> Panic)"

definition canceled_phase :: stream_phase where
  "canceled_phase = Finished (file_invalid ''upload session was cancelled'')"

fun receive_chunk :: "stream_host \<Rightarrow> upload_args \<Rightarrow> (bytes, file_err) outcome" where
  "receive_chunk h a =
    (case sh_chunk_file h of
       Some e \<Rightarrow> Err (FileIo e)
     | None \<Rightarrow>
         and_then (sh_transfer h) (\<lambda>(status, body).
         if status \<noteq> 200 then file_invalid ''upload transfer was rejected''
         else if length body \<noteq> ua_expected a then file_invalid ''upload transfer returned invalid body''
         else Ok body))"

fun stream_step :: "stream_host \<Rightarrow> nat \<Rightarrow> upload_args \<Rightarrow> stream_phase \<Rightarrow> file_state \<Rightarrow> stream_phase \<times> file_state" where
  "stream_step h now a Starting st =
    (case upload_is_canceled now (ua_key a) st of (b, st1) \<Rightarrow> (if b then canceled_phase else Opening, st1))"
| "stream_step h now a Opening st =
    (case upload_open h now a st of
       (Ok (stage, flag), st1) \<Rightarrow> (Rechecking stage flag, st1)
     | (r, st1) \<Rightarrow> (refused r, st1))"
| "stream_step h now a (Rechecking stage flag) st =
    (case upload_is_canceled now (ua_key a) st of
       (b, st1) \<Rightarrow>
         if b then (canceled_phase, drop_session (sh_remove h) (ua_key a) (st1\<lparr>fs_flags := (fs_flags st1)[flag := True]\<rparr>))
         else (Receiving stage, st1))"
| "stream_step h now a (Receiving stage) st =
    (case receive_chunk h a of
       Ok body \<Rightarrow> (Verifying stage body, st\<lparr>fs_delivered := (ua_key a, ua_index a, body) # fs_delivered st\<rparr>)
     | r \<Rightarrow> (refused r, st))"
| "stream_step h now a (Verifying stage body) st =
    (case upload_is_canceled now (ua_key a) st of (b, st1) \<Rightarrow> (if b then canceled_phase else Writing stage body, st1))"
| "stream_step h now a (Writing stage body) st =
    (case write_stage h a stage body (fs_disk st) of
       (Ok _, d) \<Rightarrow> (Marking stage, st\<lparr>fs_disk := d\<rparr>)
     | (r, d) \<Rightarrow> (refused r, st\<lparr>fs_disk := d\<rparr>))"
| "stream_step h now a (Marking stage) st =
    (case upload_mark h now a stage st of (r, st1) \<Rightarrow> (Finished r, st1))"
| "stream_step h now a (Finished r) st = (Finished r, st)"

section \<open>Commit and cancellation\<close>

record commit_host =
  ch_remove :: "path \<Rightarrow> bool"
  ch_target_dir :: bool
  ch_open :: "ustring option"
  ch_length :: "ustring option"
  ch_mode :: "ustring option"
  ch_rename :: "ustring option"
  ch_parent :: "ustring option"

definition commit_reply :: "nat \<Rightarrow> bytes" where
  "commit_reply tot =
    as_bytes (ustr ''{\"received\":'' @ dec tot @ ustr '',\"final\":true,\"offset\":'' @ dec tot @ ustr ''}'')"

definition commit_stage :: "commit_host \<Rightarrow> upload \<Rightarrow> file_disk \<Rightarrow> (unit, file_err) outcome \<times> file_disk" where
  "commit_stage h s d =
    (case d (us_stage s) of
       None \<Rightarrow> (Err (FileIo (ustr ''No such file or directory'')), d)
     | Some c \<Rightarrow>
         (case ch_open h of
            Some e \<Rightarrow> (Err (FileIo e), d)
          | None \<Rightarrow>
              (if length c < us_total s then (file_invalid ''upload staging file is incomplete'', d)
               else case ch_length h of
                 Some e \<Rightarrow> (Err (FileIo e), d)
               | None \<Rightarrow>
                   (let d1 = d(us_stage s \<mapsto> take (us_total s) c)
                    in case ch_mode h of
                         Some e \<Rightarrow> (Err (FileIo e), d1)
                       | None \<Rightarrow>
                           (case ch_rename h of
                              Some e \<Rightarrow> (Err (FileIo e), d1)
                            | None \<Rightarrow> (Ok (), d1(us_target s \<mapsto> take (us_total s) c, us_stage s := None)))))))"

text \<open>\<open>meta\<close>: target, size, chunk size and number of chunks, or the error of reading them.\<close>

definition upload_commit ::
  "commit_host \<Rightarrow> nat \<Rightarrow> ustring \<Rightarrow> (path \<times> nat \<times> nat \<times> nat, file_err) outcome \<Rightarrow> file_state \<Rightarrow>
    (bytes, file_err) outcome \<times> file_state" where
  "upload_commit h now key meta st0 =
    (if \<not> valid_upload_id key then (file_invalid ''invalid upload_id'', st0)
     else let st = prune_uploads (ch_remove h) now st0
       in case map_of (fs_uploads st) key of
            None \<Rightarrow> (file_invalid ''unknown upload session'', st)
          | Some s \<Rightarrow>
              (case meta of
                 Err e \<Rightarrow> (Err e, st)
               | Panic \<Rightarrow> (Panic, st)
               | Ok (target, tot, chunk, count) \<Rightarrow>
                   if \<not> metadata_matches s target tot chunk count then (file_invalid ''upload commit metadata changed'', st)
                   else if card (us_received s) \<noteq> us_count s then (file_invalid ''upload is incomplete'', st)
                   else if ch_target_dir h then (file_invalid ''cannot replace a directory with a file'', st)
                   else case commit_stage h s (fs_disk st) of
                     (Err e, d) \<Rightarrow> (Err e, st\<lparr>fs_disk := d\<rparr>)
                   | (Panic, d) \<Rightarrow> (Panic, st\<lparr>fs_disk := d\<rparr>)
                   | (Ok _, d) \<Rightarrow>
                       (let st1 = clear_upload_canceled key (st\<lparr>fs_disk := d, fs_uploads := AList.delete key (fs_uploads st)\<rparr>)
                        in (case ch_parent h of Some e \<Rightarrow> Err (FileIo e) | None \<Rightarrow> Ok (commit_reply (us_total s)), st1))))"

definition commit_args :: "ustring option \<Rightarrow> bytes \<Rightarrow> (path \<times> nat \<times> nat \<times> nat, file_err) outcome" where
  "commit_args home args =
    (let target = resolve_path home (path_arg args ''path'')
     in and_then (ensure_not_root target) (\<lambda>_.
        and_then (u64_arg args ''total_size'') (\<lambda>tot.
        and_then (u64_arg args ''chunk_size'') (\<lambda>chunk.
        and_then (u64_arg args ''chunk_count'') (\<lambda>count.
        Ok (target, tot, chunk, count))))))"

definition remove_if_exists :: "ustring option \<Rightarrow> path \<Rightarrow> file_disk \<Rightarrow> (unit, file_err) outcome \<times> file_disk" where
  "remove_if_exists err p d =
    (case d p of
       None \<Rightarrow> (Ok (), d)
     | Some _ \<Rightarrow> (case err of Some e \<Rightarrow> (Err (FileIo e), d) | None \<Rightarrow> (Ok (), d(p := None))))"

definition upload_cancel ::
  "(path \<Rightarrow> bool) \<Rightarrow> ustring option \<Rightarrow> nat \<Rightarrow> ustring \<Rightarrow> path option \<Rightarrow> file_state \<Rightarrow>
    (bytes, file_err) outcome \<times> file_state" where
  "upload_cancel remove err now key requested st0 =
    (if \<not> valid_upload_id key then (file_invalid ''invalid upload_id'', st0)
     else let st = prune_uploads remove now st0; session = map_of (fs_uploads st) key;
              reply = (\<lambda>(r, d) st. (and_then r (\<lambda>_. Ok (lit ''{\"cancelled\":true}'')), st\<lparr>fs_disk := d\<rparr>))
       in case (session, requested) of
            (Some s, Some p) \<Rightarrow>
              if p \<noteq> us_target s then (file_invalid ''upload target path does not match session'', st)
              else reply (remove_if_exists err (us_stage s) (fs_disk st))
                ((mark_upload_canceled now key st)\<lparr>fs_uploads := AList.delete key (fs_uploads st),
                  fs_flags := (fs_flags st)[us_flag s := True]\<rparr>)
          | (Some s, None) \<Rightarrow>
              reply (remove_if_exists err (us_stage s) (fs_disk st))
                ((mark_upload_canceled now key st)\<lparr>fs_uploads := AList.delete key (fs_uploads st),
                  fs_flags := (fs_flags st)[us_flag s := True]\<rparr>)
          | (None, Some p) \<Rightarrow>
              reply (remove_if_exists err (upload_part_path p key) (fs_disk st)) (mark_upload_canceled now key st)
          | (None, None) \<Rightarrow> reply (Ok (), fs_disk st) (mark_upload_canceled now key st))"

section \<open>Interleavings\<close>

text \<open>
  Any number of requests, in any order and with any interleaving of their steps; the time of an event is
  read when it happens.  \<open>Elsewhere\<close> is a change of a file by anything else.  A stream is refused when
  eight are active.
\<close>

datatype upload_event =
    Requested "ustring option" bytes
  | Stepped nat stream_host
  | Committed commit_host "ustring option" bytes
  | Canceled "path \<Rightarrow> bool" "ustring option" "ustring option" bytes
  | Elsewhere path "bytes option"

type_synonym upload_system = "file_state \<times> (upload_args \<times> stream_phase) list"

definition active :: "upload_args \<times> stream_phase \<Rightarrow> bool" where
  "active w \<longleftrightarrow> (case snd w of Finished _ \<Rightarrow> False | _ \<Rightarrow> True)"

fun upload_event_step :: "nat \<Rightarrow> upload_event \<Rightarrow> upload_system \<Rightarrow> upload_system" where
  "upload_event_step now (Requested home args) (st, ws) =
    (if length (filter active ws) \<ge> max_streams then (st, ws)
     else case upload_stream_args home args of Ok a \<Rightarrow> (st, ws @ [(a, Starting)]) | _ \<Rightarrow> (st, ws))"
| "upload_event_step now (Stepped k h) (st, ws) =
    (if k < length ws
     then (case stream_step h now (fst (ws ! k)) (snd (ws ! k)) st of (p, st1) \<Rightarrow> (st1, ws[k := (fst (ws ! k), p)]))
     else (st, ws))"
| "upload_event_step now (Committed h home args) (st, ws) =
    (snd (upload_commit h now (path_arg args ''upload_id'') (commit_args home args) st), ws)"
| "upload_event_step now (Canceled remove err home args) (st, ws) =
    (snd (upload_cancel remove err now (path_arg args ''upload_id'')
       (case path_arg args ''path'' of [] \<Rightarrow> None | p \<Rightarrow> Some (resolve_path home p)) st), ws)"
| "upload_event_step now (Elsewhere p x) (st, ws) = (st\<lparr>fs_disk := (fs_disk st)(p := x)\<rparr>, ws)"

fun upload_run :: "(nat \<times> upload_event) list \<Rightarrow> upload_system \<Rightarrow> upload_system" where
  "upload_run [] sys = sys"
| "upload_run ((now, e) # es) sys = upload_run es (upload_event_step now e sys)"

definition uploads_start :: "file_disk \<Rightarrow> upload_system" where
  "uploads_start d =
    (\<lparr>fs_uploads = [], fs_canceled = [], fs_flags = [], fs_disk = d, fs_created = [], fs_delivered = []\<rparr>, [])"

section \<open>The writer of a cancelled stream\<close>

text \<open>
  \<open>CancelWriter\<close> under the library's \<open>write_all\<close>, which calls \<open>write\<close> again when it was interrupted and
  ends only on another error, on a write of nothing, or when all is written.  \<open>flag n\<close> is the
  cancellation flag at the \<open>n\<close>th call; \<open>file n\<close> the result of the \<open>n\<close>th write to the file.
\<close>

datatype write_result = Wrote nat | WriteInterrupted | WriteError ustring

definition cancel_write :: "bool \<Rightarrow> write_result \<Rightarrow> write_result" where
  "cancel_write canceled file = (if canceled then WriteInterrupted else file)"

partial_function (option) write_all :: "(nat \<Rightarrow> write_result) \<Rightarrow> nat \<Rightarrow> nat \<Rightarrow> (ustring option \<times> nat) option" where
  "write_all writer n left =
    (if left = 0 then Some (None, n)
     else case writer n of
       Wrote k \<Rightarrow> if k = 0 then Some (Some (ustr ''failed to write whole buffer''), n) else write_all writer (n + 1) (left - k)
     | WriteInterrupted \<Rightarrow> write_all writer (n + 1) left
     | WriteError e \<Rightarrow> Some (Some e, n))"

definition write_received :: "(nat \<Rightarrow> bool) \<Rightarrow> (nat \<Rightarrow> write_result) \<Rightarrow> nat \<Rightarrow> nat \<Rightarrow> (ustring option \<times> nat) option" where
  "write_received flag file = write_all (\<lambda>n. cancel_write (flag n) (file n))"

end
