(* ===== verification/FileUploadsSpec.thy ===== *)
theory FileUploadsSpec
  imports FileUploads
begin

text \<open>
  What uploads guarantee for every interleaving: a committed file consists of the delivered chunks, and
  sessions, streams and cancellation marks are bounded.
\<close>

section \<open>Writing at an offset\<close>

lemma length_splice: "length (splice off new old) = max (length old) (off + length new)"
  by (simp add: splice_def)

lemma splice_nth:
  assumes "i < length (splice off new old)"
  shows "splice off new old ! i =
    (if off \<le> i \<and> i < off + length new then new ! (i - off) else if i < length old then old ! i else 0)"
  using assms by (auto simp: splice_def nth_append min_def)

lemma splice_region:
  "take (length new) (drop off (splice off new old)) = new"
  by (simp add: splice_def)

lemma splice_elsewhere:
  assumes "off + n \<le> length old" "off + n \<le> at \<or> at + length new \<le> off"
  shows "take n (drop off (splice at new old)) = take n (drop off old)"
proof (rule nth_equalityI)
  show "length (take n (drop off (splice at new old))) = length (take n (drop off old))"
    using assms(1) by (simp add: length_splice)
next
  fix i assume "i < length (take n (drop off (splice at new old)))"
  then have i: "i < n" "off + i < length (splice at new old)" using assms(1) by (auto simp: length_splice)
  then have "splice at new old ! (off + i) = old ! (off + i)"
    using assms by (subst splice_nth) auto
  then show "take n (drop off (splice at new old)) ! i = take n (drop off old) ! i"
    using i assms(1) by simp
qed

text \<open>Rewriting a region by a prefix of what it holds changes nothing.\<close>

lemma splice_same:
  assumes "off + length new \<le> length old" "take (length new) (drop off old) = new"
  shows "splice off new old = old"
proof -
  have "old = take off old @ take (length new) (drop off old) @ drop (length new) (drop off old)"
    by (simp only: append_take_drop_id)
  then have "old = take off old @ new @ drop (off + length new) old"
    using assms(2) by (simp add: add.commute)
  then show ?thesis using assms(1) by (simp add: splice_def)
qed

section \<open>Names of staging files\<close>

lemma last_dot_unique:
  "\<lbrakk>a @ x # b = a' @ x # b'; x \<notin> set b; x \<notin> set b'\<rbrakk> \<Longrightarrow> a = a' \<and> b = b'"
proof (induction a arbitrary: a')
  case Nil
  then show ?case by (cases a') auto
next
  case (Cons y a)
  then show ?case by (cases a') auto
qed

lemma valid_no_dot: "valid_upload_id key \<Longrightarrow> 0x2E \<notin> set key"
  by (auto simp: valid_upload_id_def list_all_iff)

lemma upload_part_path_key:
  assumes "upload_part_path t k = upload_part_path t' k'" "valid_upload_id k" "valid_upload_id k'"
  shows "k = k'"
proof -
  let ?pre = "ustr ''.komari-upload-''"
  have "last (upload_part_path t k) = last (upload_part_path t' k')" using assms(1) by simp
  then have "([0x2E] @ name_or_file t @ ?pre @ k) @ ustr ''.part'' = ([0x2E] @ name_or_file t' @ ?pre @ k') @ ustr ''.part''"
    by (simp add: upload_part_path_def with_file_name_def)
  then have "[0x2E] @ name_or_file t @ ?pre @ k = [0x2E] @ name_or_file t' @ ?pre @ k'"
    by (simp only: append_same_eq)
  then have "name_or_file t @ 0x2E # (ustr ''komari-upload-'' @ k) = name_or_file t' @ 0x2E # (ustr ''komari-upload-'' @ k')"
    by (simp add: ustr_def)
  moreover have "0x2E \<notin> set (ustr ''komari-upload-'')" by (simp add: ustr_def)
  ultimately have "ustr ''komari-upload-'' @ k = ustr ''komari-upload-'' @ k'"
    using last_dot_unique valid_no_dot [OF assms(2)] valid_no_dot [OF assms(3)]
    by (metis Un_iff set_append)
  then show ?thesis by simp
qed

section \<open>The invariant\<close>

definition sent_chunk :: "file_state \<Rightarrow> ustring \<Rightarrow> upload \<Rightarrow> nat \<Rightarrow> bool" where
  "sent_chunk st key s i \<longleftrightarrow>
    (\<exists>d c. (key, i, d) \<in> set (fs_delivered st) \<and> length d = min (us_chunk s) (us_total s - i * us_chunk s) \<and>
       i * us_chunk s < us_total s \<and> fs_disk st (us_stage s) = Some c \<and> i * us_chunk s + length d \<le> length c \<and>
       take (length d) (drop (i * us_chunk s) c) = d)"

definition session_ok :: "file_state \<Rightarrow> ustring \<Rightarrow> upload \<Rightarrow> bool" where
  "session_ok st key s \<longleftrightarrow> valid_upload_id key \<and> key \<in> set (fs_created st) \<and>
    us_stage s = upload_part_path (us_target s) key \<and> 0 < us_total s \<and> 0 < us_chunk s \<and>
    us_count s = div_ceil (us_total s) (us_chunk s) \<and> us_received s \<subseteq> {..<us_count s} \<and>
    \<not> (\<exists>t k. us_target s = upload_part_path t k) \<and> (\<forall>i\<in>us_received s. sent_chunk st key s i)"

definition args_ok :: "upload_args \<Rightarrow> bool" where
  "args_ok a \<longleftrightarrow> valid_upload_id (ua_key a) \<and> \<not> (\<exists>t k. ua_target a = upload_part_path t k) \<and>
    validated_chunk (ua_index a) (ua_count a) (ua_total a) (ua_chunk a) = Some (ua_offset a, ua_expected a)"

definition joined :: "file_state \<Rightarrow> upload_args \<Rightarrow> path \<Rightarrow> bool" where
  "joined st a stage \<longleftrightarrow> stage = upload_part_path (ua_target a) (ua_key a) \<and> ua_key a \<in> set (fs_created st) \<and>
    (\<forall>s. map_of (fs_uploads st) (ua_key a) = Some s \<longrightarrow> metadata_matches s (ua_target a) (ua_total a) (ua_chunk a) (ua_count a))"

fun phase_ok :: "file_state \<Rightarrow> upload_args \<Rightarrow> stream_phase \<Rightarrow> bool" where
  "phase_ok st a (Rechecking stage flag) \<longleftrightarrow> joined st a stage"
| "phase_ok st a (Receiving stage) \<longleftrightarrow> joined st a stage"
| "phase_ok st a (Verifying stage body) \<longleftrightarrow>
    joined st a stage \<and> (ua_key a, ua_index a, body) \<in> set (fs_delivered st) \<and> length body = ua_expected a"
| "phase_ok st a (Writing stage body) \<longleftrightarrow>
    joined st a stage \<and> (ua_key a, ua_index a, body) \<in> set (fs_delivered st) \<and> length body = ua_expected a"
| "phase_ok st a (Marking stage) \<longleftrightarrow>
    joined st a stage \<and> (\<forall>s. map_of (fs_uploads st) (ua_key a) = Some s \<longrightarrow> sent_chunk st (ua_key a) s (ua_index a))"
| "phase_ok st a _ \<longleftrightarrow> True"

definition upload_inv :: "upload_system \<Rightarrow> bool" where
  "upload_inv sys \<longleftrightarrow> (case sys of (st, ws) \<Rightarrow>
    distinct (map fst (fs_uploads st)) \<and>
    (\<forall>key s. map_of (fs_uploads st) key = Some s \<longrightarrow> session_ok st key s) \<and>
    (\<forall>(a, p)\<in>set ws. args_ok a \<and> phase_ok st a p))"

definition same_session :: "upload \<Rightarrow> upload \<Rightarrow> bool" where
  "same_session s s' \<longleftrightarrow> us_target s' = us_target s \<and> us_stage s' = us_stage s \<and> us_total s' = us_total s \<and>
    us_chunk s' = us_chunk s \<and> us_count s' = us_count s \<and> us_received s' = us_received s"

text \<open>A staging file stays, or loses what is beyond the size of the upload.\<close>

definition stage_kept :: "upload \<Rightarrow> bytes option \<Rightarrow> bytes option \<Rightarrow> bool" where
  "stage_kept s x y \<longleftrightarrow> y = x \<or> (\<exists>c. x = Some c \<and> us_total s \<le> length c \<and> y = Some (take (us_total s) c))"

text \<open>Sessions only leave or are touched, their staging files and the records stay.\<close>

definition calm :: "file_state \<Rightarrow> file_state \<Rightarrow> bool" where
  "calm st st' \<longleftrightarrow> distinct (map fst (fs_uploads st')) \<and>
    set (fs_created st) \<subseteq> set (fs_created st') \<and> set (fs_delivered st) \<subseteq> set (fs_delivered st') \<and>
    (\<forall>key s'. map_of (fs_uploads st') key = Some s' \<longrightarrow>
      (\<exists>s. map_of (fs_uploads st) key = Some s \<and> same_session s s' \<and> stage_kept s (fs_disk st (us_stage s)) (fs_disk st' (us_stage s))))"

lemma stage_kept_refl [simp]: "stage_kept s x x"
  by (simp add: stage_kept_def)

lemma stage_kept_trans: "\<lbrakk>stage_kept s x y; stage_kept s' y z; us_total s' = us_total s\<rbrakk> \<Longrightarrow> stage_kept s x z"
  unfolding stage_kept_def by auto

lemma calm_sent_chunk:
  assumes "set (fs_delivered st) \<subseteq> set (fs_delivered st')" and s: "same_session s s'"
    and "stage_kept s (fs_disk st (us_stage s)) (fs_disk st' (us_stage s))" and "sent_chunk st key s i"
  shows "sent_chunk st' key s' i"
proof -
  obtain d c where d: "(key, i, d) \<in> set (fs_delivered st)" "length d = min (us_chunk s) (us_total s - i * us_chunk s)"
    "fs_disk st (us_stage s) = Some c" "i * us_chunk s + length d \<le> length c" "take (length d) (drop (i * us_chunk s) c) = d"
    using assms(4) unfolding sent_chunk_def by blast
  have l: "i * us_chunk s < us_total s" using assms(4) unfolding sent_chunk_def by blast
  have e: "us_stage s' = us_stage s" "us_chunk s' = us_chunk s" "us_total s' = us_total s" using s by (simp_all add: same_session_def)
  obtain c' where c': "fs_disk st' (us_stage s) = Some c'" "c' = c \<or> us_total s \<le> length c \<and> c' = take (us_total s) c"
    using assms(3) d(3) unfolding stage_kept_def by auto
  have "i * us_chunk s + length d \<le> us_total s" using d(2) l by simp
  then have "i * us_chunk s + length d \<le> length c'" "take (length d) (drop (i * us_chunk s) c') = d"
    using c'(2) d(4,5) by (auto simp: drop_take min_def)
  then show ?thesis unfolding sent_chunk_def e using d(1,2) l c'(1) assms(1) by (intro exI [of _ d] exI [of _ c']) auto
qed

lemma calm_session:
  assumes "calm st st'" "\<forall>key s. map_of (fs_uploads st) key = Some s \<longrightarrow> session_ok st key s"
    "map_of (fs_uploads st') key = Some s'"
  shows "session_ok st' key s'"
proof -
  from assms(1,3) obtain s where s: "map_of (fs_uploads st) key = Some s" "same_session s s'"
    "stage_kept s (fs_disk st (us_stage s)) (fs_disk st' (us_stage s))" unfolding calm_def by blast
  have "session_ok st key s" using assms(2) s(1) by blast
  moreover have "sent_chunk st' key s' i" if "sent_chunk st key s i" for i
    using calm_sent_chunk [OF _ s(2,3) that] assms(1) unfolding calm_def by blast
  ultimately show ?thesis using s(2) assms(1) unfolding session_ok_def same_session_def calm_def by auto
qed

lemma calm_joined:
  assumes "calm st st'" "joined st a stage"
  shows "joined st' a stage"
  unfolding joined_def
proof (intro conjI allI impI)
  fix s'
  assume "map_of (fs_uploads st') (ua_key a) = Some s'"
  then obtain s where "map_of (fs_uploads st) (ua_key a) = Some s" "same_session s s'"
    using assms(1) unfolding calm_def by blast
  then show "metadata_matches s' (ua_target a) (ua_total a) (ua_chunk a) (ua_count a)"
    using assms(2) unfolding joined_def metadata_matches_def same_session_def by auto
qed (use assms in \<open>auto simp: joined_def calm_def\<close>)

lemma calm_phase:
  assumes c: "calm st st'" and p: "phase_ok st a p"
  shows "phase_ok st' a p"
proof (cases p)
  case (Marking stage)
  have "sent_chunk st' (ua_key a) s' (ua_index a)" if m: "map_of (fs_uploads st') (ua_key a) = Some s'" for s'
  proof -
    from c m obtain s where s: "map_of (fs_uploads st) (ua_key a) = Some s" "same_session s s'"
      "stage_kept s (fs_disk st (us_stage s)) (fs_disk st' (us_stage s))" unfolding calm_def by blast
    have "sent_chunk st (ua_key a) s (ua_index a)" using p s(1) Marking by simp
    then show ?thesis using calm_sent_chunk [OF _ s(2,3)] c unfolding calm_def by blast
  qed
  then show ?thesis using p c Marking by (auto intro: calm_joined)
qed (use assms in \<open>auto intro: calm_joined simp: calm_def\<close>)

lemma calm_inv:
  assumes c: "calm st st'" and i: "upload_inv (st, ws)"
  shows "upload_inv (st', ws)"
proof -
  have s: "\<forall>key s. map_of (fs_uploads st) key = Some s \<longrightarrow> session_ok st key s"
    and w: "\<forall>(a, p)\<in>set ws. args_ok a \<and> phase_ok st a p"
    using i unfolding upload_inv_def prod.case by blast+
  have "\<forall>(a, p)\<in>set ws. args_ok a \<and> phase_ok st' a p"
    using w calm_phase [OF c] by blast
  moreover have "\<forall>key s. map_of (fs_uploads st') key = Some s \<longrightarrow> session_ok st' key s"
    using calm_session [OF c s] by blast
  moreover have "distinct (map fst (fs_uploads st'))" using c unfolding calm_def by blast
  ultimately show ?thesis unfolding upload_inv_def prod.case by blast
qed

lemma same_session_trans: "same_session s t \<Longrightarrow> same_session t u \<Longrightarrow> same_session s u"
  by (simp add: same_session_def)

lemma same_session_refl [simp]: "same_session s s"
  by (simp add: same_session_def)

lemma calm_trans:
  assumes "calm st st1" "calm st1 st2"
  shows "calm st st2"
proof -
  have "\<exists>s. map_of (fs_uploads st) key = Some s \<and> same_session s u \<and> stage_kept s (fs_disk st (us_stage s)) (fs_disk st2 (us_stage s))"
    if u: "map_of (fs_uploads st2) key = Some u" for key u
  proof -
    obtain t where t: "map_of (fs_uploads st1) key = Some t" "same_session t u" "stage_kept t (fs_disk st1 (us_stage t)) (fs_disk st2 (us_stage t))"
      using assms(2) u unfolding calm_def by blast
    obtain s where s: "map_of (fs_uploads st) key = Some s" "same_session s t" "stage_kept s (fs_disk st (us_stage s)) (fs_disk st1 (us_stage s))"
      using assms(1) t(1) unfolding calm_def by blast
    have e: "us_stage s = us_stage t" "us_total t = us_total s" using s(2) by (simp_all add: same_session_def)
    have "stage_kept s (fs_disk st (us_stage s)) (fs_disk st2 (us_stage s))"
      using stage_kept_trans [OF s(3)] t(3) e by simp
    then show ?thesis using s(1) same_session_trans [OF s(2) t(2)] by blast
  qed
  then show ?thesis using assms unfolding calm_def by blast
qed

section \<open>Steps that are calm\<close>

text \<open>Of two sessions with the same staging file there is only one key.\<close>

lemma inv_session: "\<lbrakk>upload_inv (st, ws); map_of (fs_uploads st) key = Some s\<rbrakk> \<Longrightarrow> session_ok st key s"
  by (auto simp: upload_inv_def)

lemma inv_distinct: "upload_inv (st, ws) \<Longrightarrow> distinct (map fst (fs_uploads st))"
  by (simp add: upload_inv_def)

lemma stage_key:
  assumes "upload_inv (st, ws)" "map_of (fs_uploads st) k = Some s" "valid_upload_id k'" "us_stage s = upload_part_path t k'"
  shows "k = k'"
  using inv_session [OF assms(1,2)] assms(3,4) upload_part_path_key unfolding session_ok_def by metis

lemma map_of_filterD: "distinct (map fst xs) \<Longrightarrow> map_of (filter P xs) k = Some v \<Longrightarrow> map_of xs k = Some v \<and> P (k, v)"
  by (auto dest!: map_of_SomeD)

lemma distinct_fst_filter: "distinct (map fst xs) \<Longrightarrow> distinct (map fst (filter P xs))"
  by (induction xs) auto

lemma calm_canceled: "distinct (map fst (fs_uploads st)) \<Longrightarrow> calm st (st\<lparr>fs_canceled := c\<rparr>)"
  by (simp add: calm_def)

lemma calm_delivered: "distinct (map fst (fs_uploads st)) \<Longrightarrow> calm st (st\<lparr>fs_delivered := x # fs_delivered st\<rparr>)"
  by (simp add: calm_def subset_insertI)

lemma calm_flags: "calm st st' \<Longrightarrow> calm st (st'\<lparr>fs_flags := f\<rparr>)"
  by (simp add: calm_def)

lemma calm_is_canceled: "upload_inv (st, ws) \<Longrightarrow> calm st (snd (upload_is_canceled now key st))"
  by (simp add: upload_is_canceled_def Let_def calm_canceled inv_distinct)

lemma calm_prune:
  assumes i: "upload_inv (st, ws)"
  shows "calm st (prune_uploads remove now st)"
proof -
  let ?P = "\<lambda>(k, s). \<not> upload_expired now s"
  note d = inv_distinct [OF i]
  have "fs_disk (prune_uploads remove now st) (us_stage s) = fs_disk st (us_stage s) \<and> map_of (fs_uploads st) key = Some s"
    if m: "map_of (filter ?P (fs_uploads st)) key = Some s" for key s
  proof -
    have s: "map_of (fs_uploads st) key = Some s" "\<not> upload_expired now s" using map_of_filterD [OF d m] by auto
    have "us_stage s \<noteq> us_stage t" if t: "(k, t) \<in> set (fs_uploads st)" "upload_expired now t" for k t
    proof
      assume e: "us_stage s = us_stage t"
      have "map_of (fs_uploads st) k = Some t" using t(1) d by simp
      moreover from this have "k = key"
        using stage_key [OF i] inv_session [OF i s(1)] e unfolding session_ok_def by metis
      ultimately show False using s t(2) by simp
    qed
    then have "us_stage s \<notin> us_stage ` snd ` {x \<in> set (fs_uploads st). case x of (_, t) \<Rightarrow> upload_expired now t}" by fastforce
    then show ?thesis using s(1) by (simp add: prune_uploads_def Let_def remove_files_def image_image)
  qed
  moreover have "fs_uploads (prune_uploads remove now st) = filter ?P (fs_uploads st)"
    "fs_created (prune_uploads remove now st) = fs_created st" "fs_delivered (prune_uploads remove now st) = fs_delivered st"
    by (simp_all add: prune_uploads_def Let_def)
  ultimately show ?thesis
    unfolding calm_def using distinct_fst_filter [OF d] same_session_refl by auto
qed

lemma calm_delete:
  assumes i: "upload_inv (st, ws)" and "\<And>k s. map_of (fs_uploads st) k = Some s \<Longrightarrow> k \<noteq> key \<Longrightarrow> d (us_stage s) = fs_disk st (us_stage s)"
  shows "calm st (st\<lparr>fs_uploads := AList.delete key (fs_uploads st), fs_disk := d\<rparr>)"
  using assms(2) inv_distinct [OF i] unfolding calm_def
  by (auto simp: AList.delete_conv' distinct_delete simp del: map_of_eq_Some_iff split: if_splits)

lemma calm_disk:
  assumes i: "upload_inv (st, ws)" and "\<And>k s. map_of (fs_uploads st) k = Some s \<Longrightarrow> d (us_stage s) = fs_disk st (us_stage s)"
  shows "calm st (st\<lparr>fs_disk := d\<rparr>)"
  using assms(2) inv_distinct [OF i] unfolding calm_def by simp

lemma prune_inv: "upload_inv (st, ws) \<Longrightarrow> upload_inv (prune_uploads remove now st, ws)"
  by (rule calm_inv [OF calm_prune])

lemma calm_cancel:
  assumes i: "upload_inv (st, ws)"
  shows "calm st (snd (upload_cancel remove err now key requested st))"
proof (cases "valid_upload_id key")
  case False
  then show ?thesis using inv_distinct [OF i] by (simp add: upload_cancel_def calm_def)
next
  case True
  let ?st = "prune_uploads remove now st"
  note ip = prune_inv [OF i, of remove now]
  have step: "calm st st'" if "calm ?st st'" for st' by (rule calm_trans [OF calm_prune [OF i] that])
  show ?thesis
  proof (cases "map_of (fs_uploads ?st) key")
    case (Some s)
    have other: "us_stage t \<noteq> us_stage s" if "map_of (fs_uploads ?st) k = Some t" "k \<noteq> key" for k t
      using stage_key [OF ip that(1) True] inv_session [OF ip Some] that(2) unfolding session_ok_def by metis
    have "calm ?st (?st\<lparr>fs_uploads := AList.delete key (fs_uploads ?st), fs_disk := snd (remove_if_exists err (us_stage s) (fs_disk ?st))\<rparr>)"
      by (rule calm_delete [OF ip]) (auto simp: remove_if_exists_def dest: other split: option.splits)
    then have "calm ?st ((mark_upload_canceled now key ?st)\<lparr>fs_uploads := AList.delete key (fs_uploads ?st),
        fs_flags := f, fs_disk := snd (remove_if_exists err (us_stage s) (fs_disk ?st))\<rparr>)" for f
      by (simp add: calm_def mark_upload_canceled_def Let_def)
    then show ?thesis using True Some calm_prune [OF i] step
      by (auto simp: upload_cancel_def Let_def split: option.splits prod.splits)
  next
    case None
    have other: "us_stage t \<noteq> upload_part_path p key" if "map_of (fs_uploads ?st) k = Some t" for k t p
      using stage_key [OF ip that True] None that by auto
    have "calm ?st (?st\<lparr>fs_disk := snd (remove_if_exists err (upload_part_path p key) (fs_disk ?st))\<rparr>)" for p
      by (rule calm_disk [OF ip]) (auto simp: remove_if_exists_def dest: other split: option.splits)
    then have "calm ?st ((mark_upload_canceled now key ?st)\<lparr>fs_disk := snd (remove_if_exists err (upload_part_path p key) (fs_disk ?st))\<rparr>)" for p
      by (simp add: calm_def mark_upload_canceled_def Let_def)
    moreover have "calm ?st ((mark_upload_canceled now key ?st)\<lparr>fs_disk := fs_disk ?st\<rparr>)"
      using inv_distinct [OF ip] by (simp add: calm_def mark_upload_canceled_def Let_def)
    ultimately have a: "calm st ((mark_upload_canceled now key ?st)\<lparr>fs_disk := snd (remove_if_exists err (upload_part_path p key) (fs_disk ?st))\<rparr>)"
      "calm st ((mark_upload_canceled now key ?st)\<lparr>fs_disk := fs_disk ?st\<rparr>)" for p using step by blast+
    show ?thesis
    proof (cases requested)
      case None
      then show ?thesis using True \<open>map_of (fs_uploads ?st) key = None\<close> a(2) by (simp add: upload_cancel_def Let_def)
    next
      case (Some p)
      obtain r d where r: "remove_if_exists err (upload_part_path p key) (fs_disk ?st) = (r, d)" by fastforce
      then show ?thesis using True Some \<open>map_of (fs_uploads ?st) key = None\<close> a(1) [of p] by (simp add: upload_cancel_def Let_def)
    qed
  qed
qed

lemma commit_stage_disk:
  "p \<noteq> us_stage s \<Longrightarrow> p \<noteq> us_target s \<Longrightarrow> snd (commit_stage h s d) p = d p"
  by (auto simp: commit_stage_def Let_def file_invalid_def split: option.splits)

lemma commit_stage_fails:
  "fst (commit_stage h s d) \<noteq> Ok () \<Longrightarrow> us_stage s \<noteq> us_target s \<Longrightarrow>
    stage_kept s (d (us_stage s)) (snd (commit_stage h s d) (us_stage s)) \<and> snd (commit_stage h s d) (us_target s) = d (us_target s)"
  by (auto simp: commit_stage_def Let_def file_invalid_def stage_kept_def split: option.splits)

lemma calm_commit:
  assumes i: "upload_inv (st, ws)"
  shows "calm st (snd (upload_commit h now key meta st))"
proof (cases "valid_upload_id key")
  case False
  then show ?thesis using inv_distinct [OF i] by (simp add: upload_commit_def calm_def)
next
  case True
  let ?st = "prune_uploads (ch_remove h) now st"
  note ip = prune_inv [OF i, of "ch_remove h" now]
  have step: "calm st st'" if "calm ?st st'" for st' by (rule calm_trans [OF calm_prune [OF i] that])
  show ?thesis
  proof (cases "map_of (fs_uploads ?st) key")
    case None
    then show ?thesis using True calm_prune [OF i] by (simp add: upload_commit_def)
  next
    case (Some s)
    note s = inv_session [OF ip Some]
    have target: "us_stage t \<noteq> us_target s" if "map_of (fs_uploads ?st) k = Some t" for k t
      using inv_session [OF ip that] s unfolding session_ok_def by metis
    have other: "us_stage t \<noteq> us_stage s" if "map_of (fs_uploads ?st) k = Some t" "k \<noteq> key" for k t
      using stage_key [OF ip that(1) True] s that(2) unfolding session_ok_def by metis
    obtain r d where c: "commit_stage h s (fs_disk ?st) = (r, d)" by fastforce
    have away: "d (us_stage t) = fs_disk ?st (us_stage t)" if "map_of (fs_uploads ?st) k = Some t" "k \<noteq> key" for k t
      using commit_stage_disk [of "us_stage t" s h "fs_disk ?st"] target [OF that(1)] other [OF that] c by simp
    have "calm ?st (?st\<lparr>fs_disk := d\<rparr>)" if "r \<noteq> Ok ()"
    proof -
      have "stage_kept s (fs_disk ?st (us_stage s)) (d (us_stage s))"
        using commit_stage_fails [of h s "fs_disk ?st"] c target [OF Some] that by simp
      then show ?thesis unfolding calm_def using away Some inv_distinct [OF ip]
        by simp (metis map_of_eq_Some_iff option.inject same_session_refl stage_kept_refl)
    qed
    moreover have "calm ?st (?st\<lparr>fs_uploads := AList.delete key (fs_uploads ?st), fs_disk := d\<rparr>)"
      by (rule calm_delete [OF ip]) (rule away)
    then have "calm ?st (clear_upload_canceled key (?st\<lparr>fs_disk := d, fs_uploads := AList.delete key (fs_uploads ?st)\<rparr>))"
      by (simp add: calm_def clear_upload_canceled_def)
    ultimately show ?thesis using True Some c step calm_prune [OF i, of "ch_remove h" now]
      unfolding upload_commit_def Let_def by (auto split: outcome.splits)
  qed
qed

lemma calm_elsewhere:
  assumes i: "upload_inv (st, ws)" and p: "\<not> (\<exists>t k. p = upload_part_path t k)"
  shows "calm st (st\<lparr>fs_disk := (fs_disk st)(p := x)\<rparr>)"
  by (rule calm_disk [OF i]) (use inv_session [OF i] p in \<open>auto simp: session_ok_def\<close>)

section \<open>Steps of streams\<close>

lemma inv_stream: "\<lbrakk>upload_inv (st, ws); k < length ws\<rbrakk> \<Longrightarrow> args_ok (fst (ws ! k)) \<and> phase_ok st (fst (ws ! k)) (snd (ws ! k))"
  by (fastforce simp: upload_inv_def dest!: nth_mem)

lemma inv_advance:
  assumes "upload_inv (st, ws)" "k < length ws" "phase_ok st (fst (ws ! k)) p"
  shows "upload_inv (st, ws[k := (fst (ws ! k), p)])"
proof -
  have "args_ok (fst (ws ! k))" using inv_stream [OF assms(1,2)] by blast
  then show ?thesis using assms set_update_subset_insert [of ws k "(fst (ws ! k), p)"]
    unfolding upload_inv_def prod.case by (auto split: prod.splits)
qed

lemma calm_drop_session:
  assumes i: "upload_inv (st, ws)" and key: "valid_upload_id key"
  shows "calm st (drop_session remove key st)"
proof (cases "map_of (fs_uploads st) key")
  case None
  then show ?thesis using inv_distinct [OF i] by (simp add: drop_session_def calm_def)
next
  case (Some s)
  have "us_stage t \<noteq> us_stage s" if "map_of (fs_uploads st) k = Some t" "k \<noteq> key" for k t
    using stage_key [OF i that(1) key] inv_session [OF i Some] that(2) unfolding session_ok_def by metis
  then have "calm st (st\<lparr>fs_uploads := AList.delete key (fs_uploads st), fs_disk := remove_files remove [us_stage s] (fs_disk st)\<rparr>)"
    by (intro calm_delete [OF i]) (simp add: remove_files_def)
  then show ?thesis by (simp add: drop_session_def Some)
qed

lemma create_stage_disk:
  "p \<noteq> stage \<Longrightarrow> snd (create_stage h stage d) p = d p"
  by (auto simp: create_stage_def Let_def split: option.splits)

lemma create_stage_ok: "fst (create_stage h stage d) = Ok () \<Longrightarrow> snd (create_stage h stage d) stage = Some []"
  by (auto simp: create_stage_def Let_def split: option.splits if_splits)

lemma args_meta:
  assumes "args_ok a"
  shows "0 < ua_total a" "0 < ua_chunk a" "ua_count a = div_ceil (ua_total a) (ua_chunk a)" "ua_index a < ua_count a"
    "ua_offset a = ua_index a * ua_chunk a" "ua_expected a = min (ua_chunk a) (ua_total a - ua_index a * ua_chunk a)"
    "ua_index a * ua_chunk a < ua_total a" "valid_upload_id (ua_key a)" "\<not> (\<exists>t k. ua_target a = upload_part_path t k)"
  using assms unfolding args_ok_def validated_chunk_def by (auto split: if_splits)

lemma upload_open_inv:
  assumes i: "upload_inv (st, ws)" and a: "args_ok a" and run: "upload_open h now a st = (r, st')"
    and once: "distinct (fs_created st')"
  shows "upload_inv (st', ws) \<and> (\<forall>stage flag. r = Ok (stage, flag) \<longrightarrow> joined st' a stage)"
proof -
  let ?st = "prune_uploads (sh_remove h) now st"
  let ?key = "ua_key a" and ?stage = "upload_part_path (ua_target a) (ua_key a)"
  note ip = prune_inv [OF i, of "sh_remove h" now]
  show ?thesis
  proof (cases "map_of (fs_uploads ?st) ?key")
    case (Some s)
    show ?thesis
    proof (cases "metadata_matches s (ua_target a) (ua_total a) (ua_chunk a) (ua_count a)")
      case False
      then show ?thesis using run Some ip by (auto simp: upload_open_def Let_def file_invalid_def)
    next
      case True
      let ?st' = "?st\<lparr>fs_uploads := AList.update ?key (s\<lparr>us_updated := now\<rparr>) (fs_uploads ?st)\<rparr>"
      have st': "st' = ?st'" and r: "r = Ok (us_stage s, us_flag s)"
        using run Some True by (simp_all add: upload_open_def Let_def)
      have "calm ?st ?st'"
        using Some inv_distinct [OF ip] unfolding calm_def
        by (auto simp: AList.update_conv' distinct_update same_session_def simp del: map_of_eq_Some_iff)
      then have "upload_inv (?st', ws)" by (rule calm_inv [OF _ ip])
      moreover have "joined ?st' a (us_stage s)"
        using inv_session [OF ip Some] True by (auto simp: joined_def session_ok_def metadata_matches_def AList.update_conv')
      ultimately show ?thesis unfolding st' r by simp
    qed
  next
    case None
    have away: "us_stage t \<noteq> ?stage" if "map_of (fs_uploads ?st) k = Some t" for k t
      using stage_key [OF ip that args_meta(8) [OF a]] None that by auto
    obtain r0 d where c: "create_stage h ?stage (fs_disk ?st) = (r0, d)" by fastforce
    have d: "d (us_stage t) = fs_disk ?st (us_stage t)" if "map_of (fs_uploads ?st) k = Some t" for k t
      using create_stage_disk [OF away [OF that], of h "fs_disk ?st"] c by simp
    have fail: "upload_inv (?st\<lparr>fs_disk := d\<rparr>, ws)"
      by (rule calm_inv [OF calm_disk [OF ip] ip]) (rule d)
    show ?thesis
    proof (cases "ua_index a = 0 \<and> length (fs_uploads ?st) < max_upload_sessions \<and> r0 = Ok ()")
      case False
      then have "st' = ?st \<or> st' = ?st\<lparr>fs_disk := d\<rparr>" "\<forall>x. r \<noteq> Ok x"
        using run None c by (auto simp: upload_open_def Let_def file_invalid_def split: if_splits outcome.splits)
      then show ?thesis using fail ip by auto
    next
      case True
      let ?s = "\<lparr>us_target = ua_target a, us_stage = ?stage, us_total = ua_total a, us_chunk = ua_chunk a,
                 us_count = ua_count a, us_received = {}, us_flag = length (fs_flags ?st), us_updated = now\<rparr>"
      have st': "st' = ?st\<lparr>fs_disk := d, fs_flags := fs_flags ?st @ [False], fs_created := ?key # fs_created ?st,
          fs_uploads := AList.update ?key ?s (fs_uploads ?st)\<rparr>" and r: "r = Ok (?stage, length (fs_flags ?st))"
        using run None c True by (auto simp: upload_open_def Let_def)
      have fresh: "?key \<notin> set (fs_created ?st)" using once st' by simp
      have m: "map_of (fs_uploads st') = (map_of (fs_uploads ?st))(?key \<mapsto> ?s)"
        unfolding st' by (simp add: AList.update_conv')
      have sent: "sent_chunk st' k t j" if "sent_chunk ?st k t j" "map_of (fs_uploads ?st) k = Some t" for k t j
        using that(1) d [OF that(2)] unfolding sent_chunk_def st' by simp
      have "session_ok st' k t" if "map_of (fs_uploads st') k = Some t" for k t
      proof (cases "k = ?key")
        case True
        then have t: "t = ?s" using that m by simp
        have "?key \<in> set (fs_created st')" by (simp add: st')
        then show ?thesis using args_meta [OF a] unfolding t True by (simp add: session_ok_def)
      next
        case False
        then have t: "map_of (fs_uploads ?st) k = Some t" using that m by simp
        show ?thesis using inv_session [OF ip t] sent [OF _ t] unfolding session_ok_def by (auto simp: st')
      qed
      moreover have "phase_ok st' b p" if "phase_ok ?st b p" for b p
      proof -
        have ne: "ua_key b \<noteq> ?key" if "joined ?st b stage" for stage using that fresh by (auto simp: joined_def)
        have j: "joined st' b stage" if "joined ?st b stage" for stage
          using that ne [OF that] m by (simp add: joined_def st')
        show ?thesis
        proof (cases p)
          case (Marking stage)
          then show ?thesis using that j ne m sent by auto
        qed (use that j in \<open>auto simp: st'\<close>)
      qed
      moreover have "distinct (map fst (fs_uploads st'))"
        using inv_distinct [OF ip] unfolding st' by (simp add: distinct_update)
      ultimately have "upload_inv (st', ws)" using ip unfolding upload_inv_def prod.case by blast
      moreover have "joined st' a ?stage" using m by (simp add: joined_def st' metadata_matches_def)
      ultimately show ?thesis using r by simp
    qed
  qed
qed

text \<open>The same chunk is always delivered with the same contents.\<close>

definition consistent :: "file_state \<Rightarrow> bool" where
  "consistent st \<longleftrightarrow> (\<forall>key i d d'. (key, i, d) \<in> set (fs_delivered st) \<longrightarrow> (key, i, d') \<in> set (fs_delivered st) \<longrightarrow> d = d')"

lemma sent_inv:
  assumes i: "upload_inv (st, ws)" and "fs_uploads st' = fs_uploads st" "fs_created st' = fs_created st"
    "set (fs_delivered st) \<subseteq> set (fs_delivered st')"
    and sent: "\<And>k t j. map_of (fs_uploads st) k = Some t \<Longrightarrow> sent_chunk st k t j \<Longrightarrow> sent_chunk st' k t j"
  shows "upload_inv (st', ws)"
proof -
  have j: "joined st' b stage = joined st b stage" for b stage using assms(2,3) by (simp add: joined_def)
  have "phase_ok st' b p" if "phase_ok st b p" for b p
    using that assms(4) sent by (cases p) (auto simp: j assms(2))
  moreover have "session_ok st' k t" if "map_of (fs_uploads st) k = Some t" for k t
    using inv_session [OF i that] sent [OF that] unfolding session_ok_def assms(3) by blast
  ultimately show ?thesis using i unfolding upload_inv_def prod.case assms(2) by blast
qed

lemma chunks_disjoint: "(i::nat) \<noteq> j \<Longrightarrow> n \<le> ch \<Longrightarrow> m \<le> ch \<Longrightarrow> i * ch + n \<le> j * ch \<or> j * ch + m \<le> i * ch"
proof -
  assume "i \<noteq> j" and b: "n \<le> ch" "m \<le> ch"
  then consider "Suc i \<le> j" | "Suc j \<le> i" by linarith
  then show ?thesis
  proof cases
    case 1
    then have "Suc i * ch \<le> j * ch" by (rule mult_le_mono1)
    then show ?thesis using b by simp
  next
    case 2
    then have "Suc j * ch \<le> i * ch" by (rule mult_le_mono1)
    then show ?thesis using b by simp
  qed
qed

lemma sent_after_write:
  assumes sent: "sent_chunk st key s i" and con: "consistent st" and body: "(key, index, body) \<in> set (fs_delivered st)"
    and len: "length body \<le> us_chunk s" and disk: "fs_disk st (us_stage s) = Some c"
    and disk': "fs_disk st' (us_stage s) = Some (splice (index * us_chunk s) (take k body) c)"
    and del: "fs_delivered st' = fs_delivered st"
  shows "sent_chunk st' key s i"
proof -
  obtain d where d: "(key, i, d) \<in> set (fs_delivered st)" "length d = min (us_chunk s) (us_total s - i * us_chunk s)"
    "i * us_chunk s < us_total s" "i * us_chunk s + length d \<le> length c" "take (length d) (drop (i * us_chunk s) c) = d"
    using sent disk unfolding sent_chunk_def by auto
  let ?c = "splice (index * us_chunk s) (take k body) c"
  have "i * us_chunk s + length d \<le> length ?c" using d(4) by (simp add: length_splice)
  moreover have "take (length d) (drop (i * us_chunk s) ?c) = d"
  proof (cases "i = index")
    case True
    then have b: "body = d" using con body d(1) unfolding consistent_def by blast
    have "take (length (take k body)) (drop (i * us_chunk s) c) = take k body"
      using d(5) b by (metis length_take min.commute take_take)
    then have "?c = c" using splice_same [of "i * us_chunk s" "take k body" c] d(4) b True by auto
    then show ?thesis using d(5) by simp
  next
    case False
    have "i * us_chunk s + length d \<le> index * us_chunk s \<or> index * us_chunk s + length (take k body) \<le> i * us_chunk s"
      using chunks_disjoint [OF False, of "length d" "us_chunk s" "length (take k body)"] d(2) len by simp
    then show ?thesis using splice_elsewhere [OF d(4)] d(5) by simp
  qed
  ultimately show ?thesis unfolding sent_chunk_def del using d(1-3) disk' by blast
qed

lemma write_stage_cases:
  "write_stage h a stage body d = (r, d') \<Longrightarrow>
    d' = d \<and> r \<noteq> Ok () \<or>
    (\<exists>c k. d stage = Some c \<and> d' = d(stage \<mapsto> splice (ua_offset a) (take k body) c) \<and> (r = Ok () \<longrightarrow> take k body = body))"
proof (cases "d stage")
  case (Some c)
  assume w: "write_stage h a stage body d = (r, d')"
  show ?thesis
  proof (cases "sh_write h")
    case None
    then have "d' = d(stage \<mapsto> splice (ua_offset a) (take (length body) body) c)" "take (length body) body = body"
      using w Some by (auto simp: write_stage_def Let_def split: option.splits)
    then show ?thesis using Some by blast
  next
    case p: (Some p)
    obtain k e where "p = (k, e)" by fastforce
    then have "d' = d(stage \<mapsto> splice (ua_offset a) (take k body) c)" "r \<noteq> Ok ()"
      using w Some p by (auto simp: write_stage_def)
    then show ?thesis using Some by blast
  qed
qed (auto simp: write_stage_def)

lemma write_inv:
  assumes i: "upload_inv (st, ws)" and a: "args_ok a" and p: "phase_ok st a (Writing stage body)" and con: "consistent st"
    and w: "write_stage h a stage body (fs_disk st) = (r, d)"
  shows "upload_inv (st\<lparr>fs_disk := d\<rparr>, ws) \<and> (r = Ok () \<longrightarrow> phase_ok (st\<lparr>fs_disk := d\<rparr>) a (Marking stage))"
proof -
  note m = args_meta [OF a]
  have j: "joined st a stage" and b: "(ua_key a, ua_index a, body) \<in> set (fs_delivered st)" "length body = ua_expected a"
    using p by auto
  have stage: "stage = upload_part_path (ua_target a) (ua_key a)" using j by (simp add: joined_def)
  from write_stage_cases [OF w] show ?thesis
  proof (elim disjE exE conjE)
    assume "d = fs_disk st" "r \<noteq> Ok ()"
    then show ?thesis using i by simp
  next
    fix c k
    assume c: "fs_disk st stage = Some c" and d: "d = (fs_disk st)(stage \<mapsto> splice (ua_offset a) (take k body) c)"
      and full: "r = Ok () \<longrightarrow> take k body = body"
    let ?st = "st\<lparr>fs_disk := d\<rparr>"
    have mine: "us_stage s = stage \<and> us_chunk s = ua_chunk a \<and> us_total s = ua_total a"
      if "map_of (fs_uploads st) (ua_key a) = Some s" for s
      using inv_session [OF i that] j that stage by (auto simp: session_ok_def joined_def metadata_matches_def)
    have sent: "sent_chunk ?st key t x" if t: "map_of (fs_uploads st) key = Some t" and s: "sent_chunk st key t x" for key t x
    proof (cases "key = ua_key a")
      case True
      then have e: "us_stage t = stage" "us_chunk t = ua_chunk a" using mine t by auto
      show ?thesis unfolding True
        by (rule sent_after_write [OF s [unfolded True] con b(1)]) (use e c d m b(2) in auto)
    next
      case False
      then have "us_stage t \<noteq> stage" using stage_key [OF i t m(8)] stage by metis
      then show ?thesis using s d by (simp add: sent_chunk_def)
    qed
    have "upload_inv (?st, ws)" by (rule sent_inv [OF i]) (use sent in auto)
    moreover have "sent_chunk ?st (ua_key a) s (ua_index a)" if s: "map_of (fs_uploads st) (ua_key a) = Some s" "r = Ok ()" for s
    proof -
      have e: "us_stage s = stage" "us_chunk s = ua_chunk a" "us_total s = ua_total a" using mine s(1) by auto
      let ?c = "splice (ua_offset a) body c"
      have "fs_disk ?st (us_stage s) = Some ?c" using d full s(2) e by simp
      moreover have "ua_index a * us_chunk s + length body \<le> length ?c" using m e by (simp add: length_splice)
      moreover have "take (length body) (drop (ua_index a * us_chunk s) ?c) = body"
        using splice_region [of body "ua_offset a" c] m(5) e by simp
      ultimately show ?thesis unfolding sent_chunk_def using b m e
        by (intro exI [of _ body] exI [of _ ?c]) simp
    qed
    moreover have "joined ?st a stage" using j by (simp add: joined_def)
    ultimately show ?thesis by simp
  qed
qed

lemma mark_inv:
  assumes i: "upload_inv (st, ws)" and a: "args_ok a" and p: "phase_ok st a (Marking stage)"
  shows "upload_inv (snd (upload_mark h now a stage st), ws)"
proof (cases "map_of (fs_uploads st) (ua_key a)")
  case None
  have stage: "stage = upload_part_path (ua_target a) (ua_key a)" using p by (simp add: joined_def)
  have "calm st (st\<lparr>fs_disk := remove_files (sh_remove h) [stage] (fs_disk st)\<rparr>)"
  proof (rule calm_disk [OF i])
    fix k s assume s: "map_of (fs_uploads st) k = Some s"
    have "us_stage s \<noteq> stage"
    proof
      assume "us_stage s = stage"
      then have "k = ua_key a" using stage_key [OF i s args_meta(8) [OF a]] stage by metis
      then show False using s None by simp
    qed
    then show "remove_files (sh_remove h) [stage] (fs_disk st) (us_stage s) = fs_disk st (us_stage s)"
      by (simp add: remove_files_def)
  qed
  then show ?thesis using calm_inv [OF _ i] by (simp add: upload_mark_def None file_invalid_def)
next
  case (Some s)
  let ?s = "s\<lparr>us_received := insert (ua_index a) (us_received s), us_updated := now\<rparr>"
  let ?st = "st\<lparr>fs_uploads := AList.update (ua_key a) ?s (fs_uploads st)\<rparr>"
  have m: "map_of (fs_uploads ?st) = (map_of (fs_uploads st))(ua_key a \<mapsto> ?s)" by (simp add: AList.update_conv')
  have sent: "sent_chunk ?st k t x = sent_chunk st k t x" "sent_chunk st k ?s x = sent_chunk st k s x" for k t x
    by (simp_all add: sent_chunk_def)
  have new: "sent_chunk st (ua_key a) s (ua_index a)" "metadata_matches s (ua_target a) (ua_total a) (ua_chunk a) (ua_count a)"
    using p Some by (auto simp: joined_def)
  have "session_ok ?st k t" if t: "map_of (fs_uploads ?st) k = Some t" for k t
  proof (cases "k = ua_key a")
    case True
    then have t: "t = ?s" using t m by simp
    have s: "session_ok st (ua_key a) s" by (rule inv_session [OF i Some])
    have "ua_index a < us_count s" using new(2) args_meta(4) [OF a] by (simp add: metadata_matches_def)
    then show ?thesis using s new(1) unfolding t True session_ok_def sent by auto
  next
    case False
    then show ?thesis using t m inv_session [OF i, of k t] unfolding session_ok_def sent by auto
  qed
  moreover have "phase_ok ?st b q" if "phase_ok st b q" for b q
  proof -
    have j: "joined ?st b stage'" if b: "joined st b stage'" for stage'
    proof -
      have "metadata_matches t (ua_target b) (ua_total b) (ua_chunk b) (ua_count b)"
        if t: "map_of (fs_uploads ?st) (ua_key b) = Some t" for t
      proof (cases "ua_key b = ua_key a")
        case True
        then have e: "t = ?s" using t m by simp
        have "metadata_matches s (ua_target b) (ua_total b) (ua_chunk b) (ua_count b)"
          using b Some True by (simp add: joined_def)
        then show ?thesis unfolding e by (simp add: metadata_matches_def)
      next
        case False
        then show ?thesis using t m b by (simp add: joined_def)
      qed
      then show ?thesis using b by (simp add: joined_def)
    qed
    show ?thesis
    proof (cases q)
      case (Marking stage')
      then show ?thesis using that j m Some by (auto simp: sent)
    qed (use that j in auto)
  qed
  moreover have "distinct (map fst (fs_uploads ?st))" using inv_distinct [OF i] by (simp add: distinct_update)
  ultimately have "upload_inv (?st, ws)" using i unfolding upload_inv_def prod.case by blast
  then show ?thesis by (simp add: upload_mark_def Some)
qed

text \<open>The records only grow.\<close>

definition grows :: "file_state \<Rightarrow> file_state \<Rightarrow> bool" where
  "grows st st' \<longleftrightarrow> (\<exists>xs. fs_created st' = xs @ fs_created st) \<and> (\<exists>ys. fs_delivered st' = ys @ fs_delivered st)"

lemma grows_same: "\<lbrakk>fs_created st' = fs_created st; fs_delivered st' = fs_delivered st\<rbrakk> \<Longrightarrow> grows st st'"
  by (simp add: grows_def)

lemma grows_trans: "grows st st1 \<Longrightarrow> grows st1 st2 \<Longrightarrow> grows st st2"
  unfolding grows_def by (metis append_assoc)

lemma prune_records [simp]:
  "fs_created (prune_uploads remove now st) = fs_created st" "fs_delivered (prune_uploads remove now st) = fs_delivered st"
  by (simp_all add: prune_uploads_def Let_def)

lemma marked_records [simp]:
  "fs_created (mark_upload_canceled now key st) = fs_created st" "fs_delivered (mark_upload_canceled now key st) = fs_delivered st"
  "fs_created (clear_upload_canceled key st) = fs_created st" "fs_delivered (clear_upload_canceled key st) = fs_delivered st"
  "fs_created (snd (upload_is_canceled now key st)) = fs_created st" "fs_delivered (snd (upload_is_canceled now key st)) = fs_delivered st"
  "fs_created (drop_session remove key st) = fs_created st" "fs_delivered (drop_session remove key st) = fs_delivered st"
  by (simp_all add: mark_upload_canceled_def clear_upload_canceled_def upload_is_canceled_def drop_session_def Let_def split: option.splits)

lemma grows_cancel: "grows st (snd (upload_cancel remove err now key requested st))"
  unfolding upload_cancel_def Let_def
  by (rule grows_same) (simp_all add: file_invalid_def split: option.splits prod.splits)

lemma grows_commit: "grows st (snd (upload_commit h now key meta st))"
  unfolding upload_commit_def Let_def
  by (rule grows_same) (simp_all add: file_invalid_def split: option.splits prod.splits outcome.splits)

lemma grows_open: "grows st (snd (upload_open h now a st))"
  unfolding upload_open_def Let_def grows_def
  by (simp add: file_invalid_def split: option.splits prod.splits outcome.splits)

lemma grows_stream_step: "grows st (snd (stream_step h now a p st))"
proof (cases p)
  case Opening
  have "snd (stream_step h now a Opening st) = snd (upload_open h now a st)"
    by (auto split: prod.splits outcome.splits)
  then show ?thesis using grows_open Opening by metis
next
  case (Rechecking stage flag)
  show ?thesis
    by (rule grows_same) (simp_all add: Rechecking upload_is_canceled_def Let_def)
next
  case (Receiving stage)
  show ?thesis unfolding grows_def Receiving by (auto split: outcome.splits)
next
  case (Writing stage body)
  show ?thesis by (rule grows_same) (simp_all add: Writing split: prod.splits outcome.splits)
next
  case (Marking stage)
  show ?thesis by (rule grows_same) (simp_all add: Marking upload_mark_def file_invalid_def split: option.splits prod.splits)
qed (rule grows_same; simp add: upload_is_canceled_def Let_def)+

lemma stream_step_inv:
  assumes i: "upload_inv (st, ws)" and k: "k < length ws"
    and run: "stream_step h now (fst (ws ! k)) (snd (ws ! k)) st = (p, st')"
    and once: "distinct (fs_created st')" and con: "consistent st'"
  shows "upload_inv (st', ws[k := (fst (ws ! k), p)])"
proof -
  let ?a = "fst (ws ! k)"
  have a: "args_ok ?a" and ph: "phase_ok st ?a (snd (ws ! k))" using inv_stream [OF i k] by auto
  have goal: ?thesis if "upload_inv (st', ws)" "phase_ok st' ?a p" using inv_advance [OF that(1) k that(2)] .
  have calm: ?thesis if "calm st st'" "phase_ok st ?a p" by (rule goal) (rule calm_inv [OF that(1) i], rule calm_phase [OF that])
  have check: "calm st (snd (upload_is_canceled now (ua_key ?a) st))" by (rule calm_is_canceled [OF i])
  show ?thesis
  proof (cases "snd (ws ! k)")
    case Starting
    then show ?thesis using run check by (intro calm) (auto simp: canceled_phase_def split: prod.splits)
  next
    case Opening
    obtain r st1 where o: "upload_open h now ?a st = (r, st1)" by fastforce
    have st1: "st1 = st'" using run Opening o by (auto split: outcome.splits)
    note oi = upload_open_inv [OF i a o [unfolded st1] once]
    show ?thesis
    proof (cases r)
      case (Ok x)
      then obtain stage flag where x: "x = (stage, flag)" by fastforce
      then have "p = Rechecking stage flag" using run Opening o Ok by simp
      then show ?thesis using oi Ok x by (intro goal) auto
    next
      case (Err e)
      then show ?thesis using run Opening o oi by (intro goal) (auto simp: refused_def)
    next
      case Panic
      then show ?thesis using run Opening o oi by (intro goal) (auto simp: refused_def)
    qed
  next
    case (Rechecking stage flag)
    obtain b st1 where c: "upload_is_canceled now (ua_key ?a) st = (b, st1)" by fastforce
    have i1: "calm st st1" using check c by simp
    show ?thesis
    proof (cases b)
      case False
      then show ?thesis using run Rechecking c i1 ph by (intro calm) auto
    next
      case True
      let ?st = "st1\<lparr>fs_flags := (fs_flags st1)[flag := True]\<rparr>"
      have c2: "calm st ?st" by (rule calm_flags [OF i1])
      have "calm ?st (drop_session (sh_remove h) (ua_key ?a) ?st)"
        by (rule calm_drop_session [OF calm_inv [OF c2 i] args_meta(8) [OF a]])
      then show ?thesis using run Rechecking c True calm_trans [OF c2] by (intro calm) (auto simp: canceled_phase_def)
    qed
  next
    case (Receiving stage)
    show ?thesis
    proof (cases "receive_chunk h ?a")
      case (Ok body)
      let ?st = "st\<lparr>fs_delivered := (ua_key ?a, ua_index ?a, body) # fs_delivered st\<rparr>"
      have st': "st' = ?st" "p = Verifying stage body" using run Receiving Ok by auto
      have len: "length body = ua_expected ?a"
        using Ok by (auto simp: and_then_eq_Ok file_invalid_def split: option.splits if_splits)
      have c: "calm st ?st" by (rule calm_delivered [OF inv_distinct [OF i]])
      have "phase_ok ?st ?a (Receiving stage)" using calm_phase [OF c ph] unfolding Receiving .
      then have "phase_ok ?st ?a (Verifying stage body)" using len by simp
      then show ?thesis by (intro goal) (simp_all only: st' calm_inv [OF c i])
    next
      case (Err e)
      then show ?thesis using run Receiving i by (intro goal) (auto simp: refused_def)
    next
      case Panic
      then show ?thesis using run Receiving i by (intro goal) (auto simp: refused_def)
    qed
  next
    case (Verifying stage body)
    then show ?thesis using run check ph by (intro calm) (auto simp: canceled_phase_def split: prod.splits)
  next
    case (Writing stage body)
    obtain r d where w: "write_stage h ?a stage body (fs_disk st) = (r, d)" by fastforce
    have st': "st' = st\<lparr>fs_disk := d\<rparr>" using run Writing w by (auto split: outcome.splits)
    then have con0: "consistent st" using con by (simp add: consistent_def)
    note wi = write_inv [OF i a ph [unfolded Writing] con0 w]
    show ?thesis
    proof (cases "r = Ok ()")
      case True
      then have "p = Marking stage" using run Writing w by simp
      then show ?thesis using wi True st' by (intro goal) auto
    next
      case False
      then have "p = refused r \<or> p = Finished Panic" using run Writing w by (cases r) auto
      then show ?thesis using wi st' by (intro goal) (auto simp: refused_def)
    qed
  next
    case (Marking stage)
    then have "st' = snd (upload_mark h now ?a stage st)" "\<exists>r. p = Finished r" using run by (auto split: prod.splits)
    then show ?thesis using mark_inv [OF i a ph [unfolded Marking]] by (intro goal) auto
  next
    case (Finished r)
    then show ?thesis using run i ph by (intro goal) auto
  qed
qed

section \<open>Runs\<close>

definition quiet_event :: "upload_event \<Rightarrow> bool" where
  "quiet_event e \<longleftrightarrow> (case e of
     Requested home args \<Rightarrow>
       (case upload_stream_args home args of Ok a \<Rightarrow> \<not> (\<exists>t k. ua_target a = upload_part_path t k) | _ \<Rightarrow> True)
   | Elsewhere p _ \<Rightarrow> \<not> (\<exists>t k. p = upload_part_path t k)
   | _ \<Rightarrow> True)"

lemma args_accepted:
  assumes "upload_stream_args home args = Ok a" "\<not> (\<exists>t k. ua_target a = upload_part_path t k)"
  shows "args_ok a"
proof -
  let ?key = "path_arg args ''upload_id''" and ?target = "resolve_path home (path_arg args ''path'')"
  obtain offset index count tot chunk where r: "(case validated_chunk index count tot chunk of
             None \<Rightarrow> file_invalid ''invalid upload metadata''
           | Some (expected_offset, expected) \<Rightarrow>
               if \<not> valid_upload_id ?key \<or> offset \<noteq> expected_offset then file_invalid ''invalid upload metadata''
               else Ok \<lparr>ua_key = ?key, ua_target = ?target, ua_offset = offset, ua_index = index, ua_count = count,
                        ua_total = tot, ua_chunk = chunk, ua_expected = expected\<rparr>) = Ok a"
    using assms(1) unfolding upload_stream_args_def Let_def and_then_eq_Ok by blast
  then obtain expected_offset expected where v: "validated_chunk index count tot chunk = Some (expected_offset, expected)"
    by (cases "validated_chunk index count tot chunk") (auto simp: file_invalid_def)
  have "valid_upload_id ?key \<and> offset = expected_offset \<and> a = \<lparr>ua_key = ?key, ua_target = ?target, ua_offset = offset,
      ua_index = index, ua_count = count, ua_total = tot, ua_chunk = chunk, ua_expected = expected\<rparr>"
    using r unfolding v option.case prod.case by (simp add: file_invalid_def split: if_splits)
  then show ?thesis using assms(2) v by (simp add: args_ok_def)
qed

lemma event_grows: "grows (fst sys) (fst (upload_event_step now e sys))"
proof (cases sys)
  case (Pair st ws)
  show ?thesis
  proof (cases e)
    case (Requested home args)
    then show ?thesis using Pair by (auto intro!: grows_same split: outcome.splits)
  next
    case (Stepped k h)
    show ?thesis using grows_stream_step [of st h now "fst (ws ! k)" "snd (ws ! k)"] Pair Stepped
      by (auto simp: grows_def split: prod.splits)
  next
    case (Committed h home args)
    then show ?thesis using Pair grows_commit by simp
  next
    case (Canceled remove err home args)
    then show ?thesis using Pair grows_cancel by simp
  next
    case (Elsewhere p x)
    then show ?thesis using Pair by (simp add: grows_def)
  qed
qed

lemma run_grows: "grows (fst sys) (fst (upload_run es sys))"
proof (induction es arbitrary: sys)
  case Nil
  then show ?case by (simp add: grows_def)
next
  case (Cons x es)
  obtain now e where x: "x = (now, e)" by fastforce
  show ?case using grows_trans [OF event_grows [of sys now e] Cons [of "upload_event_step now e sys"]] x by simp
qed

lemma grows_once: "grows st st' \<Longrightarrow> distinct (fs_created st') \<Longrightarrow> distinct (fs_created st)"
  by (auto simp: grows_def)

lemma grows_consistent: "grows st st' \<Longrightarrow> consistent st' \<Longrightarrow> consistent st"
  unfolding grows_def consistent_def by (metis Un_iff set_append)

lemma event_inv:
  assumes i: "upload_inv (st, ws)" and q: "quiet_event e"
    and once: "distinct (fs_created (fst (upload_event_step now e (st, ws))))"
    and con: "consistent (fst (upload_event_step now e (st, ws)))"
  shows "upload_inv (upload_event_step now e (st, ws))"
proof (cases e)
  case (Requested home args)
  show ?thesis
  proof (cases "upload_stream_args home args")
    case (Ok a)
    then have "args_ok a" using args_accepted q Requested by (simp add: quiet_event_def)
    then show ?thesis using i Requested Ok by (auto simp: upload_inv_def)
  qed (use i Requested in auto)
next
  case (Stepped k h)
  show ?thesis
  proof (cases "k < length ws")
    case True
    obtain p st' where r: "stream_step h now (fst (ws ! k)) (snd (ws ! k)) st = (p, st')" by fastforce
    have e: "upload_event_step now e (st, ws) = (st', ws[k := (fst (ws ! k), p)])" using Stepped True r by simp
    show ?thesis unfolding e using stream_step_inv [OF i True r] once con unfolding e by simp
  qed (use i Stepped in simp)
next
  case (Committed h home args)
  then show ?thesis using calm_inv [OF calm_commit [OF i] i] by simp
next
  case (Canceled remove err home args)
  then show ?thesis using calm_inv [OF calm_cancel [OF i] i] by simp
next
  case (Elsewhere p x)
  then show ?thesis using calm_inv [OF calm_elsewhere [OF i] i] q by (simp add: quiet_event_def)
qed

lemma run_inv:
  assumes "upload_inv sys" "\<forall>(now, e)\<in>set es. quiet_event e"
    "distinct (fs_created (fst (upload_run es sys)))" "consistent (fst (upload_run es sys))"
  shows "upload_inv (upload_run es sys)"
  using assms
proof (induction es arbitrary: sys)
  case (Cons x es)
  obtain now e where x: "x = (now, e)" by fastforce
  obtain st ws where s: "sys = (st, ws)" by fastforce
  have g: "grows (fst (upload_event_step now e sys)) (fst (upload_run es (upload_event_step now e sys)))" by (rule run_grows)
  have "upload_inv (upload_event_step now e sys)" unfolding s
    by (rule event_inv) (use Cons.prems grows_once [OF g] grows_consistent [OF g] x s in auto)
  then show ?case using Cons.IH [of "upload_event_step now e sys"] Cons.prems x by simp
qed simp

lemma start_inv: "upload_inv (uploads_start d)"
  by (simp add: upload_inv_def uploads_start_def)

section \<open>Commit\<close>

lemma div_ceil_bounds:
  assumes "0 < (ch::nat)"
  shows "t \<le> div_ceil t ch * ch" "i < div_ceil t ch \<Longrightarrow> i * ch < t"
proof -
  have e: "t = t div ch * ch + t mod ch" by (simp add: div_mult_mod_eq)
  have m: "t mod ch < ch" using assms by simp
  show "t \<le> div_ceil t ch * ch"
  proof (cases "t mod ch = 0")
    case False
    have "(t div ch + 1) * ch = t div ch * ch + ch" by (simp add: add_mult_distrib)
    then have "t \<le> (t div ch + 1) * ch" using e m by linarith
    then show ?thesis using False by (simp add: div_ceil_def)
  qed (use e in \<open>simp add: div_ceil_def\<close>)
  assume i: "i < div_ceil t ch"
  show "i * ch < t"
  proof (cases "t mod ch = 0")
    case True
    then have "Suc i * ch \<le> t div ch * ch" using i by (intro mult_le_mono1) (simp add: div_ceil_def)
    then show ?thesis using e True assms by simp
  next
    case False
    then have "i * ch \<le> t div ch * ch" using i by (intro mult_le_mono1) (simp add: div_ceil_def)
    then show ?thesis using e False by linarith
  qed
qed

lemma concat_chunks: "concat (map (\<lambda>i. take ch (drop (i * ch) xs)) [0..<n]) = take (n * ch) xs"
proof (induction n)
  case (Suc n)
  have "Suc n * ch = n * ch + ch" by simp
  then show ?case using Suc by (simp only: take_add upt_Suc_append map_append concat_append list.map concat.simps append_Nil2 zero_le)
qed simp

text \<open>What a commit does when it succeeds.\<close>

lemma commit_ok:
  assumes run: "upload_commit h now key meta st = (Ok r, st')"
  obtains s target tot chunk count c where
    "meta = Ok (target, tot, chunk, count)" "map_of (fs_uploads (prune_uploads (ch_remove h) now st)) key = Some s"
    "metadata_matches s target tot chunk count" "card (us_received s) = us_count s"
    "fs_disk (prune_uploads (ch_remove h) now st) (us_stage s) = Some c" "us_total s \<le> length c"
    "us_stage s \<noteq> us_target s \<longrightarrow> fs_disk st' (us_target s) = Some (take (us_total s) c)"
proof -
  let ?st = "prune_uploads (ch_remove h) now st"
  obtain s where s: "map_of (fs_uploads ?st) key = Some s" "valid_upload_id key"
    using run unfolding upload_commit_def Let_def by (auto simp: file_invalid_def split: if_splits option.splits)
  obtain m where meta: "meta = Ok m"
    using run s by (cases meta) (auto simp: upload_commit_def Let_def)
  obtain target tot chunk count where m: "m = (target, tot, chunk, count)" by (metis surj_pair)
  have g: "metadata_matches s target tot chunk count" "card (us_received s) = us_count s"
    and run2: "(case commit_stage h s (fs_disk ?st) of
                     (Err e, d) \<Rightarrow> (Err e, ?st\<lparr>fs_disk := d\<rparr>)
                   | (Panic, d) \<Rightarrow> (Panic, ?st\<lparr>fs_disk := d\<rparr>)
                   | (Ok _, d) \<Rightarrow>
                       (let st1 = clear_upload_canceled key (?st\<lparr>fs_disk := d, fs_uploads := AList.delete key (fs_uploads ?st)\<rparr>)
                        in (case ch_parent h of Some e \<Rightarrow> Err (FileIo e) | None \<Rightarrow> Ok (commit_reply (us_total s)), st1))) = (Ok r, st')"
    using run s unfolding upload_commit_def Let_def meta m by (auto simp: file_invalid_def split: if_splits)
  obtain x d where x: "commit_stage h s (fs_disk ?st) = (x, d)" by fastforce
  then have "x = Ok ()" using run2 by (cases x) auto
  then have d: "fs_disk st' = d" using run2 x by (auto simp: clear_upload_canceled_def Let_def)
  obtain c where c: "fs_disk ?st (us_stage s) = Some c"
    using x \<open>x = Ok ()\<close> by (auto simp: commit_stage_def split: option.splits)
  have "us_total s \<le> length c \<and> (us_stage s \<noteq> us_target s \<longrightarrow> d (us_target s) = Some (take (us_total s) c))"
    using x \<open>x = Ok ()\<close> c by (auto simp: commit_stage_def file_invalid_def Let_def split: option.splits if_splits)
  then show thesis using that meta m s(1) g c d by auto
qed

lemma commit_delivers:
  assumes i: "upload_inv (st, ws)" and run: "upload_commit h now key (Ok (target, tot, chunk, count)) st = (Ok r, st')"
  shows "\<exists>ds. fs_disk st' target = Some (concat ds) \<and> length (concat ds) = tot \<and> length ds = div_ceil tot chunk \<and>
    (\<forall>j<length ds. (key, j, ds ! j) \<in> set (fs_delivered st))"
proof -
  let ?st = "prune_uploads (ch_remove h) now st"
  obtain s c where s: "map_of (fs_uploads ?st) key = Some s" "metadata_matches s target tot chunk count"
    "card (us_received s) = us_count s" "fs_disk ?st (us_stage s) = Some c" "us_total s \<le> length c"
    "us_stage s \<noteq> us_target s \<longrightarrow> fs_disk st' (us_target s) = Some (take (us_total s) c)"
    by (rule commit_ok [OF run]) auto
  have so: "session_ok ?st key s" by (rule inv_session [OF prune_inv [OF i] s(1)])
  have m: "us_target s = target" "us_total s = tot" "us_chunk s = chunk" "us_count s = div_ceil tot chunk" "0 < chunk"
    using s(2) so by (auto simp: metadata_matches_def session_ok_def)
  have "us_stage s \<noteq> us_target s" using so unfolding session_ok_def by metis
  then have disk: "fs_disk st' target = Some (take tot c)" using s(6) m by simp
  have "us_received s = {..<div_ceil tot chunk}"
    using so s(3) m card_subset_eq [of "{..<div_ceil tot chunk}" "us_received s"] by (simp add: session_ok_def)
  then have all: "sent_chunk ?st key s j" if "j < div_ceil tot chunk" for j
    using so that by (auto simp: session_ok_def)
  let ?f = "\<lambda>j. take chunk (drop (j * chunk) (take tot c))"
  let ?ds = "map ?f [0..<div_ceil tot chunk]"
  have sent: "(key, j, ?f j) \<in> set (fs_delivered st)" if j: "j < div_ceil tot chunk" for j
  proof -
    obtain d where d: "(key, j, d) \<in> set (fs_delivered ?st)" "length d = min chunk (tot - j * chunk)"
      "take (length d) (drop (j * chunk) c) = d"
      using all [OF j] s(4) m unfolding sent_chunk_def by auto
    have "?f j = take (min chunk (tot - j * chunk)) (drop (j * chunk) c)"
      by (simp add: drop_take)
    then have "?f j = d" using d(2,3) by simp
    then show ?thesis using d(1) by simp
  qed
  have "concat ?ds = take (div_ceil tot chunk * chunk) (take tot c)" by (rule concat_chunks)
  also have "\<dots> = take tot c" using div_ceil_bounds(1) [OF m(5), of tot] by (simp add: min_def)
  finally have "concat ?ds = take tot c" .
  then show ?thesis using disk sent s(5) m by (intro exI [of _ ?ds]) simp
qed

text \<open>
  C28: A committed upload is the file that was sent.  For every interleaving of requests, stream steps,
  commits, cancellations and pruning, whatever fails in between, a commit that succeeds puts under the
  target exactly the announced number of bytes, and these are, chunk by chunk and for every index, a body
  that the transfer endpoint delivered with status 200 for this upload.  This holds while the server gives
  every upload an identifier of its own and repeats a chunk only with the same contents, and nothing else
  writes to a staging file.
\<close>

theorem committed_upload_is_what_was_sent:
  assumes "upload_run es (uploads_start d) = (st, ws)" "\<forall>(now, e)\<in>set es. quiet_event e"
    and "distinct (fs_created st)" "consistent st"
    and "upload_commit h now key (commit_args home args) st = (Ok r, st')"
  shows "\<exists>target tot chunk count ds. commit_args home args = Ok (target, tot, chunk, count) \<and>
    fs_disk st' target = Some (concat ds) \<and> length (concat ds) = tot \<and> length ds = div_ceil tot chunk \<and>
    (\<forall>j<length ds. (key, j, ds ! j) \<in> set (fs_delivered st))"
proof -
  have i: "upload_inv (st, ws)"
    using run_inv [OF start_inv assms(2)] assms(1,3,4) by (metis fst_conv)
  obtain target tot chunk count where m: "commit_args home args = Ok (target, tot, chunk, count)"
    by (rule commit_ok [OF assms(5)])
  show ?thesis using commit_delivers [OF i assms(5) [unfolded m]] m by blast
qed

text \<open>One chunk, delivered and committed.\<close>

definition example_members :: "(bytes \<times> bytes) list" where
  "example_members =
    [(quoted ''upload_id'', json_string (ustr ''u'')), (quoted ''path'', json_string (ustr ''/f'')),
     (quoted ''offset'', as_bytes (dec 0)), (quoted ''chunk_index'', as_bytes (dec 0)), (quoted ''chunk_count'', as_bytes (dec 1)),
     (quoted ''total_size'', as_bytes (dec 2)), (quoted ''chunk_size'', as_bytes (dec 4))]"

definition example_args :: upload_args where
  "example_args =
    \<lparr>ua_key = ustr ''u'', ua_target = [RootDir, Normal (ustr ''f'')], ua_offset = 0, ua_index = 0, ua_count = 1,
     ua_total = 2, ua_chunk = 4, ua_expected = 2\<rparr>"

definition example_stream_host :: stream_host where
  "example_stream_host =
    \<lparr>sh_remove = (\<lambda>_. True), sh_dirs = None, sh_clear = None, sh_create = None, sh_sync = None,
     sh_chunk_file = None, sh_transfer = Ok (200, [7, 8]), sh_write = None, sh_flush = None\<rparr>"

definition example_commit_host :: commit_host where
  "example_commit_host =
    \<lparr>ch_remove = (\<lambda>_. True), ch_target_dir = False, ch_open = None, ch_length = None, ch_mode = None,
     ch_rename = None, ch_parent = None\<rparr>"

definition example_events :: "(nat \<times> upload_event) list" where
  "example_events = (1, Requested None (object_text example_members)) # replicate 7 (1, Stepped 0 example_stream_host)"

lemma example_fields:
  "direct_string (object_text example_members) ''upload_id'' = Some (ustr ''u'')"
  "direct_string (object_text example_members) ''path'' = Some (ustr ''/f'')"
  "direct_i64 (object_text example_members) ''offset'' = Some 0"
  "direct_i64 (object_text example_members) ''chunk_index'' = Some 0"
  "direct_i64 (object_text example_members) ''chunk_count'' = Some 1"
  "direct_i64 (object_text example_members) ''total_size'' = Some 2"
  "direct_i64 (object_text example_members) ''chunk_size'' = Some 4"
proof -
  have q: "decode_json_string (quoted ''upload_id'') = Some (ustr ''upload_id'')" "decode_json_string (quoted ''path'') = Some (ustr ''path'')"
    "decode_json_string (quoted ''offset'') = Some (ustr ''offset'')" "decode_json_string (quoted ''chunk_index'') = Some (ustr ''chunk_index'')"
    "decode_json_string (quoted ''chunk_count'') = Some (ustr ''chunk_count'')" "decode_json_string (quoted ''total_size'') = Some (ustr ''total_size'')"
    "decode_json_string (quoted ''chunk_size'') = Some (ustr ''chunk_size'')" by (rule decode_quoted, code_simp)+
  have v: "valid_text (ustr ''u'')" "valid_text (ustr ''/f'')" by code_simp+
  have m: "members_ok 0 example_members"
    unfolding example_members_def using q v by (simp add: members_ok_def json_value_string json_value_nat key_of_def ustr_def del: dec.simps)
  have f: "object_field (object_text example_members) (ustr ''upload_id'') = Some (json_string (ustr ''u''))"
    "object_field (object_text example_members) (ustr ''path'') = Some (json_string (ustr ''/f''))"
    "object_field (object_text example_members) (ustr ''offset'') = Some (as_bytes (dec 0))"
    "object_field (object_text example_members) (ustr ''chunk_index'') = Some (as_bytes (dec 0))"
    "object_field (object_text example_members) (ustr ''chunk_count'') = Some (as_bytes (dec 1))"
    "object_field (object_text example_members) (ustr ''total_size'') = Some (as_bytes (dec 2))"
    "object_field (object_text example_members) (ustr ''chunk_size'') = Some (as_bytes (dec 4))"
    unfolding object_field_text(2) [OF m] using q by (simp_all add: example_members_def key_of_def ustr_def del: dec.simps)
  have n: "(case from_utf8 (as_bytes (dec 0)) of None \<Rightarrow> None | Some s \<Rightarrow> parse_i64 (trim_by (\<lambda>c. c = 0x22) s)) = Some 0"
    "(case from_utf8 (as_bytes (dec 1)) of None \<Rightarrow> None | Some s \<Rightarrow> parse_i64 (trim_by (\<lambda>c. c = 0x22) s)) = Some 1"
    "(case from_utf8 (as_bytes (dec 2)) of None \<Rightarrow> None | Some s \<Rightarrow> parse_i64 (trim_by (\<lambda>c. c = 0x22) s)) = Some 2"
    "(case from_utf8 (as_bytes (dec 4)) of None \<Rightarrow> None | Some s \<Rightarrow> parse_i64 (trim_by (\<lambda>c. c = 0x22) s)) = Some 4"
    by code_simp+
  show "direct_string (object_text example_members) ''upload_id'' = Some (ustr ''u'')"
    "direct_string (object_text example_members) ''path'' = Some (ustr ''/f'')"
    unfolding direct_string_def f option.case by code_simp+
  show "direct_i64 (object_text example_members) ''offset'' = Some 0" "direct_i64 (object_text example_members) ''chunk_index'' = Some 0"
    "direct_i64 (object_text example_members) ''chunk_count'' = Some 1" "direct_i64 (object_text example_members) ''total_size'' = Some 2"
    "direct_i64 (object_text example_members) ''chunk_size'' = Some 4"
    unfolding direct_i64_def f option.case n by (rule refl)+
qed

lemma example_accepted:
  "upload_stream_args None (object_text example_members) = Ok example_args"
  "commit_args None (object_text example_members) = Ok ([RootDir, Normal (ustr ''f'')], 2, 4, 1)"
proof -
  have r: "resolve_path None (ustr ''/f'') = [RootDir, Normal (ustr ''f'')]" by code_simp
  have e: "ensure_not_root [RootDir, Normal (ustr ''f'')] = Ok ()" by (simp add: ensure_not_root_def has_parent_def)
  have v: "validated_chunk 0 1 2 4 = Some (0, 2)" "valid_upload_id (ustr ''u'')" by code_simp+
  have n: "nat (4 mod 2 ^ 64) = 4" by simp
  show "upload_stream_args None (object_text example_members) = Ok example_args"
    unfolding upload_stream_args_def path_arg_def u64_arg_def example_fields option.case Let_def r e
    using v(1) n by (simp add: v(2) example_args_def)
  show "commit_args None (object_text example_members) = Ok ([RootDir, Normal (ustr ''f'')], 2, 4, 1)"
    unfolding commit_args_def path_arg_def u64_arg_def example_fields option.case Let_def r e by simp
qed

lemma committed_upload_is_what_was_sent_witness:
  "\<exists>st ws st'. upload_run example_events (uploads_start Map.empty) = (st, ws) \<and>
    upload_commit example_commit_host 2 (ustr ''u'') (commit_args None (object_text example_members)) st = (Ok (commit_reply 2), st') \<and>
    fs_disk st' [RootDir, Normal (ustr ''f'')] \<noteq> None"
proof -
  let ?sys = "upload_run (replicate 7 (1, Stepped 0 example_stream_host)) (fst (uploads_start Map.empty), [(example_args, Starting)])"
  have run: "upload_run example_events (uploads_start Map.empty) = (fst ?sys, snd ?sys)"
    by (simp add: example_events_def uploads_start_def example_accepted max_streams_def)
  have target: "\<not> (\<exists>t k. [RootDir, Normal (ustr ''f'')] = upload_part_path t k)"
    by (simp add: upload_part_path_def with_file_name_def ustr_def)
  have quiet: "\<forall>(now, e)\<in>set example_events. quiet_event e"
    using target by (simp add: example_events_def quiet_event_def example_accepted) (simp add: example_args_def)
  have c: "fs_created (fst ?sys) = [ustr ''u'']" by code_simp
  have d: "fs_delivered (fst ?sys) = [(ustr ''u'', 0, [7, 8])]" by code_simp
  let ?commit = "upload_commit example_commit_host 2 (ustr ''u'') (commit_args None (object_text example_members)) (fst ?sys)"
  have "fst ?commit = Ok (commit_reply 2)" unfolding example_accepted by code_simp
  then have commit: "?commit = (Ok (commit_reply 2), snd ?commit)" by (metis prod.collapse)
  have "distinct (fs_created (fst ?sys))" "consistent (fst ?sys)" unfolding c consistent_def d by auto
  from committed_upload_is_what_was_sent [OF run quiet this commit] obtain target where
    "commit_args None (object_text example_members) = Ok target" "fs_disk (snd ?commit) (fst target) \<noteq> None" by auto
  then have "fs_disk (snd ?commit) [RootDir, Normal (ustr ''f'')] \<noteq> None" unfolding example_accepted by auto
  then show ?thesis using run commit by blast
qed

section \<open>Resources\<close>

lemma length_update: "length (AList.update k v xs) = (if k \<in> fst ` set xs then length xs else Suc (length xs))"
  by (induction xs) auto

lemma length_delete_less: "k \<in> fst ` set xs \<Longrightarrow> length (AList.delete k xs) < length xs"
  unfolding AList.delete_eq by (auto intro!: length_filter_less)

definition resources_bounded :: "upload_system \<Rightarrow> bool" where
  "resources_bounded sys \<longleftrightarrow> (case sys of (st, ws) \<Rightarrow>
    length (fs_uploads st) \<le> max_upload_sessions \<and> length (fs_canceled st) \<le> max_canceled_uploads \<and>
    length (filter active ws) \<le> max_streams)"

definition state_bounded :: "file_state \<Rightarrow> bool" where
  "state_bounded st \<longleftrightarrow> length (fs_uploads st) \<le> max_upload_sessions \<and> length (fs_canceled st) \<le> max_canceled_uploads"

lemma prune_bounded: "state_bounded st \<Longrightarrow> state_bounded (prune_uploads remove now st)"
  unfolding state_bounded_def prune_uploads_def Let_def using le_trans [OF length_filter_le] by auto

lemma is_canceled_bounded: "state_bounded st \<Longrightarrow> state_bounded (snd (upload_is_canceled now key st))"
  unfolding state_bounded_def upload_is_canceled_def Let_def prune_canceled_uploads_def
  using le_trans [OF length_filter_le] by auto

lemma oldest_member: "m \<noteq> [] \<Longrightarrow> \<exists>k t. oldest m = Some (k, t) \<and> k \<in> fst ` set m"
proof (induction m)
  case (Cons x m)
  obtain k t where x: "x = (k, t)" by fastforce
  show ?case
  proof (cases "m = []")
    case False
    then obtain k' t' where "oldest m = Some (k', t')" "k' \<in> fst ` set m" using Cons.IH by blast
    then show ?thesis using x by simp
  qed (simp add: x)
qed simp

lemma mark_bounded:
  assumes "state_bounded st"
  shows "state_bounded (mark_upload_canceled now key st)"
proof -
  let ?c = "prune_canceled_uploads now (fs_canceled st)"
  let ?c1 = "if length ?c \<ge> max_canceled_uploads \<and> map_of ?c key = None
       then (case oldest ?c of Some (k, _) \<Rightarrow> AList.delete k ?c | None \<Rightarrow> ?c) else ?c"
  have c: "length ?c \<le> max_canceled_uploads"
    using assms le_trans [OF length_filter_le] by (auto simp: state_bounded_def prune_canceled_uploads_def)
  have "length (AList.update key now ?c1) \<le> max_canceled_uploads"
  proof (cases "length ?c \<ge> max_canceled_uploads \<and> map_of ?c key = None")
    case True
    then have "?c \<noteq> []" by (auto simp: max_canceled_uploads_def)
    then obtain k t where "oldest ?c = Some (k, t)" "k \<in> fst ` set ?c" using oldest_member by blast
    then have "length ?c1 < length ?c" using True length_delete_less [of k ?c] by simp
    then show ?thesis using c by (simp add: length_update)
  next
    case False
    have e: "?c1 = ?c" using False by (rule if_not_P)
    show ?thesis using c False unfolding e by (auto simp: length_update map_of_eq_None_iff)
  qed
  then show ?thesis using assms by (simp add: state_bounded_def mark_upload_canceled_def Let_def)
qed

lemma delete_session_bounded: "state_bounded st \<Longrightarrow> state_bounded (st\<lparr>fs_uploads := AList.delete key (fs_uploads st)\<rparr>)"
  using le_trans [OF AList.length_delete_le] by (auto simp: state_bounded_def)

lemma state_bounded_other [simp]:
  "state_bounded (st\<lparr>fs_disk := d\<rparr>) = state_bounded st" "state_bounded (st\<lparr>fs_flags := f\<rparr>) = state_bounded st"
  "state_bounded (st\<lparr>fs_delivered := l\<rparr>) = state_bounded st"
  by (simp_all add: state_bounded_def)

lemma key_member: "map_of xs k = Some v \<Longrightarrow> k \<in> fst ` set xs"
  by (metis domI dom_map_of_conv_image_fst)

lemma touch_bounded:
  "state_bounded st \<Longrightarrow> map_of (fs_uploads st) key = Some s \<Longrightarrow> state_bounded (st\<lparr>fs_uploads := AList.update key s' (fs_uploads st)\<rparr>)"
  using key_member [of "fs_uploads st" key s] by (simp add: state_bounded_def length_update)

lemma open_bounded:
  assumes b: "state_bounded st"
  shows "state_bounded (snd (upload_open h now a st))"
proof -
  let ?st = "prune_uploads (sh_remove h) now st"
  have bp: "state_bounded ?st" by (rule prune_bounded [OF b])
  show ?thesis
  proof (cases "map_of (fs_uploads ?st) (ua_key a)")
    case (Some s)
    then show ?thesis using bp touch_bounded [OF bp Some] by (simp add: upload_open_def Let_def file_invalid_def)
  next
    case None
    obtain r d where c: "create_stage h (upload_part_path (ua_target a) (ua_key a)) (fs_disk ?st) = (r, d)" by fastforce
    show ?thesis using bp None c
      by (cases r) (auto simp: upload_open_def Let_def file_invalid_def state_bounded_def length_update)
  qed
qed

lemma is_canceled_bounded': "upload_is_canceled now key st = (b, st1) \<Longrightarrow> state_bounded st \<Longrightarrow> state_bounded st1"
  using is_canceled_bounded [of st now key] by simp

lemma step_bounded: "state_bounded st \<Longrightarrow> state_bounded (snd (stream_step h now a p st))"
proof (cases p)
  case Opening
  have "snd (stream_step h now a Opening st) = snd (upload_open h now a st)"
    by (auto split: prod.splits outcome.splits)
  moreover assume "state_bounded st"
  ultimately show ?thesis using open_bounded Opening by metis
next
  case (Rechecking stage flag)
  assume b: "state_bounded st"
  have "state_bounded (drop_session remove key st1)" if "state_bounded st1" for remove key st1
    using delete_session_bounded [OF that, of key] that by (auto simp: drop_session_def state_bounded_def split: option.splits)
  then show ?thesis using is_canceled_bounded [OF b] Rechecking by (auto split: prod.splits) (metis snd_conv state_bounded_other(2))+
next
  case (Marking stage)
  assume "state_bounded st"
  then show ?thesis using Marking touch_bounded by (auto simp: upload_mark_def file_invalid_def split: option.splits prod.splits)
next
  case (Writing stage body)
  assume "state_bounded st"
  then show ?thesis using Writing by (auto split: prod.splits outcome.splits)
next
  case (Receiving stage)
  assume "state_bounded st"
  then show ?thesis using Receiving by (auto split: outcome.splits)
qed (auto dest: is_canceled_bounded' split: prod.splits)

lemma commit_bounded:
  assumes b: "state_bounded st"
  shows "state_bounded (snd (upload_commit h now key meta st))"
proof -
  let ?st = "prune_uploads (ch_remove h) now st"
  have bp: "state_bounded ?st" by (rule prune_bounded [OF b])
  have "state_bounded (clear_upload_canceled key (?st\<lparr>fs_disk := d, fs_uploads := AList.delete key (fs_uploads ?st)\<rparr>))" for d
    using bp AList.length_delete_le [of key "fs_canceled ?st"] AList.length_delete_le [of key "fs_uploads ?st"]
    by (auto simp: state_bounded_def clear_upload_canceled_def)
  then show ?thesis using b bp unfolding upload_commit_def Let_def
    by (simp add: file_invalid_def split: option.splits prod.splits outcome.splits)
qed

lemma cancel_bounded:
  assumes b: "state_bounded st"
  shows "state_bounded (snd (upload_cancel remove err now key requested st))"
proof -
  let ?st = "prune_uploads remove now st"
  have bp: "state_bounded ?st" by (rule prune_bounded [OF b])
  have m: "state_bounded (mark_upload_canceled now key ?st)" by (rule mark_bounded [OF bp])
  have "state_bounded ((mark_upload_canceled now key ?st)\<lparr>fs_uploads := AList.delete key (fs_uploads ?st), fs_flags := f, fs_disk := d\<rparr>)" for f d
    using m bp le_trans [OF AList.length_delete_le] by (auto simp: state_bounded_def)
  then show ?thesis using b bp m unfolding upload_cancel_def Let_def
    by (simp add: file_invalid_def split: option.splits prod.splits outcome.splits)
qed

lemma filter_update_le: "k < length ws \<Longrightarrow> (P x \<Longrightarrow> P (ws ! k)) \<Longrightarrow> length (filter P (ws[k := x])) \<le> length (filter P ws)"
proof -
  assume k: "k < length ws" and p: "P x \<Longrightarrow> P (ws ! k)"
  have "length (filter P (ws[k := x])) \<le> length (filter P (take k ws @ ws ! k # drop (Suc k) ws))"
    using p unfolding upd_conv_take_nth_drop [OF k] by auto
  then show ?thesis using id_take_nth_drop [OF k] by simp
qed

text \<open>
  C29: The file service stays within its limits.  In every run, whatever is requested and however the steps
  interleave, there are at most 16 upload sessions, at most 1024 cancellation marks and at most 8 active
  streams.
\<close>

theorem upload_resources_bounded: "resources_bounded (upload_run es (uploads_start d))"
proof -
  have step: "resources_bounded (upload_event_step now e sys)" if b: "resources_bounded sys" for now e sys
  proof -
    obtain st ws where sys: "sys = (st, ws)" by fastforce
    have sb: "state_bounded st" and act: "length (filter active ws) \<le> max_streams"
      using b sys by (auto simp: resources_bounded_def state_bounded_def)
    have r: "resources_bounded (st', ws')" if "state_bounded st'" "length (filter active ws') \<le> max_streams" for st' ws'
      using that by (simp add: resources_bounded_def state_bounded_def)
    show ?thesis
    proof (cases e)
      case (Requested home args)
      then show ?thesis using sys sb act by (auto intro!: r split: outcome.splits)
    next
      case (Stepped k h)
      show ?thesis
      proof (cases "k < length ws")
        case True
        obtain p st' where run: "stream_step h now (fst (ws ! k)) (snd (ws ! k)) st = (p, st')" by fastforce
        have "active (ws ! k)" if a: "active (fst (ws ! k), p)"
        proof (rule ccontr)
          assume "\<not> active (ws ! k)"
          then obtain x where x: "snd (ws ! k) = Finished x" by (auto simp: active_def split: stream_phase.splits)
          then have "p = Finished x" using run unfolding x by simp
          then show False using a by (simp add: active_def)
        qed
        then have "length (filter active (ws[k := (fst (ws ! k), p)])) \<le> max_streams"
          using filter_update_le [OF True, of active "(fst (ws ! k), p)"] act by linarith
        moreover have "state_bounded st'" using step_bounded [OF sb] run by (metis snd_conv)
        ultimately show ?thesis using r sys Stepped True run by simp
      qed (use b sys Stepped in simp)
    next
      case (Committed h home args)
      then show ?thesis using sys commit_bounded [OF sb] act by (auto intro!: r)
    next
      case (Canceled remove err home args)
      then show ?thesis using sys cancel_bounded [OF sb] act by (auto intro!: r)
    next
      case (Elsewhere p x)
      then show ?thesis using sys sb act by (auto intro!: r)
    qed
  qed
  have "resources_bounded (upload_run es sys)" if "resources_bounded sys" for sys
    using that
  proof (induction es arbitrary: sys)
    case (Cons x es)
    obtain now e where "x = (now, e)" by fastforce
    then show ?case using Cons step by simp
  qed simp
  then show ?thesis by (simp add: uploads_start_def resources_bounded_def)
qed

section \<open>The writer of a cancelled stream\<close>

lemma cancelled_write_no_result:
  assumes "write_received flag file n left = Some r" "\<forall>m\<ge>n. flag m" "left \<noteq> 0"
  shows False
proof -
  have "(\<forall>m\<ge>n. writer m = WriteInterrupted) \<longrightarrow> left = 0" if "write_all writer n left = Some r" for writer n left r
  proof (rule write_all.raw_induct [where P = "\<lambda>w n l y. (\<forall>m\<ge>n. w m = WriteInterrupted) \<longrightarrow> l = 0", OF _ that], intro impI)
    fix rec :: "(nat \<Rightarrow> write_result) \<Rightarrow> nat \<Rightarrow> nat \<Rightarrow> (ustring option \<times> nat) option" and w n l y
    assume IH: "\<And>w n l y. rec w n l = Some y \<Longrightarrow> (\<forall>m\<ge>n. w m = WriteInterrupted) \<longrightarrow> l = 0"
      and body: "(if l = 0 then Some (None, n)
        else case w n of Wrote k \<Rightarrow> if k = 0 then Some (Some (ustr ''failed to write whole buffer''), n) else rec w (n + 1) (l - k)
          | WriteInterrupted \<Rightarrow> rec w (n + 1) l | WriteError e \<Rightarrow> Some (Some e, n)) = Some y"
      and w: "\<forall>m\<ge>n. w m = WriteInterrupted"
    show "l = 0"
    proof (rule ccontr)
      assume l: "l \<noteq> 0"
      then have "rec w (n + 1) l = Some y" using body w by simp
      then show False using IH w l by fastforce
    qed
  qed
  then show False using assms unfolding write_received_def cancel_write_def by fastforce
qed

lemma uncancelled_write_returns:
  "\<lbrakk>\<forall>m. \<not> flag m; \<forall>m. \<exists>k. file m = Wrote k \<and> k \<noteq> 0\<rbrakk> \<Longrightarrow> \<exists>n'. write_received flag file n left = Some (None, n')"
proof (induction left arbitrary: n rule: less_induct)
  case (less left)
  show ?case
  proof (cases "left = 0")
    case True
    then show ?thesis by (simp add: write_received_def write_all.simps)
  next
    case False
    obtain k where k: "file n = Wrote k" "k \<noteq> 0" using less.prems(2) by blast
    have "write_received flag file n left = write_received flag file (n + 1) (left - k)"
      unfolding write_received_def using False k less.prems(1)
      by (subst write_all.simps) (simp add: cancel_write_def)
    moreover have "\<exists>n'. write_received flag file (n + 1) (left - k) = Some (None, n')"
      by (rule less.IH) (use False k less.prems in auto)
    ultimately show ?thesis by metis
  qed
qed



end
