(* ===== verification/FileOps.thy ===== *)
theory FileOps
  imports FileUploads EventFields
begin

text \<open>
  Requests of the file service: the gate, the dispatch of operations and their arguments, the guards of
  the operations that change files, the descriptions of files, and the result sent back.
\<close>

section \<open>Descriptions\<close>

definition file_err_text :: "file_err \<Rightarrow> ustring" where
  "file_err_text e = (case e of FileIo m \<Rightarrow> m | FileInvalid m \<Rightarrow> ustr m | FileMessage m \<Rightarrow> m)"

definition json_array :: "bytes list \<Rightarrow> bytes" where
  "json_array values = foldl (\<lambda>out v. (if length out > 1 then out @ [0x2C] else out) @ v) [0x5B] values @ [0x5D]"

datatype file_kind = Directory | Symlink | BlockDevice | CharDevice | Fifo | Socket | Plain

record file_meta =
  fm_kind :: file_kind
  fm_mode :: nat
  fm_uid :: nat
  fm_gid :: nat
  fm_size :: nat
  fm_modified :: "(nat \<times> nat) option"

definition mode_bit :: "nat \<Rightarrow> nat \<Rightarrow> bool" where
  "mode_bit mode i \<longleftrightarrow> odd (mode div 2 ^ i)"

definition mode_string :: "file_meta \<Rightarrow> ustring" where
  "mode_string m =
    (let kind = (case fm_kind m of Directory \<Rightarrow> ''d'' | Symlink \<Rightarrow> ''L'' | BlockDevice \<Rightarrow> ''D'' | CharDevice \<Rightarrow> ''Dc''
                 | Fifo \<Rightarrow> ''p'' | Socket \<Rightarrow> ''S'' | Plain \<Rightarrow> []);
         special = (if mode_bit (fm_mode m) 11 then ''u'' else []) @ (if mode_bit (fm_mode m) 10 then ''g'' else []) @
                   (if mode_bit (fm_mode m) 9 then ''t'' else []);
         front = (if kind @ special = [] then ''-'' else kind @ special)
     in ustr (front @ concat (map (\<lambda>(r, w, x).
          [if mode_bit (fm_mode m) r then CHR ''r'' else CHR ''-'', if mode_bit (fm_mode m) w then CHR ''w'' else CHR ''-'',
           if mode_bit (fm_mode m) x then CHR ''x'' else CHR ''-'']) [(8, 7, 6), (5, 4, 3), (2, 1, 0)])))"

fun account_lines :: "nat \<Rightarrow> ustring list \<Rightarrow> ustring" where
  "account_lines n [] = []"
| "account_lines n (line # lines) =
    (case split_all (\<lambda>c. c = 0x3A) line of
       a # b # c # more_fields \<Rightarrow> if parse_unsigned (2 ^ 32 - 1) c = Some n then a else account_lines n lines
     | _ \<Rightarrow> account_lines n lines)"

definition account_name :: "ustring option \<Rightarrow> nat \<Rightarrow> ustring" where
  "account_name contents n = (case contents of None \<Rightarrow> [] | Some c \<Rightarrow> account_lines n (lines_of c))"

definition rfc3339_from_unix_nanos :: "nat \<Rightarrow> nat \<Rightarrow> ustring" where
  "rfc3339_from_unix_nanos secs nanos =
    (let r = secs mod 86400
     in case civil_from_days (int (secs div 86400)) of (year, month, day) \<Rightarrow>
          dec_pad 4 (nat year) @ [0x2D] @ dec_pad 2 (nat month) @ [0x2D] @ dec_pad 2 (nat day) @ [0x54] @
          dec_pad 2 (r div 3600) @ [0x3A] @ dec_pad 2 (r mod 3600 div 60) @ [0x3A] @ dec_pad 2 (r mod 60) @
          (if nanos \<noteq> 0 then 0x2E # trim_end_by (\<lambda>c. c = 0x30) (dec_pad 9 nanos) else []) @ [0x5A])"

fun octal_digits :: "nat \<Rightarrow> nat \<Rightarrow> ustring" where
  "octal_digits 0 n = []"
| "octal_digits (Suc k) n = octal_digits k (n div 8) @ [0x30 + n mod 8]"

definition bool_text :: "bool \<Rightarrow> ustring" where
  "bool_text b = ustr (if b then ''true'' else ''false'')"

text \<open>
  \<open>link\<close> is the metadata of the name itself, \<open>behind\<close> of what a symbolic link leads to.  The mode of a
  file has at most four octal digits.
\<close>

definition describe ::
  "(path \<Rightarrow> ustring) \<Rightarrow> ustring option \<Rightarrow> ustring option \<Rightarrow> path \<Rightarrow> file_meta \<Rightarrow> file_meta option \<Rightarrow> ustring option \<Rightarrow> bytes" where
  "describe virtual_path passwd groups p link behind target =
    (let is_symlink = (fm_kind link = Symlink);
         m = (if is_symlink then case behind of Some b \<Rightarrow> b | None \<Rightarrow> link else link);
         a = write_json_string (lit ''{\"name\":'') (case file_name p of Some n \<Rightarrow> n | None \<Rightarrow> ustr ''/'');
         b = write_json_string (a @ lit '',\"path\":'') (virtual_path p);
         c = b @ as_bytes (ustr '',\"is_dir\":'' @ bool_text (fm_kind m = Directory) @ ustr '',\"is_symlink\":'' @
               bool_text is_symlink @ ustr '',\"size\":'' @ dec (fm_size m) @
               ustr '',\"mode_octal\":\"'' @ octal_digits 4 (fm_mode m mod 2 ^ 12) @ ustr ''\",\"uid\":'' @ dec (fm_uid m) @
               ustr '',\"gid\":'' @ dec (fm_gid m));
         e = write_json_string (c @ lit '',\"mode\":'') (mode_string m);
         f = write_json_string (e @ lit '',\"owner\":'') (account_name passwd (fm_uid m));
         g = write_json_string (f @ lit '',\"group\":'') (account_name groups (fm_gid m));
         i = write_json_string (g @ lit '',\"modified_at\":'')
               (case fm_modified m of Some (s, n) \<Rightarrow> rfc3339_from_unix_nanos s n | None \<Rightarrow> ustr ''1970-01-01T00:00:00Z'');
         j = (case target of Some t \<Rightarrow> if is_symlink then write_json_string (i @ lit '',\"target\":'') t else i | None \<Rightarrow> i)
     in j @ [0x7D])"

section \<open>Operations\<close>

datatype file_request =
    ListDir ustring | ListRoots | Stat path | CreateEmpty path | MakeDir path ustring | Delete path
  | Move path path | CopyFile path path | Chmod path ustring | Chown path bytes | Search bytes
  | Download bytes | Upload bytes | UploadCommit bytes | UploadCancel bytes

definition execute :: "ustring option \<Rightarrow> ustring \<Rightarrow> bytes \<Rightarrow> (file_request, file_err) outcome" where
  "execute home op args =
    (let p = (\<lambda>key. resolve_path home (path_arg args key))
     in if op = ustr ''list'' then Ok (ListDir (path_arg args ''path''))
        else if op = ustr ''list_roots'' then Ok ListRoots
        else if op = ustr ''stat'' then Ok (Stat (p ''path''))
        else if op = ustr ''create'' then Ok (CreateEmpty (p ''path''))
        else if op = ustr ''mkdir'' then Ok (MakeDir (p ''path'') (path_arg args ''mode''))
        else if op = ustr ''delete'' then Ok (Delete (p ''path''))
        else if op = ustr ''move'' then Ok (Move (p ''source'') (p ''destination''))
        else if op = ustr ''copy'' then Ok (CopyFile (p ''source'') (p ''destination''))
        else if op = ustr ''chmod'' then Ok (Chmod (p ''path'') (path_arg args ''mode''))
        else if op = ustr ''chown'' then Ok (Chown (p ''path'') args)
        else if op = ustr ''search'' then Ok (Search args)
        else if op = ustr ''download_stream'' then Ok (Download args)
        else if op = ustr ''upload_stream'' then Ok (Upload args)
        else if op = ustr ''upload_commit'' then Ok (UploadCommit args)
        else if op = ustr ''upload_cancel'' then Ok (UploadCancel args)
        else Err (FileInvalid ''unsupported file operation''))"

definition octal_value :: "ustring \<Rightarrow> nat" where
  "octal_value s = foldl (\<lambda>acc c. 8 * acc + (c - 0x30)) 0 s"

text \<open>\<open>trim_start_matches(\"0o\")\<close> drops the prefix as often as it is there.\<close>

function drop_0o :: "ustring \<Rightarrow> ustring" where
  "drop_0o s = (if take 2 s = [0x30, 0x6F] then drop_0o (drop 2 s) else s)"
  by auto
termination drop_0o
proof (relation "measure length")
  fix s :: ustring
  assume "take 2 s = [0x30, 0x6F]"
  then have "s \<noteq> []" by auto
  then show "(drop 2 s, s) \<in> measure length" by simp
qed simp

declare drop_0o.simps [simp del]

definition parse_mode :: "ustring \<Rightarrow> (nat, file_err) outcome" where
  "parse_mode s0 =
    (let s = drop_0o (trim s0); ds = (case s of [] \<Rightarrow> [] | c # cs \<Rightarrow> if c = 0x2B then cs else s)
     in if ds = [] \<or> \<not> list_all (\<lambda>c. 0x30 \<le> c \<and> c \<le> 0x37) ds \<or> octal_value ds \<ge> 2 ^ 32 \<or> octal_value ds > 4095
        then file_invalid ''invalid mode'' else Ok (octal_value ds))"

definition resolve_account :: "ustring option \<Rightarrow> ustring \<Rightarrow> int option" where
  "resolve_account contents v =
    (if trim v = [0x2D] then Some (- 1)
     else case parse_i64 (trim v) of
       Some n \<Rightarrow> Some n
     | None \<Rightarrow>
         (case contents of
            None \<Rightarrow> None
          | Some c \<Rightarrow>
              (case filter (\<lambda>parts. length parts > 2 \<and> parts ! 0 = trim v) (map (split_all (\<lambda>c. c = 0x3A)) (lines_of c)) of
                 [] \<Rightarrow> None | parts # _ \<Rightarrow> parse_i64 (parts ! 2))))"

text \<open>The identifiers to set; \<open>-1\<close> keeps the present one.\<close>

definition chown_ids :: "ustring option \<Rightarrow> ustring option \<Rightarrow> bytes \<Rightarrow> (int \<times> int, file_err) outcome" where
  "chown_ids passwd groups args =
    (let uid = (case direct_i64 args ''uid'' of Some n \<Rightarrow> n | None \<Rightarrow> - 1);
         gid = (case direct_i64 args ''gid'' of Some n \<Rightarrow> n | None \<Rightarrow> - 1);
         named = (\<lambda>key contents current err.
           case direct_string args key of
             Some s \<Rightarrow> if trim s \<noteq> [] then ok_or (FileInvalid err) (resolve_account contents s) else Ok current
           | None \<Rightarrow> Ok current)
     in and_then (named ''owner'' passwd uid ''unknown owner account'') (\<lambda>u.
        and_then (named ''group'' groups gid ''unknown group account'') (\<lambda>g.
        if u < - 1 \<or> g < - 1 \<or> u > 2 ^ 32 - 1 \<or> g > 2 ^ 32 - 1 \<or> (u = - 1 \<and> g = - 1)
        then file_invalid ''uid or gid is required'' else Ok (u, g))))"

datatype rename_result = Renamed | CrossDevice | RenameFailed ustring

text \<open>The system calls that follow the guards, in order.\<close>

definition move_path ::
  "(unit, file_err) outcome \<Rightarrow> rename_result \<Rightarrow> (unit, file_err) outcome \<Rightarrow> (unit, file_err) outcome \<Rightarrow>
    path \<Rightarrow> path \<Rightarrow> (bytes, file_err) outcome" where
  "move_path make_parent renamed copied removed source destination =
    and_then (ensure_not_root source) (\<lambda>_.
    and_then (ensure_not_root destination) (\<lambda>_.
    if source = destination then Ok (lit ''{\"moved\":true}'')
    else if path_contains source destination then file_invalid ''destination is inside source''
    else and_then make_parent (\<lambda>_.
         and_then (case renamed of Renamed \<Rightarrow> Ok () | CrossDevice \<Rightarrow> and_then copied (\<lambda>_. removed)
                   | RenameFailed e \<Rightarrow> Err (FileIo e)) (\<lambda>_.
         Ok (lit ''{\"moved\":true}'')))))"

definition copy_path :: "(unit, file_err) outcome \<Rightarrow> path \<Rightarrow> path \<Rightarrow> (bytes, file_err) outcome" where
  "copy_path copied source destination =
    and_then (ensure_not_root destination) (\<lambda>_.
    if source = destination then file_invalid ''source and destination are the same''
    else if path_contains source destination then file_invalid ''destination is inside source''
    else and_then copied (\<lambda>_. Ok (lit ''{\"copied\":true}'')))"

definition delete_path :: "(unit, file_err) outcome \<Rightarrow> path \<Rightarrow> (bytes, file_err) outcome" where
  "delete_path removed p = and_then (ensure_not_root p) (\<lambda>_. and_then removed (\<lambda>_. Ok (lit ''{\"deleted\":true}'')))"

definition search_result :: "(path \<Rightarrow> ustring) \<Rightarrow> path \<Rightarrow> nat \<Rightarrow> ustring \<Rightarrow> bool \<Rightarrow> bytes" where
  "search_result virtual_path p line s is_dir =
    (let a = write_json_string (lit ''{\"path\":'') (virtual_path p) @
           as_bytes (ustr '',\"line\":'' @ dec line @ ustr '',\"is_dir\":'' @ bool_text is_dir);
         b = (if s \<noteq> [] then write_json_string (a @ lit '',\"text\":'') s else a)
     in b @ [0x7D])"

definition transfer_url :: "config \<Rightarrow> bytes \<Rightarrow> (ustring, file_err) outcome" where
  "transfer_url c args =
    (let key = path_arg args ''transfer_id''; token = path_arg args ''transfer_token''
     in if key = [] \<or> token = [] then file_invalid ''transfer credentials are required''
        else Ok (trim_end_by (\<lambda>c. c = 0x2F) (cf_endpoint c) @ ustr ''/api/clients/transfer/'' @ url_encode key @
               ustr ''?token='' @ url_encode (cf_token c) @ ustr ''&transfer_token='' @ url_encode token))"

text \<open>What a download sends, after the size and time of the file were read.\<close>

definition download_range :: "nat \<Rightarrow> ustring option \<Rightarrow> bytes \<Rightarrow> (nat \<times> nat, file_err) outcome" where
  "download_range size_now modified args =
    and_then (u64_arg args ''offset'') (\<lambda>offset.
    and_then (u64_arg args ''length'') (\<lambda>len.
    if len = 0 \<or> len > max_chunk then file_invalid ''invalid download range''
    else if (case direct_i64 args ''file_size'' of Some n \<Rightarrow> n > 0 \<and> nat n \<noteq> size_now | None \<Rightarrow> False)
    then file_invalid ''file changed while opening stream''
    else if (case (direct_string args ''modified_at'', modified) of (Some e, Some a) \<Rightarrow> a \<noteq> [] \<and> a \<noteq> e | _ \<Rightarrow> False)
    then file_invalid ''file changed while opening stream''
    else if offset + len \<ge> 2 ^ 64 \<or> offset + len > size_now then file_invalid ''download range exceeds file''
    else Ok (offset, len)))"

section \<open>Results\<close>

definition max_control_json :: nat where "max_control_json = 1024 * 1024"

definition result_prefix :: "ustring \<Rightarrow> ustring \<Rightarrow> bytes" where
  "result_prefix uuid request_id =
    write_json_string (write_json_string (lit ''{\"uuid\":'') uuid @ lit '',\"request_id\":'') request_id"

definition result_payload :: "ustring \<Rightarrow> ustring \<Rightarrow> (bytes, file_err) outcome \<Rightarrow> bytes" where
  "result_payload uuid request_id result =
    (let start = result_prefix uuid request_id
     in (case result of
           Ok v \<Rightarrow>
             (let out = start @ lit '',\"ok\":true,\"result\":'' @ v
              in if length out > max_control_json
                 then start @ lit '',\"ok\":false,\"error\":\"file operation result exceeds 1 MiB\"'' else out)
         | Err e \<Rightarrow> write_json_string (start @ lit '',\"ok\":false,\"error\":'') (file_err_text e)
         | Panic \<Rightarrow> start) @ [0x7D])"

text \<open>\<open>run\<close> executes a request.  A panic ends the worker without a reply.\<close>

definition file_result ::
  "config \<Rightarrow> ustring option \<Rightarrow> (file_request \<Rightarrow> (bytes, file_err) outcome) \<Rightarrow> bytes \<Rightarrow> (bytes, file_err) outcome" where
  "file_result c home run event =
    (let request_id = (case extract_json_string event (ustr ''request_id'') of Some s \<Rightarrow> s | None \<Rightarrow> []);
         op = (case extract_json_string event (ustr ''op'') of Some s \<Rightarrow> s | None \<Rightarrow> []);
         args = (case extract_json_raw event (ustr ''args'') of Some a \<Rightarrow> a | None \<Rightarrow> lit ''{}'')
     in if cf_disable_web_ssh c then file_invalid ''web control is disabled''
        else if request_id = [] \<or> op = [] then file_invalid ''request_id and op are required''
        else and_then (execute home op args) run)"

definition file_reply ::
  "config \<Rightarrow> ustring option \<Rightarrow> (file_request \<Rightarrow> (bytes, file_err) outcome) \<Rightarrow> bytes \<Rightarrow> bytes option" where
  "file_reply c home run event =
    (let field = (\<lambda>key. case extract_json_string event (ustr key) of Some s \<Rightarrow> s | None \<Rightarrow> [])
     in case file_result c home run event of
          Panic \<Rightarrow> None
        | r \<Rightarrow> Some (new_notification method_agent_file_result (result_payload (field ''uuid'') (field ''request_id'') r)))"

text \<open>The posts of the reply: the status each of them gets, and the pauses between them.\<close>

fun post_attempts :: "nat \<Rightarrow> nat \<Rightarrow> (nat \<Rightarrow> nat option) \<Rightarrow> nat \<times> nat list" where
  "post_attempts 0 attempt status = (0, [])"
| "post_attempts (Suc left) attempt status =
    (case status attempt of
       Some s \<Rightarrow>
         if 200 \<le> s \<and> s < 300 \<or> 400 \<le> s \<and> s < 500 then (1, [])
         else if left = 0 then (1, [])
         else (case post_attempts left (attempt + 1) status of (n, pauses) \<Rightarrow> (n + 1, attempt * 500 # pauses))
     | None \<Rightarrow>
         if left = 0 then (1, [])
         else (case post_attempts left (attempt + 1) status of (n, pauses) \<Rightarrow> (n + 1, attempt * 500 # pauses)))"

definition post_result :: "(nat \<Rightarrow> nat option) \<Rightarrow> nat \<times> nat list" where
  "post_result status = post_attempts 4 1 status"

section \<open>What is reported\<close>

lemma result_keys:
  "decode_json_string (quoted ''uuid'') = Some (ustr ''uuid'')" "decode_json_string (quoted ''request_id'') = Some (ustr ''request_id'')"
  "decode_json_string (quoted ''ok'') = Some (ustr ''ok'')" "decode_json_string (quoted ''result'') = Some (ustr ''result'')"
  "decode_json_string (quoted ''error'') = Some (ustr ''error'')"
  by (rule decode_quoted, code_simp)+

definition result_fits :: "ustring \<Rightarrow> ustring \<Rightarrow> bytes \<Rightarrow> bool" where
  "result_fits uuid request_id v \<longleftrightarrow> length (result_prefix uuid request_id @ lit '',\"ok\":true,\"result\":'' @ v) \<le> max_control_json"

definition result_members :: "ustring \<Rightarrow> ustring \<Rightarrow> (bytes, file_err) outcome \<Rightarrow> (bytes \<times> bytes) list" where
  "result_members uuid request_id result =
    [(quoted ''uuid'', json_string uuid), (quoted ''request_id'', json_string request_id)] @
    (case result of
       Ok v \<Rightarrow>
         (if result_fits uuid request_id v then [(quoted ''ok'', lit ''true''), (quoted ''result'', v)]
          else [(quoted ''ok'', lit ''false''), (quoted ''error'', quoted ''file operation result exceeds 1 MiB'')])
     | Err e \<Rightarrow> [(quoted ''ok'', lit ''false''), (quoted ''error'', json_string (file_err_text e))]
     | Panic \<Rightarrow> [])"

lemma result_payload_members:
  "result \<noteq> Panic \<Longrightarrow> result_payload uuid request_id result = object_text (result_members uuid request_id result)"
proof -
  have a: "lit ''{\"uuid\":'' = [0x7B] @ quoted ''uuid'' @ [0x3A]" "lit '',\"request_id\":'' = [0x2C] @ quoted ''request_id'' @ [0x3A]"
    "lit '',\"ok\":true,\"result\":'' = [0x2C] @ quoted ''ok'' @ [0x3A] @ lit ''true'' @ [0x2C] @ quoted ''result'' @ [0x3A]"
    "lit '',\"ok\":false,\"error\":'' = [0x2C] @ quoted ''ok'' @ [0x3A] @ lit ''false'' @ [0x2C] @ quoted ''error'' @ [0x3A]"
    "lit '',\"ok\":false,\"error\":\"file operation result exceeds 1 MiB\"'' =
      [0x2C] @ quoted ''ok'' @ [0x3A] @ lit ''false'' @ [0x2C] @ quoted ''error'' @ [0x3A] @ quoted ''file operation result exceeds 1 MiB''"
    by code_simp+
  have p: "result_prefix uuid request_id = [0x7B] @ member_text (quoted ''uuid'', json_string uuid) @ [0x2C] @
      member_text (quoted ''request_id'', json_string request_id)"
    unfolding result_prefix_def member_text_def write_json_string_def a fst_conv snd_conv by simp
  assume "result \<noteq> Panic"
  then show ?thesis
  proof (cases result)
    case (Ok v)
    show ?thesis
    proof (cases "result_fits uuid request_id v")
      case True
      then have "\<not> length (result_prefix uuid request_id @ lit '',\"ok\":true,\"result\":'' @ v) > max_control_json"
        by (simp add: result_fits_def)
      then show ?thesis using True unfolding Ok result_payload_def Let_def outcome.case a
        by (simp add: result_members_def p object_text_def member_text_def)
    next
      case False
      then have "length (result_prefix uuid request_id @ lit '',\"ok\":true,\"result\":'' @ v) > max_control_json"
        by (simp add: result_fits_def)
      then show ?thesis using False unfolding Ok result_payload_def Let_def outcome.case a
        by (simp add: result_members_def p object_text_def member_text_def)
    qed
  next
    case (Err e)
    show ?thesis unfolding Err result_payload_def Let_def outcome.case a p
      by (simp add: result_members_def object_text_def member_text_def write_json_string_def)
  qed simp
qed

lemma result_members_ok:
  assumes "valid_text uuid" "valid_text request_id"
    and "case result of Ok v \<Rightarrow> json_value 2 v | Err e \<Rightarrow> valid_text (file_err_text e) | Panic \<Rightarrow> False"
  shows "members_ok 1 (result_members uuid request_id result)"
proof -
  have n: "distinct [ustr ''uuid'', ustr ''request_id'', ustr ''ok'', ustr ''result'', ustr ''error'']" by code_simp
  have t: "valid_text (ustr ''file operation result exceeds 1 MiB'')" by code_simp
  have q: "quoted ''file operation result exceeds 1 MiB'' = json_string (ustr ''file operation result exceeds 1 MiB'')" by code_simp
  have b: "json_value 2 (lit ''true'')" "json_value 2 (lit ''false'')"
    using json_value_bool [of 2 True] json_value_bool [of 2 False] by simp_all
  show ?thesis
    using assms n b t unfolding result_members_def
    by (cases result) (auto simp: members_ok_def result_keys key_of_def json_value_string q numeral_2_eq_2 [symmetric])
qed



end
