(* ===== verification/Proxy.thy ===== *)
theory Proxy
  imports FileOps UpdateHttp
begin

text \<open>
  \<open>proxy.rs\<close>: addresses as the standard library reads them, the bypass list, proxy URLs, and the
  handshakes with HTTP and SOCKS5 proxies over a connection.
\<close>

unbundle bit_operations_syntax

section \<open>Addresses\<close>

datatype ip_addr = V4 "32 word" | V6 "128 word"

text \<open>
  The parser of \<open>std::net\<close>: a number of at most \<open>digits\<close> digits, then the rest of the text.
\<close>

definition digit_of :: "nat \<Rightarrow> nat \<Rightarrow> nat option" where
  "digit_of radix c = (if is_hex_char c \<and> hex_char_value c < radix then Some (hex_char_value c) else None)"

definition read_number :: "nat \<Rightarrow> nat \<Rightarrow> nat \<Rightarrow> bool \<Rightarrow> ustring \<Rightarrow> (nat \<times> ustring) option" where
  "read_number radix digits hi zero_prefix s =
    (let ds = takeWhile (\<lambda>c. digit_of radix c \<noteq> None) s;
         n = foldl (\<lambda>acc c. radix * acc + hex_char_value c) 0 ds
     in if ds = [] \<or> length ds > digits \<or> n > hi \<or> \<not> zero_prefix \<and> length ds > 1 \<and> hd ds = 0x30 then None
        else Some (n, drop (length ds) s))"

text \<open>A separator comes before every element but the first.\<close>

definition read_separated :: "nat \<Rightarrow> nat \<Rightarrow> (ustring \<Rightarrow> ('a \<times> ustring) option) \<Rightarrow> ustring \<Rightarrow> ('a \<times> ustring) option" where
  "read_separated sep i p s =
    (if i = 0 then p s else case s of [] \<Rightarrow> None | c # cs \<Rightarrow> if c = sep then p cs else None)"

fun read_octets :: "nat \<Rightarrow> nat \<Rightarrow> nat \<Rightarrow> ustring \<Rightarrow> (nat \<times> ustring) option" where
  "read_octets 0 i acc s = Some (acc, s)"
| "read_octets (Suc k) i acc s =
    (case read_separated 0x2E i (read_number 10 3 255 False) s of
       None \<Rightarrow> None
     | Some (n, t) \<Rightarrow> read_octets k (i + 1) (256 * acc + n) t)"

definition read_ipv4 :: "ustring \<Rightarrow> (nat \<times> ustring) option" where
  "read_ipv4 s = read_octets 4 0 0 s"

text \<open>Groups of an IPv6 address, until none is left or \<open>limit\<close> are read; the flag says an IPv4 tail ended them.\<close>

fun read_groups :: "nat \<Rightarrow> nat \<Rightarrow> ustring \<Rightarrow> nat list \<times> bool \<times> ustring" where
  "read_groups 0 i s = ([], False, s)"
| "read_groups (Suc left) i s =
    (case (if left > 0 then read_separated 0x3A i read_ipv4 s else None) of
       Some (n, t) \<Rightarrow> ([n div 65536, n mod 65536], True, t)
     | None \<Rightarrow>
         (case read_separated 0x3A i (read_number 16 4 65535 True) s of
            None \<Rightarrow> ([], False, s)
          | Some (g, t) \<Rightarrow> (case read_groups left (i + 1) t of (gs, v4, u) \<Rightarrow> (g # gs, v4, u))))"

definition groups_value :: "nat list \<Rightarrow> nat" where
  "groups_value gs = foldl (\<lambda>acc g. 65536 * acc + g) 0 gs"

definition read_ipv6 :: "ustring \<Rightarrow> (nat \<times> ustring) option" where
  "read_ipv6 s =
    (case read_groups 8 0 s of
       (gs, v4, t) \<Rightarrow>
         if length gs = 8 then Some (groups_value gs, t)
         else if v4 then None
         else case strip_prefix_opt [0x3A, 0x3A] t of
           None \<Rightarrow> None
         | Some u \<Rightarrow>
             (case read_groups (8 - (length gs + 1)) 0 u of
                (tails, _, w) \<Rightarrow> Some (groups_value (gs @ replicate (8 - length gs - length tails) 0 @ tails), w)))"

definition parse_ip :: "ustring \<Rightarrow> ip_addr option" where
  "parse_ip s =
    (case read_ipv4 s of
       Some (n, []) \<Rightarrow> Some (V4 (of_nat n))
     | _ \<Rightarrow> (case read_ipv6 s of Some (n, []) \<Rightarrow> Some (V6 (of_nat n)) | _ \<Rightarrow> None))"

section \<open>The bypass list\<close>

definition ip_in_cidr :: "ip_addr \<Rightarrow> ip_addr \<Rightarrow> nat \<Rightarrow> bool" where
  "ip_in_cidr ip net bits =
    (case (ip, net) of
       (V4 a, V4 b) \<Rightarrow>
         if bits > 32 then False
         else let m = (if bits = 0 then 0 else push_bit (32 - bits) (NOT 0)) in a AND m = b AND m
     | (V6 a, V6 b) \<Rightarrow>
         if bits > 128 then False
         else let m = (if bits = 0 then 0 else push_bit (128 - bits) (NOT 0)) in a AND m = b AND m
     | _ \<Rightarrow> False)"

definition host_matches_entry :: "ustring \<Rightarrow> ip_addr option \<Rightarrow> ustring \<Rightarrow> bool" where
  "host_matches_entry host0 host_ip entry0 =
    (case split_first (\<lambda>c. c = 0x2F) entry0 of
       Some (a, b) \<Rightarrow>
         (case (host_ip, parse_ip a) of
            (Some ip, Some net) \<Rightarrow>
              ip_in_cidr ip net
                (case parse_unsigned 255 b of Some p \<Rightarrow> p | None \<Rightarrow> (case net of V4 _ \<Rightarrow> 32 | V6 _ \<Rightarrow> 128))
          | _ \<Rightarrow> False)
     | None \<Rightarrow>
         (case parse_ip entry0 of
            Some ip \<Rightarrow> host_ip = Some ip
          | None \<Rightarrow>
              (let entry = ascii_lower entry0; host = ascii_lower host0
               in case strip_prefix_opt [0x2E] entry of
                    Some tail \<Rightarrow> host = tail \<or> ends_with host entry
                  | None \<Rightarrow> host = entry \<or> ends_with host (0x2E # entry))))"

definition contains_double_colon :: "ustring \<Rightarrow> bool" where
  "contains_double_colon s \<longleftrightarrow> find_sub [0x3A, 0x3A] s \<noteq> None"

definition bypass_host :: "ustring \<Rightarrow> ustring" where
  "bypass_host target_host =
    (let host = trim_end_by (\<lambda>c. c = 0x5D) (trim_start_by (\<lambda>c. c = 0x5B) target_host)
     in case split_last (\<lambda>c. c = 0x3A) host of
          None \<Rightarrow> host
        | Some (h, p) \<Rightarrow> if parse_unsigned 65535 p \<noteq> None \<and> \<not> contains_double_colon host then h else host)"

definition bypass_list_matches :: "ustring \<Rightarrow> ustring \<Rightarrow> bool" where
  "bypass_list_matches target_host no_proxy_list =
    (let entries = trim no_proxy_list
     in if entries = [] then False
        else if entries = [0x2A] then True
        else let host = bypass_host target_host; host_ip = parse_ip host
          in list_ex (\<lambda>e. e \<noteq> [] \<and> host_matches_entry host host_ip e) (map trim (split_all (\<lambda>c. c = 0x2C) entries)))"

text \<open>\<open>env\<close> gives the variables of the environment.\<close>

definition should_bypass_proxy :: "(ustring \<Rightarrow> ustring option) \<Rightarrow> ustring \<Rightarrow> bool" where
  "should_bypass_proxy env target_host =
    bypass_list_matches target_host
      (case env (ustr ''NO_PROXY'') of Some s \<Rightarrow> s | None \<Rightarrow> (case env (ustr ''no_proxy'') of Some s \<Rightarrow> s | None \<Rightarrow> []))"

fun first_proxy :: "(ustring \<Rightarrow> ustring option) \<Rightarrow> ustring list \<Rightarrow> ustring option" where
  "first_proxy env [] = None"
| "first_proxy env (v # vs) =
    (case env v of
       Some s \<Rightarrow> if trim s \<noteq> [] then Some (trim s) else first_proxy env vs
     | None \<Rightarrow> first_proxy env vs)"

definition get_proxy_for :: "(ustring \<Rightarrow> ustring option) \<Rightarrow> ustring \<Rightarrow> ustring option" where
  "get_proxy_for env target_host =
    (if should_bypass_proxy env target_host then None
     else first_proxy env (map ustr [''HTTPS_PROXY'', ''https_proxy'', ''ALL_PROXY'', ''all_proxy'', ''HTTP_PROXY'', ''http_proxy'']))"

section \<open>Proxy URLs\<close>

datatype proxy_scheme = Connect | Socks5 | Socks5h

record proxy_spec =
  px_scheme :: proxy_scheme
  px_host :: ustring
  px_port :: nat
  px_auth :: "(ustring \<times> ustring) option"

definition default_port :: "proxy_scheme \<Rightarrow> nat" where
  "default_port s = (case s of Connect \<Rightarrow> 8080 | _ \<Rightarrow> 1080)"

definition split_host_port :: "ustring \<Rightarrow> nat \<Rightarrow> (ustring \<times> nat, string) outcome" where
  "split_host_port hostport std_port =
    (case (if take 1 hostport = [0x5B] then split_first (\<lambda>c. c = 0x5D) hostport else None) of
       Some (a, rest) \<Rightarrow>
         (case strip_prefix_opt [0x3A] rest of
            Some p \<Rightarrow> (case parse_unsigned 65535 p of Some n \<Rightarrow> Ok (a @ [0x5D], n) | None \<Rightarrow> Err ''invalid proxy port'')
          | None \<Rightarrow> Ok (a @ [0x5D], std_port))
     | None \<Rightarrow>
         (case split_last (\<lambda>c. c = 0x3A) hostport of
            Some (h, p) \<Rightarrow> (case parse_unsigned 65535 p of Some n \<Rightarrow> Ok (h, n) | None \<Rightarrow> Err ''invalid proxy port'')
          | None \<Rightarrow> Ok (hostport, std_port)))"

fun first_prefix :: "(string \<times> proxy_scheme) list \<Rightarrow> ustring \<Rightarrow> (proxy_scheme \<times> ustring) option" where
  "first_prefix [] s = None"
| "first_prefix ((p, scheme) # ps) s =
    (case strip_prefix_opt (ustr p) s of Some rest \<Rightarrow> Some (scheme, rest) | None \<Rightarrow> first_prefix ps s)"

definition proxy_prefixes :: "(string \<times> proxy_scheme) list" where
  "proxy_prefixes =
    [(''socks5h://'', Socks5h), (''socks5://'', Socks5), (''socks5h:'', Socks5h), (''socks5:'', Socks5),
     (''http://'', Connect), (''https://'', Connect)]"

definition proxy_auth :: "ustring \<Rightarrow> (ustring \<times> ustring) option \<times> ustring" where
  "proxy_auth authority =
    (case split_last (\<lambda>c. c = 0x40) authority of
       Some (userinfo, hostport) \<Rightarrow>
         if userinfo \<noteq> []
         then (Some (case split_first (\<lambda>c. c = 0x3A) userinfo of Some (u, p) \<Rightarrow> (u, p) | None \<Rightarrow> (userinfo, [])), hostport)
         else (None, authority)
     | None \<Rightarrow> (None, authority))"

definition parse_proxy_url :: "ustring \<Rightarrow> (proxy_spec, string) outcome" where
  "parse_proxy_url proxy0 =
    (let proxy = trim proxy0;
         start = (case first_prefix proxy_prefixes proxy of
                    Some (scheme, rest) \<Rightarrow> Ok (scheme, rest)
                  | None \<Rightarrow>
                      if strip_prefix_opt (ustr ''socks4'') proxy \<noteq> None
                      then Err ''SOCKS4 proxy not supported (use socks5/socks5h)'' else Ok (Connect, proxy))
     in and_then start (\<lambda>(scheme, rest).
        case proxy_auth (takeWhile (\<lambda>c. c \<noteq> 0x2F) rest) of (auth, hostport) \<Rightarrow>
          if hostport = [] then Err ''missing proxy host''
          else and_then (split_host_port hostport (default_port scheme)) (\<lambda>(h, port).
            let host = trim_end_by (\<lambda>c. c = 0x5D) (trim_start_by (\<lambda>c. c = 0x5B) h)
            in if host = [] then Err ''missing proxy host''
               else Ok \<lparr>px_scheme = scheme, px_host = host, px_port = port, px_auth = auth\<rparr>)))"

section \<open>Connections\<close>

datatype net_err = NetIo ustring | NetDns ustring | NetProxy ustring

text \<open>
  What the peer sends, how its stream ends, what was sent to it, and the results of the writes to come
  (all succeed when none is left).
\<close>

record conn =
  cn_in :: bytes
  cn_end :: "ustring option"
  cn_out :: bytes
  cn_writes :: "ustring option list"

type_synonym 'a net = "conn \<Rightarrow> ('a, net_err) outcome \<times> conn"

definition net_return :: "'a \<Rightarrow> 'a net" where
  "net_return x c = (Ok x, c)"

definition net_fail :: "ustring \<Rightarrow> 'a net" where
  "net_fail m c = (Err (NetProxy m), c)"

definition net_bind :: "'a net \<Rightarrow> ('a \<Rightarrow> 'b net) \<Rightarrow> 'b net" where
  "net_bind m f c = (case m c of (Ok x, c1) \<Rightarrow> f x c1 | (Err e, c1) \<Rightarrow> (Err e, c1) | (Panic, c1) \<Rightarrow> (Panic, c1))"

definition net_send :: "bytes \<Rightarrow> unit net" where
  "net_send bs c =
    (case cn_writes c of
       Some e # _ \<Rightarrow> (Err (NetIo e), c)
     | _ \<Rightarrow> (Ok (), c\<lparr>cn_out := cn_out c @ bs, cn_writes := tl (cn_writes c)\<rparr>))"

definition read_exact_proxy :: "nat \<Rightarrow> bytes net" where
  "read_exact_proxy n c =
    (if n \<le> length (cn_in c) then (Ok (take n (cn_in c)), c\<lparr>cn_in := drop n (cn_in c)\<rparr>)
     else (Err (case cn_end c of Some e \<Rightarrow> NetIo e | None \<Rightarrow> NetProxy (ustr ''proxy closed connection during SOCKS handshake'')),
           c\<lparr>cn_in := []\<rparr>))"

section \<open>HTTP CONNECT\<close>

definition base64_encode_var :: "bytes \<Rightarrow> bytes" where
  "base64_encode_var input = base64_chars input"

definition connect_request :: "ustring \<Rightarrow> nat \<Rightarrow> (ustring \<times> ustring) option \<Rightarrow> bytes" where
  "connect_request host port auth =
    as_bytes (ustr ''CONNECT '' @ host @ [0x3A] @ dec port @ ustr '' HTTP/1.1'' @ [0x0D, 0x0A] @
      ustr ''Host: '' @ host @ [0x3A] @ dec port @ [0x0D, 0x0A] @ ustr ''Proxy-Connection: keep-alive'' @ [0x0D, 0x0A]) @
    (case auth of
       Some (user, pass) \<Rightarrow> lit ''Proxy-Authorization: Basic '' @ base64_encode_var (as_bytes (user @ [0x3A] @ pass)) @ [0x0D, 0x0A]
     | None \<Rightarrow> []) @ [0x0D, 0x0A]"

text \<open>One byte at a time, until the empty line; \<open>buf\<close> is what was read.\<close>

function read_connect_head :: "bytes \<Rightarrow> bytes net" where
  "read_connect_head buf c =
    (case cn_in c of
       [] \<Rightarrow> (Err (case cn_end c of Some e \<Rightarrow> NetIo e | None \<Rightarrow> NetProxy (ustr ''proxy closed connection during CONNECT'')), c)
     | b # rest \<Rightarrow>
         (let buf1 = buf @ [b]; c1 = c\<lparr>cn_in := rest\<rparr>
          in if length buf1 \<ge> 4 \<and> drop (length buf1 - 4) buf1 = [0x0D, 0x0A, 0x0D, 0x0A] then (Ok buf1, c1)
             else if length buf1 > 8192 then (Err (NetProxy (ustr ''proxy CONNECT response too large'')), c1)
             else read_connect_head buf1 c1))"
  by auto
termination read_connect_head
  by (relation "measure (\<lambda>(buf, c). length (cn_in c))") auto

declare read_connect_head.simps [simp del]

definition validate_connect_status :: "ustring \<Rightarrow> (unit, net_err) outcome" where
  "validate_connect_status line =
    (case (case split_whitespace line of _ # code # _ \<Rightarrow> parse_unsigned 65535 code | _ \<Rightarrow> None) of
       Some n \<Rightarrow>
         if n = 200 then Ok ()
         else if n = 407 then Err (NetProxy (ustr ''proxy requires authentication (407)''))
         else Err (NetProxy (ustr ''proxy CONNECT failed (status '' @ dec n @ ustr '')''))
     | None \<Rightarrow> Err (NetProxy (ustr ''malformed proxy CONNECT status line'')))"

definition http_connect_handshake :: "ustring \<Rightarrow> nat \<Rightarrow> (ustring \<times> ustring) option \<Rightarrow> unit net" where
  "http_connect_handshake host port auth =
    net_bind (net_send (connect_request host port auth)) (\<lambda>_.
    net_bind (read_connect_head []) (\<lambda>buf c.
    case from_utf8 buf of
      None \<Rightarrow> net_fail (ustr ''proxy CONNECT response is not valid UTF-8'') c
    | Some s \<Rightarrow> (validate_connect_status (case lines_of s of l # _ \<Rightarrow> l | [] \<Rightarrow> []), c)))"

section \<open>SOCKS5\<close>

definition socks_field :: "bytes \<Rightarrow> bytes" where
  "socks_field bs = (let n = min (length bs) 255 in of_nat n # take n bs)"

definition socks_greeting :: "(ustring \<times> ustring) option \<Rightarrow> bytes" where
  "socks_greeting auth = (if auth \<noteq> None then [0x05, 0x02, 0x00, 0x02] else [0x05, 0x01, 0x00])"

definition socks_credentials :: "ustring \<times> ustring \<Rightarrow> bytes" where
  "socks_credentials up = (case up of (user, pass) \<Rightarrow> 0x01 # socks_field (as_bytes user) @ socks_field (as_bytes pass))"

definition big_endian :: "nat \<Rightarrow> nat \<Rightarrow> bytes" where
  "big_endian n v = map (\<lambda>i. of_nat (v div 256 ^ i)) (rev [0..<n])"

text \<open>\<open>local\<close> is the first address the system's resolver gives, when it is asked.\<close>

definition socks_address :: "bool \<Rightarrow> ip_addr option \<Rightarrow> ustring \<Rightarrow> bytes" where
  "socks_address remote_dns local host =
    (case (if remote_dns then None else local) of
       Some (V4 a) \<Rightarrow> 0x01 # big_endian 4 (unat a)
     | Some (V6 a) \<Rightarrow> 0x04 # big_endian 16 (unat a)
     | None \<Rightarrow> 0x03 # socks_field (as_bytes host))"

definition socks_request :: "bool \<Rightarrow> ip_addr option \<Rightarrow> ustring \<Rightarrow> nat \<Rightarrow> bytes" where
  "socks_request remote_dns local host port =
    [0x05, 0x01, 0x00] @ socks_address remote_dns local host @ big_endian 2 port"

definition socks5_rep_error :: "u8 \<Rightarrow> ustring" where
  "socks5_rep_error rep =
    ustr ''SOCKS5 connect rejected: '' @
    ustr (if rep = 0x01 then ''general SOCKS server failure'' else if rep = 0x02 then ''connection not allowed by ruleset''
          else if rep = 0x03 then ''network unreachable'' else if rep = 0x04 then ''host unreachable''
          else if rep = 0x05 then ''connection refused'' else if rep = 0x06 then ''TTL expired''
          else if rep = 0x07 then ''command not supported'' else if rep = 0x08 then ''address type not supported''
          else ''unknown SOCKS error'') @ ustr '' (rep='' @ dec (unat rep) @ ustr '')''"

definition socks_authenticate :: "(ustring \<times> ustring) option \<Rightarrow> u8 \<Rightarrow> unit net" where
  "socks_authenticate auth way =
    (if way = 0x00 then net_return ()
     else if way = 0x02 then
       (case auth of
          None \<Rightarrow> (\<lambda>c. (Panic, c))
        | Some up \<Rightarrow>
            net_bind (net_send (socks_credentials up)) (\<lambda>_.
            net_bind (read_exact_proxy 2) (\<lambda>r.
            if r ! 0 \<noteq> 0x01 then net_fail (ustr ''malformed SOCKS auth reply'')
            else if r ! 1 \<noteq> 0x00 then net_fail (ustr ''SOCKS username/password authentication failed'')
            else net_return ())))
     else if way = 0xFF then net_fail (ustr ''proxy offered no acceptable SOCKS auth method'')
     else net_fail (ustr ''unsupported SOCKS auth method '' @ dec (unat way)))"

definition socks_reply :: "unit net" where
  "socks_reply =
    net_bind (read_exact_proxy 4) (\<lambda>head.
    if head ! 0 \<noteq> 0x05 then net_fail (ustr ''unexpected SOCKS version '' @ dec (unat (head ! 0)) @ ustr '' in connect reply'')
    else if head ! 1 \<noteq> 0x00 then net_fail (socks5_rep_error (head ! 1))
    else net_bind
      (if head ! 3 = 0x01 then net_return 4
       else if head ! 3 = 0x04 then net_return 16
       else if head ! 3 = 0x03 then net_bind (read_exact_proxy 1) (\<lambda>n. net_return (unat (n ! 0)))
       else net_fail (ustr ''unknown SOCKS ATYP '' @ dec (unat (head ! 3)))) (\<lambda>n.
    net_bind (read_exact_proxy (n + 2)) (\<lambda>_. net_return ())))"

definition socks5_handshake ::
  "ustring \<Rightarrow> nat \<Rightarrow> (ustring \<times> ustring) option \<Rightarrow> bool \<Rightarrow> ip_addr option \<Rightarrow> unit net" where
  "socks5_handshake host port auth remote_dns local =
    net_bind (net_send (socks_greeting auth)) (\<lambda>_.
    net_bind (read_exact_proxy 2) (\<lambda>m.
    if m ! 0 \<noteq> 0x05 then net_fail (ustr ''unexpected SOCKS version '' @ dec (unat (m ! 0)) @ ustr '' in greeting reply'')
    else net_bind (socks_authenticate auth (m ! 1)) (\<lambda>_.
    net_bind (net_send (socks_request remote_dns local host port)) (\<lambda>_. socks_reply))))"

text \<open>
  \<open>dial\<close> connects to the proxy itself, \<open>resolve\<close> is the system's resolver.
\<close>

definition establish_tunnel ::
  "(ustring \<Rightarrow> nat \<Rightarrow> (conn, net_err) outcome) \<Rightarrow> (ustring \<Rightarrow> ip_addr option) \<Rightarrow> ustring \<Rightarrow> ustring \<Rightarrow> nat \<Rightarrow>
    (conn, net_err) outcome" where
  "establish_tunnel dial resolve proxy_url host port =
    (case parse_proxy_url proxy_url of
       Err e \<Rightarrow> Err (NetProxy (ustr ''invalid proxy configuration: '' @ ustr e))
     | Panic \<Rightarrow> Panic
     | Ok spec \<Rightarrow>
         and_then (dial (px_host spec) (px_port spec)) (\<lambda>c.
         case (case px_scheme spec of
                 Connect \<Rightarrow> http_connect_handshake host port (px_auth spec) c
               | Socks5 \<Rightarrow> socks5_handshake host port (px_auth spec) False (resolve host) c
               | Socks5h \<Rightarrow> socks5_handshake host port (px_auth spec) True (resolve host) c) of
           (Ok _, c1) \<Rightarrow> Ok c1 | (Err e, _) \<Rightarrow> Err e | (Panic, _) \<Rightarrow> Panic))"

text \<open>\<open>direct\<close> resolves the host with the agent's own rules and connects.\<close>

definition dialer_connect ::
  "(ustring \<Rightarrow> ustring option) \<Rightarrow> (ustring \<Rightarrow> nat \<Rightarrow> (conn, net_err) outcome) \<Rightarrow> (ustring \<Rightarrow> ip_addr option) \<Rightarrow>
    (ustring \<Rightarrow> nat \<Rightarrow> (conn, net_err) outcome) \<Rightarrow> ustring \<Rightarrow> nat \<Rightarrow> (conn, net_err) outcome" where
  "dialer_connect env dial resolve direct host port =
    (case get_proxy_for env host of
       Some url \<Rightarrow> establish_tunnel dial resolve url host port
     | None \<Rightarrow> direct host port)"

section \<open>Networks\<close>

lemma masked_eq:
  fixes a b :: "'a::len word"
  assumes "p \<le> LENGTH('a)" "p \<noteq> 0"
  shows "a AND push_bit (LENGTH('a) - p) (NOT 0) = b AND push_bit (LENGTH('a) - p) (NOT 0) \<longleftrightarrow>
    (\<forall>i<p. bit a (LENGTH('a) - 1 - i) = bit b (LENGTH('a) - 1 - i))"
proof
  assume e: "a AND push_bit (LENGTH('a) - p) (NOT 0) = b AND push_bit (LENGTH('a) - p) (NOT 0)"
  show "\<forall>i<p. bit a (LENGTH('a) - 1 - i) = bit b (LENGTH('a) - 1 - i)"
  proof (intro allI impI)
    fix i assume i: "i < p"
    let ?k = "LENGTH('a) - 1 - i"
    have "bit (a AND push_bit (LENGTH('a) - p) (NOT 0)) ?k = bit (b AND push_bit (LENGTH('a) - p) (NOT 0)) ?k" using e by simp
    then show "bit a ?k = bit b ?k" using i assms by (auto simp: bit_simps)
  qed
next
  assume b: "\<forall>i<p. bit a (LENGTH('a) - 1 - i) = bit b (LENGTH('a) - 1 - i)"
  show "a AND push_bit (LENGTH('a) - p) (NOT 0) = b AND push_bit (LENGTH('a) - p) (NOT 0)"
  proof (rule bit_word_eqI)
    fix n assume n: "n < LENGTH('a)"
    show "bit (a AND push_bit (LENGTH('a) - p) (NOT 0)) n = bit (b AND push_bit (LENGTH('a) - p) (NOT 0)) n"
    proof (cases "LENGTH('a) - p \<le> n")
      case True
      then have "bit a n = bit b n" using b [rule_format, of "LENGTH('a) - 1 - n"] n by simp
      then show ?thesis by (simp add: bit_simps)
    next
      case False
      then show ?thesis by (simp add: bit_simps)
    qed
  qed
qed

text \<open>The address as its bits, the most significant first.\<close>

definition ip_bits :: "ip_addr \<Rightarrow> bool list" where
  "ip_bits ip = (case ip of V4 a \<Rightarrow> map (\<lambda>i. bit a (31 - i)) [0..<32] | V6 a \<Rightarrow> map (\<lambda>i. bit a (127 - i)) [0..<128])"

lemma take_map_eq_iff: "p \<le> n \<Longrightarrow> take p (map f [0..<n]) = take p (map g [0..<n]) \<longleftrightarrow> (\<forall>i<p. f i = g i)"
  by (auto simp: list_eq_iff_nth_eq)

text \<open>
  C34: A network of the bypass list holds exactly the addresses of its family that agree with it on the
  prefix.
\<close>

theorem cidr_is_prefix_match:
  "ip_in_cidr ip net bits \<longleftrightarrow> bits \<le> length (ip_bits net) \<and> length (ip_bits ip) = length (ip_bits net) \<and>
    take bits (ip_bits ip) = take bits (ip_bits net)"
proof (cases ip; cases net)
  fix a b assume v: "ip = V4 a" "net = V4 b"
  show ?thesis using masked_eq [of bits a b] unfolding v
    by (auto simp: ip_in_cidr_def ip_bits_def take_map_eq_iff Let_def)
next
  fix a b assume v: "ip = V6 a" "net = V6 b"
  show ?thesis using masked_eq [of bits a b] unfolding v
    by (auto simp: ip_in_cidr_def ip_bits_def take_map_eq_iff Let_def)
qed (simp_all add: ip_in_cidr_def ip_bits_def)

section \<open>The SOCKS5 dialogue\<close>

lemma net_bind_Ok: "net_bind m f c = (Ok y, c') \<longleftrightarrow> (\<exists>x c1. m c = (Ok x, c1) \<and> f x c1 = (Ok y, c'))"
  by (auto simp: net_bind_def split: prod.splits outcome.splits)

lemma net_return_Ok [simp]: "net_return x c = (Ok y, c') \<longleftrightarrow> y = x \<and> c' = c"
  by (auto simp: net_return_def)

lemma net_fail_Ok [simp]: "net_fail e c \<noteq> (Ok y, c')"
  by (simp add: net_fail_def)

lemma read_exact_Ok:
  "read_exact_proxy n c = (Ok x, c') \<longleftrightarrow> (\<exists>rest. cn_in c = x @ rest \<and> length x = n \<and> c' = c\<lparr>cn_in := rest\<rparr>)"
proof
  assume "read_exact_proxy n c = (Ok x, c')"
  then have "n \<le> length (cn_in c)" "x = take n (cn_in c)" "c' = c\<lparr>cn_in := drop n (cn_in c)\<rparr>"
    by (auto simp: read_exact_proxy_def split: if_splits)
  then show "\<exists>rest. cn_in c = x @ rest \<and> length x = n \<and> c' = c\<lparr>cn_in := rest\<rparr>"
    by (intro exI [of _ "drop n (cn_in c)"]) simp
qed (auto simp: read_exact_proxy_def)

lemma net_send_Ok: "cn_writes c = [] \<Longrightarrow> net_send bs c = (Ok u, c') \<longleftrightarrow> c' = c\<lparr>cn_out := cn_out c @ bs\<rparr>"
  by (auto simp: net_send_def)

text \<open>An address field: its type and its bytes.\<close>

definition bound_field :: "u8 \<Rightarrow> bytes \<Rightarrow> bool" where
  "bound_field t addr \<longleftrightarrow> t = 0x01 \<and> length addr = 4 \<or> t = 0x04 \<and> length addr = 16 \<or>
    t = 0x03 \<and> (\<exists>n name. addr = n # name \<and> length name = unat n)"

lemma length4: "length x = 4 \<longleftrightarrow> (\<exists>a b c d. x = [a, b, c, d])"
  by (auto simp: length_Suc_conv numeral_eq_Suc)

lemma length2: "length x = 2 \<longleftrightarrow> (\<exists>a b. x = [a, b])"
  by (auto simp: length_Suc_conv numeral_eq_Suc)

lemma read2_Ok:
  "net_bind (read_exact_proxy 2) f c = (Ok y, c') \<longleftrightarrow> (\<exists>a b rest. cn_in c = a # b # rest \<and> f [a, b] (c\<lparr>cn_in := rest\<rparr>) = (Ok y, c'))"
proof
  assume "net_bind (read_exact_proxy 2) f c = (Ok y, c')"
  then show "\<exists>a b rest. cn_in c = a # b # rest \<and> f [a, b] (c\<lparr>cn_in := rest\<rparr>) = (Ok y, c')"
    unfolding net_bind_Ok read_exact_Ok length2 by auto
qed (auto simp: net_bind_def read_exact_proxy_def)

lemma send_Ok:
  "cn_writes c = [] \<Longrightarrow> net_bind (net_send bs) f c = (Ok y, c') \<longleftrightarrow> f () (c\<lparr>cn_out := cn_out c @ bs\<rparr>) = (Ok y, c')"
  by (simp add: net_bind_Ok net_send_Ok)

lemma socks_reply_Ok:
  "socks_reply c = (Ok u, c') \<longleftrightarrow>
    (\<exists>x t addr port rest. cn_in c = [0x05, 0x00, x, t] @ addr @ port @ rest \<and> bound_field t addr \<and> length port = 2 \<and>
      c' = c\<lparr>cn_in := rest\<rparr>)"
proof
  assume "socks_reply c = (Ok u, c')"
  then obtain v r x t rest n c1 where h: "cn_in c = [v, r, x, t] @ rest" "v = 0x05" "r = 0x00"
    and n: "(if t = 0x01 then net_return 4 else if t = 0x04 then net_return 16
       else if t = 0x03 then net_bind (read_exact_proxy 1) (\<lambda>n. net_return (unat (n ! 0)))
       else net_fail (ustr ''unknown SOCKS ATYP '' @ dec (unat t))) (c\<lparr>cn_in := rest\<rparr>) = (Ok n, c1)"
    and e: "net_bind (read_exact_proxy (n + 2)) (\<lambda>_. net_return ()) c1 = (Ok u, c')"
    unfolding socks_reply_def net_bind_Ok [where m = "read_exact_proxy 4"] read_exact_Ok length4
    by (auto split: if_splits simp: net_bind_Ok)
  from e obtain y rest' where y: "cn_in c1 = y @ rest'" "length y = n + 2" "c' = c1\<lparr>cn_in := rest'\<rparr>"
    by (auto simp: net_bind_Ok read_exact_Ok)
  define addr0 port where "addr0 = take n y" and "port = drop n y"
  have split: "y = addr0 @ port" "length addr0 = n" "length port = 2" using y(2) by (simp_all add: addr0_def port_def)
  consider "t = 0x01" "n = 4" "c1 = c\<lparr>cn_in := rest\<rparr>" | "t = 0x04" "n = 16" "c1 = c\<lparr>cn_in := rest\<rparr>"
    | l rest2 where "t = 0x03" "rest = l # rest2" "n = unat l" "c1 = c\<lparr>cn_in := rest2\<rparr>"
    using n by (auto simp: net_bind_Ok read_exact_Ok length_Suc_conv split: if_splits)
  then show "\<exists>x t addr port rest. cn_in c = [0x05, 0x00, x, t] @ addr @ port @ rest \<and> bound_field t addr \<and> length port = 2 \<and>
      c' = c\<lparr>cn_in := rest\<rparr>"
  proof cases
    case 1
    then have "cn_in c = [0x05, 0x00, x, t] @ addr0 @ port @ rest'" "bound_field t addr0" "c' = c\<lparr>cn_in := rest'\<rparr>"
      using h y split by (simp_all add: bound_field_def)
    then show ?thesis using split(3) by blast
  next
    case 2
    then have "cn_in c = [0x05, 0x00, x, t] @ addr0 @ port @ rest'" "bound_field t addr0" "c' = c\<lparr>cn_in := rest'\<rparr>"
      using h y split by (simp_all add: bound_field_def)
    then show ?thesis using split(3) by blast
  next
    case (3 l rest2)
    then have "cn_in c = [0x05, 0x00, x, t] @ (l # addr0) @ port @ rest'" "bound_field t (l # addr0)" "c' = c\<lparr>cn_in := rest'\<rparr>"
      using h y split by (simp_all add: bound_field_def)
    then show ?thesis using split(3) by blast
  qed
next
  assume "\<exists>x t addr port rest. cn_in c = [0x05, 0x00, x, t] @ addr @ port @ rest \<and> bound_field t addr \<and> length port = 2 \<and>
      c' = c\<lparr>cn_in := rest\<rparr>"
  then obtain x t addr port rest where a: "cn_in c = [0x05, 0x00, x, t] @ addr @ port @ rest" "bound_field t addr"
    "length port = 2" "c' = c\<lparr>cn_in := rest\<rparr>" by blast
  then show "socks_reply c = (Ok u, c')"
    unfolding bound_field_def socks_reply_def
    by (auto simp: net_bind_def net_return_def read_exact_proxy_def)
qed

lemma socks_authenticate_Ok:
  assumes "cn_writes c = []"
  shows "socks_authenticate auth way c = (Ok u, c') \<longleftrightarrow>
    way = 0x00 \<and> c' = c \<or>
    way = 0x02 \<and> (\<exists>up rest. auth = Some up \<and> cn_in c = [0x01, 0x00] @ rest \<and>
      c' = c\<lparr>cn_in := rest, cn_out := cn_out c @ socks_credentials up\<rparr>)"
proof (cases auth)
  case None
  then show ?thesis by (auto simp: socks_authenticate_def)
next
  case (Some up)
  have "(net_bind (net_send (socks_credentials up)) (\<lambda>_.
            net_bind (read_exact_proxy 2) (\<lambda>r.
            if r ! 0 \<noteq> 0x01 then net_fail (ustr ''malformed SOCKS auth reply'')
            else if r ! 1 \<noteq> 0x00 then net_fail (ustr ''SOCKS username/password authentication failed'')
            else net_return ())) c = (Ok u, c')) \<longleftrightarrow>
      (\<exists>rest. cn_in c = [0x01, 0x00] @ rest \<and> c' = c\<lparr>cn_in := rest, cn_out := cn_out c @ socks_credentials up\<rparr>)"
    unfolding send_Ok [OF assms] read2_Ok by (auto split: if_splits)
  then show ?thesis using Some by (auto simp: socks_authenticate_def)
qed

lemma net_bind_Panic: "fst (net_bind m f c) = Panic \<longleftrightarrow> fst (m c) = Panic \<or> (\<exists>x c1. m c = (Ok x, c1) \<and> fst (f x c1) = Panic)"
  by (auto simp: net_bind_def split: prod.splits outcome.splits)

lemma no_panic [simp]:
  "fst (net_send bs c) \<noteq> Panic" "fst (read_exact_proxy n c) \<noteq> Panic" "fst (net_return x c) \<noteq> Panic" "fst (net_fail e c) \<noteq> Panic"
  by (auto simp: net_send_def read_exact_proxy_def net_return_def net_fail_def split: list.splits option.splits)

lemma read2_Panic: "fst (net_bind (read_exact_proxy 2) f c) = Panic \<longleftrightarrow>
    (\<exists>a b rest. cn_in c = a # b # rest \<and> fst (f [a, b] (c\<lparr>cn_in := rest\<rparr>)) = Panic)"
proof
  assume "fst (net_bind (read_exact_proxy 2) f c) = Panic"
  then show "\<exists>a b rest. cn_in c = a # b # rest \<and> fst (f [a, b] (c\<lparr>cn_in := rest\<rparr>)) = Panic"
    unfolding net_bind_Panic read_exact_Ok length2 by auto
qed (auto simp: net_bind_def read_exact_proxy_def)

lemma socks_reply_no_panic [simp]: "fst (socks_reply c) \<noteq> Panic"
  by (auto simp: socks_reply_def net_bind_Panic)

lemma socks_authenticate_Panic: "fst (socks_authenticate auth way c) = Panic \<longleftrightarrow> way = 0x02 \<and> auth = None"
  by (cases auth) (auto simp: socks_authenticate_def net_bind_Panic)



end
