(* ===== verification/Dns.thy ===== *)
theory Dns
  imports Proxy FileUploadsSpec "HOL-Library.Multiset"
begin

text \<open>
  \<open>dns.rs\<close>: the wire format of queries and answers, the cache, the order of the addresses, and
  resolving and dialling over the system's resolver and the configured servers.
\<close>

unbundle bit_operations_syntax

datatype dns_err = DnsIo ustring | CacheFull | NoAddresses ustring | DnsTimeout ustring

definition dns_err_text :: "dns_err \<Rightarrow> ustring" where
  "dns_err_text e =
    (case e of
       DnsIo m \<Rightarrow> ustr ''DNS I/O error: '' @ m
     | CacheFull \<Rightarrow> ustr ''DNS cache full''
     | NoAddresses host \<Rightarrow> ustr ''no addresses found for '' @ [0x27] @ host @ [0x27]
     | DnsTimeout m \<Rightarrow> ustr ''DNS query timed out: '' @ m)"

text \<open>A socket address; the last two fields of an IPv6 one are the flow and the scope.\<close>

datatype socket_addr = SocketV4 "32 word" u16 | SocketV6 "128 word" u16 "32 word" "32 word"

definition is_ipv4 :: "socket_addr \<Rightarrow> bool" where
  "is_ipv4 a = (case a of SocketV4 _ _ \<Rightarrow> True | SocketV6 _ _ _ _ \<Rightarrow> False)"

definition is_ipv6 :: "socket_addr \<Rightarrow> bool" where
  "is_ipv6 a = (case a of SocketV4 _ _ \<Rightarrow> False | SocketV6 _ _ _ _ \<Rightarrow> True)"

definition port_number :: "socket_addr \<Rightarrow> u16" where
  "port_number a = (case a of SocketV4 _ p \<Rightarrow> p | SocketV6 _ p _ _ \<Rightarrow> p)"

definition set_port :: "u16 \<Rightarrow> socket_addr \<Rightarrow> socket_addr" where
  "set_port p a = (case a of SocketV4 ip _ \<Rightarrow> SocketV4 ip p | SocketV6 ip _ flow scope \<Rightarrow> SocketV6 ip p flow scope)"

section \<open>Queries\<close>

definition dns_type_a :: nat where "dns_type_a = 1"
definition dns_type_aaaa :: nat where "dns_type_aaaa = 28"

definition encode_qname :: "ustring \<Rightarrow> bytes" where
  "encode_qname host =
    concat (map (\<lambda>label0. of_nat (length (as_bytes label0)) # as_bytes label0) (split_all (\<lambda>c. c = 0x2E) host)) @ [0]"

definition build_dns_query :: "u16 \<Rightarrow> ustring \<Rightarrow> nat \<Rightarrow> bytes" where
  "build_dns_query txid host qtype =
    big_endian 2 (unat txid) @ big_endian 2 0x0100 @ big_endian 2 1 @ big_endian 2 0 @ big_endian 2 0 @ big_endian 2 0 @
    encode_qname host @ big_endian 2 qtype @ big_endian 2 1"

section \<open>Answers\<close>

text \<open>\<open>n\<close> bytes from a position, read as a number; indexing panics outside the packet.\<close>

definition be_value :: "bytes \<Rightarrow> nat" where
  "be_value bs = foldl (\<lambda>acc b. 256 * acc + unat b) 0 bs"

definition be_number :: "nat \<Rightarrow> bytes \<Rightarrow> nat \<Rightarrow> (nat, dns_err) outcome" where
  "be_number n bs pos = (if pos + n \<le> length bs then Ok (be_value (take n (drop pos bs))) else Panic)"

function skip_name :: "bytes \<Rightarrow> nat \<Rightarrow> (nat, dns_err) outcome" where
  "skip_name bs pos =
    (if pos \<ge> length bs then Err (DnsIo (ustr ''truncated DNS name''))
     else if bs ! pos AND 0xC0 = 0xC0 then Ok (pos + 2)
     else if bs ! pos = 0x00 then Ok (pos + 1)
     else skip_name bs (pos + (1 + unat (bs ! pos))))"
  by auto
termination skip_name
  by (relation "measure (\<lambda>(bs, pos). length bs - pos)") auto

declare skip_name.simps [simp del]

fun skip_questions :: "nat \<Rightarrow> bytes \<Rightarrow> nat \<Rightarrow> (nat, dns_err) outcome" where
  "skip_questions 0 bs pos = Ok pos"
| "skip_questions (Suc n) bs pos = and_then (skip_name bs pos) (\<lambda>p. skip_questions n bs (p + 4))"

definition answer_addr :: "nat \<Rightarrow> nat \<Rightarrow> bytes \<Rightarrow> nat \<Rightarrow> (socket_addr list, dns_err) outcome" where
  "answer_addr atype rdlength bs pos =
    (if atype = dns_type_a \<and> rdlength = 4 then and_then (be_number 4 bs pos) (\<lambda>v. Ok [SocketV4 (of_nat v) 0])
     else if atype = dns_type_aaaa \<and> rdlength = 16 then and_then (be_number 16 bs pos) (\<lambda>v. Ok [SocketV6 (of_nat v) 0 0 0])
     else Ok [])"

fun parse_answers :: "nat \<Rightarrow> bytes \<Rightarrow> nat \<Rightarrow> socket_addr list \<Rightarrow> (socket_addr list, dns_err) outcome" where
  "parse_answers 0 bs pos addrs = Ok addrs"
| "parse_answers (Suc n) bs pos0 addrs =
    (if pos0 + 10 > length bs then Ok addrs
     else and_then (skip_name bs pos0) (\<lambda>pos.
       if pos + 10 > length bs then Ok addrs
       else and_then (be_number 2 bs pos) (\<lambda>atype.
         and_then (be_number 2 bs (pos + 2)) (\<lambda>aclass.
         and_then (be_number 4 bs (pos + 4)) (\<lambda>ttl.
         and_then (be_number 2 bs (pos + 8)) (\<lambda>rdlength.
         if pos + 10 + rdlength > length bs then Ok addrs
         else and_then (answer_addr atype rdlength bs (pos + 10)) (\<lambda>a.
           parse_answers n bs (pos + 10 + rdlength) (addrs @ a))))))))"

definition parse_dns_response :: "bytes \<Rightarrow> (socket_addr list, dns_err) outcome" where
  "parse_dns_response response =
    (if length response < 12 then Err (DnsIo (ustr ''DNS response too short for header''))
     else and_then (be_number 2 response 4) (\<lambda>qdcount.
       and_then (be_number 2 response 6) (\<lambda>ancount.
       if ancount = 0 then Ok []
       else and_then (skip_questions qdcount response 12) (\<lambda>pos. parse_answers ancount response pos []))))"

section \<open>The cache\<close>

text \<open>
  Times are milliseconds of the monotonic clock.  The entries are in the order the map is walked; the
  first of the oldest ones is evicted.
\<close>

definition cache_max_entries :: nat where "cache_max_entries = 50"
definition cache_ttl :: nat where "cache_ttl = 300 * 1000"

type_synonym dns_cache = "(ustring \<times> socket_addr list \<times> nat) list"

definition cache_get :: "nat \<Rightarrow> ustring \<Rightarrow> dns_cache \<Rightarrow> socket_addr list option \<times> dns_cache" where
  "cache_get now host c =
    (case map_of c host of
       Some (addrs, t) \<Rightarrow> if now - t < cache_ttl then (Some addrs, c) else (None, AList.delete host c)
     | None \<Rightarrow> (None, c))"

fun oldest_entry :: "dns_cache \<Rightarrow> (ustring \<times> nat) option" where
  "oldest_entry [] = None"
| "oldest_entry ((k, _, t) # c) =
    (case oldest_entry c of Some (k', t') \<Rightarrow> if t' < t then Some (k', t') else Some (k, t) | None \<Rightarrow> Some (k, t))"

definition evict_oldest :: "dns_cache \<Rightarrow> dns_cache" where
  "evict_oldest c = (case oldest_entry c of Some (k, _) \<Rightarrow> AList.delete k c | None \<Rightarrow> c)"

definition cache_insert :: "nat \<Rightarrow> ustring \<Rightarrow> socket_addr list \<Rightarrow> dns_cache \<Rightarrow> dns_cache" where
  "cache_insert now host addrs c =
    AList.update host (addrs, now)
      (if length c \<ge> cache_max_entries \<and> map_of c host = None then evict_oldest c else c)"

section \<open>The order of the addresses\<close>

definition swap_entries :: "'a list \<Rightarrow> nat \<Rightarrow> nat \<Rightarrow> 'a list" where
  "swap_entries xs i j = xs[i := xs ! j, j := xs ! i]"

definition swap_step :: "('a \<Rightarrow> bool) \<Rightarrow> 'a list \<times> nat \<Rightarrow> nat \<Rightarrow> 'a list \<times> nat" where
  "swap_step P st j = (case st of (xs, i) \<Rightarrow> if P (xs ! j) then (swap_entries xs i j, i + 1) else (xs, i))"

definition swap_partition :: "('a \<Rightarrow> bool) \<Rightarrow> 'a list \<Rightarrow> 'a list" where
  "swap_partition P xs = fst (foldl (swap_step P) (xs, 0) [0..<length xs])"

text \<open>\<open>local\<close> gives the addresses of the machine itself, when they can be found.\<close>

definition is_loopback :: "ip_addr \<Rightarrow> bool" where
  "is_loopback ip = (case ip of V4 a \<Rightarrow> drop_bit 24 a = 127 | V6 a \<Rightarrow> a = 1)"

definition prefer_ipv4_first :: "ip_addr list option \<Rightarrow> bool" where
  "prefer_ipv4_first local =
    (case local of
       Some ips \<Rightarrow> if list_ex (\<lambda>ip. \<not> is_loopback ip \<and> (case ip of V4 _ \<Rightarrow> True | V6 _ \<Rightarrow> False)) ips then True else True
     | None \<Rightarrow> True)"

definition effective_prefer :: "ip_addr list option \<Rightarrow> ustring \<Rightarrow> ustring" where
  "effective_prefer local prefer =
    (if prefer = ustr ''4'' \<or> prefer = ustr ''6'' then prefer
     else if prefer_ipv4_first local then ustr ''4'' else ustr ''6'')"

definition sort_by_preference :: "ip_addr list option \<Rightarrow> ustring \<Rightarrow> socket_addr list \<Rightarrow> socket_addr list" where
  "sort_by_preference local prefer addrs =
    (if effective_prefer local prefer = ustr ''4'' then swap_partition is_ipv4 addrs else swap_partition is_ipv6 addrs)"

section \<open>Asking a server\<close>

text \<open>
  One exchange with a server: what opening the socket gives, the transaction numbers, the time left
  before each query, and what comes back for the queries sent so far within a timeout.
\<close>

datatype udp_event = Datagram bytes | UdpTimeout | RecvError ustring | SendError ustring

record udp_exchange =
  ux_open :: "ustring option"
  ux_id :: "nat \<Rightarrow> u16"
  ux_left :: "nat \<Rightarrow> nat"
  ux_answer :: "bytes list \<Rightarrow> nat \<Rightarrow> udp_event"

definition dns_query_timeout :: nat where "dns_query_timeout = 10 * 1000"
definition happy_family_timeout :: nat where "happy_family_timeout = 750"
definition happy_overall_timeout :: nat where "happy_overall_timeout = 5 * 1000"

text \<open>The receive buffer holds 512 bytes; an answer that cannot be parsed is ignored.\<close>

definition received_addrs :: "u16 \<Rightarrow> bytes \<Rightarrow> (socket_addr list, dns_err) outcome" where
  "received_addrs port bs =
    (case parse_dns_response (take 512 bs) of Ok as \<Rightarrow> Ok (map (set_port port) as) | Err _ \<Rightarrow> Ok [] | Panic \<Rightarrow> Panic)"

definition query_dns_server :: "udp_exchange \<Rightarrow> ustring \<Rightarrow> u16 \<Rightarrow> (socket_addr list, dns_err) outcome" where
  "query_dns_server x host port =
    (case ux_open x of
       Some e \<Rightarrow> Err (DnsIo e)
     | None \<Rightarrow>
         let qa = build_dns_query (ux_id x 0) host dns_type_a; qaaaa = build_dns_query (ux_id x 1) host dns_type_aaaa
         in and_then
              (case ux_answer x [qa] dns_query_timeout of
                 Datagram bs \<Rightarrow> received_addrs port bs
               | UdpTimeout \<Rightarrow> Ok []
               | RecvError e \<Rightarrow> Err (DnsIo e)
               | SendError e \<Rightarrow> Err (DnsIo e)) (\<lambda>v4.
            case ux_answer x [qa, qaaaa] dns_query_timeout of
              Datagram bs \<Rightarrow> and_then (received_addrs port bs) (\<lambda>v6. Ok (v4 @ v6))
            | UdpTimeout \<Rightarrow> Ok v4
            | RecvError e \<Rightarrow> if v4 = [] then Err (DnsIo e) else Ok v4
            | SendError e \<Rightarrow> Err (DnsIo e)))"

definition query_dns_server_happy_eyeballs ::
  "udp_exchange \<Rightarrow> ustring \<Rightarrow> ustring \<Rightarrow> u16 \<Rightarrow> ustring \<Rightarrow> (socket_addr list, dns_err) outcome" where
  "query_dns_server_happy_eyeballs x server host port prefer =
    (case ux_open x of
       Some e \<Rightarrow> Err (DnsIo e)
     | None \<Rightarrow>
         let first_type = (if prefer \<noteq> ustr ''6'' then dns_type_a else dns_type_aaaa);
             second_type = (if prefer \<noteq> ustr ''6'' then dns_type_aaaa else dns_type_a);
             q1 = build_dns_query (ux_id x 0) host first_type; q2 = build_dns_query (ux_id x 1) host second_type
         in if ux_left x 0 = 0 then Err (DnsTimeout (ustr ''overall budget exhausted before query''))
            else and_then
              (case ux_answer x [q1] (min (ux_left x 0) happy_family_timeout) of
                 Datagram bs \<Rightarrow> received_addrs port bs
               | UdpTimeout \<Rightarrow> Ok []
               | RecvError e \<Rightarrow> Err (DnsIo e)
               | SendError e \<Rightarrow> Err (DnsIo e)) (\<lambda>preferred.
            if ux_left x 1 = 0 then
              (if preferred = [] then Err (DnsTimeout (ustr ''Happy Eyeballs overall timeout for '' @ [0x27] @ host @ [0x27] @ ustr '' on '' @ server))
               else Ok preferred)
            else and_then
              (case ux_answer x [q1, q2] (ux_left x 1) of
                 Datagram bs \<Rightarrow> received_addrs port bs
               | UdpTimeout \<Rightarrow> Ok []
               | RecvError e \<Rightarrow> if preferred = [] then Err (DnsIo e) else Ok []
               | SendError e \<Rightarrow> Err (DnsIo e)) (\<lambda>other.
            if preferred @ other = [] then
              Err (DnsTimeout (ustr ''no DNS response for '' @ [0x27] @ host @ [0x27] @ ustr '' from '' @ server @
                ustr '' within '' @ dec happy_overall_timeout @ ustr '' ms''))
            else Ok (preferred @ other))))"

section \<open>Resolving\<close>

definition dns_servers :: "ustring list" where
  "dns_servers = map ustr
    [''1.1.1.1'', ''8.8.8.8'', ''9.9.9.9'', ''208.67.222.222'', ''208.67.220.220'', ''1.0.0.1'', ''8.8.4.4'',
     ''149.112.112.112'', ''185.228.168.9'', ''185.228.169.9'']"

definition colons :: "ustring \<Rightarrow> nat" where
  "colons s = length (filter (\<lambda>c. c = 0x3A) s)"

definition normalize_dns_server :: "ustring \<Rightarrow> ustring" where
  "normalize_dns_server s0 =
    (let s = trim s0
     in if take 1 s = [0x5B] \<and> find_sub [0x5D, 0x3A] s \<noteq> None \<or> colons s = 1 \<and> 0x5D \<notin> set s then s
        else if colons s \<ge> 2 \<and> 0x5D \<notin> set s then [0x5B] @ s @ ustr '']:53''
        else if 0x3A \<notin> set s then s @ ustr '':53''
        else s)"

definition build_server_list :: "ustring list \<Rightarrow> ustring list" where
  "build_server_list custom =
    foldl (\<lambda>acc s. if normalize_dns_server s \<in> set acc then acc else acc @ [normalize_dns_server s])
      (map normalize_dns_server custom) dns_servers"

text \<open>What a resolution finds outside the agent.\<close>

record dns_world =
  dw_system :: "ustring \<Rightarrow> u16 \<Rightarrow> ustring + socket_addr list"
  dw_server :: "ustring \<Rightarrow> udp_exchange"
  dw_local :: "ip_addr list option"

definition resolve_via_system :: "dns_world \<Rightarrow> ustring \<Rightarrow> u16 \<Rightarrow> (socket_addr list, dns_err) outcome" where
  "resolve_via_system w host port =
    (case dw_system w host port of Inr as \<Rightarrow> Ok as | Inl e \<Rightarrow> Err (DnsIo e))"

text \<open>The servers one after the other; \<open>last\<close> is the error of the last one that failed.\<close>

fun try_servers ::
  "(ustring \<Rightarrow> (socket_addr list, dns_err) outcome) \<Rightarrow> (unit \<Rightarrow> (socket_addr list, dns_err) outcome) \<Rightarrow> ustring \<Rightarrow>
    dns_err option \<Rightarrow> ustring list \<Rightarrow> (socket_addr list, dns_err) outcome" where
  "try_servers query system host last_err [] =
    (case system () of
       Ok as \<Rightarrow> Ok as
     | Err _ \<Rightarrow> Err (case last_err of Some e \<Rightarrow> e | None \<Rightarrow> NoAddresses host)
     | Panic \<Rightarrow> Panic)"
| "try_servers query system host last_err (s # ss) =
    (case query s of
       Ok as \<Rightarrow> if as \<noteq> [] then Ok as else try_servers query system host last_err ss
     | Err e \<Rightarrow> try_servers query system host (Some e) ss
     | Panic \<Rightarrow> Panic)"

definition resolve_via_custom_dns ::
  "dns_world \<Rightarrow> ustring \<Rightarrow> u16 \<Rightarrow> ustring list \<Rightarrow> ustring \<Rightarrow> (socket_addr list, dns_err) outcome" where
  "resolve_via_custom_dns w host port custom prefer =
    try_servers
      (\<lambda>s. and_then (query_dns_server (dw_server w s) host port) (\<lambda>as. Ok (sort_by_preference (dw_local w) prefer as)))
      (\<lambda>_. resolve_via_system w host port) host None (build_server_list custom)"

definition resolve_via_custom_dns_happy_eyeballs ::
  "dns_world \<Rightarrow> ustring \<Rightarrow> u16 \<Rightarrow> ustring list \<Rightarrow> ustring \<Rightarrow> (socket_addr list, dns_err) outcome" where
  "resolve_via_custom_dns_happy_eyeballs w host port custom prefer =
    try_servers (\<lambda>s. query_dns_server_happy_eyeballs (dw_server w s) s host port prefer)
      (\<lambda>_. resolve_via_system w host port) host None (build_server_list custom)"

text \<open>
  One call of \<open>resolve\<close> (or, when \<open>dc_happy\<close>, of \<open>resolve_with_happy_eyeballs\<close>): its arguments, the time
  when it looks into the cache and the time when it fills it.
\<close>

record dns_call =
  dc_host :: ustring
  dc_port :: u16
  dc_prefer :: ustring
  dc_custom :: "ustring list"
  dc_happy :: bool
  dc_now :: nat
  dc_later :: nat
  dc_world :: dns_world

definition resolve_uncached :: "dns_call \<Rightarrow> (socket_addr list, dns_err) outcome" where
  "resolve_uncached k =
    and_then
      (if dc_custom k \<noteq> [] then
         (if dc_happy k then resolve_via_custom_dns_happy_eyeballs else resolve_via_custom_dns)
           (dc_world k) (dc_host k) (dc_port k) (dc_custom k) (dc_prefer k)
       else resolve_via_system (dc_world k) (dc_host k) (dc_port k))
      (\<lambda>as. Ok (sort_by_preference (dw_local (dc_world k)) (dc_prefer k) as))"

definition cached_addrs :: "dns_call \<Rightarrow> socket_addr list \<Rightarrow> socket_addr list" where
  "cached_addrs k as = sort_by_preference (dw_local (dc_world k)) (dc_prefer k) (map (set_port (dc_port k)) as)"

definition resolve_and_cache :: "dns_call \<Rightarrow> dns_cache \<Rightarrow> (socket_addr list, dns_err) outcome \<times> dns_cache" where
  "resolve_and_cache k c =
    (case resolve_uncached k of
       Ok as \<Rightarrow>
         (if as = [] then Err (NoAddresses (dc_host k)) else Ok as,
          cache_insert (dc_later k) (dc_host k) (map (set_port 0) as) c)
     | Err e \<Rightarrow> (Err e, c)
     | Panic \<Rightarrow> (Panic, c))"

definition resolve :: "dns_call \<Rightarrow> dns_cache \<Rightarrow> (socket_addr list, dns_err) outcome \<times> dns_cache" where
  "resolve k c =
    (case cache_get (dc_now k) (dc_host k) c of
       (Some as, c1) \<Rightarrow> if cached_addrs k as \<noteq> [] then (Ok (cached_addrs k as), c1) else resolve_and_cache k c1
     | (None, c1) \<Rightarrow> resolve_and_cache k c1)"

definition resolve_with_happy_eyeballs :: "dns_call \<Rightarrow> dns_cache \<Rightarrow> (socket_addr list, dns_err) outcome \<times> dns_cache" where
  "resolve_with_happy_eyeballs k c = resolve (k\<lparr>dc_happy := True\<rparr>) c"

section \<open>Dialling\<close>

definition default_dial_timeout :: nat where "default_dial_timeout = 15 * 1000"

fun connect_first :: "(socket_addr \<Rightarrow> ustring option) \<Rightarrow> ustring option \<Rightarrow> ustring \<Rightarrow> socket_addr list \<Rightarrow> (socket_addr, dns_err) outcome" where
  "connect_first connect last_err addr [] =
    Err (DnsIo (case last_err of Some e \<Rightarrow> e | None \<Rightarrow> ustr ''failed to connect to '' @ addr))"
| "connect_first connect last_err addr (a # as) =
    (case connect a of None \<Rightarrow> Ok a | Some e \<Rightarrow> connect_first connect (Some e) addr as)"

definition dial_target :: "ustring \<Rightarrow> (ustring \<times> u16, dns_err) outcome" where
  "dial_target addr =
    (case split_last (\<lambda>c. c = 0x3A) addr of
       None \<Rightarrow> Err (DnsIo (ustr ''invalid address '' @ [0x27] @ addr @ [0x27] @ ustr '': expected host:port''))
     | Some (host0, port_str) \<Rightarrow>
         (let host1 = (case strip_prefix_opt [0x5B] host0 of Some h \<Rightarrow> h | None \<Rightarrow> host0);
              host2 = (case strip_suffix_opt [0x5D] host1 of Some h \<Rightarrow> h | None \<Rightarrow> host1)
          in case parse_unsigned 65535 port_str of
               Some p \<Rightarrow> Ok (host2, of_nat p)
             | None \<Rightarrow> Err (DnsIo (ustr ''invalid port '' @ [0x27] @ port_str @ [0x27] @ ustr '' in address '' @ [0x27] @ addr @ [0x27]))))"

text \<open>
  The dialling function: \<open>call\<close> carries the configured preference and servers, the kind of resolution
  and the world; \<open>connect\<close> connects within a timeout and gives the error, if any.
\<close>

definition make_dial_context ::
  "nat \<Rightarrow> dns_call \<Rightarrow> (nat \<Rightarrow> socket_addr \<Rightarrow> ustring option) \<Rightarrow> ustring \<Rightarrow> dns_cache \<Rightarrow> (socket_addr, dns_err) outcome \<times> dns_cache" where
  "make_dial_context timeout call connect addr c =
    (case dial_target addr of
       Err e \<Rightarrow> (Err e, c)
     | Panic \<Rightarrow> (Panic, c)
     | Ok (host, port) \<Rightarrow>
         (case resolve (call\<lparr>dc_host := host, dc_port := port\<rparr>) c of
            (Ok as, c1) \<Rightarrow> (connect_first (connect (if timeout = 0 then default_dial_timeout else timeout)) None addr as, c1)
          | (Err e, c1) \<Rightarrow> (Err e, c1)
          | (Panic, c1) \<Rightarrow> (Panic, c1)))"

definition make_dial_context_happy_eyeballs ::
  "nat \<Rightarrow> dns_call \<Rightarrow> (nat \<Rightarrow> socket_addr \<Rightarrow> ustring option) \<Rightarrow> ustring \<Rightarrow> dns_cache \<Rightarrow> (socket_addr, dns_err) outcome \<times> dns_cache" where
  "make_dial_context_happy_eyeballs timeout call = make_dial_context timeout (call\<lparr>dc_happy := True\<rparr>)"

section \<open>Reading what was written\<close>

lemma be_value_append: "be_value (xs @ ys) = be_value xs * 256 ^ length ys + be_value ys"
proof -
  have step: "foldl (\<lambda>acc b. 256 * acc + unat b) k ys = k * 256 ^ length ys + foldl (\<lambda>acc b. 256 * acc + unat b) 0 ys" for k :: nat and ys :: bytes
  proof (induction ys arbitrary: k)
    case (Cons y ys)
    show ?case using Cons [of "256 * k + unat y"] Cons [of "unat y"] by (simp add: algebra_simps)
  qed simp
  show ?thesis using step [of "be_value xs" ys] by (simp add: be_value_def)
qed

lemma length_big_endian [simp]: "length (big_endian n v) = n"
  by (simp add: big_endian_def)

lemma be_value_big_endian: "be_value (big_endian n v) = v mod 256 ^ n"
proof (induction n)
  case (Suc n)
  have b: "big_endian (Suc n) v = of_nat (v div 256 ^ n) # big_endian n v" by (simp add: big_endian_def)
  have "be_value [of_nat (v div 256 ^ n)] = v div 256 ^ n mod 256" by (simp add: be_value_def unat_of_nat)
  then have "be_value (big_endian (Suc n) v) = (v div 256 ^ n mod 256) * 256 ^ n + v mod 256 ^ n"
    using be_value_append [of "[of_nat (v div 256 ^ n)]" "big_endian n v"] Suc b by simp
  then show ?case using mod_mult2_eq [of v "256 ^ n" 256] by (simp add: mult.commute)
qed (simp add: be_value_def big_endian_def)

lemma be_number_at: "length xs = n \<Longrightarrow> length pre = pos \<Longrightarrow> be_number n (pre @ xs @ ys) pos = Ok (be_value xs)"
  by (auto simp: be_number_def)

text \<open>A name as RFC 1035 writes it: labels, closed by a zero byte or by a pointer.\<close>

inductive dns_name :: "bytes \<Rightarrow> bool" where
  dns_root: "dns_name [0]"
| dns_pointer: "hi AND 0xC0 = 0xC0 \<Longrightarrow> dns_name [hi, lo]"
| dns_label: "n \<noteq> 0 \<Longrightarrow> n AND 0xC0 \<noteq> 0xC0 \<Longrightarrow> length l = unat n \<Longrightarrow> dns_name rest \<Longrightarrow> dns_name (n # l @ rest)"

lemma skip_name_at: "dns_name name \<Longrightarrow> skip_name (pre @ name @ rest) (length pre) = Ok (length pre + length name)"
proof (induction arbitrary: pre rule: dns_name.induct)
  case dns_root
  then show ?case by (subst skip_name.simps) simp
next
  case (dns_pointer hi lo)
  then show ?case by (subst skip_name.simps) simp
next
  case (dns_label n l more0)
  have "skip_name ((pre @ n # l) @ more0 @ rest) (length (pre @ n # l)) = Ok (length (pre @ n # l) + length more0)"
    using dns_label.IH by blast
  then show ?case using dns_label.hyps by (subst skip_name.simps) simp
qed

lemma dns_name_nonempty: "dns_name name \<Longrightarrow> 1 \<le> length name"
  by (cases rule: dns_name.cases) auto

record dns_rr =
  rr_name :: bytes
  rr_type :: nat
  rr_class :: nat
  rr_ttl :: nat
  rr_data :: bytes

definition rr_ok :: "dns_rr \<Rightarrow> bool" where
  "rr_ok r \<longleftrightarrow> dns_name (rr_name r) \<and> rr_type r < 256 ^ 2 \<and> rr_class r < 256 ^ 2 \<and> rr_ttl r < 256 ^ 4 \<and> length (rr_data r) < 256 ^ 2"

definition encode_rr :: "dns_rr \<Rightarrow> bytes" where
  "encode_rr r = rr_name r @ big_endian 2 (rr_type r) @ big_endian 2 (rr_class r) @ big_endian 4 (rr_ttl r) @
    big_endian 2 (length (rr_data r)) @ rr_data r"

definition rr_addrs :: "dns_rr \<Rightarrow> socket_addr list" where
  "rr_addrs r =
    (if rr_type r = 1 \<and> length (rr_data r) = 4 then [SocketV4 (of_nat (be_value (rr_data r))) 0]
     else if rr_type r = 28 \<and> length (rr_data r) = 16 then [SocketV6 (of_nat (be_value (rr_data r))) 0 0 0]
     else [])"

lemma skip_questions_at:
  assumes "list_all (\<lambda>(name, kind). dns_name name \<and> length kind = 4) qs"
  shows "skip_questions (length qs) (pre @ concat (map (\<lambda>(name, kind). name @ kind) qs) @ rest) (length pre) =
    Ok (length pre + length (concat (map (\<lambda>(name, kind). name @ kind) qs)))"
  using assms
proof (induction qs arbitrary: pre)
  case (Cons q qs)
  obtain name kind where q: "q = (name, kind)" by (cases q)
  have ok: "dns_name name" "length kind = 4" using Cons.prems q by auto
  show ?case
    using Cons.IH [of "pre @ name @ kind"] Cons.prems
      skip_name_at [OF ok(1), of pre "kind @ concat (map (\<lambda>(name, kind). name @ kind) qs) @ rest"] ok(2)
    by (simp add: q add.assoc)
qed simp

lemma answer_addr_at:
  assumes "length pre = pos" "length xs = n"
  shows "answer_addr t n (pre @ xs @ ys) pos = Ok (rr_addrs \<lparr>rr_name = nm, rr_type = t, rr_class = k, rr_ttl = l, rr_data = xs\<rparr>)"
  using be_number_at [of xs n pre pos ys] assms
  by (auto simp: answer_addr_def rr_addrs_def dns_type_a_def dns_type_aaaa_def)

text \<open>The step of the loop once its reads are known to lie inside the packet.\<close>

lemma parse_answers_Suc:
  "parse_answers (Suc k) bs pos0 addrs =
    (if pos0 + 10 > length bs then Ok addrs
     else and_then (skip_name bs pos0) (\<lambda>pos.
       if pos + 10 > length bs then Ok addrs
       else let l = be_value (take 2 (drop (pos + 8) bs)); t = be_value (take 2 (drop pos bs))
         in if pos + 10 + l > length bs then Ok addrs
            else and_then (answer_addr t l bs (pos + 10)) (\<lambda>a. parse_answers k bs (pos + 10 + l) (addrs @ a))))"
  by (cases "skip_name bs pos0") (auto simp: be_number_def Let_def)

declare parse_answers.simps(2) [simp del]

lemma parse_answers_step:
  assumes "rr_ok r"
  shows "parse_answers (Suc n) (pre @ encode_rr r @ rest) (length pre) addrs =
    parse_answers n (pre @ encode_rr r @ rest) (length pre + length (encode_rr r)) (addrs @ rr_addrs r)"
proof -
  let ?bs = "pre @ encode_rr r @ rest" and ?p = "length pre + length (rr_name r)"
  have len: "length (encode_rr r) = length (rr_name r) + 10 + length (rr_data r)" by (simp add: encode_rr_def)
  have skip: "skip_name ?bs (length pre) = Ok ?p"
    using skip_name_at [of "rr_name r" pre "drop (length (rr_name r)) (encode_rr r) @ rest"] assms
    by (simp add: rr_ok_def encode_rr_def)
  have t: "be_number 2 ?bs ?p = Ok (rr_type r)"
    using be_number_at [of "big_endian 2 (rr_type r)" 2 "pre @ rr_name r" ?p] assms
    by (simp add: encode_rr_def be_value_big_endian rr_ok_def)
  have k: "be_number 2 ?bs (?p + 2) = Ok (rr_class r)"
    using be_number_at [of "big_endian 2 (rr_class r)" 2 "pre @ rr_name r @ big_endian 2 (rr_type r)" "?p + 2"] assms
    by (simp add: encode_rr_def be_value_big_endian rr_ok_def)
  have l: "be_number 4 ?bs (?p + 4) = Ok (rr_ttl r)"
    using be_number_at [of "big_endian 4 (rr_ttl r)" 4 "pre @ rr_name r @ big_endian 2 (rr_type r) @ big_endian 2 (rr_class r)" "?p + 4"] assms
    by (simp add: encode_rr_def be_value_big_endian rr_ok_def)
  have d: "be_number 2 ?bs (?p + 8) = Ok (length (rr_data r))"
    using be_number_at [of "big_endian 2 (length (rr_data r))" 2
        "pre @ rr_name r @ big_endian 2 (rr_type r) @ big_endian 2 (rr_class r) @ big_endian 4 (rr_ttl r)" "?p + 8"] assms
    by (simp add: encode_rr_def be_value_big_endian rr_ok_def)
  have a: "answer_addr (rr_type r) (length (rr_data r)) ?bs (?p + 10) = Ok (rr_addrs r)"
    using answer_addr_at [of "pre @ take (length (rr_name r) + 10) (encode_rr r)" "?p + 10" "rr_data r" "length (rr_data r)"
        "rr_type r" rest "rr_name r" "rr_class r" "rr_ttl r"]
    by (cases r) (simp add: encode_rr_def)
  show ?thesis
    using len unfolding parse_answers.simps(2) skip and_then.simps t k l d a by (simp add: encode_rr_def add.assoc)
qed

lemma parse_answers_at:
  assumes "list_all rr_ok rrs"
  shows "parse_answers (length rrs) (pre @ concat (map encode_rr rrs) @ rest) (length pre) addrs =
    Ok (addrs @ concat (map rr_addrs rrs))"
  using assms
proof (induction rrs arbitrary: pre addrs)
  case (Cons r rrs)
  then show ?case
    using Cons.IH [of "pre @ encode_rr r" "addrs @ rr_addrs r"]
      parse_answers_step [of r "length rrs" pre "concat (map encode_rr rrs) @ rest" addrs]
    by simp
qed simp

section \<open>Truncated answers\<close>

lemma skip_name_take: "skip_name (take n bs) pos = Ok p \<Longrightarrow> skip_name bs pos = Ok p"
proof (induction bs pos rule: skip_name.induct)
  case (1 bs pos)
  show ?case
  proof (cases "pos < length (take n bs)")
    case True
    then have in_bounds: "\<not> length (take n bs) \<le> pos" "\<not> length bs \<le> pos" "take n bs ! pos = bs ! pos" by auto
    have "skip_name (take n bs) pos =
      (if bs ! pos AND 0xC0 = 0xC0 then Ok (pos + 2) else if bs ! pos = 0x00 then Ok (pos + 1)
       else skip_name (take n bs) (pos + (1 + unat (bs ! pos))))"
      using in_bounds by (subst skip_name.simps) simp
    moreover have "skip_name bs pos =
      (if bs ! pos AND 0xC0 = 0xC0 then Ok (pos + 2) else if bs ! pos = 0x00 then Ok (pos + 1)
       else skip_name bs (pos + (1 + unat (bs ! pos))))"
      using in_bounds by (subst skip_name.simps) simp
    ultimately show ?thesis using 1 in_bounds by (auto split: if_splits)
  next
    case False
    then have "skip_name (take n bs) pos = Err (DnsIo (ustr ''truncated DNS name''))"
      by (subst skip_name.simps) (simp only: not_less if_True)
    then show ?thesis using "1.prems" by simp
  qed
qed

lemma skip_questions_take: "skip_questions k (take n bs) pos = Ok p \<Longrightarrow> skip_questions k bs pos = Ok p"
proof (induction k arbitrary: pos)
  case (Suc k)
  then show ?case by (cases "skip_name (take n bs) pos") (auto dest: skip_name_take)
qed simp

lemma be_number_take: "pos + k \<le> length (take n bs) \<Longrightarrow> be_number k (take n bs) pos = be_number k bs pos"
proof -
  assume "pos + k \<le> length (take n bs)"
  then have "pos + k \<le> n" "pos + k \<le> length bs" by simp_all
  moreover from this have "min k (n - pos) = k" by simp
  ultimately show ?thesis by (simp add: be_number_def drop_take min.commute)
qed

lemma be_value_take:
  assumes "pos + k \<le> length (take n bs)"
  shows "be_value (take k (drop pos (take n bs))) = be_value (take k (drop pos bs))"
  using be_number_take [OF assms] assms by (simp add: be_number_def)

lemma answer_addr_take:
  "pos + l \<le> length (take n bs) \<Longrightarrow> answer_addr t l (take n bs) pos = answer_addr t l bs pos"
  by (auto simp: answer_addr_def be_number_take)

lemma skip_name_no_panic [simp]: "skip_name bs pos \<noteq> Panic"
proof (induction bs pos rule: skip_name.induct)
  case (1 bs pos)
  then show ?case by (subst skip_name.simps) auto
qed

lemma skip_questions_no_panic [simp]: "skip_questions k bs pos \<noteq> Panic"
proof (induction k arbitrary: pos)
  case (Suc k)
  then show ?case by (cases "skip_name bs pos") auto
qed simp

lemma answer_addr_ok: "pos + l \<le> length bs \<Longrightarrow> \<exists>a. answer_addr t l bs pos = Ok a \<and> list_all (\<lambda>x. port_number x = 0) a \<and> length a \<le> 1"
  by (auto simp: answer_addr_def be_number_def port_number_def)

lemma parse_answers_ensures:
  "ensures (parse_answers k bs pos addrs) (\<lambda>as. \<exists>ys. as = addrs @ ys \<and> list_all (\<lambda>x. port_number x = 0) ys \<and> length ys \<le> k)"
proof (induction k arbitrary: pos addrs)
  case (Suc k)
  show ?case
  proof (cases "pos + 10 > length bs")
    case True
    then show ?thesis by (simp add: parse_answers_Suc)
  next
    case False
    show ?thesis
    proof (cases "skip_name bs pos")
      case (Ok p)
      let ?l = "be_value (take 2 (drop (p + 8) bs))"
      let ?t = "be_value (take 2 (drop p bs))"
      show ?thesis
      proof (cases "p + 10 > length bs \<or> p + 10 + ?l > length bs")
        case True
        then show ?thesis using False Ok by (auto simp: parse_answers_Suc ensures_def Let_def)
      next
        case inside: False
        then obtain a where a: "answer_addr ?t ?l bs (p + 10) = Ok a" "list_all (\<lambda>x. port_number x = 0) a" "length a \<le> 1"
          using answer_addr_ok [of "p + 10" ?l bs ?t] by auto
        have "parse_answers (Suc k) bs pos addrs = parse_answers k bs (p + 10 + ?l) (addrs @ a)"
          using False Ok inside a(1) by (simp add: parse_answers_Suc Let_def)
        then show ?thesis using Suc [of "p + 10 + ?l" "addrs @ a"] a(2,3)
          by (auto simp: ensures_def split: outcome.splits)
      qed
    qed (use False in \<open>simp_all add: parse_answers_Suc ensures_def\<close>)
  qed
qed (simp add: ensures_def)


lemma parse_answers_take:
  assumes "parse_answers k (take n bs) pos addrs = Ok as" "parse_answers k bs pos addrs = Ok full"
  shows "prefix as full"
  using assms
proof (induction k arbitrary: pos addrs)
  case (Suc k)
  let ?bs = "take n bs"
  have early: "prefix addrs full"
    using parse_answers_ensures [of "Suc k" bs pos addrs] Suc.prems(2) by auto
  show ?case
  proof (cases "pos + 10 > length ?bs")
    case True
    then show ?thesis using Suc.prems(1) early by (simp only: parse_answers_Suc if_True outcome.inject)
  next
    case False
    then obtain p where p: "skip_name ?bs pos = Ok p" using Suc.prems(1) by (cases "skip_name ?bs pos") (auto simp: parse_answers_Suc)
    then have p': "skip_name bs pos = Ok p" by (rule skip_name_take)
    let ?l = "\<lambda>b. be_value (take 2 (drop (p + 8) b))" and ?t = "\<lambda>b. be_value (take 2 (drop p b))"
    show ?thesis
    proof (cases "p + 10 > length ?bs \<or> p + 10 + ?l ?bs > length ?bs")
      case True
      then have "parse_answers (Suc k) ?bs pos addrs = Ok addrs"
        unfolding parse_answers_Suc [of k ?bs] p using False by (auto simp: Let_def simp del: length_take)
      then show ?thesis using Suc.prems(1) early by simp
    next
      case inside: False
      then have same: "?l ?bs = ?l bs" "?t ?bs = ?t bs"
        using be_value_take [of "p + 8" 2 n bs] be_value_take [of p 2 n bs] by (simp_all add: not_less)
      have big: "pos + 10 \<le> length bs" "p + 10 + ?l bs \<le> length bs" using False inside same by auto
      then obtain a where a: "answer_addr (?t bs) (?l bs) bs (p + 10) = Ok a"
        using answer_addr_ok [of "p + 10" "?l bs" bs "?t bs"] by auto
      then have a': "answer_addr (?t bs) (?l bs) ?bs (p + 10) = Ok a"
        using answer_addr_take [of "p + 10" "?l bs" n bs "?t bs"] inside same by (simp add: not_less)
      have "parse_answers (Suc k) ?bs pos addrs = parse_answers k ?bs (p + 10 + ?l bs) (addrs @ a)"
        unfolding parse_answers_Suc [of k ?bs] p using False inside a' same by (simp add: Let_def del: length_take)
      moreover have "parse_answers (Suc k) bs pos addrs = parse_answers k bs (p + 10 + ?l bs) (addrs @ a)"
        unfolding parse_answers_Suc [of k bs] p' using big a by (simp add: Let_def)
      ultimately show ?thesis using Suc by simp
    qed
  qed
qed simp

definition dns_response :: "bytes \<Rightarrow> bytes \<Rightarrow> (bytes \<times> bytes) list \<Rightarrow> dns_rr list \<Rightarrow> bytes \<Rightarrow> bytes" where
  "dns_response ids counts qs rrs rest =
    ids @ big_endian 2 (length qs) @ big_endian 2 (length rrs) @ counts @
    concat (map (\<lambda>(name, kind). name @ kind) qs) @ concat (map encode_rr rrs) @ rest"

lemma parse_dns_response_take:
  assumes "parse_dns_response (take n bs) = Ok as" "parse_dns_response bs = Ok full"
  shows "prefix as full"
proof -
  have n: "\<not> length (take n bs) < 12" using assms(1) by (auto simp: parse_dns_response_def simp del: length_take)
  then have big: "\<not> length bs < 12" by simp
  have c: "be_number 2 (take n bs) 4 = be_number 2 bs 4" "be_number 2 (take n bs) 6 = be_number 2 bs 6"
    using n by (auto intro!: be_number_take)
  obtain q a where qa: "be_number 2 bs 4 = Ok q" "be_number 2 bs 6 = Ok a" using big by (auto simp: be_number_def)
  show ?thesis
  proof (cases "a = 0")
    case True
    then show ?thesis using assms n big c qa by (simp add: parse_dns_response_def del: length_take)
  next
    case False
    then obtain p where p: "skip_questions q (take n bs) 12 = Ok p" "parse_answers a (take n bs) p [] = Ok as"
      using assms(1) n c qa by (cases "skip_questions q (take n bs) 12") (auto simp: parse_dns_response_def simp del: length_take)
    then have "skip_questions q bs 12 = Ok p" using skip_questions_take by blast
    then show ?thesis using assms(2) False big qa p(2) parse_answers_take by (simp add: parse_dns_response_def)
  qed
qed

lemma parse_dns_response_ensures: "ensures (parse_dns_response bs) (list_all (\<lambda>a. port_number a = 0))"
proof (cases "length bs < 12")
  case False
  then obtain q a where qa: "be_number 2 bs 4 = Ok q" "be_number 2 bs 6 = Ok a" by (auto simp: be_number_def)
  show ?thesis
    unfolding parse_dns_response_def qa and_then.simps
    by (intro ensures_if ensures_and_then [where Q = "\<lambda>_. True"] ensures_weaken [OF parse_answers_ensures])
      (auto simp: ensures_iff)
qed (simp add: parse_dns_response_def)

text \<open>
  C36: A well formed answer, with whatever questions, compressed names, records of other types and
  trailing sections, is read as exactly the addresses of its A and AAAA records in their order; and of an
  answer that the 512 byte buffer has cut short at any point only a prefix of those addresses is read.
\<close>

theorem dns_response_addresses:
  assumes "length ids = 4" "length counts = 4" "length qs < 256 ^ 2" "length rrs < 256 ^ 2"
    "list_all (\<lambda>(name, kind). dns_name name \<and> length kind = 4) qs" "list_all rr_ok rrs"
  shows "parse_dns_response (dns_response ids counts qs rrs rest) = Ok (concat (map rr_addrs rrs)) \<and>
    (\<forall>n as. parse_dns_response (take n (dns_response ids counts qs rrs rest)) = Ok as \<longrightarrow> prefix as (concat (map rr_addrs rrs)))"
proof -
  let ?r = "dns_response ids counts qs rrs rest" and ?q = "concat (map (\<lambda>(name, kind). name @ kind) qs)"
  let ?h = "ids @ big_endian 2 (length qs) @ big_endian 2 (length rrs) @ counts"
  have h: "length ?h = 12" using assms by simp
  have q: "be_number 2 ?r 4 = Ok (length qs)"
    using be_number_at [of "big_endian 2 (length qs)" 2 ids 4] assms by (simp add: dns_response_def be_value_big_endian)
  have a: "be_number 2 ?r 6 = Ok (length rrs)"
    using be_number_at [of "big_endian 2 (length rrs)" 2 "ids @ big_endian 2 (length qs)" 6] assms
    by (simp add: dns_response_def be_value_big_endian)
  have s: "skip_questions (length qs) ?r 12 = Ok (length (?h @ ?q))"
    using skip_questions_at [OF assms(5), of ?h "concat (map encode_rr rrs) @ rest"] h by (simp add: dns_response_def)
  have p: "parse_answers (length rrs) ?r (length (?h @ ?q)) [] = Ok (concat (map rr_addrs rrs))"
    using parse_answers_at [OF assms(6), of "?h @ ?q" rest "[]"] by (simp add: dns_response_def)
  have l: "\<not> length ?r < 12" using h by (simp add: dns_response_def)
  have "parse_dns_response ?r = Ok (concat (map rr_addrs rrs))"
    unfolding parse_dns_response_def q a and_then.simps s p using l by simp
  then show ?thesis using parse_dns_response_take by blast
qed

lemma dns_response_addresses_witness:
  "parse_dns_response (dns_response [0, 7, 0x81, 0x80] [0, 0, 0, 0] [([1, 0x61, 0], [0, 1, 0, 1])]
      [\<lparr>rr_name = [0xC0, 12], rr_type = 5, rr_class = 1, rr_ttl = 60, rr_data = [1, 0x62, 0]\<rparr>,
       \<lparr>rr_name = [1, 0x62, 0], rr_type = 1, rr_class = 1, rr_ttl = 60, rr_data = [192, 0, 2, 1]\<rparr>] []) =
    Ok [SocketV4 0xC0000201 0]"
proof -
  have name: "dns_name [1, 0x61, 0]" "dns_name [1, 0x62, 0]" "dns_name [0xC0, 12]"
    using dns_label [of 1 "[0x61]" "[0]"] dns_label [of 1 "[0x62]" "[0]"] dns_root dns_pointer [of "0xC0" 12] by simp_all
  show ?thesis
    using dns_response_addresses [of "[0, 7, 0x81, 0x80]" "[0, 0, 0, 0]" "[([1, 0x61, 0], [0, 1, 0, 1])]"
        "[\<lparr>rr_name = [0xC0, 12], rr_type = 5, rr_class = 1, rr_ttl = 60, rr_data = [1, 0x62, 0]\<rparr>,
          \<lparr>rr_name = [1, 0x62, 0], rr_type = 1, rr_class = 1, rr_ttl = 60, rr_data = [192, 0, 2, 1]\<rparr>]" "[]"] name
    by (simp add: rr_ok_def rr_addrs_def be_value_def)
qed

section \<open>The preferred family first\<close>

lemma swap_entries_middle:
  "swap_entries (F @ z # zs @ x # R) (length F) (length F + 1 + length zs) = F @ x # zs @ z # R"
  by (simp add: swap_entries_def list_update_append nth_append)

lemma swap_entries_self: "swap_entries xs i i = xs"
  by (simp add: swap_entries_def)

lemma swap_step_pair: "swap_step P (ys, i) j = (if P (ys ! j) then (swap_entries ys i j, i + 1) else (ys, i))"
  by (simp add: swap_step_def)

lemma swap_partition_steps:
  "j \<le> length xs \<Longrightarrow> \<exists>zs. foldl (swap_step P) (xs, 0) [0..<j] = (filter P (take j xs) @ zs @ drop j xs, length (filter P (take j xs))) \<and>
    mset zs = mset (filter (\<lambda>x. \<not> P x) (take j xs))"
proof (induction j)
  case (Suc j)
  let ?F = "filter P (take j xs)"
  obtain zs where zs: "foldl (swap_step P) (xs, 0) [0..<j] = (?F @ zs @ drop j xs, length ?F)"
    "mset zs = mset (filter (\<lambda>x. \<not> P x) (take j xs))" using Suc by auto
  have t: "take (Suc j) xs = take j xs @ [xs ! j]" and d: "drop j xs = xs ! j # drop (Suc j) xs"
    using Suc.prems by (simp_all add: take_Suc_conv_app_nth Cons_nth_drop_Suc)
  have "length zs = length (filter (\<lambda>x. \<not> P x) (take j xs))" by (rule mset_eq_length [OF zs(2)])
  then have "length ?F + length zs = j"
    using sum_length_filter_compl [of P "take j xs"] Suc.prems by simp
  then have at: "(?F @ zs @ xs ! j # drop (Suc j) xs) ! j = xs ! j"
    by (metis append.assoc length_append nth_append_length)
  show ?case
  proof (cases "P (xs ! j)")
    case False
    then show ?thesis
      using zs at by (intro exI [of _ "zs @ [xs ! j]"]) (simp add: swap_step_pair t d)
  next
    case True
    show ?thesis
    proof (cases zs)
      case Nil
      then show ?thesis using True zs at \<open>length ?F + length zs = j\<close>
        by (intro exI [of _ "[]"]) (simp add: swap_step_pair t d swap_entries_self)
    next
      case (Cons z ws)
      then have "swap_entries (?F @ z # ws @ xs ! j # drop (Suc j) xs) (length ?F) j = ?F @ xs ! j # ws @ z # drop (Suc j) xs"
        using swap_entries_middle [of ?F z ws] \<open>length ?F + length zs = j\<close> by simp
      then show ?thesis using True zs at Cons
        by (intro exI [of _ "ws @ [z]"]) (simp add: swap_step_pair t d)
    qed
  qed
qed simp

lemma swap_partition_split:
  "\<exists>zs. swap_partition P xs = filter P xs @ zs \<and> mset zs = mset (filter (\<lambda>x. \<not> P x) xs)"
  using swap_partition_steps [of "length xs" xs P] by (auto simp: swap_partition_def)

lemma mset_swap_partition: "mset (swap_partition P xs) = mset xs"
proof -
  obtain zs where "swap_partition P xs = filter P xs @ zs" "mset zs = mset (filter (\<lambda>x. \<not> P x) xs)"
    using swap_partition_split by blast
  then show ?thesis by (simp add: multiset_partition [symmetric])
qed


section \<open>Resolving never panics, and the ports\<close>

lemma port_set_port [simp]: "port_number (set_port p a) = p"
  by (cases a) (simp_all add: set_port_def port_number_def)

lemma received_addrs_ensures: "ensures (received_addrs port bs) (list_all (\<lambda>a. port_number a = port))"
  using parse_dns_response_ensures [of "take 512 bs"]
  by (cases "parse_dns_response (take 512 bs)") (auto simp: received_addrs_def list_all_iff)

lemma query_ensures: "ensures (query_dns_server x host port) (list_all (\<lambda>a. port_number a = port))"
proof (cases "ux_open x")
  case None
  let ?qa = "build_dns_query (ux_id x 0) host dns_type_a" and ?q6 = "build_dns_query (ux_id x 1) host dns_type_aaaa"
  have first: "ensures (case ux_answer x [?qa] dns_query_timeout of
                 Datagram bs \<Rightarrow> received_addrs port bs | UdpTimeout \<Rightarrow> Ok [] | RecvError e \<Rightarrow> Err (DnsIo e)
               | SendError e \<Rightarrow> Err (DnsIo e)) (list_all (\<lambda>a. port_number a = port))"
    using received_addrs_ensures by (cases "ux_answer x [?qa] dns_query_timeout") simp_all
  show ?thesis
    unfolding query_dns_server_def None option.case Let_def
  proof (rule ensures_and_then [OF first])
    fix v4 assume v4: "list_all (\<lambda>a. port_number a = port) v4"
    show "ensures (case ux_answer x [?qa, ?q6] dns_query_timeout of
              Datagram bs \<Rightarrow> and_then (received_addrs port bs) (\<lambda>v6. Ok (v4 @ v6)) | UdpTimeout \<Rightarrow> Ok v4
            | RecvError e \<Rightarrow> if v4 = [] then Err (DnsIo e) else Ok v4
            | SendError e \<Rightarrow> Err (DnsIo e)) (list_all (\<lambda>a. port_number a = port))"
      using v4 by (cases "ux_answer x [?qa, ?q6] dns_query_timeout")
        (auto intro: ensures_and_then [OF received_addrs_ensures])
  qed
qed (simp add: query_dns_server_def)

lemma happy_ensures:
  "ensures (query_dns_server_happy_eyeballs x server host port prefer) (list_all (\<lambda>a. port_number a = port))"
proof (cases "ux_open x")
  case None
  have ev: "ensures (case e of Datagram bs \<Rightarrow> received_addrs port bs | UdpTimeout \<Rightarrow> Ok [] | RecvError m \<Rightarrow> f m
      | SendError m \<Rightarrow> Err (DnsIo m)) (list_all (\<lambda>a. port_number a = port))"
    if "\<And>m. ensures (f m) (list_all (\<lambda>a. port_number a = port))" for e f
    using received_addrs_ensures that by (cases e) simp_all
  show ?thesis
    unfolding query_dns_server_happy_eyeballs_def None option.case Let_def
    by (intro ensures_if ensures_and_then [OF ev]) (auto simp: ensures_iff)
qed (simp add: query_dns_server_happy_eyeballs_def)

lemma try_servers_ensures:
  assumes "\<And>s. ensures (query s) Q" "ensures (system ()) Q"
  shows "ensures (try_servers query system host last_err ss) Q"
proof (induction ss arbitrary: last_err)
  case Nil
  then show ?case using assms(2) by (cases "system ()") simp_all
next
  case (Cons s ss)
  then show ?case using assms(1) [of s] by (cases "query s") simp_all
qed

lemma list_all_mset: "mset xs = mset ys \<Longrightarrow> list_all P xs = list_all P ys"
  by (metis list_all_iff set_mset_mset)

lemma list_all_sort [simp]: "list_all P (sort_by_preference local prefer as) = list_all P as"
  by (simp add: sort_by_preference_def list_all_mset [OF mset_swap_partition])

text \<open>The system's resolver gives every address the port it was asked for.\<close>

definition system_keeps_port :: "dns_world \<Rightarrow> bool" where
  "system_keeps_port w \<longleftrightarrow> (\<forall>host port as. dw_system w host port = Inr as \<longrightarrow> list_all (\<lambda>a. port_number a = port) as)"

lemma resolve_uncached_ensures:
  "ensures (resolve_uncached k) (\<lambda>as. system_keeps_port (dc_world k) \<longrightarrow> list_all (\<lambda>a. port_number a = dc_port k) as)"
proof -
  let ?Q = "\<lambda>as. system_keeps_port (dc_world k) \<longrightarrow> list_all (\<lambda>a. port_number a = dc_port k) as"
  have system: "ensures (resolve_via_system (dc_world k) (dc_host k) (dc_port k)) ?Q"
    by (auto simp: resolve_via_system_def system_keeps_port_def split: sum.splits)
  have custom: "ensures (resolve_via_custom_dns (dc_world k) (dc_host k) (dc_port k) (dc_custom k) (dc_prefer k)) ?Q"
    unfolding resolve_via_custom_dns_def
    by (intro try_servers_ensures system ensures_and_then [OF query_ensures]) simp
  have happy: "ensures (resolve_via_custom_dns_happy_eyeballs (dc_world k) (dc_host k) (dc_port k) (dc_custom k) (dc_prefer k)) ?Q"
    unfolding resolve_via_custom_dns_happy_eyeballs_def
    by (intro try_servers_ensures system ensures_weaken [OF happy_ensures]) simp
  have "ensures (if dc_custom k \<noteq> [] then
         (if dc_happy k then resolve_via_custom_dns_happy_eyeballs else resolve_via_custom_dns)
           (dc_world k) (dc_host k) (dc_port k) (dc_custom k) (dc_prefer k)
       else resolve_via_system (dc_world k) (dc_host k) (dc_port k)) ?Q"
    using system custom happy by simp
  then show ?thesis unfolding resolve_uncached_def by (rule ensures_and_then) simp
qed

lemma length_evict_oldest: "c \<noteq> [] \<Longrightarrow> length (evict_oldest c) < length c"
proof -
  have "c \<noteq> [] \<Longrightarrow> \<exists>k t. oldest_entry c = Some (k, t) \<and> k \<in> fst ` set c"
    by (induction c rule: oldest_entry.induct) (force split: option.splits prod.splits)+
  moreover assume "c \<noteq> []"
  ultimately obtain k t where "oldest_entry c = Some (k, t)" "k \<in> fst ` set c" by blast
  then show ?thesis using length_delete_less [of k c] by (simp add: evict_oldest_def)
qed

lemma length_cache_insert:
  assumes "length c \<le> cache_max_entries"
  shows "length (cache_insert now host as c) \<le> cache_max_entries"
proof (cases "map_of c host")
  case None
  let ?c = "if length c \<ge> cache_max_entries \<and> map_of c host = None then evict_oldest c else c"
  have "length ?c < cache_max_entries"
    using length_evict_oldest [of c] assms None by (cases "c = []") (auto simp: cache_max_entries_def)
  then show ?thesis unfolding cache_insert_def length_update by simp
next
  case (Some e)
  then have "host \<in> fst ` set c" by (force dest: map_of_SomeD)
  then show ?thesis using assms Some by (simp add: cache_insert_def length_update)
qed

lemma map_of_cache_insert:
  "map_of (cache_insert now host as c) h = Some e \<Longrightarrow> h = host \<and> e = (as, now) \<or> map_of c h = Some e"
  by (auto simp: cache_insert_def evict_oldest_def AList.update_conv' AList.delete_conv' split: if_splits option.splits)


section \<open>What the cache serves\<close>

fun dns_run :: "dns_call list \<Rightarrow> dns_cache \<Rightarrow> (socket_addr list, dns_err) outcome list \<times> dns_cache" where
  "dns_run [] c = ([], c)"
| "dns_run (k # ks) c = (case resolve k c of (r, c1) \<Rightarrow> (case dns_run ks c1 of (rs, c2) \<Rightarrow> (r # rs, c2)))"

lemma dns_run_append:
  "dns_run (ks @ [k]) c = (case dns_run ks c of (rs, c1) \<Rightarrow> (case resolve k c1 of (r, c2) \<Rightarrow> (rs @ [r], c2)))"
  by (induction ks arbitrary: c) (auto split: prod.splits)

lemma length_dns_run: "length (fst (dns_run ks c)) = length ks"
proof (induction ks arbitrary: c)
  case (Cons k ks)
  show ?case using Cons [of "snd (resolve k c)"] by (cases "resolve k c"; cases "dns_run ks (snd (resolve k c))") simp
qed simp

definition fresh_result :: "dns_call \<Rightarrow> (socket_addr list, dns_err) outcome" where
  "fresh_result k = and_then (resolve_uncached k) (\<lambda>as. if as = [] then Err (NoAddresses (dc_host k)) else Ok as)"

definition answered_by :: "dns_call \<Rightarrow> dns_call \<Rightarrow> (socket_addr list, dns_err) outcome \<Rightarrow> bool" where
  "answered_by j k r \<longleftrightarrow> dc_host j = dc_host k \<and> dc_now k - dc_later j < cache_ttl \<and>
    (\<exists>as. resolve_uncached j = Ok as \<and> as \<noteq> [] \<and> r = Ok (cached_addrs k as))"

definition from_history :: "dns_call list \<Rightarrow> dns_cache \<Rightarrow> bool" where
  "from_history ks c \<longleftrightarrow>
    (\<forall>h as t. map_of c h = Some (as, t) \<longrightarrow>
      (\<exists>j\<in>set ks. dc_host j = h \<and> dc_later j = t \<and> (\<exists>new. resolve_uncached j = Ok new \<and> as = map (set_port 0) new)))"

lemma cached_addrs_empty [simp]: "cached_addrs k as = [] \<longleftrightarrow> as = []"
proof -
  have "mset (cached_addrs k as) = mset (map (set_port (dc_port k)) as)"
    by (simp add: cached_addrs_def sort_by_preference_def mset_swap_partition)
  then have "length (cached_addrs k as) = length as" by (metis mset_eq_length length_map)
  then show ?thesis by auto
qed

lemma cached_addrs_zero: "cached_addrs k (map (set_port 0) as) = cached_addrs k as"
proof -
  have "set_port p (set_port 0 a) = set_port p a" for p a by (cases a) (simp_all add: set_port_def)
  then show ?thesis by (simp add: cached_addrs_def comp_def)
qed

lemma resolve_and_cache_result: "fst (resolve_and_cache k c) = fresh_result k"
  by (cases "resolve_uncached k") (simp_all add: resolve_and_cache_def fresh_result_def)

lemma resolve_and_cache_keeps:
  assumes "from_history ks c" "length c \<le> cache_max_entries" "resolve_and_cache k c = (r, c')"
  shows "from_history (ks @ [k]) c' \<and> length c' \<le> cache_max_entries"
proof -
  have old: "from_history (ks @ [k]) c" using assms(1) by (auto simp: from_history_def)
  show ?thesis
  proof (cases "resolve_uncached k")
    case (Ok as)
    then have c': "c' = cache_insert (dc_later k) (dc_host k) (map (set_port 0) as) c"
      using assms(3) by (simp add: resolve_and_cache_def)
    have "from_history (ks @ [k]) c'"
      unfolding from_history_def
    proof (intro allI impI)
      fix h as' t assume m: "map_of c' h = Some (as', t)"
      show "\<exists>j\<in>set (ks @ [k]). dc_host j = h \<and> dc_later j = t \<and> (\<exists>new. resolve_uncached j = Ok new \<and> as' = map (set_port 0) new)"
        using map_of_cache_insert [OF m [unfolded c']] old Ok by (auto simp: from_history_def)
    qed
    then show ?thesis using length_cache_insert [OF assms(2)] c' by simp
  qed (use old assms(2,3) in \<open>auto simp: resolve_and_cache_def\<close>)
qed

lemma from_history_delete: "from_history ks c \<Longrightarrow> from_history ks (AList.delete h c)"
  by (auto simp: from_history_def AList.delete_conv')

lemma resolve_step:
  assumes inv: "from_history ks c" "length c \<le> cache_max_entries" and r: "resolve k c = (r, c')"
  shows "from_history (ks @ [k]) c' \<and> length c' \<le> cache_max_entries \<and> (r = fresh_result k \<or> (\<exists>j\<in>set ks. answered_by j k r))"
proof -
  have again: "from_history (ks @ [k]) c' \<and> length c' \<le> cache_max_entries \<and> (r = fresh_result k \<or> (\<exists>j\<in>set ks. answered_by j k r))"
    if "from_history ks c1" "length c1 \<le> cache_max_entries" "resolve_and_cache k c1 = (r, c')" for c1
    using resolve_and_cache_keeps [OF that] resolve_and_cache_result [of k c1] that(3) by simp
  show ?thesis
  proof (cases "map_of c (dc_host k)")
    case None
    then have "resolve_and_cache k c = (r, c')" using r by (simp add: resolve_def cache_get_def)
    then show ?thesis using again inv by blast
  next
    case (Some e)
    obtain as t where e: "e = (as, t)" by (cases e)
    consider (live) "dc_now k - t < cache_ttl" "as \<noteq> []" | (negative) "dc_now k - t < cache_ttl" "as = []" | (stale) "\<not> dc_now k - t < cache_ttl"
      by blast
    then show ?thesis
    proof cases
      case live
      then have rc: "r = Ok (cached_addrs k as)" "c' = c" using r Some e by (simp_all add: resolve_def cache_get_def)
      obtain j new where j: "j \<in> set ks" "dc_host j = dc_host k" "dc_later j = t" "resolve_uncached j = Ok new" "as = map (set_port 0) new"
        using inv(1) Some e unfolding from_history_def by blast
      then have "answered_by j k r" using live rc by (auto simp: answered_by_def cached_addrs_zero)
      moreover have "from_history (ks @ [k]) c" using inv(1) by (auto simp: from_history_def)
      ultimately show ?thesis using j(1) rc inv(2) by blast
    next
      case negative
      then have "resolve_and_cache k c = (r, c')" using r Some e by (simp add: resolve_def cache_get_def)
      then show ?thesis using again inv by blast
    next
      case stale
      then have "resolve_and_cache k (AList.delete (dc_host k) c) = (r, c')" using r Some e by (simp add: resolve_def cache_get_def)
      then show ?thesis using again [OF from_history_delete [OF inv(1)]] le_trans [OF AList.length_delete_le inv(2)] by blast
    qed
  qed
qed

lemma dns_run_inv:
  "from_history ks (snd (dns_run ks [])) \<and> length (snd (dns_run ks [])) \<le> cache_max_entries \<and>
    (\<forall>i<length ks. fst (dns_run ks []) ! i = fresh_result (ks ! i) \<or>
      (\<exists>j<i. answered_by (ks ! j) (ks ! i) (fst (dns_run ks []) ! i)))"
proof (induction ks rule: rev_induct)
  case Nil
  then show ?case by (simp add: from_history_def)
next
  case (snoc k ks)
  obtain rs c where run: "dns_run ks [] = (rs, c)" by (cases "dns_run ks []")
  obtain r c' where r: "resolve k c = (r, c')" by (cases "resolve k c")
  have run': "dns_run (ks @ [k]) [] = (rs @ [r], c')" using run r by (simp add: dns_run_append)
  have len: "length rs = length ks" using length_dns_run [of ks "[]"] run by simp
  have step: "from_history (ks @ [k]) c' \<and> length c' \<le> cache_max_entries \<and> (r = fresh_result k \<or> (\<exists>j\<in>set ks. answered_by j k r))"
    using resolve_step [OF _ _ r, of ks] snoc run by simp
  have "(rs @ [r]) ! i = fresh_result ((ks @ [k]) ! i) \<or> (\<exists>j<i. answered_by ((ks @ [k]) ! j) ((ks @ [k]) ! i) ((rs @ [r]) ! i))"
    if "i < length (ks @ [k])" for i
  proof (cases "i < length ks")
    case True
    then consider "rs ! i = fresh_result (ks ! i)" | j where "j < i" "answered_by (ks ! j) (ks ! i) (rs ! i)"
      using snoc run by auto
    then show ?thesis
    proof cases
      case 1
      then show ?thesis using True len by (simp add: nth_append)
    next
      case 2
      then have "j < length ks" using True by simp
      then have "answered_by ((ks @ [k]) ! j) ((ks @ [k]) ! i) ((rs @ [r]) ! i)" using 2 True len by (simp add: nth_append)
      then show ?thesis using 2(1) by blast
    qed
  next
    case False
    then have i: "i = length ks" using that by simp
    have at: "(ks @ [k]) ! i = k" "(rs @ [r]) ! i = r" using i len by (simp_all add: nth_append)
    consider "r = fresh_result k" | j where "j < length ks" "answered_by (ks ! j) k r"
      using step by (auto simp: in_set_conv_nth)
    then show ?thesis
    proof cases
      case 2
      then have "(ks @ [k]) ! j = ks ! j" by (simp add: nth_append)
      then show ?thesis using 2 i at by metis
    qed (use at in simp)
  qed
  then show ?case using step run' by simp
qed


definition example_world :: "bool \<Rightarrow> dns_world" where
  "example_world up = \<lparr>dw_system = (\<lambda>host port. if up then Inr [SocketV6 1 port 0 0, SocketV4 2 port] else Inl (ustr ''down'')),
    dw_server = (\<lambda>_. \<lparr>ux_open = Some (ustr ''closed''), ux_id = (\<lambda>_. 0), ux_left = (\<lambda>_. 0), ux_answer = (\<lambda>_ _. UdpTimeout)\<rparr>),
    dw_local = None\<rparr>"

definition example_call :: "bool \<Rightarrow> u16 \<Rightarrow> nat \<Rightarrow> dns_call" where
  "example_call up port now = \<lparr>dc_host = ustr ''a'', dc_port = port, dc_prefer = [], dc_custom = [], dc_happy = False,
    dc_now = now, dc_later = now, dc_world = example_world up\<rparr>"


section \<open>Dialling in the order of the preference\<close>

definition preferred_family :: "dns_call \<Rightarrow> socket_addr \<Rightarrow> bool" where
  "preferred_family k a \<longleftrightarrow> (if effective_prefer (dw_local (dc_world k)) (dc_prefer k) = ustr ''4'' then is_ipv4 a else is_ipv6 a)"

lemma sort_by_preference_split:
  "\<exists>zs. sort_by_preference (dw_local (dc_world k)) (dc_prefer k) as = filter (preferred_family k) as @ zs \<and>
    list_all (\<lambda>a. \<not> preferred_family k a) zs"
proof -
  let ?P = "if effective_prefer (dw_local (dc_world k)) (dc_prefer k) = ustr ''4'' then is_ipv4 else is_ipv6"
  have s: "sort_by_preference (dw_local (dc_world k)) (dc_prefer k) as = swap_partition ?P as" by (simp add: sort_by_preference_def)
  have P: "preferred_family k = ?P" by (auto simp: preferred_family_def)
  obtain zs where zs: "swap_partition ?P as = filter ?P as @ zs" "mset zs = mset (filter (\<lambda>x. \<not> ?P x) as)"
    using swap_partition_split by blast
  have "list_all (\<lambda>a. \<not> ?P a) zs" using list_all_mset [OF zs(2)] by (simp add: list_all_iff)
  then show ?thesis unfolding s P using zs(1) by blast
qed

definition ordered_for :: "dns_call \<Rightarrow> socket_addr list \<Rightarrow> bool" where
  "ordered_for k as \<longleftrightarrow> (\<exists>ps zs. as = ps @ zs \<and> list_all (preferred_family k) ps \<and> list_all (\<lambda>a. \<not> preferred_family k a) zs)"

lemma ordered_sort: "ordered_for k (sort_by_preference (dw_local (dc_world k)) (dc_prefer k) as)"
proof -
  obtain zs where "sort_by_preference (dw_local (dc_world k)) (dc_prefer k) as = filter (preferred_family k) as @ zs"
    "list_all (\<lambda>a. \<not> preferred_family k a) zs" using sort_by_preference_split by blast
  moreover have "list_all (preferred_family k) (filter (preferred_family k) as)" by (simp add: list_all_iff)
  ultimately show ?thesis unfolding ordered_for_def by blast
qed

lemma resolve_uncached_ordered: "resolve_uncached k = Ok as \<Longrightarrow> ordered_for k as"
  unfolding resolve_uncached_def
  by (cases "if dc_custom k \<noteq> [] then (if dc_happy k then resolve_via_custom_dns_happy_eyeballs else resolve_via_custom_dns)
           (dc_world k) (dc_host k) (dc_port k) (dc_custom k) (dc_prefer k)
       else resolve_via_system (dc_world k) (dc_host k) (dc_port k)") (auto simp: ordered_sort)

lemma resolve_ensures:
  "ensures (fst (resolve k c)) (\<lambda>as. as \<noteq> [] \<and> ordered_for k as \<and>
    (system_keeps_port (dc_world k) \<longrightarrow> list_all (\<lambda>a. port_number a = dc_port k) as))"
proof -
  have "ensures (fst (resolve_and_cache k c)) (\<lambda>as. as \<noteq> [] \<and> ordered_for k as \<and>
      (system_keeps_port (dc_world k) \<longrightarrow> list_all (\<lambda>a. port_number a = dc_port k) as))" for c
    unfolding resolve_and_cache_result fresh_result_def
    by (rule ensures_and_then [OF resolve_uncached_ensures]) (auto dest: resolve_uncached_ordered)
  moreover have "ordered_for k (cached_addrs k as) \<and> list_all (\<lambda>a. port_number a = dc_port k) (cached_addrs k as)" for as
    unfolding cached_addrs_def list_all_sort by (simp add: ordered_sort list_all_iff)
  ultimately show ?thesis
    by (auto simp: resolve_def split: prod.splits option.splits)
qed

lemma connect_first_Ok:
  "connect_first f e addr as = Ok a \<Longrightarrow> \<exists>ps zs. as = ps @ a # zs \<and> f a = None \<and> list_all (\<lambda>x. f x \<noteq> None) ps"
proof (induction as arbitrary: e)
  case (Cons b as)
  show ?case
  proof (cases "f b")
    case None
    then have "b # as = [] @ a # as" "f a = None" using Cons.prems by simp_all
    then have "b # as = [] @ a # as \<and> f a = None \<and> list_all (\<lambda>x. f x \<noteq> None) []" by simp
    then show ?thesis by blast
  next
    case (Some m)
    then have "connect_first f (Some m) addr as = Ok a" using Cons.prems by simp
    from Cons.IH [OF this] obtain ps zs where "as = ps @ a # zs \<and> f a = None \<and> list_all (\<lambda>x. f x \<noteq> None) ps" by blast
    then have "b # as = (b # ps) @ a # zs \<and> f a = None \<and> list_all (\<lambda>x. f x \<noteq> None) (b # ps)" using Some by simp
    then show ?thesis by blast
  qed
qed simp

lemma connect_first_no_panic: "connect_first f e addr as \<noteq> Panic"
  by (induction as arbitrary: e) (auto split: option.splits)



end
