(* ===== verification/Spec2Isabelle.thy ===== *)
theory Spec2Isabelle
  imports Prelude Fsm Backoff BitStream BitSink Huffman Inflate InflateSpec Deflate RoundTrip Gzip
    WsFrame WsSpec WsConn WsRoundTrip WsBounds
    Utf8 JsonScan JsonLocal JsonText JsonBuf JsonEmit Rpc
    StdStr Tasks Calendar TaskSpec JsonArray AgentConfig ConfigFile ConfigApply ConfigSnapshot
    StdLines Http HttpStream HttpSpec HttpReply Crypto WsHandshake Events EventSpec EventFields Session SessionSpec Workers
    Discovery Startup UpdateHttp Update UpdateSpec FilePaths FileUploads FileUploadsSpec FileOps Proxy Dns
begin

text \<open>
  Verification development for the Komari monitoring agent (a Rust daemon).

  The program.  \<open>main.rs\<close> reads its configuration from the command line, the environment and a JSON
  file, obtains a token if it has none (\<open>autodiscovery.rs\<close>), looks for a newer release (\<open>update.rs\<close>)
  and enters the reconnection loop (\<open>server/reconnection.rs\<close>).  The loop decides with a state machine
  (\<open>protocol/fsm.rs\<close>) between a WebSocket (\<open>ws.rs\<close>, \<open>crypto.rs\<close>, \<open>inflate.rs\<close>, \<open>gzip.rs\<close>) and HTTP
  (\<open>http.rs\<close>), sends reports (\<open>monitor/\<close>) as JSON-RPC (\<open>protocol/v2.rs\<close>, \<open>json.rs\<close>), and acts on the
  events that come back: tasks and pings (\<open>server/task.rs\<close>), the file service (\<open>file_control.rs\<close>),
  terminals, version switches.  Connections go through \<open>proxy.rs\<close> and \<open>dns.rs\<close>.

  How the code is modelled.  A struct is a record with the fields of the source, an enum a datatype,
  a Rust function a HOL function of the same name.  Results are \<open>outcome\<close>s (theory Prelude): \<open>Ok\<close>, \<open>Err\<close>
  or \<open>Panic\<close>; indexing, slicing, \<open>expect\<close> and checked conversions of the source are written so that a
  panic is a value, and theorems say when it cannot happen.  Integers are words where the source
  wraps, shifts or compares bits, and natural numbers with the reductions written out elsewhere.  A
  \<open>String\<close> is a list of Unicode scalar values (theory Utf8), a byte slice a list of 8-bit words.
  Mutable state is passed and returned.  Threads are step relations or event sequences: what happens
  under one lock is one step.  What lies outside the program (sockets, TLS, clocks, random bytes, the
  file system, subprocesses) is an input: the list of what successive calls deliver, or a function.

  Theories, by part of the program.

  \<open>Prelude\<close>: machine integers, outcomes, the rules for \<open>ensures\<close> (no panic, and a property of the
  value), the codec interface.  \<open>StdStr\<close>, \<open>StdLines\<close>, \<open>Utf8\<close>: the string operations of the standard
  library that the sources call, with their characterisations.

  Compression (\<open>inflate.rs\<close>, \<open>gzip.rs\<close>).  \<open>BitStream\<close> and \<open>BitSink\<close>: the bit reader and writer, each with
  the list of bits it stands for, as interfaces that the model's reader and writer interpret.
  \<open>Huffman\<close>: \<open>Huff::build\<close> and \<open>Huff::decode\<close> against the canonical code of RFC 1951.  \<open>Inflate\<close>: the
  decoder, with every index checked; \<open>InflateSpec\<close>: the meaning of blocks as bit lists and symbol
  lists, which the decoder refines.  \<open>Deflate\<close>: tables, LZ77 matcher and encoder; \<open>RoundTrip\<close>, \<open>Gzip\<close>:
  compressing and decompressing is the identity, the gzip container, permessage-deflate, CRC-32.
  The decoder's loops end because every round consumes bits or fills output, so there is no fuel.

  WebSocket (\<open>ws.rs\<close>, \<open>crypto.rs\<close>).  \<open>WsFrame\<close>: frame headers, masking, the resumable \<open>FrameReader\<close>.
  \<open>WsSpec\<close>: what a byte stream means as frames and messages; \<open>WsConn\<close>: the reader refines that
  meaning for every schedule of arrivals and timeouts; \<open>WsRoundTrip\<close>: what is sent is received;
  \<open>WsBounds\<close>: memory bounds.  \<open>Crypto\<close>: SHA-1 against RFC 3174, Base64.  \<open>WsHandshake\<close>: the upgrade.

  JSON and JSON-RPC (\<open>json.rs\<close>, \<open>protocol/v2.rs\<close>).  \<open>JsonScan\<close>: the scanner; \<open>JsonLocal\<close>: its result depends
  on the bytes of the value only; \<open>JsonText\<close>, \<open>JsonArray\<close>: composing texts and finding their parts;
  \<open>JsonBuf\<close>, \<open>JsonEmit\<close>: the bounded encoder and the texts it writes; \<open>Rpc\<close>: messages.

  Tasks (\<open>server/task.rs\<close>).  \<open>Tasks\<close>: field lookup, execution, ping with retries, results.
  \<open>Calendar\<close>: the time stamps are Gregorian dates.  \<open>TaskSpec\<close>: what the server reads of a result.

  Configuration (\<open>config.rs\<close>, \<open>main.rs\<close>, \<open>autodiscovery.rs\<close>).  \<open>AgentConfig\<close>: the configuration and the
  command line; \<open>ConfigFile\<close>: environment, tokenizer and parser of the JSON file (fuel: the
  number of bytes and of tokens, shown sufficient by \<open>Startup.config_file_total\<close>); \<open>ConfigApply\<close>: what a
  file sets and the validation; \<open>ConfigSnapshot\<close>: the redacted snapshot; \<open>Discovery\<close>: the exchange of the
  key and the credentials file; \<open>Startup\<close>: the whole start.

  HTTP (\<open>http.rs\<close>).  \<open>Http\<close>, \<open>HttpStream\<close>: URLs, requests, responses, streaming; \<open>HttpSpec\<close>, \<open>HttpReply\<close>:
  requests line by line, and responses received in any pieces.

  Events and sessions (\<open>server/reconnection.rs\<close>, \<open>protocol/fsm.rs\<close>, \<open>server/backoff.rs\<close>).  \<open>Fsm\<close>, \<open>Backoff\<close>: the
  state machines and the delays.  \<open>Events\<close>: the bus with its window of 256 identifiers, batches, every
  handler; \<open>EventSpec\<close>, \<open>EventFields\<close>: once per window, batches taken apart, effects licensed by the
  configuration.  \<open>Session\<close>, \<open>SessionSpec\<close>: ticks, sessions and the outer loop.  \<open>Workers\<close>: pull and
  terminal threads as interleaved steps.

  Update (\<open>update.rs\<close>).  \<open>UpdateHttp\<close>: redirects, credentials, the response parser with its limits;
  \<open>Update\<close>: choice of the release, checksum, installation; \<open>UpdateSpec\<close>: only verified binaries are
  installed, tokens stay with their origin, versions.

  File service (\<open>file_control.rs\<close>).  \<open>FilePaths\<close>: resolution of paths; \<open>FileUploads\<close>: upload sessions,
  streams, commit and cancellation, each access to shared state one step; \<open>FileUploadsSpec\<close>: what is
  committed is what was sent, resource bounds, and that a cancelled stream keeps retrying its write;
  \<open>FileOps\<close>: dispatch, argument checks, descriptions, results.

  Network (\<open>proxy.rs\<close>, \<open>dns.rs\<close>).  \<open>Proxy\<close>: the choice of a proxy with NO_PROXY, proxy URLs, CONNECT and
  SOCKS5; \<open>Dns\<close>: queries and answers, the cache, preference order, dialling.
  Kinds of theorems.  Round trips (compression, WebSocket, HTTP responses, DNS answers, credentials),
  refinements of a specification (Huffman blocks, the frame reader, the JSON encoder), equivalence
  with a reference (CRC-32, SHA-1, the calendar, networks), safety over all inputs of a
  server (no panic, effects licensed, verified updates, tokens confined, secrets redacted),
  invariants over all runs (uploads, event window, workers, sessions, caches), bounds and termination.

  Bounds and fuel.  Recursion follows the data or a measure wherever the source's loop does.  Where a
  function takes fuel (the configuration parser, the header loops of \<open>UpdateHttp\<close>) the fuel is the
  number of bytes or tokens left, and a lemma shows that it does not run out.

  Not modelled.  TLS (\<open>tls.rs\<close>) is glue to a library: certificates and sockets.  The process launcher
  (\<open>process.rs\<close>) and the terminals (\<open>terminal/\<close>) are system calls around pipes; their use is
  modelled by their callers (tasks, workers).  ICMP and TCP probes (\<open>server/ping_icmp.rs\<close>,
  \<open>server/ping_tcp.rs\<close>) are inputs of a ping.  The recursive copy, walk and search over a directory tree
  in \<open>file_control.rs\<close> are sequences of system calls.  \<open>arena.rs\<close> is a bump allocator whose users are modelled by
  values.  Code for Windows, macOS and FreeBSD is left out.  Logging is not modelled.
\<close>

end
